(* ===== verification/Prelude.thy ===== *)
theory Prelude
  imports Main "HOL-Library.Word" "HOL-Library.List_Lexorder"
begin

unbundle bit_operations_syntax

text \<open>
  Shared vocabulary of the development: machine integers and byte strings, the outcome of a Go
  call (a value, an error, a panic, or a call that never gets its lock), the error structs of
  the \<^verbatim>\<open>errors.go\<close> files, little-endian coding (Go's \<^verbatim>\<open>encoding/binary\<close>), the lexicographic
  comparison \<^verbatim>\<open>bytes.Compare\<close>, slices, reader/writer mutexes, and the list lemmas the components
  share.
\<close>

section \<open>Types\<close>

type_synonym u8 = "8 word"
type_synonym u32 = "32 word"
type_synonym u64 = "64 word"
type_synonym bytes = "u8 list"

text \<open>The error structs of the packages; each holds its message. Where the source builds the
  message with \<^verbatim>\<open>fmt.Sprintf\<close>, the model keeps the format string.\<close>

datatype gerror =
    BTreeError string
  | HelperError string
  | PagerError string
  | FreelistError string
  | DiskManagerError string
  | BufferManagerError string
  | WTinyLFUError string
  | WalError string
  | RecoveryError string
  | InvalidLogError string
  | LoggerError string
  | TinyLFUError string
  | CountMinSketchError string
  | IOError string
  | EOF

text \<open>What a call does: it returns a value, returns an error, panics, or waits for a mutex that
  the same thread of control already holds (and so never returns).\<close>

datatype 'a res = Ok 'a | Err gerror | Panic string | Blocked

definition bindR :: "'a res \<Rightarrow> ('a \<Rightarrow> 'b res) \<Rightarrow> 'b res" where
  "bindR m f = (case m of Ok x \<Rightarrow> f x | Err e \<Rightarrow> Err e | Panic p \<Rightarrow> Panic p | Blocked \<Rightarrow> Blocked)"

definition bindS :: "('s \<Rightarrow> 'a res \<times> 's) \<Rightarrow> ('a \<Rightarrow> 's \<Rightarrow> 'b res \<times> 's) \<Rightarrow> 's \<Rightarrow> 'b res \<times> 's" where
  "bindS m f s = (case m s of
      (Ok x, s') \<Rightarrow> f x s'
    | (Err e, s') \<Rightarrow> (Err e, s')
    | (Panic p, s') \<Rightarrow> (Panic p, s')
    | (Blocked, s') \<Rightarrow> (Blocked, s'))"

definition returnS :: "'a \<Rightarrow> 's \<Rightarrow> 'a res \<times> 's" where
  "returnS x s = (Ok x, s)"

definition failS :: "gerror \<Rightarrow> 's \<Rightarrow> 'a res \<times> 's" where
  "failS e s = (Err e, s)"

definition panicS :: "string \<Rightarrow> 's \<Rightarrow> 'a res \<times> 's" where
  "panicS p s = (Panic p, s)"

text \<open>\<^verbatim>\<open>if err != nil { panic(err) }\<close>: the error of a call becomes a panic.\<close>

definition orPanic :: "('s \<Rightarrow> 'a res \<times> 's) \<Rightarrow> 's \<Rightarrow> 'a res \<times> 's" where
  "orPanic m s = (case m s of (Err e, s') \<Rightarrow> (Panic ''err'', s') | r \<Rightarrow> r)"

text \<open>An indexing expression \<^verbatim>\<open>xs[i]\<close> with an \<^verbatim>\<open>int\<close> index: out of range is a panic.\<close>

definition index :: "'a list \<Rightarrow> int \<Rightarrow> 'a res" where
  "index xs i = (if 0 \<le> i \<and> i < int (length xs) then Ok (xs ! nat i)
                 else Panic ''index out of range'')"

definition liftR :: "'a res \<Rightarrow> 's \<Rightarrow> 'a res \<times> 's" where
  "liftR r s = (r, s)"

section \<open>Slices\<close>

text \<open>\<^verbatim>\<open>xs[i:j]\<close> within bounds, and \<^verbatim>\<open>copy(xs[i:], ys)\<close> when \<^verbatim>\<open>ys\<close> fits.\<close>

definition slice :: "nat \<Rightarrow> nat \<Rightarrow> 'a list \<Rightarrow> 'a list" where
  "slice i j xs = take (j - i) (drop i xs)"

definition put_at :: "nat \<Rightarrow> 'a list \<Rightarrow> 'a list \<Rightarrow> 'a list" where
  "put_at i ys xs = take i xs @ ys @ drop (i + length ys) xs"

section \<open>Little-endian integers\<close>

definition le32 :: "u32 \<Rightarrow> bytes" where
  "le32 x = [ucast x, ucast (drop_bit 8 x), ucast (drop_bit 16 x), ucast (drop_bit 24 x)]"

fun of_le32 :: "bytes \<Rightarrow> u32" where
  "of_le32 (a # b # c # d # _) =
     ucast a OR push_bit 8 (ucast b) OR push_bit 16 (ucast c) OR push_bit 24 (ucast d)"
| "of_le32 _ = 0"

section \<open>bytes.Compare\<close>

fun bytes_compare :: "bytes \<Rightarrow> bytes \<Rightarrow> int" where
  "bytes_compare [] [] = 0"
| "bytes_compare [] (_ # _) = -1"
| "bytes_compare (_ # _) [] = 1"
| "bytes_compare (x # xs) (y # ys) =
     (if x < y then -1 else if y < x then 1 else bytes_compare xs ys)"

section \<open>sync.RWMutex\<close>

record rwmutex =
  readers :: nat
  writer :: bool

definition free_mutex :: rwmutex where
  "free_mutex = \<lparr>readers = 0, writer = False\<rparr>"

definition Lock :: "rwmutex \<Rightarrow> unit res \<times> rwmutex" where
  "Lock m = (if writer m \<or> readers m > 0 then (Blocked, m) else (Ok (), m\<lparr>writer := True\<rparr>))"

definition Unlock :: "rwmutex \<Rightarrow> unit res \<times> rwmutex" where
  "Unlock m = (if writer m then (Ok (), m\<lparr>writer := False\<rparr>)
               else (Panic ''sync: Unlock of unlocked RWMutex'', m))"

definition RLock :: "rwmutex \<Rightarrow> unit res \<times> rwmutex" where
  "RLock m = (if writer m then (Blocked, m) else (Ok (), m\<lparr>readers := Suc (readers m)\<rparr>))"

definition RUnlock :: "rwmutex \<Rightarrow> unit res \<times> rwmutex" where
  "RUnlock m = (if readers m = 0 then (Panic ''sync: RUnlock of unlocked RWMutex'', m)
                else (Ok (), m\<lparr>readers := readers m - 1\<rparr>))"

section \<open>Runs that return\<close>

text \<open>\<open>yields m s Q\<close>: the call returns a value (no error, no panic, no wait) and \<open>Q\<close> holds of the value
  and the new state.\<close>

definition yields :: "('s \<Rightarrow> 'a res \<times> 's) \<Rightarrow> 's \<Rightarrow> ('a \<Rightarrow> 's \<Rightarrow> bool) \<Rightarrow> bool" where
  "yields m s Q = (case m s of (Ok x, s') \<Rightarrow> Q x s' | _ \<Rightarrow> False)"

section \<open>Collections and generic lemmas\<close>

named_theorems outcome_simps \<open>rewrite rules of the outcome monad\<close>
named_theorems le_simps \<open>little-endian round trips\<close>

lemma bindR_simps [simp, outcome_simps]:
  "bindR (Ok x) f = f x"
  "bindR (Err e) f = Err e"
  "bindR (Panic p) f = Panic p"
  "bindR Blocked f = Blocked"
  by (simp_all add: bindR_def)

lemma bindS_Ok: "m s = (Ok x, s') \<Longrightarrow> bindS m f s = f x s'"
  by (simp add: bindS_def)

lemma bindS_returnS [simp, outcome_simps]: "bindS (returnS x) f s = f x s"
  by (simp add: bindS_def returnS_def)

lemma bindS_failS [simp, outcome_simps]: "bindS (failS e) f s = (Err e, s)"
  by (simp add: bindS_def failS_def)

lemma bindS_panicS [simp, outcome_simps]: "bindS (panicS p) f s = (Panic p, s)"
  by (simp add: bindS_def panicS_def)

lemma bindS_liftR_Ok [simp, outcome_simps]: "bindS (liftR (Ok x)) f s = f x s"
  by (simp add: bindS_def liftR_def)

lemma bindS_liftR_Panic [simp, outcome_simps]: "bindS (liftR (Panic p)) f s = (Panic p, s)"
  by (simp add: bindS_def liftR_def)

lemma bindS_liftR_Err [simp, outcome_simps]: "bindS (liftR (Err e)) f s = (Err e, s)"
  by (simp add: bindS_def liftR_def)

lemma orPanic_Ok: "m s = (Ok x, s') \<Longrightarrow> orPanic m s = (Ok x, s')"
  by (simp add: orPanic_def)

lemma index_Ok [simp]: "i < length xs \<Longrightarrow> index xs (int i) = Ok (xs ! i)"
  by (simp add: index_def)

lemma index_out [simp]: "length xs \<le> i \<Longrightarrow> index xs (int i) = Panic ''index out of range''"
  by (simp add: index_def)

lemma yields_bind [simp]:
  "yields (bindS m f) s Q = yields m s (\<lambda>x s'. yields (f x) s' Q)"
  by (auto simp: yields_def bindS_def split: prod.splits res.splits)

lemma yields_return [simp]: "yields (returnS x) s Q = Q x s"
  by (simp add: yields_def returnS_def)

lemma yields_liftR_Ok [simp]: "yields (liftR (Ok x)) s Q = Q x s"
  by (simp add: yields_def liftR_def)

lemma yields_orPanic [simp]: "yields (orPanic m) s Q = yields m s Q"
  by (auto simp: yields_def orPanic_def split: prod.splits res.splits)

lemma yields_value [simp]: "yields (\<lambda>s. (Ok (f s), s)) s Q = Q (f s) s"
  by (simp add: yields_def)

lemma yields_mono: "yields m s Q \<Longrightarrow> (\<And>x s'. Q x s' \<Longrightarrow> Q' x s') \<Longrightarrow> yields m s Q'"
  by (auto simp: yields_def split: prod.splits res.splits)

lemma yields_result: "yields m s Q \<longleftrightarrow> (\<exists>x s'. m s = (Ok x, s') \<and> Q x s')"
  by (auto simp: yields_def split: prod.splits res.splits)

lemma length_le32 [simp]: "length (le32 x) = 4"
  by (simp add: le32_def)

lemma of_le32_le32 [simp, le_simps]: "of_le32 (le32 x @ r) = x"
proof (rule bit_word_eqI)
  fix n :: nat
  assume "n < LENGTH(32)"
  then have "n < 32" by simp
  then consider "n < 8" | "8 \<le> n" "n < 16" | "16 \<le> n" "n < 24" | "24 \<le> n" "n < 32" by linarith
  then show "bit (of_le32 (le32 x @ r)) n = bit x n"
    by cases (auto simp: le32_def bit_simps)
qed

lemma of_le32_le32_nil [simp, le_simps]: "of_le32 (le32 x) = x"
  using of_le32_le32 [of x "[]"] by simp

lemma le32_inj [simp]: "le32 x = le32 y \<longleftrightarrow> x = y"
  by (metis of_le32_le32_nil)

lemma of_le32_take [simp]: "4 \<le> n \<Longrightarrow> of_le32 (take n bs) = of_le32 bs"
  by (cases bs rule: of_le32.cases) (auto simp: take_Cons' numeral_eq_Suc)

lemma le32_of_le32 [le_simps]: "length bs = 4 \<Longrightarrow> le32 (of_le32 bs) = bs"
proof -
  assume "length bs = 4"
  then obtain a b c d where bs: "bs = [a, b, c, d]"
    by (auto simp: length_Suc_conv numeral_eq_Suc)
  show ?thesis
    unfolding bs le32_def by (auto simp: bit_eq_iff bit_simps dest: bit_imp_le_length)
qed

lemma bytes_compare_eq [simp]: "bytes_compare a b = 0 \<longleftrightarrow> a = b"
  by (induction a b rule: bytes_compare.induct) auto

lemma bytes_compare_lt [simp]: "bytes_compare a b = -1 \<longleftrightarrow> a < b"
  by (induction a b rule: bytes_compare.induct) auto

lemma bytes_compare_gt [simp]: "bytes_compare a b = 1 \<longleftrightarrow> b < a"
  by (induction a b rule: bytes_compare.induct) auto

lemma length_slice [simp]: "length (slice i j xs) = min (j - i) (length xs - i)"
  by (simp add: slice_def)

lemma length_put_at [simp]: "i + length ys \<le> length xs \<Longrightarrow> length (put_at i ys xs) = length xs"
  by (simp add: put_at_def)

lemma slice_put_at_same [simp]:
  "i + length ys \<le> length xs \<Longrightarrow> j = i + length ys \<Longrightarrow> slice i j (put_at i ys xs) = ys"
  by (simp add: slice_def put_at_def)

lemma nth_put_at:
  "i + length ys \<le> length xs \<Longrightarrow> n < length xs \<Longrightarrow>
   put_at i ys xs ! n = (if i \<le> n \<and> n < i + length ys then ys ! (n - i) else xs ! n)"
  by (auto simp: put_at_def nth_append)

lemma slice_eqI:
  "\<lbrakk>length xs = length ys; \<And>n. i \<le> n \<Longrightarrow> n < j \<Longrightarrow> n < length xs \<Longrightarrow> xs ! n = ys ! n\<rbrakk>
   \<Longrightarrow> slice i j xs = slice i j ys"
  by (auto simp: slice_def intro!: nth_equalityI)

lemma slice_put_at_other [simp]:
  "i + length ys \<le> length xs \<Longrightarrow> b \<le> i \<or> i + length ys \<le> a \<Longrightarrow>
   slice a b (put_at i ys xs) = slice a b xs"
  by (rule slice_eqI) (auto simp: nth_put_at)

lemma drop_half_length:
  "xs \<noteq> [] \<Longrightarrow> length xs \<noteq> Suc 0 \<Longrightarrow> length xs - length xs div 2 < length xs"
  by (cases xs; cases "tl xs") auto

text \<open>Strictly sorted lists, as the keys of a node are.\<close>

abbreviation ssorted :: "'a::linorder list \<Rightarrow> bool" where
  "ssorted \<equiv> sorted_wrt (<)"

lemma ssorted_nth: "ssorted xs \<Longrightarrow> i < j \<Longrightarrow> j < length xs \<Longrightarrow> xs ! i < xs ! j"
  by (simp add: sorted_wrt_nth_less)

lemma ssorted_distinct: "ssorted xs \<Longrightarrow> distinct xs"
  by (simp add: strict_sorted_iff)

end
