(* ===== verification/Helpers.thy ===== *)
theory Helpers
  imports Prelude "HOL-Library.Multiset"
begin

text \<open>
  The package \<^verbatim>\<open>pkg/helpers\<close>: the searches and slice edits the B+ tree is built on, the comparison
  of log sequence numbers, and the flag-byte operations of page headers and log records. The
  loops of the source are recursive functions; an index out of range is a panic.
\<close>

section \<open>Definitions\<close>

subsection \<open>Sorting\<close>

text \<open>One pass of \<^verbatim>\<open>swap\<close>: \<open>prev\<close> is \<^verbatim>\<open>list[idx-1]\<close> as the loop sees it at index \<open>idx\<close>.\<close>

fun swap_loop :: "'a::linorder \<Rightarrow> 'a list \<Rightarrow> 'a list \<times> bool" where
  "swap_loop prev [] = ([prev], False)"
| "swap_loop prev (v # rest) =
     (if v < prev then (let (l, _) = swap_loop prev rest in (v # l, True))
      else (let (l, s) = swap_loop v rest in (prev # l, s)))"

fun swap :: "'a::linorder list \<Rightarrow> 'a list \<times> bool" where
  "swap [] = ([], False)"
| "swap (x # xs) = swap_loop x xs"

text \<open>The number of inversions, which every pass that swaps decreases.\<close>

fun inversions :: "'a::linorder list \<Rightarrow> nat" where
  "inversions [] = 0"
| "inversions (x # xs) = length (filter (\<lambda>y. y < x) xs) + inversions xs"

lemma swap_loop_mset: "mset (fst (swap_loop p xs)) = add_mset p (mset xs)"
  by (induction p xs rule: swap_loop.induct) (auto split: prod.splits)

lemma filter_length_mset:
  "mset xs = mset ys \<Longrightarrow> length (filter P xs) = length (filter P ys)"
  by (metis mset_filter size_mset)

lemma swap_loop_inversions:
  "inversions (fst (swap_loop p xs)) + (if snd (swap_loop p xs) then 1 else 0)
     \<le> inversions (p # xs)"
proof (induction p xs rule: swap_loop.induct)
  case (1 p)
  then show ?case by simp
next
  case (2 p v r)
  obtain l s where l: "swap_loop p r = (l, s)" by fastforce
  obtain l' s' where l': "swap_loop v r = (l', s')" by fastforce
  have m: "mset l = mset (p # r)" "mset l' = mset (v # r)"
    using swap_loop_mset [of p r] swap_loop_mset [of v r] l l' by simp_all
  note fl = filter_length_mset [OF m(1)] filter_length_mset [OF m(2)]
  show ?case
  proof (cases "v < p")
    case True
    have "length (filter (\<lambda>y. y < v) l) = length (filter (\<lambda>y. y < v) r)"
      using True fl(1) [of "\<lambda>y. y < v"] by simp
    then show ?thesis using "2.IH"(1) [OF True] l True by (auto split: if_splits)
  next
    case False
    have "length (filter (\<lambda>y. y < p) l') = length (filter (\<lambda>y. y < p) r)"
      using False fl(2) [of "\<lambda>y. y < p"] by simp
    then show ?thesis using "2.IH"(2) [OF False] l' False by (auto split: if_splits)
  qed
qed

text \<open>The sorting loop stops: a pass that reports a swap removed an inversion.\<close>

function BubbleSort_loop :: "'a::linorder list \<Rightarrow> 'a list" where
  "BubbleSort_loop newList =
     (if snd (swap newList) then BubbleSort_loop (fst (swap newList)) else fst (swap newList))"
  by pat_completeness auto
termination
proof (relation "measure inversions")
  fix xs :: "'a list"
  assume sw: "snd (swap xs)"
  then obtain y ys where xs: "xs = y # ys" by (cases xs) auto
  show "(fst (swap xs), xs) \<in> measure inversions"
    using swap_loop_inversions [of y ys] sw by (simp add: xs)
qed simp

definition BubbleSort :: "'a::linorder list \<Rightarrow> 'a list" where
  "BubbleSort list = BubbleSort_loop list"

subsection \<open>Binary searches\<close>

function LookupBinarySearch :: "'a::linorder list \<Rightarrow> 'a \<Rightarrow> int \<Rightarrow> int res" where
  "LookupBinarySearch sortedList searchKey startIdx =
     (let l = length sortedList; m = l div 2 in
      if l = 0 then Panic ''index out of range''
      else if sortedList ! m = searchKey then Ok (int m + startIdx)
      else if l = 1 then Err (HelperError ''Key %v does not exist'')
      else if sortedList ! m > searchKey then LookupBinarySearch (take m sortedList) searchKey startIdx
      else if sortedList ! m < searchKey then LookupBinarySearch (drop m sortedList) searchKey (int m)
      else Ok (-1))"
  by pat_completeness auto
termination
  by (relation "measure (\<lambda>(xs, _, _). length xs)") (auto simp: drop_half_length)

function InsertBinarySearch :: "bytes list \<Rightarrow> bytes \<Rightarrow> int \<Rightarrow> int res" where
  "InsertBinarySearch sortedList searchKey startIdx =
     (let l = length sortedList; m = l div 2 in
      if l = 0 then Panic ''index out of range''
      else if bytes_compare (sortedList ! m) searchKey = 0 then Ok (int m + startIdx)
      else if l = 1 then Ok (int m + startIdx)
      else if bytes_compare searchKey (sortedList ! m) = -1
              \<and> bytes_compare searchKey (sortedList ! (m - 1)) = 1 then Ok (int m + startIdx)
      else if bytes_compare (sortedList ! m) searchKey = 1
        then InsertBinarySearch (take m sortedList) searchKey startIdx
      else if bytes_compare (sortedList ! m) searchKey = -1
        then InsertBinarySearch (drop m sortedList) searchKey (int m + startIdx)
      else Ok (-1))"
  by pat_completeness auto
termination
  by (relation "measure (\<lambda>(xs, _, _). length xs)") (auto simp: drop_half_length)

declare BubbleSort_loop.simps [simp del]
declare LookupBinarySearch.simps [simp del]
declare InsertBinarySearch.simps [simp del]

subsection \<open>Slice edits\<close>

definition InsertToList :: "'a list \<Rightarrow> int \<Rightarrow> 'a \<Rightarrow> 'a list res" where
  "InsertToList list idx val =
     (if idx < 0 then Err (HelperError ''(insertToList) Index %d out of bounds'')
      else if idx > int (length list) - 1 then Ok (list @ [val])
      else Ok (take (nat idx) list @ [val] @ drop (nat idx) list))"

text \<open>A pointer slice \<^verbatim>\<open>[]*T\<close> is a list of options; the loop \<^verbatim>\<open>for i := deficit; i <= deficit\<close>
  runs once.\<close>

definition RemoveEmptyValues :: "'a option list \<Rightarrow> int \<Rightarrow> 'a option list res" where
  "RemoveEmptyValues l idx =
     (if int (length l) \<le> idx + 1 then Err (HelperError ''Nothing to replace'')
      else if idx < 0 then Panic ''index out of range''
      else if l ! nat idx \<noteq> None then Err (HelperError ''Nothing to replace'')
      else (let n = take (nat idx) l @ drop (nat idx + 1) l; childOrder = 5 in
            if length n \<ge> childOrder then Ok (take childOrder n) else Ok (n @ [None])))"

text \<open>\<^verbatim>\<open>Compact\<close>: the loop that moves the non-nil items to the front, reading index \<open>j\<close> and
  writing index \<open>i\<close>, then the loop that fills up to \<^verbatim>\<open>targetLen\<close>.\<close>

function Compact_move :: "'a option list \<Rightarrow> nat \<Rightarrow> nat \<Rightarrow> 'a option list \<times> nat" where
  "Compact_move list j i =
     (if j < length list then
        (case list ! j of
           None \<Rightarrow> Compact_move list (Suc j) i
         | Some x \<Rightarrow> if i < 5 then Compact_move (list[i := Some x]) (Suc j) (Suc i) else (list, i))
      else (list, i))"
  by pat_completeness auto
termination
  by (relation "measure (\<lambda>(list, j, i). length list - j)") auto

function Compact_fill :: "'a option list \<Rightarrow> nat \<Rightarrow> 'a option list res" where
  "Compact_fill list i =
     (if i < 5 then (if i < length list then Compact_fill (list[i := None]) (Suc i)
                     else Panic ''index out of range'')
      else Ok (take 5 list))"
  by pat_completeness auto
termination
  by (relation "measure (\<lambda>(list, i). 5 - i)") auto

declare Compact_move.simps [simp del]
declare Compact_fill.simps [simp del]

definition Compact :: "'a option list \<Rightarrow> 'a option list res" where
  "Compact list = (let (l, i) = Compact_move list 0 0 in Compact_fill l i)"

definition DeleteSliceKey :: "'a list \<Rightarrow> int \<Rightarrow> 'a list res" where
  "DeleteSliceKey l idx =
     (if length l = 0 then Err (HelperError ''(deleteSliceKey) Slice is empty: %v'')
      else if idx < 0 \<or> idx \<ge> int (length l)
        then Err (HelperError ''(deleteSliceKey) Index %d out of bounds'')
      else Ok (take (nat idx) l @ drop (nat idx + 1) l))"

definition KeysToBytes :: "u32 list \<Rightarrow> bytes list" where
  "KeysToBytes s = map le32 s"

subsection \<open>Log sequence numbers\<close>

text \<open>The WAL page is bytes 0 to 3 of an LSN, the offset in that page bytes 4 to 7.\<close>

definition lsn_page :: "bytes \<Rightarrow> u32" where
  "lsn_page lsn = of_le32 (take 4 lsn)"

definition lsn_off :: "bytes \<Rightarrow> u32" where
  "lsn_off lsn = of_le32 (drop 4 lsn)"

definition MaxLSN :: "bytes \<Rightarrow> bytes \<Rightarrow> bytes res" where
  "MaxLSN lsnA lsnB =
     (if length lsnA < 8 then Err (HelperError ''Invalid length for lsnA. Got length %d'')
      else if length lsnB < 8 then Err (HelperError ''Invalid length for lsnB. Got length %d'')
      else (let pageA = lsn_page lsnA; pageB = lsn_page lsnB in
            if pageA \<noteq> pageB then (if pageA > pageB then Ok lsnA else Ok lsnB)
            else (let offsetA = lsn_off lsnA; offsetB = lsn_off lsnB in
                  if offsetA > offsetA then Ok lsnA
                  else if offsetA < offsetB then Ok lsnB else Ok lsnA)))"

definition GreaterLSN :: "bytes \<Rightarrow> bytes \<Rightarrow> bool res" where
  "GreaterLSN lsnA lsnB =
     (if length lsnA < 8 then Err (HelperError ''Invalid length for lsnA. Got length %d'')
      else if length lsnB < 8 then Err (HelperError ''Invalid length for lsnB. Got length %d'')
      else (let pageA = lsn_page lsnA; pageB = lsn_page lsnB in
            if pageA \<noteq> pageB then Ok (pageA > pageB)
            else Ok (lsn_off lsnA > lsn_off lsnB)))"

subsection \<open>Flag bytes\<close>

text \<open>A shift count is \<^verbatim>\<open>byte(pos)\<close>; shifting a byte by 8 or more gives 0, as \<^const>\<open>push_bit\<close> does.\<close>

definition flag_mask :: "nat list \<Rightarrow> u8" where
  "flag_mask pos = fold (\<lambda>p mask. mask OR push_bit (p mod 256) 1) pos 0"

definition BitIsSet :: "u8 \<Rightarrow> nat \<Rightarrow> bool" where
  "BitIsSet flag pos = (0 < flag AND push_bit (pos mod 256) 1)"

definition UnsetFlag :: "u8 \<Rightarrow> nat list \<Rightarrow> u8" where
  "UnsetFlag f pos = f AND NOT (flag_mask pos)"

definition SetFlag :: "u8 \<Rightarrow> nat list \<Rightarrow> u8" where
  "SetFlag f pos = f OR flag_mask pos"

text \<open>\<^verbatim>\<open>startOff / pageSize\<close> is an integer division before it is made a float.\<close>

definition IsMultipage :: "u32 \<Rightarrow> u32 \<Rightarrow> u32 \<Rightarrow> bool res" where
  "IsMultipage startOff endOff pageSize =
     (if startOff > endOff then Err (HelperError ''Start offset is greater that end offset.'')
      else if pageSize = 0 then Panic ''integer divide by zero''
      else Ok (startOff div pageSize \<noteq> endOff div pageSize))"

section \<open>Lemmas\<close>

subsection \<open>Bubble sort\<close>

lemma swap_mset: "mset (fst (swap xs)) = mset xs"
  by (cases xs) (simp_all add: swap_loop_mset)

lemma swap_loop_unchanged:
  "\<not> snd (swap_loop p xs) \<Longrightarrow> fst (swap_loop p xs) = p # xs \<and> sorted (p # xs)"
  by (induction p xs rule: swap_loop.induct) (auto split: if_splits prod.splits)

lemma swap_unchanged: "\<not> snd (swap xs) \<Longrightarrow> fst (swap xs) = xs \<and> sorted xs"
  using swap_loop_unchanged by (cases xs) fastforce+

lemma BubbleSort_loop_correct:
  "sorted (BubbleSort_loop xs) \<and> mset (BubbleSort_loop xs) = mset xs"
proof (induction xs rule: BubbleSort_loop.induct)
  case (1 xs)
  show ?case
  proof (cases "snd (swap xs)")
    case True
    with 1 show ?thesis by (simp add: BubbleSort_loop.simps [of xs] swap_mset)
  next
    case False
    with swap_unchanged [of xs] show ?thesis by (simp add: BubbleSort_loop.simps [of xs])
  qed
qed

subsection \<open>The insertion search\<close>

text \<open>What the caller may rely on: the index is in range and is either the key's own position or a
  neighbour of the place where the key would go.\<close>

definition near :: "bytes list \<Rightarrow> bytes \<Rightarrow> nat \<Rightarrow> bool" where
  "near ks k i \<longleftrightarrow> i < length ks \<and>
     (ks ! i = k \<or> k < ks ! i \<and> (\<forall>j<i. ks ! j < k)
      \<or> ks ! i < k \<and> (\<forall>j. i < j \<longrightarrow> j < length ks \<longrightarrow> k < ks ! j))"

lemma near_take:
  assumes "ssorted ks" "m < length ks" "k < ks ! m" "near (take m ks) k i"
  shows "near ks k i"
proof -
  have "k < ks ! j" if "m \<le> j" "j < length ks" for j
    using that assms(3) ssorted_nth [OF assms(1), of m j] by (cases "m = j") auto
  then show ?thesis using assms(2,4) unfolding near_def
    by (auto simp: min_def)
qed

lemma near_drop:
  assumes "ssorted ks" "m < length ks" "ks ! m < k" "near (drop m ks) k i"
  shows "near ks k (m + i)"
proof -
  have low: "ks ! j < k" if "j \<le> m" for j
    using that assms(2,3) ssorted_nth [OF assms(1), of j m] by (cases "m = j") auto
  have "ks ! j < k" if "\<forall>j<i. ks ! (m + j) < k" "j < m + i" for j
    using low [of j] that by (cases "j \<le> m") (auto dest: spec [of _ "j - m"])
  moreover have "k < ks ! j"
    if "\<forall>j. i < j \<longrightarrow> j < length ks - m \<longrightarrow> k < ks ! (m + j)" "m + i < j" "j < length ks" for j
    using that by (auto dest: spec [of _ "j - m"])
  ultimately show ?thesis using assms(2,4) unfolding near_def by auto
qed

lemma InsertBinarySearch_near:
  "ks \<noteq> [] \<Longrightarrow> ssorted ks \<Longrightarrow>
   \<exists>i. InsertBinarySearch ks k s = Ok (int i + s) \<and> near ks k i"
proof (induction ks k s rule: InsertBinarySearch.induct)
  case (1 ks k s)
  let ?m = "length ks div 2"
  have m: "?m < length ks" using "1.prems"(1) by simp
  consider "ks ! ?m = k" | "ks ! ?m \<noteq> k" "length ks = 1"
    | "length ks \<noteq> 1" "k < ks ! ?m" "ks ! (?m - 1) < k"
    | "length ks \<noteq> 1" "k < ks ! ?m" "\<not> ks ! (?m - 1) < k"
    | "length ks \<noteq> 1" "ks ! ?m < k" by force
  then show ?case
  proof cases
    case 1
    with m show ?thesis by (auto simp: InsertBinarySearch.simps [of ks] near_def Let_def)
  next
    case 2
    then show ?thesis
      by (auto simp: InsertBinarySearch.simps [of ks] near_def Let_def not_less_iff_gr_or_eq)
  next
    case 3
    have "ks ! j < k" if "j < ?m" for j
      using that m 3(3) ssorted_nth [OF "1.prems"(2), of j "?m - 1"]
      by (cases "j = ?m - 1") fastforce+
    with 3 m show ?thesis
      by (intro exI [of _ ?m]) (auto simp: InsertBinarySearch.simps [of ks] near_def Let_def)
  next
    case 4
    have "?m \<noteq> 0" using 4 "1.prems"(1) by (cases ks; cases "tl ks") auto
    then have ne: "take ?m ks \<noteq> []" using "1.prems"(1) by auto
    with 4 "1.prems" "1.IH"(1) obtain i where
      "InsertBinarySearch (take ?m ks) k s = Ok (int i + s)" "near (take ?m ks) k i"
      by (auto simp: Let_def)
    then show ?thesis using 4 near_take [OF "1.prems"(2) m 4(2)] "1.prems"(1)
      by (auto simp: InsertBinarySearch.simps [of ks] Let_def)
  next
    case 5
    then have ne: "drop ?m ks \<noteq> []" "ks ! ?m \<noteq> k" "\<not> k < ks ! ?m" using m by auto
    with 5 "1.prems" "1.IH"(2) [OF refl refl] obtain i where
      i: "InsertBinarySearch (drop ?m ks) k (int ?m + s) = Ok (int i + (int ?m + s))"
      "near (drop ?m ks) k i"
      by (auto simp: Let_def)
    then show ?thesis using 5 near_drop [OF "1.prems"(2) m 5(2) i(2)] "1.prems"(1)
      by (intro exI [of _ "?m + i"]) (auto simp: InsertBinarySearch.simps [of ks] Let_def)
  qed
qed

subsection \<open>Slice edits\<close>

lemma InsertToList_Ok:
  "i \<le> length xs \<Longrightarrow> InsertToList xs (int i) v = Ok (take i xs @ v # drop i xs)"
  by (auto simp: InsertToList_def)

lemma Compact_move_spec:
  "i \<le> j \<Longrightarrow> i \<le> 5 \<Longrightarrow> Compact_move l j i = (l', i') \<Longrightarrow>
   length l' = length l \<and> i' = min 5 (i + length (filter (\<lambda>x. x \<noteq> None) (drop j l)))
   \<and> i \<le> i' \<and> take i' l' = take i l @ take (i' - i) (filter (\<lambda>x. x \<noteq> None) (drop j l))"
proof (induction l j i rule: Compact_move.induct)
  case (1 l j i)
  show ?case
  proof (cases "j < length l")
    case False
    with "1.prems" show ?thesis by (auto simp: Compact_move.simps [of l])
  next
    case True
    note dr = Cons_nth_drop_Suc [OF True, symmetric]
    show ?thesis
    proof (cases "l ! j")
      case None
      with True "1.prems" "1.IH"(1) show ?thesis by (auto simp: Compact_move.simps [of l] dr)
    next
      case (Some x)
      show ?thesis
      proof (cases "i < 5")
        case True
        have d: "drop (Suc j) (l[i := Some x]) = drop (Suc j) l" using "1.prems"(1) by simp
        have "Compact_move (l[i := Some x]) (Suc j) (Suc i) = (l', i')"
          using "1.prems"(3) \<open>j < length l\<close> Some True by (simp add: Compact_move.simps [of l])
        with "1.IH"(2) [OF \<open>j < length l\<close> Some True] "1.prems"(1) True
        have *: "length l' = length l
            \<and> i' = min 5 (Suc i + length (filter (\<lambda>x. x \<noteq> None) (drop (Suc j) l)))
            \<and> Suc i \<le> i' \<and> take i' l' = take (Suc i) (l[i := Some x])
               @ take (i' - Suc i) (filter (\<lambda>x. x \<noteq> None) (drop (Suc j) l))"
          unfolding d length_list_update by linarith
        have tk: "take (Suc i) (l[i := Some x]) = take i l @ [Some x]"
          using "1.prems" \<open>j < length l\<close> by (simp add: take_Suc_conv_app_nth)
        have ii: "i' - i = Suc (i' - Suc i)" using * by linarith
        have "take i' l' = take i l @ take (i' - i) (filter (\<lambda>x. x \<noteq> None) (drop j l))"
          using * [THEN conjunct2, THEN conjunct2, THEN conjunct2] unfolding tk ii dr Some by simp
        with * show ?thesis using Some by (simp add: dr)
      next
        case False
        with "1.prems" Some \<open>j < length l\<close> show ?thesis
          by (auto simp: Compact_move.simps [of l])
      qed
    qed
  qed
qed

lemma Compact_fill_spec:
  "i \<le> 5 \<Longrightarrow> 5 \<le> length l \<Longrightarrow> Compact_fill l i = Ok (take i l @ replicate (5 - i) None)"
proof (induction l i rule: Compact_fill.induct)
  case (1 l i)
  show ?case
  proof (cases "i < 5")
    case True
    then have "Compact_fill l i = Ok (take (Suc i) (l[i := None]) @ replicate (5 - Suc i) None)"
      using 1 by (simp add: Compact_fill.simps [of l i])
    also have "take (Suc i) (l[i := None]) = take i l @ [None]"
      using True "1.prems" by (simp add: take_Suc_conv_app_nth)
    also have "(take i l @ [None]) @ replicate (5 - Suc i) None = take i l @ replicate (5 - i) None"
      using True by (simp add: Suc_diff_Suc flip: replicate_Suc)
    finally show ?thesis .
  next
    case False
    with "1.prems" show ?thesis by (subst Compact_fill.simps) simp
  qed
qed

lemma Compact_fill_short:
  "i \<le> length l \<Longrightarrow> length l < 5 \<Longrightarrow> Compact_fill l i = Panic ''index out of range''"
proof (induction l i rule: Compact_fill.induct)
  case (1 l i)
  then show ?case by (cases "i = length l") (subst Compact_fill.simps, simp)+
qed

subsection \<open>Flag bytes\<close>

lemma flag_mask_fold:
  "bit (fold (\<lambda>p m. m OR push_bit (p mod 256) (1::u8)) ps a) n
   \<longleftrightarrow> bit a n \<or> (n < 8 \<and> n \<in> (\<lambda>p. p mod 256) ` set ps)"
  by (induction ps arbitrary: a) (auto simp: bit_simps)

lemma bit_flag_mask: "bit (flag_mask ps) n \<longleftrightarrow> n < 8 \<and> n \<in> (\<lambda>p. p mod 256) ` set ps"
  using flag_mask_fold [of ps 0 n] by (simp add: flag_mask_def)

lemma BitIsSet_bit: "p < 8 \<Longrightarrow> BitIsSet f p = bit f p"
proof -
  assume p: "p < 8"
  have "f AND push_bit p 1 \<noteq> 0 \<longleftrightarrow> bit f p"
  proof
    assume "f AND push_bit p 1 \<noteq> 0"
    then obtain n where "bit (f AND push_bit p 1) n" by (auto simp: bit_eq_iff)
    then show "bit f p" by (auto simp: bit_simps)
  next
    assume "bit f p"
    then have "bit (f AND push_bit p 1) p" using p by (simp add: bit_simps)
    then show "f AND push_bit p 1 \<noteq> 0" by auto
  qed
  then show ?thesis using p by (simp add: BitIsSet_def word_gt_0)
qed

text \<open>The contract of the flag byte, as the page header and the frame code use it.\<close>

locale flag_ops =
  fixes is_set :: "'f \<Rightarrow> nat \<Rightarrow> bool"
    and set_flag :: "'f \<Rightarrow> nat list \<Rightarrow> 'f"
    and unset_flag :: "'f \<Rightarrow> nat list \<Rightarrow> 'f"
    and width :: nat
  assumes is_set_set: "p < width \<Longrightarrow> Ball (set ps) (\<lambda>q. q < width) \<Longrightarrow>
      is_set (set_flag f ps) p = (p \<in> set ps \<or> is_set f p)"
    and is_set_unset: "p < width \<Longrightarrow> Ball (set ps) (\<lambda>q. q < width) \<Longrightarrow>
      is_set (unset_flag f ps) p = (p \<notin> set ps \<and> is_set f p)"
    and flag_ext: "(\<And>p. p < width \<Longrightarrow> is_set f p = is_set g p) \<Longrightarrow> f = g"
begin

lemma set_own: "q < width \<Longrightarrow> is_set (set_flag f [q]) q"
  by (simp add: is_set_set)

lemma set_frame: "p < width \<Longrightarrow> q < width \<Longrightarrow> p \<noteq> q \<Longrightarrow> is_set (set_flag f [q]) p = is_set f p"
  by (simp add: is_set_set)

lemma unset_own: "q < width \<Longrightarrow> \<not> is_set (unset_flag f [q]) q"
  by (simp add: is_set_unset)

lemma unset_frame: "p < width \<Longrightarrow> q < width \<Longrightarrow> p \<noteq> q \<Longrightarrow> is_set (unset_flag f [q]) p = is_set f p"
  by (simp add: is_set_unset)

lemma set_unset: "q < width \<Longrightarrow> \<not> is_set f q \<Longrightarrow> unset_flag (set_flag f [q]) [q] = f"
  by (rule flag_ext) (auto simp: is_set_set is_set_unset)

lemma set_idem: "q < width \<Longrightarrow> set_flag (set_flag f [q]) [q] = set_flag f [q]"
  by (rule flag_ext) (auto simp: is_set_set)

end

interpretation hflags: flag_ops BitIsSet SetFlag UnsetFlag 8
proof
  fix p :: nat and ps :: "nat list" and f g :: u8
  assume "p < 8" "\<forall>q\<in>set ps. q < 8"
  then have "p \<in> (\<lambda>q. q mod 256) ` set ps \<longleftrightarrow> p \<in> set ps" by force
  with \<open>p < 8\<close> show "BitIsSet (SetFlag f ps) p = (p \<in> set ps \<or> BitIsSet f p)"
    and "BitIsSet (UnsetFlag f ps) p = (p \<notin> set ps \<and> BitIsSet f p)"
    by (auto simp: BitIsSet_bit SetFlag_def UnsetFlag_def bit_simps bit_flag_mask)
next
  fix f g :: u8
  assume "\<And>p. p < 8 \<Longrightarrow> BitIsSet f p = BitIsSet g p"
  then show "f = g" by (intro bit_word_eqI) (simp add: BitIsSet_bit)
qed

end
