(* ===== verification/OsFile.thy ===== *)
theory OsFile
  imports Prelude
begin

text \<open>
  What the program uses of \<^verbatim>\<open>os.File\<close>: positioned reads and writes, appending writes, truncation and
  \<^verbatim>\<open>Sync\<close>. A file is its contents, the contents that have reached the disk, and an error that
  every later call returns (a closed or failing descriptor). A read that is cut short by the end
  of the file returns \<^verbatim>\<open>io.EOF\<close> with the bytes it got; a write beyond the end fills the gap
  with zeros.
\<close>

record osfile =
  f_data :: bytes
  f_durable :: bytes
  f_err :: "gerror option"

definition empty_file :: osfile where
  "empty_file = \<lparr>f_data = [], f_durable = [], f_err = None\<rparr>"

definition write_at :: "nat \<Rightarrow> bytes \<Rightarrow> bytes \<Rightarrow> bytes" where
  "write_at off bs d = take off (d @ replicate (off - length d) 0) @ bs @ drop (off + length bs) d"

definition ReadAt :: "osfile \<Rightarrow> nat \<Rightarrow> nat \<Rightarrow> bytes \<times> gerror option" where
  "ReadAt f n off = (case f_err f of
      Some e \<Rightarrow> ([], Some e)
    | None \<Rightarrow> (let d = take n (drop off (f_data f)) in (d, if length d < n then Some EOF else None)))"

definition WriteAt :: "bytes \<Rightarrow> nat \<Rightarrow> osfile \<Rightarrow> nat res \<times> osfile" where
  "WriteAt bs off f = (case f_err f of
      Some e \<Rightarrow> (Err e, f)
    | None \<Rightarrow> (Ok (length bs), f\<lparr>f_data := write_at off bs (f_data f)\<rparr>))"

definition AppendWrite :: "bytes \<Rightarrow> osfile \<Rightarrow> nat res \<times> osfile" where
  "AppendWrite bs f = (case f_err f of
      Some e \<Rightarrow> (Err e, f)
    | None \<Rightarrow> (Ok (length bs), f\<lparr>f_data := f_data f @ bs\<rparr>))"

definition Truncate :: "nat \<Rightarrow> osfile \<Rightarrow> unit res \<times> osfile" where
  "Truncate n f = (case f_err f of
      Some e \<Rightarrow> (Err e, f)
    | None \<Rightarrow> (Ok (), f\<lparr>f_data := take n (f_data f) @ replicate (n - length (f_data f)) 0\<rparr>))"

definition FSync :: "osfile \<Rightarrow> unit res \<times> osfile" where
  "FSync f = (case f_err f of
      Some e \<Rightarrow> (Err e, f)
    | None \<Rightarrow> (Ok (), f\<lparr>f_durable := f_data f\<rparr>))"

definition FClose :: "osfile \<Rightarrow> unit res \<times> osfile" where
  "FClose f = (case f_err f of
      Some e \<Rightarrow> (Err e, f)
    | None \<Rightarrow> (Ok (), f\<lparr>f_err := Some (IOError ''file already closed'')\<rparr>))"

section \<open>Lemmas\<close>

named_theorems file_simps \<open>the file operations on a descriptor without error\<close>

lemma ReadAt_ok [file_simps]:
  "f_err f = None \<Longrightarrow> ReadAt f n off
     = (take n (drop off (f_data f)), if length (f_data f) < off + n \<and> 0 < n then Some EOF else None)"
  by (auto simp: ReadAt_def Let_def min_def)

lemma WriteAt_ok [file_simps]:
  "f_err f = None \<Longrightarrow> WriteAt bs off f = (Ok (length bs), f\<lparr>f_data := write_at off bs (f_data f)\<rparr>)"
  by (simp add: WriteAt_def)

lemma AppendWrite_ok [file_simps]:
  "f_err f = None \<Longrightarrow> AppendWrite bs f = (Ok (length bs), f\<lparr>f_data := f_data f @ bs\<rparr>)"
  by (simp add: AppendWrite_def)

lemma Truncate_ok [file_simps]:
  "f_err f = None \<Longrightarrow>
   Truncate n f = (Ok (), f\<lparr>f_data := take n (f_data f) @ replicate (n - length (f_data f)) 0\<rparr>)"
  by (simp add: Truncate_def)

lemma FSync_ok [file_simps]:
  "f_err f = None \<Longrightarrow> FSync f = (Ok (), f\<lparr>f_durable := f_data f\<rparr>)"
  by (simp add: FSync_def)

lemma length_write_at [simp]: "length (write_at off bs d) = max (length d) (off + length bs)"
  by (auto simp: write_at_def)

lemma write_at_append: "write_at (length d) bs d = d @ bs"
  by (simp add: write_at_def)

lemma nth_write_at:
  "n < length (write_at off bs d) \<Longrightarrow> write_at off bs d ! n =
     (if off \<le> n \<and> n < off + length bs then bs ! (n - off)
      else if n < length d then d ! n else 0)"
  by (auto simp: write_at_def nth_append min_def)

lemma read_write_same [simp]:
  "take (length bs) (drop off (write_at off bs d)) = bs"
  by (simp add: write_at_def)

lemma read_write_other:
  assumes "a + n \<le> off \<or> off + length bs \<le> a" and "a + n \<le> length d"
  shows "take n (drop a (write_at off bs d)) = take n (drop a d)"
  using assms by (intro nth_equalityI) (auto simp: nth_write_at)

end
