(* ===== verification/Fifo.thy ===== *)
theory Fifo
  imports Prelude
begin

text \<open>
  The contract of the first-in first-out queues of the program (the WAL buffer and the WAL write
  queue, the per-page job queues of the disk manager), stated once: the
  operations the clients call and what they may rely on. Each component that provides a queue
  interprets this locale on its own definitions.
\<close>

locale fifo_queue =
  fixes invar :: "'q \<Rightarrow> bool"
    and items :: "'q \<Rightarrow> 'a list"
    and enq :: "'a \<Rightarrow> 'q \<Rightarrow> 'q"
    and deq :: "'q \<Rightarrow> 'a option \<times> 'q"
  assumes invar_enq: "invar q \<Longrightarrow> invar (enq x q)"
    and items_enq: "invar q \<Longrightarrow> items (enq x q) = items q @ [x]"
    and deq_empty: "invar q \<Longrightarrow> items q = [] \<Longrightarrow> fst (deq q) = None"
    and deq_head: "invar q \<Longrightarrow> items q = x # xs \<Longrightarrow>
          fst (deq q) = Some x \<and> items (snd (deq q)) = xs \<and> invar (snd (deq q))"
begin

lemma enq_all: "invar q \<Longrightarrow> invar (fold enq xs q) \<and> items (fold enq xs q) = items q @ xs"
  by (induction xs arbitrary: q) (auto simp: invar_enq items_enq)

text \<open>Nothing is lost, duplicated or reordered: what was added first leaves first.\<close>

lemma deq_after_enq_all:
  assumes "invar q" "items q = []"
  shows "fst (deq (fold enq (x # xs) q)) = Some x
         \<and> items (snd (deq (fold enq (x # xs) q))) = xs"
proof -
  have "invar (fold enq (x # xs) q)" "items (fold enq (x # xs) q) = x # xs"
    using enq_all [of q "x # xs"] assms by auto
  then show ?thesis using deq_head by blast
qed

lemma deq_none_iff: "invar q \<Longrightarrow> fst (deq q) = None \<longleftrightarrow> items q = []"
  using deq_empty deq_head by (cases "items q") fastforce+

end

end
