(* ===== verification/Wal.thy ===== *)
theory Wal
  imports Helpers OsFile Fifo
begin

text \<open>
  The package \<^verbatim>\<open>pkg/wal\<close>: the B-LOG record format, the in-memory buffer, the assignment of log
  sequence numbers, the writer and the reader of the log file. The record and checkpoint structs
  are records, \<^verbatim>\<open>toBytes\<close> is translated byte for byte, and the linked lists of the buffer and of
  the write queue, whose nodes are private to them, are lists from head to tail.
\<close>

section \<open>Definitions\<close>

subsection \<open>Constants and structs\<close>

abbreviation WAL_PAGE_SIZE :: nat where "WAL_PAGE_SIZE \<equiv> 8192"
abbreviation WAL_PAGE_HEADER_SIZE :: nat where "WAL_PAGE_HEADER_SIZE \<equiv> 8"
abbreviation BLOG_HEADER_SIZE :: nat where "BLOG_HEADER_SIZE \<equiv> 25"
abbreviation CHECKPOINT_SIZE :: nat where "CHECKPOINT_SIZE \<equiv> 17"
abbreviation LSN_SIZE :: nat where "LSN_SIZE \<equiv> 12"
abbreviation WAL_MAGIC_NO :: u32 where "WAL_MAGIC_NO \<equiv> 65544"
abbreviation LOGTYPE_FLAG_POS :: nat where "LOGTYPE_FLAG_POS \<equiv> 7"

datatype OperationType = PUT | DEL

fun op_byte :: "OperationType \<Rightarrow> u8" where
  "op_byte PUT = 0"
| "op_byte DEL = 1"

record BLogHeader =
  h_flag :: u8
  h_lsn :: bytes
  h_pageId :: u32
  h_crc :: u32
  h_lSize :: u32

record BLog =
  b_header :: "BLogHeader option"
  b_opType :: OperationType
  b_keySize :: u32
  b_key :: bytes
  b_valSize :: u32
  b_val :: bytes

record CheckPoint =
  c_flag :: u8
  c_redoPoint :: u32
  c_checkpointLSN :: bytes

record WALPageHeader =
  p_magicNo :: u32
  p_pageId :: u32

datatype nodeValue = LogNode BLog | CheckNode CheckPoint

subsection \<open>Byte layout\<close>

text \<open>\<^verbatim>\<open>copy(hdr[1:13], h.lsn)\<close> copies at most twelve bytes and leaves the rest zero.\<close>

definition BLogHeader_toBytes :: "BLogHeader \<Rightarrow> bytes" where
  "BLogHeader_toBytes h =
     [h_flag h] @ take 12 (h_lsn h) @ replicate (12 - length (h_lsn h)) 0
     @ le32 (h_lSize h) @ le32 (h_pageId h) @ le32 (h_crc h)"

definition WALPageHeader_toBytes :: "WALPageHeader \<Rightarrow> bytes" where
  "WALPageHeader_toBytes h = le32 (p_magicNo h) @ le32 (p_pageId h)"

definition checkLogOverflow :: "bytes \<Rightarrow> u32 \<Rightarrow> u32 \<Rightarrow> bytes res" where
  "checkLogOverflow data page offset =
     (let endOff = unat offset + length data in
      if endOff < WAL_PAGE_SIZE then
        (if unat offset \<le> WAL_PAGE_HEADER_SIZE
         then Ok (WALPageHeader_toBytes \<lparr>p_magicNo = WAL_MAGIC_NO, p_pageId = page\<rparr> @ data)
         else Ok data)
      else
        (let factor = offset div 8192 + 1;
             idx = unat (8192 * factor - offset);
             hdr = WALPageHeader_toBytes \<lparr>p_magicNo = WAL_MAGIC_NO, p_pageId = page + 1\<rparr> in
         if idx > length data then Panic ''slice bounds out of range''
         else Ok (take idx data @ hdr @ drop idx data)))"

definition BLog_body :: "BLog \<Rightarrow> BLogHeader \<Rightarrow> bytes" where
  "BLog_body b h =
     BLogHeader_toBytes h @ [op_byte (b_opType b)] @ le32 (b_keySize b) @ b_key b
     @ (if b_valSize b > 0 then le32 (b_valSize b) @ b_val b else [])"

definition BLog_toBytes :: "BLog \<Rightarrow> bytes res" where
  "BLog_toBytes b = (case b_header b of
      None \<Rightarrow> Panic ''No header in BLOG''
    | Some h \<Rightarrow>
        (let hdr = BLogHeader_toBytes h;
             pgeId = of_le32 (slice 1 5 hdr);
             off = of_le32 (slice 5 9 hdr) in
         checkLogOverflow (BLog_body b h) pgeId off))"

definition CheckPoint_toBytes :: "CheckPoint \<Rightarrow> bytes res" where
  "CheckPoint_toBytes c =
     (if length (c_checkpointLSN c) < 8 then Panic ''slice bounds out of range''
      else checkLogOverflow ([c_flag c] @ le32 (c_redoPoint c) @ c_checkpointLSN c)
             (of_le32 (take 4 (c_checkpointLSN c))) (of_le32 (drop 4 (c_checkpointLSN c))))"

fun node_toBytes :: "nodeValue \<Rightarrow> bytes res" where
  "node_toBytes (LogNode b) = BLog_toBytes b"
| "node_toBytes (CheckNode c) = CheckPoint_toBytes c"

subsection \<open>The buffer\<close>

type_synonym WALBuffer = "nodeValue list"

definition WALBuffer_Add :: "nodeValue \<Rightarrow> WALBuffer \<Rightarrow> WALBuffer" where
  "WALBuffer_Add b buf = buf @ [b]"

fun nodes_bytes :: "nodeValue list \<Rightarrow> bytes res" where
  "nodes_bytes [] = Ok []"
| "nodes_bytes (n # ns) = bindR (node_toBytes n) (\<lambda>d. bindR (nodes_bytes ns) (\<lambda>r. Ok (d @ r)))"

text \<open>The list is detached before it is encoded, so it is empty even when an encoding panics.\<close>

definition flushWal :: "WALBuffer \<Rightarrow> bytes option res \<times> WALBuffer" where
  "flushWal buf = (if buf = [] then (Ok None, buf)
                   else (bindR (nodes_bytes buf) (\<lambda>d. Ok (Some d)), []))"

subsection \<open>The writer\<close>

record WalWriter =
  w_fd :: osfile
  w_confFD :: "osfile option"
  w_queue :: "bytes list"
  w_running :: bool
  w_maxPage :: u32
  w_maxOffset :: u32

definition assignLSN :: "u32 \<Rightarrow> WalWriter \<Rightarrow> bytes \<times> WalWriter" where
  "assignLSN logSize wr =
     (let lsn = le32 (w_maxPage wr) @ le32 (w_maxOffset wr) @ le32 logSize;
          newMaxOff = w_maxOffset wr + logSize in
      if newMaxOff \<ge> 8192
      then (lsn, wr\<lparr>w_maxOffset := (newMaxOff - 8192) + 8, w_maxPage := w_maxPage wr + 1\<rparr>)
      else (lsn, wr\<lparr>w_maxOffset := newMaxOff\<rparr>))"

text \<open>Every error of the configuration file is a panic; only a missing descriptor is an error.\<close>

definition saveCheckpoint :: "bytes \<Rightarrow> WalWriter \<Rightarrow> unit res \<times> WalWriter" where
  "saveCheckpoint lsn wr = (case w_confFD wr of
      None \<Rightarrow> (Err (WalError ''No file descriptor for config file: %s''), wr)
    | Some c \<Rightarrow>
        (case bindS (orPanic (Truncate 0)) (\<lambda>_. bindS (orPanic (WriteAt lsn 0))
                (\<lambda>_. orPanic FSync)) c of
           (r, c') \<Rightarrow> (r, wr\<lparr>w_confFD := Some c'\<rparr>)))"

definition on_fd :: "(osfile \<Rightarrow> 'a res \<times> osfile) \<Rightarrow> WalWriter \<Rightarrow> 'a res \<times> WalWriter" where
  "on_fd m wr = (case m (w_fd wr) of (r, f) \<Rightarrow> (r, wr\<lparr>w_fd := f\<rparr>))"

definition first_lsn :: bytes where
  "first_lsn = le32 0 @ le32 8 @ le32 17"

definition initializeWriter :: "WalWriter \<Rightarrow> unit res \<times> WalWriter" where
  "initializeWriter wr = (case f_err (w_fd wr) of
      Some e \<Rightarrow> (Panic ''stat'', wr)
    | None \<Rightarrow>
        (if length (f_data (w_fd wr)) = 0 then
           bindS (liftR (CheckPoint_toBytes
                    \<lparr>c_flag = 0x80, c_redoPoint = 8, c_checkpointLSN = first_lsn\<rparr>))
             (\<lambda>data. bindS (orPanic (on_fd (AppendWrite data)))
             (\<lambda>_. bindS (orPanic (on_fd FSync))
             (\<lambda>_. \<lambda>wr. orPanic (saveCheckpoint first_lsn) (wr\<lparr>w_maxOffset := 8 + 17\<rparr>)))) wr
         else (Ok (), wr)))"

text \<open>The write queue: \<^verbatim>\<open>AddJob\<close> appends a request and starts \<^verbatim>\<open>run\<close> when the queue is not
  marked running (nothing marks it running), and \<^verbatim>\<open>run\<close> writes the requests from the head.\<close>

definition AddJob :: "bytes \<Rightarrow> WalWriter \<Rightarrow> WalWriter" where
  "AddJob data wr = wr\<lparr>w_queue := w_queue wr @ [data]\<rparr>"

definition unshift :: "WalWriter \<Rightarrow> bytes option \<times> WalWriter" where
  "unshift wr = (case w_queue wr of [] \<Rightarrow> (None, wr) | d # ds \<Rightarrow> (Some d, wr\<lparr>w_queue := ds\<rparr>))"

definition writeWal :: "bytes \<Rightarrow> WalWriter \<Rightarrow> nat res \<times> WalWriter" where
  "writeWal data = orPanic (on_fd (AppendWrite data))"

lemma writeWal_queue: "writeWal d wr = (r, wr') \<Longrightarrow> w_queue wr' = w_queue wr"
  by (auto simp: writeWal_def orPanic_def on_fd_def split: prod.splits res.splits)

function run :: "WalWriter \<Rightarrow> nat list res \<times> WalWriter" where
  "run wr = (case unshift wr of
      (None, wr') \<Rightarrow> (Ok [], wr'\<lparr>w_running := False\<rparr>)
    | (Some d, wr') \<Rightarrow> (case writeWal d wr' of
          (Ok n, wr'') \<Rightarrow> (case run wr'' of (r, w) \<Rightarrow> (bindR r (\<lambda>ns. Ok (n # ns)), w))
        | (Err e, wr'') \<Rightarrow> (Err e, wr'')
        | (Panic p, wr'') \<Rightarrow> (Panic p, wr'')
        | (Blocked, wr'') \<Rightarrow> (Blocked, wr'')))"
  by pat_completeness auto
termination
  by (relation "measure (\<lambda>wr. length (w_queue wr))")
     (auto simp: unshift_def split: list.splits dest!: sym [of "(Some _, _)"] sym [of "(Ok _, _)"] writeWal_queue)

declare run.simps [simp del]

definition calculatePageAndOffset :: "nat \<Rightarrow> (u32 \<times> u32) res" where
  "calculatePageAndOffset walSize =
     (if walSize = 0 then Err (WalError ''Invalid wal size.'')
      else (let pge = walSize div 8192 in Ok (word_of_nat pge, word_of_nat (walSize - 8192 * pge))))"

definition loadMaxLSN :: "osfile \<Rightarrow> (u32 \<times> u32) res" where
  "loadMaxLSN f = (case f_err f of
      Some e \<Rightarrow> Panic ''stat''
    | None \<Rightarrow> if length (f_data f) = 0 then Ok (0, 8)
              else (case calculatePageAndOffset (length (f_data f)) of
                      Err e \<Rightarrow> Panic ''Invalid wal size.'' | r \<Rightarrow> r))"

definition NewWalWriter :: "osfile \<Rightarrow> osfile \<Rightarrow> WalWriter res" where
  "NewWalWriter walFile confFile =
     bindR (loadMaxLSN walFile) (\<lambda>(maxPage, maxOff).
       (case orPanic initializeWriter
               \<lparr>w_fd = walFile, w_confFD = Some confFile, w_queue = [], w_running = False,
                w_maxPage = maxPage, w_maxOffset = maxOff\<rparr> of
          (r, wr) \<Rightarrow> bindR r (\<lambda>_. Ok wr)))"

subsection \<open>The reader\<close>

text \<open>\<^verbatim>\<open>multiPage\<close> compares a remainder modulo the page size with the page size.\<close>

definition readLogHeader :: "osfile \<Rightarrow> u32 \<Rightarrow> u32 res" where
  "readLogHeader fd off =
     (let endOff = off + 25;
          multiPage = (endOff mod 8192 \<ge> 8192);
          n = (if multiPage then BLOG_HEADER_SIZE + WAL_PAGE_HEADER_SIZE else BLOG_HEADER_SIZE) in
      case ReadAt fd n (unat off) of
        (hdr, Some EOF) \<Rightarrow> Err EOF
      | (hdr, Some e) \<Rightarrow> Panic ''unable to read log header: %v''
      | (hdr, None) \<Rightarrow>
          (if BitIsSet (hdr ! 0) LOGTYPE_FLAG_POS then Err (WalError ''Log is a checkpoint'')
           else (let hdr' = (if multiPage
                             then (let idx = unat (25 - (endOff - 8192)) in
                                   take idx hdr @ drop (idx + WAL_PAGE_HEADER_SIZE) hdr)
                             else hdr) in
                 Ok (of_le32 (slice 13 17 hdr')))))"

definition getLogSize :: "osfile \<Rightarrow> bytes \<Rightarrow> u32 res" where
  "getLogSize fd lsn =
     (if length lsn < LSN_SIZE then Err (WalError ''(wal reader)Invalid LSN provided: %v'')
      else (let page = of_le32 (take 4 lsn); inPageOffset = of_le32 (drop 4 lsn);
                off = (if page > 0 then page * 8192 + inPageOffset else inPageOffset) in
            readLogHeader fd off))"

subsection \<open>The WAL\<close>

record WAL =
  walBuff :: WALBuffer
  walWriter :: WalWriter

definition assign :: "u32 \<Rightarrow> WAL \<Rightarrow> bytes \<times> WAL" where
  "assign sz w = (case assignLSN sz (walWriter w) of (lsn, wr) \<Rightarrow> (lsn, w\<lparr>walWriter := wr\<rparr>))"

definition AddPutLog :: "u32 \<Rightarrow> bytes \<Rightarrow> bytes \<Rightarrow> WAL \<Rightarrow> bytes res \<times> WAL" where
  "AddPutLog pageId key val w =
     (let kLen = length key; vLen = length val in
      if kLen = 0 then (Err (WalError ''Cannot add empty key in WAL''), w)
      else if vLen = 0 then (Err (WalError ''Cannot add empty val in WAL''), w)
      else (let lSize = BLOG_HEADER_SIZE + 9 + kLen + vLen;
                (lsn, w') = assign (word_of_nat lSize) w;
                hdr = \<lparr>h_flag = 0, h_lsn = lsn, h_pageId = pageId, h_crc = 0,
                       h_lSize = word_of_nat lSize\<rparr>;
                log = \<lparr>b_header = Some hdr, b_opType = PUT, b_keySize = word_of_nat kLen,
                       b_key = key, b_valSize = word_of_nat vLen, b_val = val\<rparr> in
            (Ok lsn, w'\<lparr>walBuff := WALBuffer_Add (LogNode log) (walBuff w')\<rparr>)))"

definition AddDelLog :: "u32 \<Rightarrow> bytes \<Rightarrow> WAL \<Rightarrow> bytes res \<times> WAL" where
  "AddDelLog pageId key w =
     (let kLen = length key in
      if kLen = 0 then (Err (WalError ''Cannot add empty key in WAL''), w)
      else (let lSize = BLOG_HEADER_SIZE + 5 + kLen;
                (lsn, w') = assign (word_of_nat lSize) w;
                hdr = \<lparr>h_flag = 0, h_lsn = lsn, h_pageId = pageId, h_crc = 0,
                       h_lSize = word_of_nat lSize\<rparr>;
                log = \<lparr>b_header = Some hdr, b_opType = DEL, b_keySize = word_of_nat kLen,
                       b_key = key, b_valSize = 0, b_val = []\<rparr> in
            (Ok lsn, w'\<lparr>walBuff := WALBuffer_Add (LogNode log) (walBuff w')\<rparr>)))"

definition AddCheckpoint :: "bytes \<Rightarrow> WAL \<Rightarrow> unit res \<times> WAL" where
  "AddCheckpoint latestLSN w =
     (if length latestLSN \<noteq> LSN_SIZE then (Err (WalError ''Invalid LSN size''), w)
      else (let s = of_le32 (slice 8 12 latestLSN);
                page = of_le32 (take 4 latestLSN);
                redoOffset = of_le32 (drop 4 latestLSN);
                redoPoint = page * 8192 + redoOffset + s;
                (lsn, w') = assign 17 w;
                cp = \<lparr>c_flag = 0x80, c_redoPoint = redoPoint, c_checkpointLSN = lsn\<rparr>;
                w'' = w'\<lparr>walBuff := WALBuffer_Add (CheckNode cp) (walBuff w')\<rparr> in
            (case orPanic (saveCheckpoint lsn) (walWriter w'') of
               (r, wr) \<Rightarrow> (r, w''\<lparr>walWriter := wr\<rparr>))))"

text \<open>\<^verbatim>\<open>BLogWrite\<close> returns nothing: an encoding error is logged and dropped, an encoding panic
  spreads. It waits on the channel, so the queue has been written when it returns.\<close>

definition BLogWrite :: "WAL \<Rightarrow> unit res \<times> WAL" where
  "BLogWrite w = (case flushWal (walBuff w) of
      (Err e, buf) \<Rightarrow> (Ok (), w\<lparr>walBuff := buf\<rparr>)
    | (Panic p, buf) \<Rightarrow> (Panic p, w\<lparr>walBuff := buf\<rparr>)
    | (Blocked, buf) \<Rightarrow> (Blocked, w\<lparr>walBuff := buf\<rparr>)
    | (Ok None, buf) \<Rightarrow> (Ok (), w\<lparr>walBuff := buf\<rparr>)
    | (Ok (Some data), buf) \<Rightarrow>
        (case run (AddJob data (walWriter w)) of
           (r, wr) \<Rightarrow> (bindR r (\<lambda>_. Ok ()), w\<lparr>walBuff := buf, walWriter := wr\<rparr>)))"

text \<open>\<^verbatim>\<open>walBgWriter\<close> flushes the buffer again and again; the model has the state after a number of rounds.\<close>

primrec walBgWriter :: "nat \<Rightarrow> WAL \<Rightarrow> unit res \<times> WAL" where
  "walBgWriter 0 w = (Ok (), w)"
| "walBgWriter (Suc rounds) w = bindS BLogWrite (\<lambda>_. walBgWriter rounds) w"

definition NewWal :: "osfile \<Rightarrow> osfile \<Rightarrow> WAL res" where
  "NewWal walFile confFile =
     bindR (NewWalWriter walFile confFile) (\<lambda>wr. Ok \<lparr>walBuff = [], walWriter = wr\<rparr>)"

end
