(* ===== verification/BtStack.thy ===== *)
theory BtStack
  imports Prelude
begin

text \<open>
  Nodes of the B+ tree and the stack of the nodes a descent went through
  (\<^verbatim>\<open>pkg/bptree/btstack.go\<close>): a map from increasing integers to path entries, with its count and
  its largest key. Page numbers, which the source keeps as \<^verbatim>\<open>int32\<close> in nodes and as \<^verbatim>\<open>uint32\<close> elsewhere,
  are 32-bit words; the conversions keep the bits, and a test \<^verbatim>\<open>x > 0\<close> on an \<^verbatim>\<open>int32\<close> is the signed
  comparison \<open>0 <s x\<close>. A node's own mutex is left out: every \<^verbatim>\<open>Node\<close> is built for one call and no other
  goroutine has a pointer to it.
\<close>

section \<open>Definitions\<close>

record Node =
  n_Keys :: "bytes list"
  n_Children :: "u32 list"
  n_Leaf :: bool
  n_Values :: "bytes list"
  n_LeftSibling :: u32
  n_RightSibling :: u32
  n_PageId :: u32
  n_lsn :: bytes

record TraversePath =
  tp_n :: Node
  tp_idx :: u32

record BTStack =
  st_Count :: int
  st_stack :: "int \<rightharpoonup> TraversePath"
  st_maxId :: int
  st_root :: u32

definition stack_Add :: "TraversePath \<Rightarrow> BTStack \<Rightarrow> BTStack" where
  "stack_Add n bt =
     (let newKey = st_maxId bt + 1 in
      bt\<lparr>st_stack := (st_stack bt)(newKey \<mapsto> n), st_maxId := st_maxId bt + 1,
         st_Count := st_Count bt + 1\<rparr>)"

definition stack_Pop :: "BTStack \<Rightarrow> TraversePath res \<times> BTStack" where
  "stack_Pop bt =
     (if st_Count bt \<le> 0 \<or> st_maxId bt = 0 then (Err (BTreeError ''No items in stack''), bt)
      else (let k = st_maxId bt in
            case st_stack bt k of
              None \<Rightarrow> (Err (BTreeError ''No items in stack''), bt)
            | Some v \<Rightarrow>
                (Ok v, bt\<lparr>st_stack := (st_stack bt)(k := None),
                          st_Count := (if st_Count bt > 0 then st_Count bt - 1 else st_Count bt),
                          st_maxId := st_maxId bt - 1\<rparr>)))"

definition stack_Clear :: "BTStack \<Rightarrow> BTStack" where
  "stack_Clear bt =
     (if st_Count bt \<le> 0 then bt
      else bt\<lparr>st_stack := (\<lambda>k. if k \<noteq> 0 then None else st_stack bt k), st_Count := 0, st_maxId := 0\<rparr>)"

definition stack_Parent :: "BTStack \<Rightarrow> TraversePath res" where
  "stack_Parent bt =
     (if st_Count bt \<le> 0 \<or> st_maxId bt = 0 then Err (BTreeError ''No items in stack'')
      else (case st_stack bt (st_maxId bt) of
              None \<Rightarrow> Err (BTreeError ''No items in stack'')
            | Some v \<Rightarrow> Ok v))"

definition NewBTStack :: "u32 \<Rightarrow> BTStack" where
  "NewBTStack root = \<lparr>st_Count = 0, st_stack = Map.empty, st_maxId = 0, st_root = root\<rparr>"

section \<open>The stack contract\<close>

locale lifo_stack =
  fixes rep :: "'t \<Rightarrow> 'a list \<Rightarrow> bool"
    and push :: "'a \<Rightarrow> 't \<Rightarrow> 't"
    and pop :: "'t \<Rightarrow> 'a res \<times> 't"
    and peek :: "'t \<Rightarrow> 'a res"
    and clear :: "'t \<Rightarrow> 't"
  assumes push_rep: "rep t xs \<Longrightarrow> rep (push x t) (x # xs)"
    and pop_rep: "rep t (x # xs) \<Longrightarrow> fst (pop t) = Ok x \<and> rep (snd (pop t)) xs"
    and pop_nil: "rep t [] \<Longrightarrow> \<exists>e. pop t = (Err e, t)"
    and peek_rep: "rep t (x # xs) \<Longrightarrow> peek t = Ok x"
    and peek_nil: "rep t [] \<Longrightarrow> \<exists>e. peek t = Err e"
    and clear_rep: "rep t xs \<Longrightarrow> rep (clear t) []"
begin

lemma pop_push: "rep t xs \<Longrightarrow> fst (pop (push x t)) = Ok x \<and> rep (snd (pop (push x t))) xs"
  using push_rep pop_rep by blast

lemma pushes_rep: "rep t xs \<Longrightarrow> rep (fold push ys t) (rev ys @ xs)"
  by (induction ys arbitrary: t xs) (auto dest: push_rep)

lemma peek_is_pop: "rep t (x # xs) \<Longrightarrow> peek t = fst (pop t)"
  by (simp add: peek_rep pop_rep)

end

text \<open>The list a stack holds, innermost node first: entry \<open>i\<close> of the map is the \<open>i\<close>-th pushed.\<close>

definition stack_holds :: "BTStack \<Rightarrow> TraversePath list \<Rightarrow> bool" where
  "stack_holds st xs \<longleftrightarrow> st_Count st = int (length xs) \<and> st_maxId st = int (length xs)
     \<and> (\<forall>i. st_stack st i
            = (if 1 \<le> i \<and> i \<le> int (length xs) then Some (rev xs ! nat (i - 1)) else None))"

lemma stack_holds_Add: "stack_holds st xs \<Longrightarrow> stack_holds (stack_Add x st) (x # xs)"
  by (auto simp: stack_holds_def stack_Add_def Let_def nth_append)

lemma stack_holds_Pop:
  "stack_holds st (x # xs) \<Longrightarrow> fst (stack_Pop st) = Ok x \<and> stack_holds (snd (stack_Pop st)) xs"
  by (auto simp: stack_holds_def stack_Pop_def Let_def nth_append)

lemma stack_Pop_root: "st_root (snd (stack_Pop st)) = st_root st"
  by (auto simp: stack_Pop_def Let_def split: option.splits)

lemma stack_Add_root [simp]: "st_root (stack_Add x st) = st_root st"
  by (simp add: stack_Add_def Let_def)

lemma stack_holds_Count: "stack_holds st xs \<Longrightarrow> st_Count st = int (length xs)"
  by (simp add: stack_holds_def)

lemma stack_holds_New [simp]: "stack_holds (NewBTStack r) []"
  by (auto simp: stack_holds_def NewBTStack_def)

lemma stack_holds_Clear: "stack_holds st xs \<Longrightarrow> stack_holds (stack_Clear st) []"
  by (auto simp: stack_holds_def stack_Clear_def)

interpretation btstack: lifo_stack stack_holds stack_Add stack_Pop stack_Parent stack_Clear
proof
  fix t :: BTStack and xs :: "TraversePath list" and x :: TraversePath
  show "stack_holds t xs \<Longrightarrow> stack_holds (stack_Add x t) (x # xs)" by (rule stack_holds_Add)
  show "stack_holds t (x # xs) \<Longrightarrow> fst (stack_Pop t) = Ok x \<and> stack_holds (snd (stack_Pop t)) xs"
    by (rule stack_holds_Pop)
  show "stack_holds t [] \<Longrightarrow> \<exists>e. stack_Pop t = (Err e, t)"
    by (simp add: stack_holds_def stack_Pop_def)
  show "stack_holds t (x # xs) \<Longrightarrow> stack_Parent t = Ok x"
    by (auto simp: stack_holds_def stack_Parent_def nth_append)
  show "stack_holds t [] \<Longrightarrow> \<exists>e. stack_Parent t = Err e"
    by (simp add: stack_holds_def stack_Parent_def)
  show "stack_holds t xs \<Longrightarrow> stack_holds (stack_Clear t) []" by (rule stack_holds_Clear)
qed

end
