(* ===== verification/Btree.thy ===== *)
theory Btree
  imports Wal BtStack
begin

text \<open>
  The B+ tree index, \<^verbatim>\<open>pkg/bptree/bp_tree.go\<close>. The tree reaches its pages through the package
  \<^verbatim>\<open>pkg/buffer_manager\<close>, which the repository does not hold: its \<^verbatim>\<open>Cache\<close> and \<^verbatim>\<open>Frame\<close> methods are the
  fields of a record of functions over a frame type and a cache state, an argument of every operation.
  The tree's mutex is part of its state, so a lock that is taken and not released is visible.
  The loops that follow page numbers (a descent, a range scan) are bounded by fuel: running out is
  the outcome \<^const>\<open>Blocked\<close>, which no result of a finished loop is; so are the loops that unwind the stack.
\<close>

section \<open>The cache interface\<close>

text \<open>\<^verbatim>\<open>Frame.GetMinPage\<close> returns the decoded cells of the frame's page.\<close>

record MinPage =
  mp_Keys :: "bytes list"
  mp_Vals :: "bytes list"
  mp_Children :: "u32 list"
  mp_PageId :: u32
  mp_RightSibling :: u32
  mp_LeftSibling :: u32

record ('f, 's) CacheApi =
  cache_Get :: "u32 \<Rightarrow> 's \<Rightarrow> 'f res \<times> 's"
  cache_CreateNewEntry ::
    "bytes \<Rightarrow> bytes list \<Rightarrow> bytes list option \<Rightarrow> u32 list option \<Rightarrow> bool \<Rightarrow> 's \<Rightarrow> 'f res \<times> 's"
  cache_SyncFrame ::
    "'f \<Rightarrow> bytes \<Rightarrow> bytes list \<Rightarrow> bytes list \<Rightarrow> u32 list \<Rightarrow> u32 \<Rightarrow> u32 \<Rightarrow> 's \<Rightarrow> unit res \<times> 's"
  cache_ReleaseFrame :: "'f \<Rightarrow> bool \<Rightarrow> 's \<Rightarrow> unit res \<times> 's"
  cache_MarkFrameDirty :: "'f \<Rightarrow> 's \<Rightarrow> unit res \<times> 's"
  cache_SetNewRoot :: "'f \<Rightarrow> 's \<Rightarrow> unit res \<times> 's"
  cache_GetRootPageId :: "'s \<Rightarrow> u32"
  cache_Close :: "'s \<Rightarrow> unit res \<times> 's"
  frame_GetKey :: "'f \<Rightarrow> 's \<Rightarrow> u32"
  frame_GetMinPage :: "'f \<Rightarrow> 's \<Rightarrow> MinPage res"
  frame_Internal :: "'f \<Rightarrow> 's \<Rightarrow> bool"
  frame_MarkAsDead :: "'f \<Rightarrow> 's \<Rightarrow> unit res \<times> 's"
  frame_UpdatePageLSN :: "'f \<Rightarrow> bytes \<Rightarrow> 's \<Rightarrow> unit res \<times> 's"

section \<open>State\<close>

record 's BTree =
  bt_Root :: u32
  bt_mu :: rwmutex
  bt_wal :: WAL
  bt_cache :: 's

record SplitResponse =
  sr_PromotedSeparatorKey :: bytes
  sr_NewNodeId :: u32
  sr_OpLSN :: bytes

record MergeMetadata =
  mm_rebalanceKey :: bytes
  mm_rightMerge :: bool
  mm_merged :: bool
  mm_OpLSN :: bytes

record RangeItem =
  ri_Key :: bytes
  ri_Val :: bytes

abbreviation DEGREE :: nat where "DEGREE \<equiv> 2"
abbreviation ORDER :: nat where "ORDER \<equiv> 4"

definition on_cache :: "('s \<Rightarrow> 'a res \<times> 's) \<Rightarrow> 's BTree \<Rightarrow> 'a res \<times> 's BTree" where
  "on_cache m bt = (case m (bt_cache bt) of (r, c) \<Rightarrow> (r, bt\<lparr>bt_cache := c\<rparr>))"

definition on_wal :: "(WAL \<Rightarrow> 'a res \<times> WAL) \<Rightarrow> 's BTree \<Rightarrow> 'a res \<times> 's BTree" where
  "on_wal m bt = (case m (bt_wal bt) of (r, w) \<Rightarrow> (r, bt\<lparr>bt_wal := w\<rparr>))"

definition on_mu :: "(rwmutex \<Rightarrow> 'a res \<times> rwmutex) \<Rightarrow> 's BTree \<Rightarrow> 'a res \<times> 's BTree" where
  "on_mu m bt = (case m (bt_mu bt) of (r, l) \<Rightarrow> (r, bt\<lparr>bt_mu := l\<rparr>))"

definition set_Root :: "u32 \<Rightarrow> 's BTree \<Rightarrow> unit res \<times> 's BTree" where
  "set_Root r bt = (Ok (), bt\<lparr>bt_Root := r\<rparr>)"

text \<open>A call whose error the source drops; its panic is not dropped.\<close>

definition ignoreErr :: "('s \<Rightarrow> 'a res \<times> 's) \<Rightarrow> 's \<Rightarrow> unit res \<times> 's" where
  "ignoreErr m s = (case m s of
      (Ok _, s') \<Rightarrow> (Ok (), s') | (Err _, s') \<Rightarrow> (Ok (), s')
    | (Panic p, s') \<Rightarrow> (Panic p, s') | (Blocked, s') \<Rightarrow> (Blocked, s'))"

text \<open>A call whose error the source looks at and keeps going.\<close>

definition tryErr :: "('s \<Rightarrow> 'a res \<times> 's) \<Rightarrow> 's \<Rightarrow> (gerror + 'a) res \<times> 's" where
  "tryErr m s = (case m s of
      (Ok x, s') \<Rightarrow> (Ok (Inr x), s') | (Err e, s') \<Rightarrow> (Ok (Inl e), s')
    | (Panic p, s') \<Rightarrow> (Panic p, s') | (Blocked, s') \<Rightarrow> (Blocked, s'))"

section \<open>Nodes\<close>

definition NewIndex :: "('f, 's) CacheApi \<Rightarrow> WAL \<Rightarrow> 's \<Rightarrow> 's BTree" where
  "NewIndex C w c = \<lparr>bt_Root = cache_GetRootPageId C c, bt_mu = free_mutex, bt_wal = w, bt_cache = c\<rparr>"

definition createNode :: "bytes list \<Rightarrow> bool \<Rightarrow> bool \<Rightarrow> Node res" where
  "createNode separatorKeys isLeaf isRoot =
     (if \<not> isLeaf \<and> (length separatorKeys < DEGREE - 1 \<and> length separatorKeys > ORDER - 1)
      then Err (BTreeError ''Keys must be between %d to %d'')
      else if isLeaf \<and> (length separatorKeys < DEGREE \<and> length separatorKeys > ORDER)
      then Err (BTreeError ''Keys must be from %d to %d'')
      else if isLeaf
      then Ok \<lparr>n_Keys = separatorKeys, n_Children = [], n_Leaf = isLeaf,
               n_Values = replicate (2 * DEGREE) [], n_LeftSibling = 0, n_RightSibling = 0,
               n_PageId = 0, n_lsn = []\<rparr>
      else Ok \<lparr>n_Keys = separatorKeys, n_Children = [], n_Leaf = isLeaf, n_Values = [],
               n_LeftSibling = 0, n_RightSibling = 0, n_PageId = 0, n_lsn = []\<rparr>)"

text \<open>\<^verbatim>\<open>Node.split\<close>: the shortened node, the new right node and the promoted key.\<close>

definition split :: "bytes \<Rightarrow> Node \<Rightarrow> (Node \<times> Node \<times> bytes) res" where
  "split lsn n =
     (let mid = length (n_Keys n) div 2 in
      if n_Leaf n then
        (if length (n_Values n) < mid then Panic ''slice bounds out of range''
         else (case createNode (drop mid (n_Keys n)) True False of
                 Ok rightNode \<Rightarrow>
                   Ok (n\<lparr>n_Keys := take mid (n_Keys n), n_Values := take mid (n_Values n)\<rparr>,
                       rightNode\<lparr>n_Values := drop mid (n_Values n), n_lsn := lsn\<rparr>, [])
               | _ \<Rightarrow> Panic ''createNode''))
      else if length (n_Keys n) \<le> mid \<or> length (n_Children n) < mid + 1
        then Panic ''slice bounds out of range''
      else (case createNode (drop (mid + 1) (n_Keys n)) False False of
              Ok rightNode \<Rightarrow>
                Ok (n\<lparr>n_Keys := take mid (n_Keys n), n_Children := take (mid + 1) (n_Children n)\<rparr>,
                    rightNode\<lparr>n_Children := drop (mid + 1) (n_Children n), n_lsn := lsn\<rparr>,
                    n_Keys n ! mid)
            | _ \<Rightarrow> Panic ''createNode''))"

definition loadNode :: "('f, 's) CacheApi \<Rightarrow> 'f \<Rightarrow> 's \<Rightarrow> Node res" where
  "loadNode C fr s =
     bindR (frame_GetMinPage C fr s) (\<lambda>minPge.
       (let internalNode = frame_Internal C fr s in
        Ok (if internalNode
            then \<lparr>n_Keys = mp_Keys minPge, n_Children = mp_Children minPge, n_Leaf = \<not> internalNode,
                  n_Values = [], n_LeftSibling = mp_LeftSibling minPge,
                  n_RightSibling = mp_RightSibling minPge, n_PageId = mp_PageId minPge, n_lsn = []\<rparr>
            else \<lparr>n_Keys = mp_Keys minPge, n_Children = [], n_Leaf = \<not> internalNode,
                  n_Values = mp_Vals minPge, n_LeftSibling = mp_LeftSibling minPge,
                  n_RightSibling = mp_RightSibling minPge, n_PageId = mp_PageId minPge, n_lsn = []\<rparr>)))"

definition buildPage :: "('f, 's) CacheApi \<Rightarrow> u32 \<Rightarrow> 's BTree \<Rightarrow> ('f \<times> Node) res \<times> 's BTree" where
  "buildPage C pageId =
     bindS (on_cache (cache_Get C pageId)) (\<lambda>frame.
     bindS (\<lambda>bt. (loadNode C frame (bt_cache bt), bt)) (\<lambda>node.
     returnS (frame, node)))"

text \<open>\<^verbatim>\<open>cache.SyncFrame\<close> with the fields of a node.\<close>

definition SyncNode :: "('f, 's) CacheApi \<Rightarrow> 'f \<Rightarrow> bytes \<Rightarrow> Node \<Rightarrow> 's BTree \<Rightarrow> unit res \<times> 's BTree" where
  "SyncNode C fr lsn n = on_cache (cache_SyncFrame C fr lsn (n_Keys n) (n_Values n) (n_Children n)
                                     (n_RightSibling n) (n_LeftSibling n))"

definition ReleaseFrame :: "('f, 's) CacheApi \<Rightarrow> 'f \<Rightarrow> 's BTree \<Rightarrow> unit res \<times> 's BTree" where
  "ReleaseFrame C fr = on_cache (cache_ReleaseFrame C fr False)"

text \<open>The frame and the node with the new page's number.\<close>

definition assignFrame ::
  "('f, 's) CacheApi \<Rightarrow> bytes \<Rightarrow> bool \<Rightarrow> Node \<Rightarrow> 's BTree \<Rightarrow> ('f \<times> Node) res \<times> 's BTree" where
  "assignFrame C lsn isRoot n =
     bindS (on_cache (if n_Leaf n
                      then cache_CreateNewEntry C lsn (n_Keys n) (Some (n_Values n)) None isRoot
                      else cache_CreateNewEntry C lsn (n_Keys n) None (Some (n_Children n)) isRoot))
       (\<lambda>fr bt. (Ok (fr, n\<lparr>n_PageId := frame_GetKey C fr (bt_cache bt)\<rparr>), bt))"

section \<open>Insertion\<close>

text \<open>\<^verbatim>\<open>if len(lsn) <= 0 { lsn, err = bt.wal.AddPutLog(...); panic on err }\<close>\<close>

definition putLSN :: "bytes \<Rightarrow> u32 \<Rightarrow> bytes \<Rightarrow> bytes \<Rightarrow> 's BTree \<Rightarrow> bytes res \<times> 's BTree" where
  "putLSN lsn pageId key val =
     (if length lsn = 0 then orPanic (on_wal (AddPutLog pageId key val)) else returnS lsn)"

text \<open>The three ways a key enters a leaf: before \<open>idx\<close>, in place, after \<open>idx\<close>. The error of
  \<^verbatim>\<open>InsertToList\<close> is dropped.\<close>

definition InsertToList_keep :: "'a list \<Rightarrow> int \<Rightarrow> 'a \<Rightarrow> 'a list" where
  "InsertToList_keep xs i v = (case InsertToList xs i v of Ok ys \<Rightarrow> ys | _ \<Rightarrow> xs)"

definition insert_leaf_keys :: "Node \<Rightarrow> int \<Rightarrow> bytes \<Rightarrow> bytes \<Rightarrow> bytes \<Rightarrow> Node res" where
  "insert_leaf_keys n idx kAtIdx key val =
     (if bytes_compare key kAtIdx = -1
      then Ok (n\<lparr>n_Keys := InsertToList_keep (n_Keys n) idx key,
                 n_Values := InsertToList_keep (n_Values n) idx val\<rparr>)
      else if bytes_compare key kAtIdx = 0
      then bindR (index (n_Values n) idx) (\<lambda>_.
             Ok (n\<lparr>n_Keys := (n_Keys n)[nat idx := key], n_Values := (n_Values n)[nat idx := val]\<rparr>))
      else Ok (n\<lparr>n_Keys := InsertToList_keep (n_Keys n) (idx + 1) key,
                 n_Values := InsertToList_keep (n_Values n) (idx + 1) val\<rparr>))"

text \<open>The overflow branch of \<^verbatim>\<open>insert\<close>: split the leaf, give the right half a page, link it between
  the leaf and its old right sibling, and write all of them back.\<close>

definition insert_overflow ::
  "('f, 's) CacheApi \<Rightarrow> bytes \<Rightarrow> Node \<Rightarrow> 'f \<Rightarrow> 's BTree \<Rightarrow> SplitResponse res \<times> 's BTree" where
  "insert_overflow C lsn n fr =
     bindS (liftR (split lsn n)) (\<lambda>(n, newRightNode, _).
     bindS (orPanic (assignFrame C lsn False newRightNode)) (\<lambda>(newRightFr, newRightNode).
     (let newRightNode = newRightNode\<lparr>n_LeftSibling := n_PageId n, n_RightSibling := n_RightSibling n\<rparr> in
     bindS (if 0 <s n_RightSibling n
            then bindS (buildPage C (n_RightSibling n)) (\<lambda>(oldFr, old).
                   returnS (Some (oldFr, old\<lparr>n_LeftSibling := n_PageId newRightNode\<rparr>)))
            else returnS None) (\<lambda>oldRight.
     (let n = n\<lparr>n_RightSibling := n_PageId newRightNode\<rparr> in
     bindS (liftR (index (n_Keys newRightNode) 0)) (\<lambda>promoted.
     bindS (orPanic (SyncNode C newRightFr lsn newRightNode)) (\<lambda>_.
     bindS (orPanic (SyncNode C fr lsn n)) (\<lambda>_.
     bindS (case oldRight of None \<Rightarrow> returnS ()
            | Some (oldFr, old) \<Rightarrow> orPanic (SyncNode C oldFr lsn old)) (\<lambda>_.
     returnS \<lparr>sr_PromotedSeparatorKey = promoted, sr_NewNodeId = n_PageId newRightNode,
              sr_OpLSN = lsn\<rparr>)))))))))"

definition insert_node ::
  "('f, 's) CacheApi \<Rightarrow> bytes \<Rightarrow> Node \<Rightarrow> 'f \<Rightarrow> bytes \<Rightarrow> bytes \<Rightarrow> SplitResponse \<Rightarrow> BTStack
   \<Rightarrow> 's BTree \<Rightarrow> (u32 \<times> SplitResponse \<times> BTStack) res \<times> 's BTree" where
  "insert_node C lsn n fr key val rp stack =
     (if length (n_Keys n) = 0 \<and> length (n_Values n) = 0 then
        bindS (putLSN lsn (n_PageId n) key val) (\<lambda>lsn.
        (let n = n\<lparr>n_Keys := n_Keys n @ [key], n_Values := n_Values n @ [val], n_lsn := lsn\<rparr> in
        bindS (SyncNode C fr lsn n) (\<lambda>_. returnS (0, rp, stack))))
      else
        bindS (orPanic (liftR (InsertBinarySearch (n_Keys n) key 0))) (\<lambda>idx.
        bindS (liftR (index (n_Keys n) idx)) (\<lambda>kAtIdx.
        if n_Leaf n then
          bindS (putLSN lsn (n_PageId n) key val) (\<lambda>lsn.
          bindS (liftR (insert_leaf_keys (n\<lparr>n_lsn := lsn\<rparr>) idx kAtIdx key val)) (\<lambda>n.
          if length (n_Keys n) > ORDER then
            bindS (insert_overflow C lsn n fr) (\<lambda>rp. returnS (0, rp, stack))
          else
            bindS (ignoreErr (SyncNode C fr lsn n)) (\<lambda>_. returnS (0, rp, stack))))
        else if bytes_compare key kAtIdx = -1 then
          bindS (liftR (index (n_Children n) idx)) (\<lambda>c.
          returnS (c, rp, stack_Add \<lparr>tp_n = n, tp_idx = word_of_int idx\<rparr> stack))
        else
          bindS (liftR (index (n_Children n) (idx + 1))) (\<lambda>c.
          returnS (c, rp, stack_Add \<lparr>tp_n = n, tp_idx = word_of_int (idx + 1)\<rparr> stack)))))"

text \<open>The loop \<^verbatim>\<open>for nodePageId != 0\<close> of \<^verbatim>\<open>InsertValue\<close>. \<^verbatim>\<open>bt.Root = nodePageId\<close> under
  \<^verbatim>\<open>nodePageId == bt.Root\<close> changes nothing but takes the lock.\<close>

fun insert_descend ::
  "nat \<Rightarrow> ('f, 's) CacheApi \<Rightarrow> bytes \<Rightarrow> bytes \<Rightarrow> bytes \<Rightarrow> u32 \<Rightarrow> 'f option \<Rightarrow> SplitResponse \<Rightarrow> BTStack
   \<Rightarrow> 's BTree \<Rightarrow> ('f option \<times> SplitResponse \<times> BTStack) res \<times> 's BTree" where
  "insert_descend fuel C lsn key val nodePageId oldFrame rp stack =
     (if nodePageId = 0 then returnS (oldFrame, rp, stack)
      else case fuel of
        0 \<Rightarrow> (\<lambda>bt. (Blocked, bt))
      | Suc fuel' \<Rightarrow>
          bindS (buildPage C nodePageId) (\<lambda>(frame, node).
          bindS (case oldFrame of None \<Rightarrow> returnS () | Some f \<Rightarrow> orPanic (ReleaseFrame C f)) (\<lambda>_.
          bindS (on_mu Lock) (\<lambda>_.
          bindS (on_mu Unlock) (\<lambda>_.
          bindS (tryErr (insert_node C lsn node frame key val rp stack)) (\<lambda>r.
          case r of
            Inl e \<Rightarrow>
              bindS (ignoreErr (ReleaseFrame C frame)) (\<lambda>_.
              bindS (case oldFrame of None \<Rightarrow> returnS () | Some f \<Rightarrow> ignoreErr (ReleaseFrame C f)) (\<lambda>_.
              failS e))
          | Inr (next, rp, stack) \<Rightarrow>
              insert_descend fuel' C lsn key val next (Some frame) rp stack))))))"

declare insert_descend.simps [simp del]

text \<open>A promoted key enters the parent; a parent with more than \<^verbatim>\<open>ORDER - 1\<close> keys splits.\<close>

definition split_parent ::
  "('f, 's) CacheApi \<Rightarrow> bytes \<Rightarrow> Node \<Rightarrow> 's BTree \<Rightarrow> (Node \<times> SplitResponse) res \<times> 's BTree" where
  "split_parent C opLSN parent =
     bindS (liftR (split opLSN parent)) (\<lambda>(parent, newRightNode, promoted).
     bindS (assignFrame C opLSN False newRightNode) (\<lambda>(newRightFr, newRightNode).
     (let newRightNode = newRightNode\<lparr>n_LeftSibling := n_PageId parent,
                                      n_RightSibling := n_RightSibling parent\<rparr> in
     bindS (if 0 <s n_RightSibling parent
            then bindS (buildPage C (n_RightSibling parent)) (\<lambda>(oldFr, old).
                   orPanic (SyncNode C oldFr opLSN (old\<lparr>n_LeftSibling := n_PageId newRightNode\<rparr>)))
            else returnS ()) (\<lambda>_.
     bindS (orPanic (SyncNode C newRightFr opLSN newRightNode)) (\<lambda>_.
     returnS (parent\<lparr>n_RightSibling := n_PageId newRightNode\<rparr>,
              \<lparr>sr_PromotedSeparatorKey = promoted, sr_NewNodeId = n_PageId newRightNode,
               sr_OpLSN = opLSN\<rparr>))))))"

definition add_to_parent ::
  "('f, 's) CacheApi \<Rightarrow> TraversePath \<Rightarrow> SplitResponse \<Rightarrow> 's BTree \<Rightarrow> SplitResponse res \<times> 's BTree" where
  "add_to_parent C parent rp =
     bindS (on_cache (cache_Get C (n_PageId (tp_n parent)))) (\<lambda>parentFr.
     bindS (liftR (InsertToList (n_Keys (tp_n parent)) (uint (tp_idx parent))
                     (sr_PromotedSeparatorKey rp))) (\<lambda>ks.
     bindS (liftR (InsertToList (n_Children (tp_n parent)) (uint (tp_idx parent + 1))
                     (sr_NewNodeId rp))) (\<lambda>cs.
     (let pn = (tp_n parent)\<lparr>n_Keys := ks, n_Children := cs\<rparr> in
     bindS (if length (n_Keys pn) > ORDER - 1 then split_parent C (sr_OpLSN rp) pn
            else returnS (pn, rp\<lparr>sr_NewNodeId := 0, sr_PromotedSeparatorKey := []\<rparr>)) (\<lambda>(pn, rp).
     bindS (orPanic (SyncNode C parentFr (sr_OpLSN rp) pn)) (\<lambda>_.
     bindS (ignoreErr (ReleaseFrame C parentFr)) (\<lambda>_.
     returnS rp)))))))"

definition new_root :: "('f, 's) CacheApi \<Rightarrow> SplitResponse \<Rightarrow> 's BTree \<Rightarrow> unit res \<times> 's BTree" where
  "new_root C rp =
     bindS (liftR (createNode [sr_PromotedSeparatorKey rp] False True)) (\<lambda>newRoot.
     bindS (\<lambda>bt. (Ok (newRoot\<lparr>n_Children := [bt_Root bt, sr_NewNodeId rp]\<rparr>), bt)) (\<lambda>newRoot.
     bindS (orPanic (assignFrame C (sr_OpLSN rp) True newRoot)) (\<lambda>(rootFr, newRoot).
     bindS (orPanic (SyncNode C rootFr (sr_OpLSN rp) newRoot)) (\<lambda>_.
     bindS (on_mu Lock) (\<lambda>_.
     bindS (set_Root (n_PageId newRoot)) (\<lambda>_. on_mu Unlock))))))"

text \<open>The loop \<^verbatim>\<open>for insertRes.NewNodeId != 0\<close>.\<close>

fun propagate_splits ::
  "nat \<Rightarrow> ('f, 's) CacheApi \<Rightarrow> SplitResponse \<Rightarrow> BTStack \<Rightarrow> 's BTree \<Rightarrow> unit res \<times> 's BTree" where
  "propagate_splits fuel C rp st =
     (if sr_NewNodeId rp = 0 then returnS ()
      else case fuel of
        0 \<Rightarrow> (\<lambda>bt. (Blocked, bt))
      | Suc fuel' \<Rightarrow>
          (if st_Count st > 0 then
             bindS (liftR (fst (stack_Pop st))) (\<lambda>parent.
             bindS (add_to_parent C parent rp) (\<lambda>rp.
             propagate_splits fuel' C rp (snd (stack_Pop st))))
           else
             bindS (new_root C rp) (\<lambda>_.
             propagate_splits fuel' C (rp\<lparr>sr_NewNodeId := 0\<rparr>) st)))"

declare propagate_splits.simps [simp del]

text \<open>The branch \<^verbatim>\<open>bt.Root == 0\<close>: the first key makes a root leaf. The log record's LSN is
  assigned to the parameter \<^verbatim>\<open>lsn\<close> of \<^verbatim>\<open>InsertValue\<close>, which the next keys of the call see.\<close>

definition insert_first ::
  "('f, 's) CacheApi \<Rightarrow> bytes \<Rightarrow> bytes \<Rightarrow> bytes \<Rightarrow> 's BTree \<Rightarrow> bytes res \<times> 's BTree" where
  "insert_first C lsn key val =
     (let rootNode = \<lparr>n_Keys = [key], n_Children = [], n_Leaf = True, n_Values = [val],
                      n_LeftSibling = 0, n_RightSibling = 0, n_PageId = 0, n_lsn = []\<rparr> in
     bindS (assignFrame C [] True rootNode) (\<lambda>(rootFr, rootNode).
     bindS (on_mu Lock) (\<lambda>_.
     bindS (\<lambda>bt. set_Root (frame_GetKey C rootFr (bt_cache bt)) bt) (\<lambda>_.
     bindS (\<lambda>bt. putLSN lsn (bt_Root bt) key val bt) (\<lambda>lsn.
     bindS (orPanic (on_cache (frame_UpdatePageLSN C rootFr lsn))) (\<lambda>_.
     bindS (orPanic (SyncNode C rootFr lsn (rootNode\<lparr>n_lsn := lsn\<rparr>))) (\<lambda>_.
     bindS (on_mu Unlock) (\<lambda>_. returnS lsn))))))))"

definition insert_existing ::
  "nat \<Rightarrow> ('f, 's) CacheApi \<Rightarrow> bytes \<Rightarrow> bytes \<Rightarrow> bytes \<Rightarrow> u32 \<Rightarrow> 's BTree \<Rightarrow> unit res \<times> 's BTree" where
  "insert_existing fuel C lsn key val stackRoot =
     bindS (on_mu RLock) (\<lambda>_.
     bindS (\<lambda>bt. (Ok (bt_Root bt), bt)) (\<lambda>nodePageId.
     bindS (on_mu RUnlock) (\<lambda>_.
     bindS (insert_descend fuel C lsn key val nodePageId None
              \<lparr>sr_PromotedSeparatorKey = [], sr_NewNodeId = 0, sr_OpLSN = []\<rparr> (NewBTStack stackRoot))
       (\<lambda>(oldFrame, rp, st).
     bindS (case oldFrame of None \<Rightarrow> returnS () | Some f \<Rightarrow> orPanic (ReleaseFrame C f)) (\<lambda>_.
     propagate_splits fuel C rp st)))))"

text \<open>One iteration over the keys; the result is the value of \<^verbatim>\<open>lsn\<close> after it.\<close>

definition insert_one ::
  "nat \<Rightarrow> ('f, 's) CacheApi \<Rightarrow> bytes \<Rightarrow> bytes \<Rightarrow> bytes \<Rightarrow> 's BTree \<Rightarrow> bytes res \<times> 's BTree" where
  "insert_one fuel C lsn key val bt =
     (if bt_Root bt = 0 then insert_first C lsn key val bt
      else bindS (insert_existing fuel C lsn key val (bt_Root bt)) (\<lambda>_. returnS lsn) bt)"

fun insert_loop ::
  "nat \<Rightarrow> ('f, 's) CacheApi \<Rightarrow> bytes list \<Rightarrow> bytes list \<Rightarrow> bytes \<Rightarrow> 's BTree \<Rightarrow> bool res \<times> 's BTree" where
  "insert_loop fuel C [] vals lsn = returnS True"
| "insert_loop fuel C (k # ks) [] lsn = panicS ''index out of range''"
| "insert_loop fuel C (k # ks) (v # vs) lsn =
     bindS (insert_one fuel C lsn k v) (\<lambda>lsn. insert_loop fuel C ks vs lsn)"

definition InsertValue ::
  "nat \<Rightarrow> ('f, 's) CacheApi \<Rightarrow> bytes list \<Rightarrow> bytes list \<Rightarrow> bytes \<Rightarrow> 's BTree \<Rightarrow> bool res \<times> 's BTree" where
  "InsertValue fuel C keys vals lsn = insert_loop fuel C keys vals lsn"

section \<open>Lookups\<close>

text \<open>\<^verbatim>\<open>Node.search\<close>: the value and the next page; \<^verbatim>\<open>nextNodeId\<close> is set to 0 at a leaf.\<close>

definition search :: "Node \<Rightarrow> bytes \<Rightarrow> (bytes \<times> u32) res" where
  "search n key =
     (if length (n_Keys n) = 0 \<or> (length (n_Values n) = 0 \<and> length (n_Children n) = 0)
      then Panic ''Invalid node''
      else bindR (InsertBinarySearch (n_Keys n) key 0) (\<lambda>idx.
           bindR (index (n_Keys n) idx) (\<lambda>kAtIdx.
           if n_Leaf n then
             (if bytes_compare key kAtIdx = 0
              then bindR (index (n_Values n) idx) (\<lambda>v. Ok (v, 0))
              else Err (BTreeError ''Key not found''))
           else if bytes_compare key kAtIdx = -1
             then bindR (index (n_Children n) idx) (\<lambda>c. Ok ([], c))
             else bindR (index (n_Children n) (idx + 1)) (\<lambda>c. Ok ([], c)))))"

text \<open>\<^verbatim>\<open>Node.rangeSearch\<close>: items, right sibling, next page.\<close>

fun range_items :: "bytes list \<Rightarrow> bytes list \<Rightarrow> RangeItem list res" where
  "range_items [] _ = Ok []"
| "range_items (k # ks) [] = Panic ''index out of range''"
| "range_items (k # ks) (v # vs) =
     bindR (range_items ks vs) (\<lambda>r. Ok (\<lparr>ri_Key = k, ri_Val = v\<rparr> # r))"

definition rangeSearch :: "Node \<Rightarrow> bytes \<Rightarrow> u32 \<Rightarrow> (RangeItem list \<times> u32 \<times> u32) res" where
  "rangeSearch n key nextNodeId =
     (if length (n_Keys n) = 0 \<or> (length (n_Values n) = 0 \<and> length (n_Children n) = 0)
      then Ok ([], 0, nextNodeId)
      else bindR (InsertBinarySearch (n_Keys n) key 0) (\<lambda>idx.
           bindR (index (n_Keys n) idx) (\<lambda>kAtIdx.
           if n_Leaf n then
             (if bytes_compare key kAtIdx = 0
              then bindR (range_items (drop (nat idx) (n_Keys n)) (drop (nat idx) (n_Values n)))
                     (\<lambda>items. Ok (items, n_RightSibling n, 0))
              else Err (BTreeError ''Key not found''))
           else if bytes_compare key kAtIdx = -1
             then bindR (index (n_Children n) idx) (\<lambda>c. Ok ([], 0, c))
             else bindR (index (n_Children n) (idx + 1)) (\<lambda>c. Ok ([], 0, c)))))"

fun get_descend ::
  "nat \<Rightarrow> ('f, 's) CacheApi \<Rightarrow> bytes \<Rightarrow> u32 \<Rightarrow> 'f option \<Rightarrow> bytes
   \<Rightarrow> 's BTree \<Rightarrow> ('f option \<times> bytes) res \<times> 's BTree" where
  "get_descend fuel C key nodePageId oldFrame val =
     (if \<not> 0 <s nodePageId then returnS (oldFrame, val)
      else case fuel of
        0 \<Rightarrow> (\<lambda>bt. (Blocked, bt))
      | Suc fuel' \<Rightarrow>
          bindS (buildPage C nodePageId) (\<lambda>(fr, pge).
          bindS (case oldFrame of None \<Rightarrow> returnS () | Some f \<Rightarrow> orPanic (ReleaseFrame C f)) (\<lambda>_.
          bindS (tryErr (liftR (search pge key))) (\<lambda>r.
          case r of
            Inl e \<Rightarrow>
              bindS (ignoreErr (ReleaseFrame C fr)) (\<lambda>_.
              bindS (case oldFrame of None \<Rightarrow> returnS () | Some f \<Rightarrow> ignoreErr (ReleaseFrame C f)) (\<lambda>_.
              failS e))
          | Inr (v, next) \<Rightarrow> get_descend fuel' C key next (Some fr) v))))"

declare get_descend.simps [simp del]

definition Get :: "nat \<Rightarrow> ('f, 's) CacheApi \<Rightarrow> bytes \<Rightarrow> 's BTree \<Rightarrow> bytes res \<times> 's BTree" where
  "Get fuel C key =
     bindS (on_mu RLock) (\<lambda>_.
     bindS (\<lambda>bt. (Ok (bt_Root bt), bt)) (\<lambda>root.
     bindS (on_mu RUnlock) (\<lambda>_.
     if root = 0 then failS (BTreeError ''Key Value store not initialized'')
     else bindS (get_descend fuel C key root None []) (\<lambda>(oldFrame, val).
          bindS (case oldFrame of None \<Rightarrow> returnS () | Some f \<Rightarrow> orPanic (ReleaseFrame C f)) (\<lambda>_.
          returnS val)))))"

text \<open>The descent of \<^verbatim>\<open>RangeSearch\<close>: the items of the start leaf and its right sibling. \<open>pge\<close> is
  unset until the first page is loaded.\<close>

fun range_descend ::
  "nat \<Rightarrow> ('f, 's) CacheApi \<Rightarrow> bytes \<Rightarrow> u32 \<Rightarrow> Node option \<Rightarrow> RangeItem list \<Rightarrow> u32
   \<Rightarrow> 's BTree \<Rightarrow> (Node option \<times> RangeItem list \<times> u32) res \<times> 's BTree" where
  "range_descend fuel C minKey nodePageId pge items rightSibId =
     (if \<not> 0 <s nodePageId then returnS (pge, items, rightSibId)
      else case fuel of
        0 \<Rightarrow> (\<lambda>bt. (Blocked, bt))
      | Suc fuel' \<Rightarrow>
          bindS (buildPage C nodePageId) (\<lambda>(_, pge).
          bindS (liftR (rangeSearch pge minKey nodePageId)) (\<lambda>(items, rightSibId, next).
          range_descend fuel' C minKey next (Some pge) items rightSibId)))"

declare range_descend.simps [simp del]

text \<open>One leaf of the scan: \<open>Inl\<close> is \<^verbatim>\<open>break RangeLoop\<close>, \<open>Inr\<close> goes on to the next leaf. The test on
  \<^verbatim>\<open>maxKey\<close> is the source's.\<close>

fun range_leaf ::
  "bytes \<Rightarrow> int \<Rightarrow> bytes list \<Rightarrow> bytes list \<Rightarrow> RangeItem list
   \<Rightarrow> (RangeItem list + RangeItem list) res" where
  "range_leaf maxKey cnt [] _ items = Ok (Inr items)"
| "range_leaf maxKey cnt (k # ks) vs items =
     (if length maxKey > 0 \<and> bytes_compare maxKey k = 1 then Ok (Inl items)
      else (case vs of
              [] \<Rightarrow> Panic ''index out of range''
            | v # vs' \<Rightarrow>
                (let items = items @ [\<lparr>ri_Key = k, ri_Val = v\<rparr>] in
                 if int (length items) \<ge> cnt then Ok (Inl items)
                 else range_leaf maxKey cnt ks vs' items)))"

fun range_scan ::
  "nat \<Rightarrow> ('f, 's) CacheApi \<Rightarrow> bytes \<Rightarrow> int \<Rightarrow> u32 \<Rightarrow> RangeItem list
   \<Rightarrow> 's BTree \<Rightarrow> RangeItem list res \<times> 's BTree" where
  "range_scan fuel C maxKey cnt rightSibId items =
     (if \<not> 0 <s rightSibId then returnS items
      else case fuel of
        0 \<Rightarrow> (\<lambda>bt. (Blocked, bt))
      | Suc fuel' \<Rightarrow>
          bindS (buildPage C rightSibId) (\<lambda>(_, rightSib).
          if \<not> n_Leaf rightSib
          then failS (BTreeError ''Encountered internal node during range scan.'')
          else bindS (liftR (range_leaf maxKey cnt (n_Keys rightSib) (n_Values rightSib) items)) (\<lambda>r.
               case r of
                 Inl items \<Rightarrow> returnS items
               | Inr items \<Rightarrow> range_scan fuel' C maxKey cnt (n_RightSibling rightSib) items)))"

declare range_scan.simps [simp del]

definition RangeSearch ::
  "nat \<Rightarrow> ('f, 's) CacheApi \<Rightarrow> bytes \<Rightarrow> bytes \<Rightarrow> u32 \<Rightarrow> 's BTree \<Rightarrow> RangeItem list res \<times> 's BTree" where
  "RangeSearch fuel C minKey maxKey cnt bt =
     (if bt_Root bt = 0 then (Err (BTreeError ''Key Value store not initialized''), bt)
      else bindS (range_descend fuel C minKey (bt_Root bt) None [] 0) (\<lambda>(pge, items, rightSibId).
           case pge of
             None \<Rightarrow> panicS ''nil pointer dereference''
           | Some _ \<Rightarrow> range_scan fuel C maxKey (sint cnt) rightSibId items) bt)"

definition Shutdown :: "('f, 's) CacheApi \<Rightarrow> 's BTree \<Rightarrow> unit res \<times> 's BTree" where
  "Shutdown C = on_cache (cache_Close C)"

end
