(* ===== verification/BtreeSpec.thy ===== *)
theory BtreeSpec
  imports Btree "HOL-Library.Product_Lexorder"
begin

text \<open>
  What the tree promises: a sorted association list. A ghost tree says which pages make up the index;
  \<open>rep\<close> ties it to the pages of a cache, \<open>shape\<close> is its shape (height, fan-out, occupancy), \<open>flat\<close> its
  separators and keys in order, \<open>linked\<close> the sibling pointers of every level, and \<open>kvs\<close> the
  association list it stores. A context (zipper) is the path of a descent.
\<close>

section \<open>The sorted association list\<close>

fun kv_insert :: "'k::linorder \<Rightarrow> 'v \<Rightarrow> ('k \<times> 'v) list \<Rightarrow> ('k \<times> 'v) list" where
  "kv_insert k v [] = [(k, v)]"
| "kv_insert k v (p # ps) =
     (if k < fst p then (k, v) # p # ps
      else if k = fst p then (k, v) # ps
      else p # kv_insert k v ps)"

lemma map_of_kv_insert: "map_of (kv_insert k v m) = (map_of m)(k \<mapsto> v)"
  by (induction k v m rule: kv_insert.induct) auto

lemma kv_insert_keys: "set (map fst (kv_insert k v m)) = insert k (set (map fst m))"
  by (induction k v m rule: kv_insert.induct) auto

lemma kv_insert_sorted: "ssorted (map fst m) \<Longrightarrow> ssorted (map fst (kv_insert k v m))"
proof (induction k v m rule: kv_insert.induct)
  case (2 k v p ps)
  show ?case
  proof (cases "fst p < k")
    case True
    moreover have "\<forall>x\<in>set (map fst (kv_insert k v ps)). fst p < x"
      unfolding kv_insert_keys using True 2 by auto
    ultimately show ?thesis using 2 by auto
  next
    case False
    with 2 show ?thesis by (auto dest: order.strict_trans)
  qed
qed simp

lemma kv_insert_append1:
  "\<forall>p\<in>set xs. fst p < k \<Longrightarrow> kv_insert k v (xs @ ys) = xs @ kv_insert k v ys"
  by (induction xs) auto

lemma kv_insert_append2:
  "\<forall>p\<in>set ys. k < fst p \<Longrightarrow> kv_insert k v (xs @ ys) = kv_insert k v xs @ ys"
  by (induction xs) (cases ys; auto)+

lemma length_kv_insert: "length (kv_insert k v m) \<in> {length m, Suc (length m)}"
  by (induction k v m rule: kv_insert.induct) auto

section \<open>Ghost trees\<close>

datatype gtree = GLeaf u32 "bytes list" "bytes list" | GNode u32 "bytes list" "gtree list"

fun root :: "gtree \<Rightarrow> u32" where
  "root (GLeaf p _ _) = p"
| "root (GNode p _ _) = p"

fun kids :: "gtree \<Rightarrow> gtree list" where
  "kids (GLeaf _ _ _) = []"
| "kids (GNode _ _ ts) = ts"

fun pids :: "gtree \<Rightarrow> u32 list" where
  "pids (GLeaf p _ _) = [p]"
| "pids (GNode p _ ts) = p # concat (map pids ts)"

fun kvs :: "gtree \<Rightarrow> (bytes \<times> bytes) list" where
  "kvs (GLeaf _ ks vs) = zip ks vs"
| "kvs (GNode _ _ ts) = concat (map kvs ts)"

text \<open>Separators and keys in order: a separator \<open>k\<close> is \<open>(k, 0)\<close> and a key \<open>k\<close> is \<open>(k, 1)\<close>, so that a
  separator comes just before an equal key.\<close>

fun ilv :: "(bytes \<times> nat) list list \<Rightarrow> bytes list \<Rightarrow> (bytes \<times> nat) list" where
  "ilv [] ks = []"
| "ilv (x # xs) [] = x @ ilv xs []"
| "ilv (x # xs) (k # ks) = x @ (k, 0) # ilv xs ks"

fun flat :: "gtree \<Rightarrow> (bytes \<times> nat) list" where
  "flat (GLeaf _ ks _) = map (\<lambda>k. (k, 1)) ks"
| "flat (GNode _ ks ts) = ilv (map flat ts) ks"

text \<open>Shape: leaves hold \<open>m\<close> to \<^verbatim>\<open>ORDER\<close> keys (\<open>m\<close> is \<^verbatim>\<open>DEGREE\<close> below the root), internal nodes one to
  three separators.\<close>

fun shape :: "nat \<Rightarrow> nat \<Rightarrow> gtree \<Rightarrow> bool" where
  "shape m 0 (GLeaf _ ks vs) = (length vs = length ks \<and> m \<le> length ks \<and> length ks \<le> ORDER)"
| "shape m (Suc h) (GNode _ ks ts) =
     (length ts = Suc (length ks) \<and> 1 \<le> length ks \<and> length ks \<le> ORDER - 1
      \<and> (\<forall>t\<in>set ts. shape DEGREE h t))"
| "shape m _ _ = False"

section \<open>Pages\<close>

record pnode =
  pn_keys :: "bytes list"
  pn_vals :: "bytes list"
  pn_children :: "u32 list"
  pn_internal :: bool
  pn_right :: u32
  pn_left :: u32

type_synonym pages = "u32 \<rightharpoonup> pnode"

definition content :: "pages \<Rightarrow> u32 \<Rightarrow> (bytes list \<times> bytes list \<times> u32 list \<times> bool) option" where
  "content P p = map_option (\<lambda>n. (pn_keys n, pn_vals n, pn_children n, pn_internal n)) (P p)"

definition links :: "pages \<Rightarrow> u32 \<Rightarrow> (u32 \<times> u32) option" where
  "links P p = map_option (\<lambda>n. (pn_left n, pn_right n)) (P p)"

fun rep :: "pages \<Rightarrow> gtree \<Rightarrow> bool" where
  "rep P (GLeaf p ks vs) = (content P p = Some (ks, vs, [], False))"
| "rep P (GNode p ks ts) =
     (content P p = Some (ks, [], map root ts, True) \<and> (\<forall>t\<in>set ts. rep P t))"

text \<open>The sibling pointers of one level, from left to right, between the ends \<open>l\<close> and \<open>r\<close>.\<close>

fun chain :: "pages \<Rightarrow> u32 \<Rightarrow> u32 list \<Rightarrow> u32 \<Rightarrow> bool" where
  "chain P l [] r = True"
| "chain P l [p] r = (links P p = Some (l, r))"
| "chain P l (p # q # ps) r = (links P p = Some (l, q) \<and> chain P p (q # ps) r)"

fun linked :: "pages \<Rightarrow> nat \<Rightarrow> gtree list \<Rightarrow> bool" where
  "linked P 0 F = chain P 0 (map root F) 0"
| "linked P (Suc h) F = (chain P 0 (map root F) 0 \<and> linked P h (concat (map kids F)))"

section \<open>Contexts\<close>

type_synonym frame = "u32 \<times> bytes list \<times> gtree list \<times> gtree list"
type_synonym ctx = "frame list"

fun plug :: "ctx \<Rightarrow> gtree \<Rightarrow> gtree" where
  "plug [] t = t"
| "plug ((p, ks, ls, rs) # c) t = plug c (GNode p ks (ls @ t # rs))"

fun flatA :: "ctx \<Rightarrow> (bytes \<times> nat) list" where
  "flatA [] = []"
| "flatA ((p, ks, ls, rs) # c) = flatA c @ ilv (map flat ls) (take (length ls) ks)"

fun flatB :: "ctx \<Rightarrow> (bytes \<times> nat) list" where
  "flatB [] = []"
| "flatB ((p, ks, ls, rs) # c) =
     (case drop (length ls) ks of [] \<Rightarrow> [] | k # ks' \<Rightarrow> (k, 0) # ilv (map flat rs) ks') @ flatB c"

fun kvA :: "ctx \<Rightarrow> (bytes \<times> bytes) list" where
  "kvA [] = []"
| "kvA ((p, ks, ls, rs) # c) = kvA c @ concat (map kvs ls)"

fun kvB :: "ctx \<Rightarrow> (bytes \<times> bytes) list" where
  "kvB [] = []"
| "kvB ((p, ks, ls, rs) # c) = concat (map kvs rs) @ kvB c"

fun wfc :: "nat \<Rightarrow> ctx \<Rightarrow> bool" where
  "wfc h [] = True"
| "wfc h ((p, ks, ls, rs) # c) =
     (length ks = length ls + length rs \<and> 1 \<le> length ks \<and> length ks \<le> ORDER - 1
      \<and> (\<forall>t\<in>set ls \<union> set rs. shape DEGREE h t) \<and> wfc (Suc h) c)"

fun ctx_pids :: "ctx \<Rightarrow> u32 list" where
  "ctx_pids [] = []"
| "ctx_pids ((p, ks, ls, rs) # c) = p # concat (map pids ls) @ concat (map pids rs) @ ctx_pids c"

fun rowl :: "ctx \<Rightarrow> gtree list" where
  "rowl [] = []"
| "rowl ((p, ks, ls, rs) # c) = concat (map kids (rowl c)) @ ls"

fun rowr :: "ctx \<Rightarrow> gtree list" where
  "rowr [] = []"
| "rowr ((p, ks, ls, rs) # c) = rs @ concat (map kids (rowr c))"

text \<open>The pages of a context: its own nodes, with \<open>q\<close> the page in the hole, and the trees on both sides.\<close>

fun repc :: "pages \<Rightarrow> u32 \<Rightarrow> ctx \<Rightarrow> bool" where
  "repc P q [] = True"
| "repc P q ((p, ks, ls, rs) # c) =
     (content P p = Some (ks, [], map root ls @ q # map root rs, True)
      \<and> (\<forall>t\<in>set ls \<union> set rs. rep P t) \<and> repc P p c)"

fun linkedc :: "pages \<Rightarrow> ctx \<Rightarrow> bool" where
  "linkedc P [] = True"
| "linkedc P ((p, ks, ls, rs) # c) =
     (chain P 0 (map root (rowl c) @ p # map root (rowr c)) 0 \<and> linkedc P c)"

section \<open>Lemmas\<close>

lemma ilv_append:
  "length xs \<le> length ks \<Longrightarrow>
   ilv (xs @ ys) ks = ilv xs (take (length xs) ks) @ ilv ys (drop (length xs) ks)"
proof (induction xs arbitrary: ks)
  case (Cons x xs)
  then show ?case by (cases ks) auto
qed simp

lemma ilv_Cons: "ilv (x # xs) ks = x @ (case ks of [] \<Rightarrow> ilv xs [] | k # ks' \<Rightarrow> (k, 0) # ilv xs ks')"
  by (cases ks) auto

lemma flat_plug:
  "wfc h c \<Longrightarrow> flat (plug c t) = flatA c @ flat t @ flatB c"
proof (induction c t arbitrary: h rule: plug.induct)
  case (2 p ks ls rs c t)
  then have len: "length ks = length ls + length rs" by simp
  have "ilv (map flat (ls @ t # rs)) ks
      = ilv (map flat ls) (take (length ls) ks)
        @ flat t @ (case drop (length ls) ks of [] \<Rightarrow> [] | k # ks' \<Rightarrow> (k, 0) # ilv (map flat rs) ks')"
    using len ilv_append [of "map flat ls" ks "map flat (t # rs)"]
    by (auto simp: ilv_Cons split: list.splits)
  with 2(1) [of "Suc h"] 2(2) show ?case by simp
qed simp

lemma kvs_plug: "kvs (plug c t) = kvA c @ kvs t @ kvB c"
  by (induction c t rule: plug.induct) auto

lemma root_plug: "c \<noteq> [] \<Longrightarrow> root (plug c t) = root (plug c t')"
proof (induction c arbitrary: t t')
  case (Cons f c)
  obtain p ks ls rs where f: "f = (p, ks, ls, rs)" by (cases f)
  show ?case using Cons.IH [of "GNode p ks (ls @ t # rs)" "GNode p ks (ls @ t' # rs)"]
    by (cases c) (simp_all add: f)
qed simp

lemma shape_plug:
  "shape 1 (h + length c) (plug c t) \<longleftrightarrow> shape (if c = [] then 1 else DEGREE) h t \<and> wfc h c"
proof (induction c t arbitrary: h rule: plug.induct)
  case (2 p ks ls rs c t)
  have "shape (if c = [] then 1 else DEGREE) (Suc h) (GNode p ks (ls @ t # rs)) =
    (shape DEGREE h t \<and> length ks = length ls + length rs \<and> 1 \<le> length ks \<and> length ks \<le> ORDER - 1
     \<and> (\<forall>t\<in>set ls \<union> set rs. shape DEGREE h t))"
    by auto
  with 2 [of "Suc h"] show ?case by auto
qed simp

lemma rep_plug: "rep P (plug c t) \<longleftrightarrow> rep P t \<and> repc P (root t) c"
  by (induction c t rule: plug.induct) auto

lemma set_pids_plug: "mset (pids (plug c t)) = mset (pids t) + mset (ctx_pids c)"
  by (induction c t rule: plug.induct) auto

lemma distinct_pids_plug: "distinct (pids (plug c t)) \<longleftrightarrow> distinct (pids t @ ctx_pids c)"
  using set_pids_plug [of c t] by (metis mset_append mset_eq_imp_distinct_iff)

lemma linked_plug:
  "linked P (h + length c) [plug c t] \<longleftrightarrow> linked P h (rowl c @ t # rowr c) \<and> linkedc P c"
proof -
  have "linked P (h + length c) (rowl d @ plug c t # rowr d) \<and> linkedc P d
        \<longleftrightarrow> linked P h (rowl (c @ d) @ t # rowr (c @ d)) \<and> linkedc P (c @ d)" for d
  proof (induction c t arbitrary: h rule: plug.induct)
    case (2 p ks ls rs c t)
    show ?case using 2 [of "Suc h"] by auto
  qed simp
  from this [of "[]"] show ?thesis by simp
qed

lemma root_in_pids: "root t \<in> set (pids t)"
  by (cases t) auto

lemma rep_cong:
  "(\<And>p. p \<in> set (pids t) \<Longrightarrow> content P p = content P' p) \<Longrightarrow> rep P t = rep P' t"
  by (induction t) auto

lemma repc_cong:
  "(\<And>p. p \<in> set (ctx_pids c) \<Longrightarrow> content P p = content P' p) \<Longrightarrow> repc P q c = repc P' q c"
proof (induction P q c rule: repc.induct)
  case (2 P q p ks ls rs c)
  moreover have "rep P t = rep P' t" if "t \<in> set ls \<union> set rs" for t
    by (rule rep_cong) (use that "2.prems" in auto)
  ultimately show ?case by auto
qed simp

text \<open>Pages outside a tree may change.\<close>

lemma rep_frame:
  "rep P t \<Longrightarrow> (\<And>x. x \<notin> S \<Longrightarrow> content P' x = content P x) \<Longrightarrow> set (pids t) \<inter> S = {} \<Longrightarrow> rep P' t"
  using rep_cong [of t P P'] by (metis disjoint_iff)

lemma repc_frame:
  "repc P q c \<Longrightarrow> (\<And>x. x \<notin> S \<Longrightarrow> content P' x = content P x) \<Longrightarrow> set (ctx_pids c) \<inter> S = {}
   \<Longrightarrow> repc P' q c"
  using repc_cong [of c P P'] by (metis disjoint_iff)

lemma chain_cong:
  "(\<And>p. p \<in> set ps \<Longrightarrow> links P p = links P' p) \<Longrightarrow> chain P l ps r = chain P' l ps r"
  by (induction P l ps r rule: chain.induct) auto

lemma chain_append:
  "chain P l (xs @ y # ys) r \<longleftrightarrow>
     chain P l xs y \<and> chain P (if xs = [] then l else last xs) (y # ys) r"
  by (induction P l xs y rule: chain.induct) auto

lemma kids_pids: "t' \<in> set (kids t) \<Longrightarrow> set (pids t') \<subseteq> set (pids t)"
  by (cases t) auto

lemma row_pids:
  "t \<in> set (rowl c) \<union> set (rowr c) \<Longrightarrow> set (pids t) \<subseteq> set (ctx_pids c)"
proof (induction c arbitrary: t rule: rowl.induct)
  case (2 p ks ls rs c)
  then show ?case using kids_pids by fastforce
qed simp

lemma content_root: "rep P t \<Longrightarrow> \<exists>n. P (root t) = Some n"
  by (cases t) (auto simp: content_def)

lemma rep_dom: "rep P t \<Longrightarrow> p \<in> set (pids t) \<Longrightarrow> p \<in> dom P"
  by (induction t) (auto simp: content_def)

lemma repc_dom: "repc P q c \<Longrightarrow> p \<in> set (ctx_pids c) \<Longrightarrow> p \<in> dom P"
  by (induction P q c rule: repc.induct) (auto simp: content_def dest: rep_dom)


section \<open>Rows, links and sizes\<close>

lemma kids_mset: "mset (concat (map pids (kids t))) \<subseteq># mset (pids t)"
  by (cases t) auto

lemma kids_row_mset: "mset (concat (map pids (concat (map kids ts)))) \<subseteq># mset (concat (map pids ts))"
  by (induction ts) (auto intro: subset_mset.add_mono kids_mset)

lemma row_mset: "mset (concat (map pids (rowl c @ rowr c))) \<subseteq># mset (ctx_pids c)"
proof (induction c rule: rowl.induct)
  case (2 p ks ls rs c)
  have "mset (concat (map pids (concat (map kids (rowl c @ rowr c))))) \<subseteq># mset (ctx_pids c)"
    using kids_row_mset 2 by (rule subset_mset.order_trans)
  then have "mset (concat (map pids ls)) + mset (concat (map pids rs))
      + mset (concat (map pids (concat (map kids (rowl c @ rowr c)))))
      \<subseteq># mset (concat (map pids ls)) + mset (concat (map pids rs)) + mset (ctx_pids c)"
    by (rule subset_mset.add_left_mono)
  then have "mset (concat (map pids (rowl ((p, ks, ls, rs) # c) @ rowr ((p, ks, ls, rs) # c))))
      \<subseteq># mset (concat (map pids ls)) + mset (concat (map pids rs)) + mset (ctx_pids c)"
    by (simp add: ac_simps)
  also have "\<dots> \<subseteq># mset (ctx_pids ((p, ks, ls, rs) # c))" by (simp add: ac_simps)
  finally show ?case .
qed simp

lemma roots_mset: "mset (map root ts) \<subseteq># mset (concat (map pids ts))"
proof (induction ts)
  case (Cons t ts)
  have "{#root t#} \<subseteq># mset (pids t)" using root_in_pids [of t] by simp
  from subset_mset.add_mono [OF this Cons.IH] show ?case by simp
qed simp

lemma distinct_sub_mset: "mset xs \<subseteq># mset ys \<Longrightarrow> distinct ys \<Longrightarrow> distinct xs"
  by (metis distinct_append ex_mset mset_append mset_eq_imp_distinct_iff mset_subset_eq_exists_conv)

lemma row_distinct:
  assumes "distinct (p # ctx_pids c)"
  shows "distinct (map root (rowl c) @ p # map root (rowr c))"
proof -
  have "mset (map root (rowl c @ rowr c)) \<subseteq># mset (ctx_pids c)"
    using roots_mset row_mset by (rule subset_mset.order_trans)
  then have "mset (map root (rowl c) @ p # map root (rowr c)) \<subseteq># mset (p # ctx_pids c)" by simp
  then show ?thesis using assms by (rule distinct_sub_mset)
qed

text \<open>The right neighbour of the page in the hole of a context, 0 at the end of the level.\<close>

definition right_of :: "ctx \<Rightarrow> u32" where
  "right_of c = (case rowr c of [] \<Rightarrow> 0 | t # _ \<Rightarrow> root t)"

definition left_of :: "ctx \<Rightarrow> u32" where
  "left_of c = (if rowl c = [] then 0 else root (last (rowl c)))"

lemma chain_hole:
  "chain P 0 (map root (rowl c) @ p # map root (rowr c)) 0 \<Longrightarrow> links P p = Some (left_of c, right_of c)"
  by (cases "rowr c") (auto simp: chain_append left_of_def right_of_def last_map)

text \<open>Splitting a page: \<open>q\<close> comes between \<open>p\<close> and its right neighbour.\<close>

lemma chain_relink_head:
  assumes "chain P l (y # ys) r" "distinct (y # ys)" "links P' y = Some (l', snd (the (links P y)))"
    and "\<And>x. x \<in> set ys \<Longrightarrow> links P' x = links P x"
  shows "chain P' l' (y # ys) r"
proof (cases ys)
  case Nil
  with assms show ?thesis by simp
next
  case (Cons z zs)
  have "chain P' y ys r" using assms(1) chain_cong [OF assms(4), of ys] Cons by simp
  with Cons assms(1,3) show ?thesis by simp
qed

lemma chain_split:
  assumes ch: "chain P l (xs @ p # ys) r" and d: "distinct (xs @ p # q # ys)"
    and p: "links P' p = Some (fst (the (links P p)), q)"
    and q: "links P' q = Some (p, snd (the (links P p)))"
    and y: "ys \<noteq> [] \<Longrightarrow> links P' (hd ys) = Some (q, snd (the (links P (hd ys))))"
    and o: "\<And>x. x \<in> set xs \<union> set (tl ys) \<Longrightarrow> links P' x = links P x"
  shows "chain P' l (xs @ p # q # ys) r"
proof -
  let ?l = "if xs = [] then l else last xs"
  have c1: "chain P l xs p" and c2: "chain P ?l (p # ys) r" using ch by (auto simp: chain_append)
  have "chain P' l xs p" using c1 o chain_cong [of xs P P'] by auto
  moreover have "chain P' ?l (p # q # ys) r"
  proof (cases ys)
    case Nil
    with c2 p q show ?thesis by simp
  next
    case (Cons z zs)
    have "chain P p (z # zs) r" using c2 Cons by simp
    then have "chain P' q (z # zs) r"
      by (rule chain_relink_head) (use d y o Cons in auto)
    with c2 p q Cons show ?thesis by simp
  qed
  ultimately show ?thesis by (simp add: chain_append)
qed

lemma linked_cong:
  "(\<And>p. p \<in> \<Union> (set ` pids ` set F) \<Longrightarrow> links P p = links P' p) \<Longrightarrow> linked P h F = linked P' h F"
proof (induction P h F rule: linked.induct)
  case (1 P F)
  have "chain P 0 (map root F) 0 = chain P' 0 (map root F) 0"
    by (rule chain_cong) (use 1 root_in_pids in auto)
  then show ?case by simp
next
  case (2 P h F)
  have "chain P 0 (map root F) 0 = chain P' 0 (map root F) 0"
    by (rule chain_cong) (use 2 root_in_pids in auto)
  moreover have "linked P h (concat (map kids F)) = linked P' h (concat (map kids F))"
    by (rule "2.IH") (use 2 kids_pids in force)
  ultimately show ?case by simp
qed

lemma linkedc_cong:
  "(\<And>p. p \<in> set (ctx_pids c) \<Longrightarrow> links P p = links P' p) \<Longrightarrow> linkedc P c = linkedc P' c"
proof (induction c)
  case (Cons f c)
  obtain p ks ls rs where f: "f = (p, ks, ls, rs)" by (cases f)
  have r: "root t \<in> set (ctx_pids c)" if "t \<in> set (rowl c) \<union> set (rowr c)" for t
    using row_pids [OF that] root_in_pids [of t] by blast
  have "chain P 0 (map root (rowl c) @ p # map root (rowr c)) 0
      = chain P' 0 (map root (rowl c) @ p # map root (rowr c)) 0"
    by (rule chain_cong) (use Cons.prems r f in auto)
  with Cons f show ?case by simp
qed simp

text \<open>A tree has no more pages than keys.\<close>

lemma pids_le_kvs: "shape DEGREE h t \<Longrightarrow> Suc (length (pids t)) \<le> length (kvs t)"
proof (induction "DEGREE" h t rule: shape.induct)
  case (2 h p ks ts)
  have "length (concat (map pids ts)) + length ts \<le> length (concat (map kvs ts))"
    if "\<forall>t\<in>set us. Suc (length (pids t)) \<le> length (kvs t)" "us = ts" for us
    using that by (induction us arbitrary: ts) (auto simp: algebra_simps)
  with 2 show ?case by auto
qed auto

lemma pids_le_kvs_root: "shape 1 h t \<Longrightarrow> length (pids t) \<le> length (kvs t)"
proof (cases t)
  case (GNode p ks ts)
  assume "shape 1 h t"
  with GNode have "shape DEGREE h t" by (cases h) auto
  then show ?thesis using pids_le_kvs by fastforce
qed (cases h; simp)

lemma height_lt_pids: "shape m h t \<Longrightarrow> h < length (pids t)"
proof (induction m h t rule: shape.induct)
  case (2 m h p ks ts)
  then obtain t ts' where "ts = t # ts'" by (cases ts) auto
  with 2 show ?case by fastforce
qed auto

end
