(* ===== verification/BtreeCache.thy ===== *)
theory BtreeCache
  imports BtreeSpec
begin

text \<open>
  What the B+ tree relies on of the page cache it is given (\<open>cache_ok\<close>, over an invariant of the
  cache state, the pages the state holds and the page of a frame), and the effect of each single
  step of the tree's code under it, as rules on \<^const>\<open>yields\<close>. The contract is that of an ideal cache: a node of any size can be stored,
  though a page has 8 KiB, and a page can always be fetched, though a cache of bounded size may run out of frames, as
  \<^verbatim>\<open>RangeSearch\<close> and an insertion that splits a node do not release all the frames they were given. The properties of the tree are about
  runs where the cache meets no such limit.
\<close>

section \<open>The contract of the cache\<close>

definition node_of :: "u32 \<Rightarrow> pnode \<Rightarrow> Node" where
  "node_of p n =
     \<lparr>n_Keys = pn_keys n, n_Children = (if pn_internal n then pn_children n else []),
      n_Leaf = \<not> pn_internal n, n_Values = (if pn_internal n then [] else pn_vals n),
      n_LeftSibling = pn_left n, n_RightSibling = pn_right n, n_PageId = p, n_lsn = []\<rparr>"

definition max_pages :: nat where
  "max_pages = 2 ^ 31 - 1"

definition cache_get_ok :: "('f, 's) CacheApi \<Rightarrow> ('s \<Rightarrow> bool) \<Rightarrow> ('s \<Rightarrow> pages) \<Rightarrow> ('f \<Rightarrow> u32) \<Rightarrow> bool" where
  "cache_get_ok C ci pg pid \<longleftrightarrow>
     (\<forall>s p n. ci s \<and> pg s p = Some n \<longrightarrow>
        (\<exists>f s'. cache_Get C p s = (Ok f, s') \<and> pid f = p \<and> ci s' \<and> pg s' = pg s))
     \<and> (\<forall>s f n. ci s \<and> pg s (pid f) = Some n \<longrightarrow>
        frame_Internal C f s = pn_internal n
        \<and> frame_GetMinPage C f s =
            Ok \<lparr>mp_Keys = pn_keys n, mp_Vals = pn_vals n, mp_Children = pn_children n,
                mp_PageId = pid f, mp_RightSibling = pn_right n, mp_LeftSibling = pn_left n\<rparr>)
     \<and> (\<forall>s f. ci s \<longrightarrow> frame_GetKey C f s = pid f)
     \<and> (\<forall>s p. ci s \<and> p \<in> dom (pg s) \<longrightarrow> 0 <s p)"

definition cache_put_ok :: "('f, 's) CacheApi \<Rightarrow> ('s \<Rightarrow> bool) \<Rightarrow> ('s \<Rightarrow> pages) \<Rightarrow> ('f \<Rightarrow> u32) \<Rightarrow> bool" where
  "cache_put_ok C ci pg pid \<longleftrightarrow>
     (\<forall>s f lsn ks vs cs r l n. ci s \<and> pg s (pid f) = Some n \<longrightarrow>
        (\<exists>s'. cache_SyncFrame C f lsn ks vs cs r l s = (Ok (), s') \<and> ci s'
           \<and> pg s' = (pg s)(pid f \<mapsto> \<lparr>pn_keys = ks, pn_vals = vs, pn_children = cs,
                                      pn_internal = pn_internal n, pn_right = r, pn_left = l\<rparr>)))
     \<and> (\<forall>s lsn ks vs isRoot. ci s \<and> card (dom (pg s)) < max_pages \<longrightarrow>
        (\<exists>f s'. cache_CreateNewEntry C lsn ks (Some vs) None isRoot s = (Ok f, s') \<and> ci s'
           \<and> pid f \<notin> dom (pg s)
           \<and> pg s' = (pg s)(pid f \<mapsto> \<lparr>pn_keys = ks, pn_vals = vs, pn_children = [],
                                      pn_internal = False, pn_right = 0, pn_left = 0\<rparr>)))
     \<and> (\<forall>s lsn ks cs isRoot. ci s \<and> card (dom (pg s)) < max_pages \<longrightarrow>
        (\<exists>f s'. cache_CreateNewEntry C lsn ks None (Some cs) isRoot s = (Ok f, s') \<and> ci s'
           \<and> pid f \<notin> dom (pg s)
           \<and> pg s' = (pg s)(pid f \<mapsto> \<lparr>pn_keys = ks, pn_vals = [], pn_children = cs,
                                      pn_internal = True, pn_right = 0, pn_left = 0\<rparr>)))"

definition cache_pin_ok :: "('f, 's) CacheApi \<Rightarrow> ('s \<Rightarrow> bool) \<Rightarrow> ('s \<Rightarrow> pages) \<Rightarrow> bool" where
  "cache_pin_ok C ci pg \<longleftrightarrow>
     (\<forall>s f d. ci s \<longrightarrow> (\<exists>s'. cache_ReleaseFrame C f d s = (Ok (), s') \<and> ci s' \<and> pg s' = pg s))
     \<and> (\<forall>s f. ci s \<longrightarrow> (\<exists>s'. cache_MarkFrameDirty C f s = (Ok (), s') \<and> ci s' \<and> pg s' = pg s))
     \<and> (\<forall>s f lsn. ci s \<longrightarrow>
          (\<exists>s'. frame_UpdatePageLSN C f lsn s = (Ok (), s') \<and> ci s' \<and> pg s' = pg s))"

definition cache_ok :: "('f, 's) CacheApi \<Rightarrow> ('s \<Rightarrow> bool) \<Rightarrow> ('s \<Rightarrow> pages) \<Rightarrow> ('f \<Rightarrow> u32) \<Rightarrow> bool" where
  "cache_ok C ci pg pid \<longleftrightarrow>
     cache_get_ok C ci pg pid \<and> cache_put_ok C ci pg pid \<and> cache_pin_ok C ci pg"

text \<open>A tree state whose cache holds the pages \<open>P\<close>, with root \<open>r\<close>, mutex \<open>mu\<close> and log \<open>w\<close>.\<close>

definition St :: "('s \<Rightarrow> bool) \<Rightarrow> ('s \<Rightarrow> pages) \<Rightarrow> pages \<Rightarrow> u32 \<Rightarrow> rwmutex \<Rightarrow> WAL \<Rightarrow> 's BTree \<Rightarrow> bool" where
  "St ci pg P r mu w bt \<longleftrightarrow>
     ci (bt_cache bt) \<and> pg (bt_cache bt) = P \<and> bt_Root bt = r \<and> bt_mu bt = mu \<and> bt_wal bt = w"

section \<open>Rules for single steps\<close>

lemma yields_tryErr: "yields m s (\<lambda>x. Q (Inr x)) \<Longrightarrow> yields (tryErr m) s Q"
  by (auto simp: yields_def tryErr_def split: prod.splits res.splits)

lemma yields_ignoreErr: "yields m s (\<lambda>x. Q ()) \<Longrightarrow> yields (ignoreErr m) s Q"
  by (auto simp: yields_def ignoreErr_def split: prod.splits res.splits)

lemma yields_on_cache:
  "yields (on_cache m) bt Q = yields m (bt_cache bt) (\<lambda>x c. Q x (bt\<lparr>bt_cache := c\<rparr>))"
  by (auto simp: yields_def on_cache_def split: prod.splits res.splits)

lemma yields_set_Root: "yields (set_Root r) bt Q = Q () (bt\<lparr>bt_Root := r\<rparr>)"
  by (simp add: yields_def set_Root_def)

lemma St_mu [simp]:
  "St ci pg P r mu w (bt\<lparr>bt_mu := m'\<rparr>) \<longleftrightarrow> m' = mu \<and> (\<exists>m. St ci pg P r m w bt)"
  by (auto simp: St_def)

lemma yields_locks:
  assumes "St ci pg P r free_mutex w bt"
  shows "(\<And>bt'. St ci pg P r \<lparr>readers = 0, writer = True\<rparr> w bt' \<Longrightarrow> Q () bt') \<Longrightarrow> yields (on_mu Lock) bt Q"
    and "(\<And>bt'. St ci pg P r \<lparr>readers = 1, writer = False\<rparr> w bt' \<Longrightarrow> Q () bt') \<Longrightarrow> yields (on_mu RLock) bt Q"
  using assms by (auto simp: yields_def on_mu_def Lock_def RLock_def St_def free_mutex_def)

lemma yields_unlocks:
  "St ci pg P r \<lparr>readers = 0, writer = True\<rparr> w bt \<Longrightarrow>
     (\<And>bt'. St ci pg P r free_mutex w bt' \<Longrightarrow> Q () bt') \<Longrightarrow> yields (on_mu Unlock) bt Q"
  "St ci pg P r \<lparr>readers = 1, writer = False\<rparr> w bt \<Longrightarrow>
     (\<And>bt'. St ci pg P r free_mutex w bt' \<Longrightarrow> Q () bt') \<Longrightarrow> yields (on_mu RUnlock) bt Q"
  by (auto simp: yields_def on_mu_def Unlock_def RUnlock_def St_def free_mutex_def)

lemma cache_okD:
  assumes "cache_ok C ci pg pid"
  shows "cache_get_ok C ci pg pid" "cache_put_ok C ci pg pid" "cache_pin_ok C ci pg"
  using assms by (simp_all add: cache_ok_def)

lemma cache_pos: "cache_ok C ci pg pid \<Longrightarrow> St ci pg P r mu w bt \<Longrightarrow> P p = Some n \<Longrightarrow> 0 <s p"
  unfolding cache_ok_def cache_get_ok_def St_def by blast

lemma yields_cacheI:
  assumes "m (bt_cache bt) = (Ok x, s')" "St ci pg P r mu w bt" "ci s'" "pg s' = P'"
    and "\<And>bt'. St ci pg P' r mu w bt' \<Longrightarrow> Q x bt'"
  shows "yields (on_cache m) bt Q"
  using assms(1-4) assms(5) [of "bt\<lparr>bt_cache := s'\<rparr>"] by (simp add: yields_def on_cache_def St_def)

lemma yields_Get:
  assumes "cache_ok C ci pg pid" "St ci pg P r mu w bt" "P p = Some n"
    and "\<And>f bt'. pid f = p \<Longrightarrow> St ci pg P r mu w bt' \<Longrightarrow> Q f bt'"
  shows "yields (on_cache (cache_Get C p)) bt Q"
proof -
  obtain f s' where "cache_Get C p (bt_cache bt) = (Ok f, s')" "pid f = p" "ci s'" "pg s' = P"
    using assms(2,3) cache_okD(1) [OF assms(1)] unfolding cache_get_ok_def St_def by blast
  with assms(2,4) show ?thesis by (auto intro: yields_cacheI)
qed

lemma yields_buildPage:
  assumes "cache_ok C ci pg pid" "St ci pg P r mu w bt" "P p = Some n"
    and "\<And>f bt'. pid f = p \<Longrightarrow> St ci pg P r mu w bt' \<Longrightarrow> Q (f, node_of p n) bt'"
  shows "yields (buildPage C p) bt Q"
proof -
  have "loadNode C f (bt_cache bt') = Ok (node_of p n)" if "pid f = p" "St ci pg P r mu w bt'" for f bt'
    using that assms(3) cache_okD(1) [OF assms(1)]
    by (auto simp: loadNode_def cache_get_ok_def St_def node_of_def)
  then have "yields (\<lambda>bt. (loadNode C f (bt_cache bt), bt)) bt' (\<lambda>x s'. Q (f, x) s')"
    if "pid f = p" "St ci pg P r mu w bt'" for f bt'
    using that assms(4) by (simp add: yields_def)
  then show ?thesis
    unfolding buildPage_def yields_bind yields_return
    by (intro yields_Get [OF assms(1-3)])
qed

lemma yields_Release:
  assumes "cache_ok C ci pg pid" "St ci pg P r mu w bt"
    and "\<And>bt'. St ci pg P r mu w bt' \<Longrightarrow> Q () bt'"
  shows "yields (ReleaseFrame C f) bt Q"
proof -
  obtain s' where "cache_ReleaseFrame C f False (bt_cache bt) = (Ok (), s')" "ci s'" "pg s' = P"
    using assms(2) cache_okD(3) [OF assms(1)] unfolding cache_pin_ok_def St_def by blast
  with assms(2,3) show ?thesis by (auto simp: ReleaseFrame_def intro: yields_cacheI)
qed

lemma yields_Release_opt:
  assumes "cache_ok C ci pg pid" "St ci pg P r mu w bt"
    and "\<And>bt'. St ci pg P r mu w bt' \<Longrightarrow> Q () bt'"
  shows "yields (case fo of None \<Rightarrow> returnS () | Some f \<Rightarrow> orPanic (ReleaseFrame C f)) bt Q"
  using assms yields_Release [OF assms(1,2)] by (cases fo) simp_all

lemma yields_UpdateLSN:
  assumes "cache_ok C ci pg pid" "St ci pg P r mu w bt"
    and "\<And>bt'. St ci pg P r mu w bt' \<Longrightarrow> Q () bt'"
  shows "yields (on_cache (frame_UpdatePageLSN C f lsn)) bt Q"
proof -
  obtain s' where "frame_UpdatePageLSN C f lsn (bt_cache bt) = (Ok (), s')" "ci s'" "pg s' = P"
    using assms(2) cache_okD(3) [OF assms(1)] unfolding cache_pin_ok_def St_def by blast
  with assms(2,3) show ?thesis by (auto intro: yields_cacheI)
qed

text \<open>The page a node is written back as.\<close>

definition pnode_of :: "bool \<Rightarrow> Node \<Rightarrow> pnode" where
  "pnode_of i n = \<lparr>pn_keys = n_Keys n, pn_vals = n_Values n, pn_children = n_Children n,
                   pn_internal = i, pn_right = n_RightSibling n, pn_left = n_LeftSibling n\<rparr>"

lemma cache_SyncD:
  assumes "cache_ok C ci pg pid" "ci s" "pg s (pid f) = Some n"
  shows "\<exists>s'. cache_SyncFrame C f lsn ks vs cs r l s = (Ok (), s') \<and> ci s'
           \<and> pg s' = (pg s)(pid f \<mapsto> \<lparr>pn_keys = ks, pn_vals = vs, pn_children = cs,
                                      pn_internal = pn_internal n, pn_right = r, pn_left = l\<rparr>)"
  by (rule cache_okD(2) [OF assms(1), unfolded cache_put_ok_def, THEN conjunct1, rule_format,
        OF conjI, OF assms(2,3)])

lemma yields_Sync:
  assumes "cache_ok C ci pg pid" "St ci pg P r mu w bt" "P (pid f) = Some n"
    and "\<And>bt'. St ci pg (P(pid f \<mapsto> pnode_of (pn_internal n) nd)) r mu w bt' \<Longrightarrow> Q () bt'"
  shows "yields (SyncNode C f lsn nd) bt Q"
proof -
  obtain s' where "cache_SyncFrame C f lsn (n_Keys nd) (n_Values nd) (n_Children nd)
      (n_RightSibling nd) (n_LeftSibling nd) (bt_cache bt) = (Ok (), s')" "ci s'"
    "pg s' = P(pid f \<mapsto> pnode_of (pn_internal n) nd)"
    using cache_SyncD [OF assms(1), of "bt_cache bt" f n] assms(2,3) unfolding St_def pnode_of_def by blast
  with assms(2,4) show ?thesis by (auto simp: SyncNode_def intro: yields_cacheI)
qed

lemma yields_assignFrame:
  assumes "cache_ok C ci pg pid" "St ci pg P r mu w bt" "card (dom P) < max_pages"
    and "n_Leaf nd \<Longrightarrow> n_Children nd = []" "\<not> n_Leaf nd \<Longrightarrow> n_Values nd = []"
    and "n_RightSibling nd = 0" "n_LeftSibling nd = 0"
    and "\<And>f bt'. pid f \<notin> dom P \<Longrightarrow> 0 <s pid f
           \<Longrightarrow> St ci pg (P(pid f \<mapsto> pnode_of (\<not> n_Leaf nd) nd)) r mu w bt'
           \<Longrightarrow> Q (f, nd\<lparr>n_PageId := pid f\<rparr>) bt'"
  shows "yields (assignFrame C lsn isRoot nd) bt Q"
proof -
  let ?m = "if n_Leaf nd then cache_CreateNewEntry C lsn (n_Keys nd) (Some (n_Values nd)) None isRoot
            else cache_CreateNewEntry C lsn (n_Keys nd) None (Some (n_Children nd)) isRoot"
  obtain f s' where m: "?m (bt_cache bt) = (Ok f, s')" "ci s'" "pid f \<notin> dom P"
    "pg s' = P(pid f \<mapsto> pnode_of (\<not> n_Leaf nd) nd)"
    using assms(2-7) cache_okD(2) [OF assms(1)]
    unfolding cache_put_ok_def St_def pnode_of_def by (cases "n_Leaf nd") (simp, metis)+
  have "St ci pg (P(pid f \<mapsto> pnode_of (\<not> n_Leaf nd) nd)) r mu w (bt\<lparr>bt_cache := s'\<rparr>)"
    using assms(2) m by (simp add: St_def)
  moreover from this have "0 <s pid f" by (rule cache_pos [OF assms(1)]) simp
  moreover have "frame_GetKey C f s' = pid f"
    using cache_okD(1) [OF assms(1)] m(2) by (auto simp: cache_get_ok_def)
  ultimately show ?thesis
    using m(1,3) assms(8) unfolding assignFrame_def yields_bind yields_on_cache
    by (simp add: yields_def)
qed

end
