(* ===== verification/BtreeSplit.thy ===== *)
theory BtreeSplit
  imports BtreeSpec
begin

text \<open>
  Splits on the ghost tree: what the page updates of an insertion do to the tree a set of pages
  represents. \<open>good\<close> is the invariant of a whole tree; \<open>two\<close> is the state in which the page in the hole
  of a context was split and its parent does not know the right half yet.
\<close>

section \<open>Levels of a context\<close>

text \<open>The pages of the levels above the hole: the path, and the other pages of the path's levels.\<close>

fun upper :: "ctx \<Rightarrow> u32 list" where
  "upper [] = []"
| "upper ((p, ks, ls, rs) # c) = p # map root (rowl c @ rowr c) @ upper c"

lemma pids_root_kids: "mset (pids t) = add_mset (root t) (mset (concat (map pids (kids t))))"
  by (cases t) auto

lemma pids_row: "mset (concat (map pids ts))
    = mset (map root ts) + mset (concat (map pids (concat (map kids ts))))"
  by (induction ts) (auto simp: pids_root_kids)

lemma ctx_levels: "mset (ctx_pids c) = mset (upper c) + mset (concat (map pids (rowl c @ rowr c)))"
proof (induction c rule: upper.induct)
  case (2 p ks ls rs c)
  have "mset (ctx_pids c) = mset (upper c) + (mset (map root (rowl c @ rowr c))
      + mset (concat (map pids (concat (map kids (rowl c @ rowr c))))))"
    unfolding 2 pids_row [of "rowl c @ rowr c"] ..
  then show ?case by (simp add: ac_simps)
qed simp

lemma distinct_levels:
  "distinct (ctx_pids c) \<longleftrightarrow> distinct (upper c @ concat (map pids (rowl c @ rowr c)))"
  using ctx_levels [of c] by (metis mset_append mset_eq_imp_distinct_iff)

lemma set_levels: "set (ctx_pids c) = set (upper c) \<union> \<Union> (set ` pids ` set (rowl c @ rowr c))"
  using ctx_levels [of c, THEN arg_cong [of _ _ set_mset]] by auto

lemma upper_row_disjoint:
  "distinct (ctx_pids c) \<Longrightarrow> t \<in> set (rowl c) \<union> set (rowr c) \<Longrightarrow> set (upper c) \<inter> set (pids t) = {}"
  unfolding distinct_levels by auto

lemma path_upper: "(p, ks, ls, rs) \<in> set c \<Longrightarrow> p \<in> set (upper c)"
  by (induction c rule: upper.induct) auto

lemma linkedc_upper:
  "(\<And>p. p \<in> set (upper c) \<Longrightarrow> links P p = links P' p) \<Longrightarrow> linkedc P c = linkedc P' c"
proof (induction c)
  case (Cons f c)
  obtain p ks ls rs where f: "f = (p, ks, ls, rs)" by (cases f)
  have "chain P 0 (map root (rowl c) @ p # map root (rowr c)) 0
      = chain P' 0 (map root (rowl c) @ p # map root (rowr c)) 0"
    by (rule chain_cong) (use Cons.prems f in auto)
  with Cons f show ?case by simp
qed simp

lemma right_of_row: "right_of c \<noteq> 0 \<Longrightarrow> \<exists>t\<in>set (rowr c). right_of c = root t"
  by (auto simp: right_of_def split: list.splits)

lemma right_of_notin_upper:
  "distinct (ctx_pids c) \<Longrightarrow> right_of c \<noteq> 0 \<Longrightarrow> right_of c \<notin> set (upper c)"
proof -
  assume "distinct (ctx_pids c)" "right_of c \<noteq> 0"
  moreover from this(2) obtain t where "t \<in> set (rowr c)" "right_of c = root t"
    using right_of_row by blast
  ultimately show ?thesis using upper_row_disjoint [of c t] root_in_pids [of t] by auto
qed

lemma right_of_in_ctx: "right_of c \<noteq> 0 \<Longrightarrow> right_of c \<in> set (ctx_pids c)"
proof -
  assume "right_of c \<noteq> 0"
  then obtain t where "t \<in> set (rowr c)" "right_of c = root t" using right_of_row by blast
  then show ?thesis using row_pids [of t c] root_in_pids [of t] by auto
qed

section \<open>Splitting a page\<close>

definition split_pages :: "u32 \<Rightarrow> pnode \<Rightarrow> u32 \<Rightarrow> pnode \<Rightarrow> pages \<Rightarrow> pages" where
  "split_pages p n1 q n2 P =
     (let P' = P(p \<mapsto> n1, q \<mapsto> n2); r = pn_right n2 in
      if r = 0 then P' else P'(r \<mapsto> (the (P r))\<lparr>pn_left := q\<rparr>))"

lemma split_pages_at:
  assumes "p \<noteq> q" "pn_right n2 \<noteq> p" "pn_right n2 \<noteq> q"
  shows "p \<noteq> 0 \<Longrightarrow> split_pages p n1 q n2 P p = Some n1"
    and "q \<noteq> 0 \<Longrightarrow> split_pages p n1 q n2 P q = Some n2"
    and "x \<noteq> p \<Longrightarrow> x \<noteq> q \<Longrightarrow> x \<noteq> pn_right n2 \<Longrightarrow> split_pages p n1 q n2 P x = P x"
    and "x = pn_right n2 \<Longrightarrow> x \<noteq> 0 \<Longrightarrow> split_pages p n1 q n2 P x = Some ((the (P x))\<lparr>pn_left := q\<rparr>)"
  using assms by (auto simp: split_pages_def Let_def)

lemma split_pages_dom:
  assumes "p \<in> dom P" "pn_right n2 \<noteq> 0 \<Longrightarrow> pn_right n2 \<in> dom P"
  shows "dom (split_pages p n1 q n2 P) = insert q (dom P)"
  using assms by (auto simp: split_pages_def Let_def)

lemma split_pages_content:
  assumes "p \<noteq> q" "pn_right n2 \<noteq> p" "pn_right n2 \<noteq> q" "x \<noteq> p" "x \<noteq> q"
    and "pn_right n2 \<noteq> 0 \<Longrightarrow> pn_right n2 \<in> dom P"
  shows "content (split_pages p n1 q n2 P) x = content P x"
  using assms by (cases "x = pn_right n2 \<and> x \<noteq> 0") (auto simp: content_def split_pages_def Let_def)

text \<open>The facts a split at the hole of a context relies on.\<close>

definition split_at :: "pages \<Rightarrow> ctx \<Rightarrow> u32 \<Rightarrow> pnode \<Rightarrow> u32 \<Rightarrow> bool" where
  "split_at P c p n q \<longleftrightarrow> P p = Some n \<and> p \<noteq> 0 \<and> q \<noteq> 0 \<and> q \<notin> dom P \<and> distinct (p # ctx_pids c)
     \<and> 0 \<notin> dom P \<and> set (ctx_pids c) \<subseteq> dom P
     \<and> chain P 0 (map root (rowl c) @ p # map root (rowr c)) 0"

lemma split_at_right:
  assumes "split_at P c p n q"
  shows "pn_left n = left_of c" "pn_right n = right_of c" "p \<noteq> q" "q \<notin> set (ctx_pids c)"
    "right_of c \<noteq> p" "right_of c \<noteq> q" "right_of c \<noteq> 0 \<Longrightarrow> right_of c \<in> dom P"
  using assms chain_hole [of P c p] right_of_in_ctx [of c] unfolding split_at_def
  by (auto simp: links_def)

lemma split_chain:
  assumes s: "split_at P c p n q" and n1: "pn_left n1 = pn_left n" "pn_right n1 = q"
    and n2: "pn_left n2 = p" "pn_right n2 = pn_right n"
  shows "chain (split_pages p n1 q n2 P) 0 (map root (rowl c) @ p # q # map root (rowr c)) 0"
proof -
  note r = split_at_right [OF s]
  let ?P = "split_pages p n1 q n2 P"
  note at = split_pages_at [of p q n2, unfolded n2 r(2), OF r(3,5,6)]
  have nz: "p \<noteq> 0" "q \<noteq> 0" and Pp: "P p = Some n" and qd: "q \<notin> dom P"
    and sub: "set (ctx_pids c) \<subseteq> dom P" "0 \<notin> dom P" and dc: "distinct (p # ctx_pids c)"
    using s by (auto simp: split_at_def)
  have rows: "root t \<in> set (ctx_pids c)" if "t \<in> set (rowl c) \<union> set (rowr c)" for t
    using row_pids [OF that] root_in_pids by blast
  have d: "distinct (map root (rowl c) @ p # map root (rowr c))"
    by (rule row_distinct) (use dc in simp)
  show ?thesis
  proof (rule chain_split [where P = P])
    show "chain P 0 (map root (rowl c) @ p # map root (rowr c)) 0" using s by (simp add: split_at_def)
    show "distinct (map root (rowl c) @ p # q # map root (rowr c))"
      using d r(3,4) rows by auto
    show "links ?P p = Some (fst (the (links P p)), q)"
      using at(1) nz(1) Pp n1 by (simp add: links_def)
    show "links ?P q = Some (p, snd (the (links P p)))"
      using at(2) nz(2) Pp n2 by (simp add: links_def)
  next
    assume ne: "map root (rowr c) \<noteq> []"
    then have hd: "hd (map root (rowr c)) = right_of c" by (auto simp: right_of_def split: list.splits)
    have "right_of c \<in> set (map root (rowr c))" using ne hd by (metis list.set_sel(1))
    then have "right_of c \<in> set (ctx_pids c)" using rows by auto
    then have "right_of c \<in> dom P" using sub(1) by blast
    moreover from this have "right_of c \<noteq> 0" using sub(2) by metis
    ultimately show "links ?P (hd (map root (rowr c)))
        = Some (q, snd (the (links P (hd (map root (rowr c))))))"
      using at(4) by (auto simp: links_def hd)
  next
    fix x
    assume x: "x \<in> set (map root (rowl c)) \<union> set (tl (map root (rowr c)))"
    then obtain t where t: "x = root t" "t \<in> set (rowl c) \<union> set (rowr c)"
      by (auto simp: map_tl [symmetric] dest: list.set_sel(2) [rotated])
        (metis list.sel(2) list.set_sel(2))
    then have "x \<in> set (ctx_pids c)" using rows by blast
    then have "x \<noteq> p" "x \<noteq> q" "x \<noteq> 0" using dc r(4) sub by auto
    moreover have "x \<noteq> right_of c"
    proof (cases "rowr c")
      case Nil
      then show ?thesis using \<open>x \<noteq> 0\<close> by (simp add: right_of_def)
    next
      case (Cons y ys)
      with d x show ?thesis by (auto simp: right_of_def)
    qed
    ultimately show "links ?P x = links P x" using at(3) by (simp add: links_def)
  qed
qed


section \<open>Whole trees and trees with a pending half\<close>

definition good :: "pages \<Rightarrow> nat \<Rightarrow> gtree \<Rightarrow> nat \<Rightarrow> bool" where
  "good P h t g \<longleftrightarrow> shape 1 h t \<and> rep P t \<and> ssorted (flat t) \<and> distinct (pids t) \<and> linked P h [t]
     \<and> 0 \<notin> dom P \<and> card (dom P) \<le> length (pids t) + g"

definition two :: "pages \<Rightarrow> nat \<Rightarrow> ctx \<Rightarrow> gtree \<Rightarrow> bytes \<Rightarrow> gtree \<Rightarrow> nat \<Rightarrow> bool" where
  "two P h c t1 k t2 g \<longleftrightarrow> shape DEGREE h t1 \<and> shape DEGREE h t2 \<and> wfc h c
     \<and> rep P t1 \<and> rep P t2 \<and> repc P (root t1) c
     \<and> ssorted (flatA c @ flat t1 @ (k, 0) # flat t2 @ flatB c)
     \<and> distinct (pids t1 @ pids t2 @ ctx_pids c)
     \<and> linked P h (rowl c @ t1 # t2 # rowr c) \<and> linkedc P c
     \<and> 0 \<notin> dom P \<and> card (dom P) \<le> length (pids t1 @ pids t2 @ ctx_pids c) + g"

lemma length_pids_plug: "length (pids (plug c t)) = length (pids t) + length (ctx_pids c)"
  using set_pids_plug [of c t, THEN arg_cong [of _ _ size]] by simp

text \<open>A whole tree, seen from the hole of a context.\<close>

lemma good_plug:
  "good P (h + length c) (plug c t) g \<longleftrightarrow>
     shape (if c = [] then 1 else DEGREE) h t \<and> wfc h c \<and> rep P t \<and> repc P (root t) c
     \<and> ssorted (flatA c @ flat t @ flatB c) \<and> distinct (pids t @ ctx_pids c)
     \<and> linked P h (rowl c @ t # rowr c) \<and> linkedc P c
     \<and> 0 \<notin> dom P \<and> card (dom P) \<le> length (pids t) + length (ctx_pids c) + g"
  unfolding good_def shape_plug rep_plug distinct_pids_plug linked_plug length_pids_plug
  by (cases "wfc h c") (auto simp: flat_plug)

lemmas good_plug0 = good_plug [where h = 0, unfolded add_0]

text \<open>The parent with the promoted key and the new child.\<close>

definition absorb :: "bytes list \<Rightarrow> nat \<Rightarrow> bytes \<Rightarrow> bytes list" where
  "absorb ks i k = take i ks @ k # drop i ks"

lemma length_absorb [simp]: "i \<le> length ks \<Longrightarrow> length (absorb ks i k) = Suc (length ks)"
  by (simp add: absorb_def)

lemma flat_absorb:
  assumes "length ks = length ls + length rs"
  shows "ilv (map flat (ls @ t1 # t2 # rs)) (absorb ks (length ls) k)
    = ilv (map flat ls) (take (length ls) ks) @ flat t1 @ (k, 0) # flat t2
      @ (case drop (length ls) ks of [] \<Rightarrow> [] | k # ks' \<Rightarrow> (k, 0) # ilv (map flat rs) ks')"
proof -
  have "ilv (map flat (ls @ t1 # t2 # rs)) (absorb ks (length ls) k)
     = ilv (map flat ls) (take (length ls) ks) @ ilv (map flat (t1 # t2 # rs)) (k # drop (length ls) ks)"
    using ilv_append [of "map flat ls" "absorb ks (length ls) k" "map flat (t1 # t2 # rs)"] assms
    by (simp add: absorb_def)
  then show ?thesis using assms by (auto simp: ilv_Cons split: list.splits)
qed

lemma ilv_split:
  "m < length ks \<Longrightarrow> length ks < length xs \<Longrightarrow>
   ilv xs ks = ilv (take (Suc m) xs) (take m ks) @ (ks ! m, 0) # ilv (drop (Suc m) xs) (drop (Suc m) ks)"
proof (induction m arbitrary: xs ks)
  case 0
  then show ?case by (cases xs; cases ks) auto
next
  case (Suc m)
  then show ?case by (cases xs; cases ks) auto
qed

lemma two_merged:
  assumes "two P h ((p, ks, ls, rs) # c) t1 k t2 g"
  defines "ts \<equiv> ls @ t1 # t2 # rs" and "ks' \<equiv> absorb ks (length ls) k"
  shows "ssorted (flatA c @ ilv (map flat ts) ks' @ flatB c)" "length ts = Suc (length ks')"
    "length ks' = Suc (length ks)" "1 \<le> length ks" "length ks \<le> 3" "\<forall>t\<in>set ts. shape DEGREE h t"
    "\<forall>t\<in>set ts. rep P t" "distinct (p # concat (map pids ts) @ ctx_pids c)"
    "concat (map kids (rowl c)) @ ts @ concat (map kids (rowr c))
       = rowl ((p, ks, ls, rs) # c) @ t1 # t2 # rowr ((p, ks, ls, rs) # c)"
    "concat (map kvs ts) = concat (map kvs ls) @ kvs t1 @ kvs t2 @ concat (map kvs rs)"
    "card (dom P) \<le> Suc (length (concat (map pids ts) @ ctx_pids c)) + g"
proof -
  have len: "length ks = length ls + length rs" using assms(1) by (simp add: two_def)
  show "ssorted (flatA c @ ilv (map flat ts) ks' @ flatB c)"
    using assms(1) unfolding ts_def ks'_def flat_absorb [OF len] by (simp add: two_def)
qed (use assms(1) in \<open>auto simp: two_def ts_def ks'_def\<close>)

lemma two_absorbed:
  assumes tw: "two P h ((p, ks, ls, rs) # c) t1 k t2 g" and sm: "length ks < 3" and Pp: "P p = Some n"
  defines "ts \<equiv> ls @ t1 # t2 # rs" and "ks' \<equiv> absorb ks (length ls) k"
  assumes n': "pn_keys n' = ks'" "pn_vals n' = []" "pn_children n' = map root ts" "pn_internal n'"
    "pn_left n' = pn_left n" "pn_right n' = pn_right n"
  shows "good (P(p \<mapsto> n')) (Suc h + length c) (plug c (GNode p ks' ts)) g"
proof -
  let ?P = "P(p \<mapsto> n')"
  note m = two_merged [OF tw, folded ts_def ks'_def]
  have lk: "links ?P x = links P x" for x using Pp n' by (simp add: links_def)
  have ct: "content ?P x = content P x" if "x \<noteq> p" for x using that by (simp add: content_def)
  have "rep ?P t" if "t \<in> set ts" for t
    by (rule rep_frame [of P t "{p}"]) (use m(7,8) ct that in auto)
  moreover have "content ?P p = Some (ks', [], map root ts, True)" using n' by (simp add: content_def)
  moreover have "repc ?P p c"
    by (rule repc_frame [of P p c "{p}"]) (use tw ct in \<open>auto simp: two_def\<close>)
  moreover have "linked ?P (Suc h) (rowl c @ GNode p ks' ts # rowr c)"
  proof -
    have "chain P 0 (map root (rowl c) @ p # map root (rowr c)) 0" using tw by (simp add: two_def)
    moreover have "linked P h (concat (map kids (rowl c)) @ ts @ concat (map kids (rowr c)))"
      using tw unfolding m(9) by (simp add: two_def)
    ultimately show ?thesis
      using chain_cong [of _ P ?P] linked_cong [of _ P ?P] lk by simp
  qed
  moreover have "linkedc ?P c" using tw linkedc_cong [of c P ?P] lk by (simp add: two_def)
  moreover have "dom ?P = dom P" using Pp by auto
  moreover have "0 \<notin> dom P" using tw by (simp add: two_def)
  moreover have "wfc (Suc h) c" using tw by (simp add: two_def)
  ultimately show ?thesis
    unfolding good_plug using m sm by auto
qed

lemma two_root:
  assumes tw: "two P h [] t1 k t2 g" and q: "q \<notin> dom P" "q \<noteq> 0"
    and n': "pn_keys n' = [k]" "pn_vals n' = []" "pn_children n' = [root t1, root t2]" "pn_internal n'"
    "pn_left n' = 0" "pn_right n' = 0"
  shows "good (P(q \<mapsto> n')) (Suc h) (GNode q [k] [t1, t2]) g"
proof -
  let ?P = "P(q \<mapsto> n')"
  have r: "rep P t1" "rep P t2" using tw by (auto simp: two_def)
  have ne: "x \<noteq> q" if "x \<in> set (pids t1) \<union> set (pids t2)" for x
    using that r rep_dom q(1) by blast
  have "rep ?P t1" "rep ?P t2"
    using r ne rep_cong [of t1 P ?P] rep_cong [of t2 P ?P] by (auto simp: content_def)
  moreover have "linked ?P h [t1, t2]"
    using tw ne linked_cong [of "[t1, t2]" P ?P h] by (auto simp: links_def two_def)
  moreover have "card (dom ?P) = Suc (card (dom P))" using q(1) by simp
  moreover have "q \<notin> set (pids t1) \<union> set (pids t2)" using ne by blast
  ultimately show ?thesis
    using tw q n' by (auto simp: good_def two_def content_def links_def)
qed


text \<open>A split changes only the page, the new page and the left link of the right neighbour.\<close>

lemma split_agree:
  assumes s: "split_at P c p n q" and "pn_right n2 = pn_right n"
    and "x \<in> dom P" "x \<noteq> p" "right_of c \<noteq> 0 \<Longrightarrow> x \<noteq> right_of c"
  shows "split_pages p n1 q n2 P x = P x"
proof -
  note r = split_at_right [OF s]
  have "x \<noteq> q" "x \<noteq> 0" using assms(3) s unfolding split_at_def by (metis, metis)
  with assms(4,5) have "x \<noteq> right_of c" by metis
  with \<open>x \<noteq> q\<close> assms(2,4) r show ?thesis by (intro split_pages_at(3)) auto
qed

lemma split_content:
  assumes s: "split_at P c p n q" and "pn_right n2 = pn_right n"
  shows "x \<notin> {p, q} \<Longrightarrow> content (split_pages p n1 q n2 P) x = content P x"
    and "split_pages p n1 q n2 P p = Some n1" "split_pages p n1 q n2 P q = Some n2"
    and "dom (split_pages p n1 q n2 P) = insert q (dom P)"
proof -
  note r = split_at_right [OF s]
  have nz: "p \<noteq> 0" "q \<noteq> 0" and "p \<in> dom P" using s by (auto simp: split_at_def)
  have n2: "pn_right n2 \<noteq> p" "pn_right n2 \<noteq> q" "pn_right n2 \<noteq> 0 \<Longrightarrow> pn_right n2 \<in> dom P"
    using r assms(2) by auto
  show "x \<notin> {p, q} \<Longrightarrow> content (split_pages p n1 q n2 P) x = content P x"
    by (rule split_pages_content) (use r n2 in auto)
  show "split_pages p n1 q n2 P p = Some n1" "split_pages p n1 q n2 P q = Some n2"
    using split_pages_at(1,2) [OF r(3) n2(1,2)] nz by blast+
  show "dom (split_pages p n1 q n2 P) = insert q (dom P)"
    by (rule split_pages_dom) (use n2 \<open>p \<in> dom P\<close> in auto)
qed

lemma split_linkedc:
  assumes s: "split_at P c p n q" and n2: "pn_right n2 = pn_right n" and "linkedc P c"
  shows "linkedc (split_pages p n1 q n2 P) c"
proof -
  have "split_pages p n1 q n2 P x = P x" if x: "x \<in> set (upper c)" for x
  proof (rule split_agree [OF s n2])
    have *: "x \<in> set (ctx_pids c)" using x set_levels by blast
    then show "x \<in> dom P" "x \<noteq> p" using s by (auto simp: split_at_def)
    show "right_of c \<noteq> 0 \<Longrightarrow> x \<noteq> right_of c"
      using right_of_notin_upper [of c] x s by (auto simp: split_at_def)
  qed
  then have "linkedc P c = linkedc (split_pages p n1 q n2 P) c"
    by (intro linkedc_upper) (simp add: links_def)
  with assms(3) show ?thesis by simp
qed

lemma two_lower:
  assumes tw: "two P h ((p, ks, ls, rs) # c) t1 k t2 g"
    and t: "t \<in> set (rowl ((p, ks, ls, rs) # c) @ t1 # t2 # rowr ((p, ks, ls, rs) # c))"
    and x: "x \<in> set (pids t)"
  shows "x \<in> dom P" "x \<noteq> p" "right_of c \<noteq> 0 \<Longrightarrow> x \<noteq> right_of c"
proof -
  define d where "d = (p, ks, ls, rs) # c"
  have dd: "distinct (ctx_pids d)" and dt: "set (pids t1) \<inter> set (ctx_pids d) = {}" "set (pids t2) \<inter> set (ctx_pids d) = {}"
    and rp: "rep P t1" "rep P t2" "repc P (root t1) d"
    using tw unfolding two_def distinct_append d_def [symmetric] by auto
  have us: "set (upper d) \<subseteq> set (ctx_pids d)" using set_levels [of d] by simp
  consider "t = t1" | "t = t2" | "t \<in> set (rowl d) \<union> set (rowr d)"
    using t unfolding d_def [symmetric] by auto
  then have "x \<in> dom P \<and> x \<notin> set (upper d)"
  proof cases
    case 1
    then show ?thesis using rep_dom [OF rp(1)] dt(1) us x by blast
  next
    case 2
    then show ?thesis using rep_dom [OF rp(2)] dt(2) us x by blast
  next
    case 3
    then show ?thesis using upper_row_disjoint [OF dd 3] row_pids [OF 3] repc_dom [OF rp(3)] x by blast
  qed
  moreover have "p \<in> set (upper d)" by (simp add: d_def)
  moreover have "right_of c \<noteq> 0 \<Longrightarrow> right_of c \<in> set (upper d)"
    using right_of_row [of c] by (auto simp: d_def)
  ultimately show "x \<in> dom P" "x \<noteq> p" "right_of c \<noteq> 0 \<Longrightarrow> x \<noteq> right_of c" by metis+
qed

lemma split_linked:
  assumes tw: "two P h ((p, ks, ls, rs) # c) t1 k t2 g"
    and s: "split_at P c p n q" and n2: "pn_right n2 = pn_right n"
  shows "linked (split_pages p n1 q n2 P) h
           (rowl ((p, ks, ls, rs) # c) @ t1 # t2 # rowr ((p, ks, ls, rs) # c))"
proof -
  let ?F = "rowl ((p, ks, ls, rs) # c) @ t1 # t2 # rowr ((p, ks, ls, rs) # c)"
  have "split_pages p n1 q n2 P x = P x" if "x \<in> \<Union> (set ` pids ` set ?F)" for x
  proof -
    from that obtain t where "t \<in> set ?F" "x \<in> set (pids t)" by blast
    from split_agree [OF s n2 two_lower [OF tw this]] show ?thesis .
  qed
  then have "linked P h ?F = linked (split_pages p n1 q n2 P) h ?F"
    by (intro linked_cong) (simp add: links_def)
  moreover have "linked P h ?F" using tw unfolding two_def by blast
  ultimately show ?thesis by simp
qed

lemma two_split_at:
  assumes "two P h ((p, ks, ls, rs) # c) t1 k t2 g" "P p = Some n" "q \<notin> dom P" "q \<noteq> 0"
  shows "split_at P c p n q"
proof -
  have "p \<noteq> 0" using assms by (auto simp: two_def)
  moreover have "set (ctx_pids c) \<subseteq> dom P" using assms(1) by (auto simp: two_def dest: repc_dom)
  ultimately show ?thesis using assms unfolding split_at_def two_def by simp
qed

lemma two_split:
  assumes tw: "two P h ((p, ks, ls, rs) # c) t1 k t2 g" and full: "length ks = 3"
    and Pp: "P p = Some n" and q: "q \<notin> dom P" "q \<noteq> 0"
  defines "ts \<equiv> ls @ t1 # t2 # rs" and "ks' \<equiv> absorb ks (length ls) k"
  assumes n1: "content [p \<mapsto> n1] p = Some (take 2 ks', [], map root (take 3 ts), True)"
      "pn_left n1 = pn_left n" "pn_right n1 = q"
    and n2: "content [q \<mapsto> n2] q = Some (drop 3 ks', [], map root (drop 3 ts), True)"
      "pn_left n2 = p" "pn_right n2 = pn_right n"
  shows "two (split_pages p n1 q n2 P) (Suc h) c (GNode p (take 2 ks') (take 3 ts)) (ks' ! 2)
           (GNode q (drop 3 ks') (drop 3 ts)) g"
proof -
  let ?P = "split_pages p n1 q n2 P"
  let ?t1 = "GNode p (take 2 ks') (take 3 ts)" and ?t2 = "GNode q (drop 3 ks') (drop 3 ts)"
  note m = two_merged [OF tw, folded ts_def ks'_def]
  note s = two_split_at [OF tw Pp q]
  note ct = split_content [OF s n2(3)]
  have sub: "set (ctx_pids c) \<subseteq> dom P" and rc: "repc P p c" and lc: "linkedc P c" and z: "0 \<notin> dom P"
    and wc: "wfc (Suc h) c"
    using s tw by (simp_all add: split_at_def two_def)
  have tsd: "set (pids t) \<subseteq> dom P" if "t \<in> set ts" for t using m(7) that rep_dom by blast
  have rts: "rep ?P t" if "t \<in> set ts" for t
    by (rule rep_frame [of P t "{p, q}", OF _ ct(1)]) (use m(7,8) tsd [OF that] q(1) that in auto)
  have rep: "rep ?P ?t1" "rep ?P ?t2"
    using ct(2,3) n1(1) n2(1) rts by (auto simp: content_def dest: in_set_takeD in_set_dropD)
  have rc': "repc ?P p c"
    by (rule repc_frame [of P p c "{p, q}", OF rc ct(1)]) (use m(8) sub q(1) in auto)
  have "concat (map kids (rowl c @ ?t1 # ?t2 # rowr c))
      = rowl ((p, ks, ls, rs) # c) @ t1 # t2 # rowr ((p, ks, ls, rs) # c)"
    unfolding m(9) [symmetric] by simp
  moreover have "map root (rowl c @ ?t1 # ?t2 # rowr c) = map root (rowl c) @ p # q # map root (rowr c)"
    by simp
  ultimately have lk: "linked ?P (Suc h) (rowl c @ ?t1 # ?t2 # rowr c)"
    using split_linked [OF tw s n2(3)] split_chain [OF s n1(2,3) n2(2,3)]
    unfolding linked.simps by metis
  have srt: "ssorted (flatA c @ flat ?t1 @ (ks' ! 2, 0) # flat ?t2 @ flatB c)"
    using m(1) ilv_split [of 2 ks' "map flat ts"] m(2,3) full
    by (simp add: take_map drop_map numeral_3_eq_3)
  have tsplit: "concat (map pids ts) = concat (map pids (take 3 ts)) @ concat (map pids (drop 3 ts))"
    by (metis append_take_drop_id concat_append map_append)
  have "q \<notin> set (concat (map pids ts) @ ctx_pids c)" using tsd sub q(1) by auto
  then have ds: "distinct (pids ?t1 @ pids ?t2 @ ctx_pids c)"
    using m(8) Pp q(1) unfolding tsplit by auto
  have "card (dom ?P) \<le> length (pids ?t1 @ pids ?t2 @ ctx_pids c) + g"
    using m(11) q(1) ct(4) unfolding tsplit by simp
  moreover have "shape DEGREE (Suc h) ?t1" "shape DEGREE (Suc h) ?t2"
    using m(2,3,6) full by (auto dest: in_set_takeD in_set_dropD)
  ultimately show ?thesis
    using rep rc' lk srt ds z q(2) ct(4) wc split_linkedc [OF s n2(3) lc] by (simp add: two_def)
qed


section \<open>Insertion at a leaf\<close>

lemma set_ilv: "x \<in> set xs \<Longrightarrow> set x \<subseteq> set (ilv xs ks)"
  by (induction xs ks rule: ilv.induct) auto

lemma kvs_flat: "(k, v) \<in> set (kvs t) \<Longrightarrow> (k, 1) \<in> set (flat t)"
proof (induction t)
  case (GLeaf p ks vs)
  then show ?case by (auto dest: set_zip_leftD)
next
  case (GNode p ks ts)
  then obtain t where "t \<in> set ts" "(k, 1) \<in> set (flat t)" by auto
  then show ?case using set_ilv [of "flat t" "map flat ts" ks] by auto
qed

lemma kvA_flatA: "(k, v) \<in> set (kvA c) \<Longrightarrow> (k, 1) \<in> set (flatA c)"
proof (induction c rule: kvA.induct)
  case (2 p ks ls rs c)
  show ?case
  proof (cases "(k, v) \<in> set (kvA c)")
    case False
    with 2 obtain t where "t \<in> set ls" "(k, v) \<in> set (kvs t)" by auto
    then show ?thesis using kvs_flat set_ilv [of "flat t" "map flat ls" "take (length ls) ks"] by auto
  qed (use 2 in auto)
qed simp

lemma kvB_flatB: "wfc h c \<Longrightarrow> (k, v) \<in> set (kvB c) \<Longrightarrow> (k, 1) \<in> set (flatB c)"
proof (induction c arbitrary: h rule: kvB.induct)
  case (2 p ks ls rs c)
  show ?case
  proof (cases "(k, v) \<in> set (kvB c)")
    case True
    with 2 show ?thesis by auto
  next
    case False
    with 2 obtain t where t: "t \<in> set rs" "(k, v) \<in> set (kvs t)" by auto
    with 2 obtain k' ks' where "drop (length ls) ks = k' # ks'" by (cases "drop (length ls) ks") auto
    with t show ?thesis using kvs_flat set_ilv [of "flat t" "map flat rs" ks'] by auto
  qed
qed simp

text \<open>The key belongs in the hole.\<close>

definition in_hole :: "ctx \<Rightarrow> bytes \<Rightarrow> bool" where
  "in_hole c k \<longleftrightarrow> (\<forall>x\<in>set (flatA c). x < (k, 1)) \<and> (\<forall>x\<in>set (flatB c). (k, 1) < x)"

lemma in_hole_insert:
  assumes "in_hole c k" "wfc h c"
  shows "kv_insert k v (kvA c @ m @ kvB c) = kvA c @ kv_insert k v m @ kvB c"
proof -
  have "fst x < k" if "x \<in> set (kvA c)" for x
    using assms(1) kvA_flatA [of "fst x" "snd x" c] that by (fastforce simp: in_hole_def)
  moreover have "k < fst x" if "x \<in> set (kvB c)" for x
    using assms kvB_flatB [of h c "fst x" "snd x"] that by (fastforce simp: in_hole_def)
  ultimately show ?thesis by (simp add: kv_insert_append1 kv_insert_append2)
qed

lemma in_hole_lookup:
  assumes "in_hole c k" "wfc h c"
  shows "map_of (kvA c @ m @ kvB c) k = map_of m k"
proof -
  have "k \<notin> fst ` set (kvA c)" using assms(1) kvA_flatA by (fastforce simp: in_hole_def)
  then have "map_of (kvA c) k = None" by (simp add: map_of_eq_None_iff)
  moreover have "k \<notin> fst ` set (kvB c)" using assms kvB_flatB by (fastforce simp: in_hole_def)
  then have "map_of (kvB c) k = None" by (simp add: map_of_eq_None_iff)
  ultimately show ?thesis by (auto simp: map_add_def split: option.splits)
qed

lemma ssorted_flat_keys: "ssorted (map (\<lambda>k. (k, 1::nat)) ks) \<longleftrightarrow> ssorted (ks :: bytes list)"
  by (induction ks) auto

lemma ssorted_insert:
  assumes "ssorted (xs @ y # ys)" "xs \<noteq> []" "last xs < z" "z < (y :: 'a :: linorder)"
  shows "ssorted (xs @ z # y # ys)"
proof -
  have "x \<le> last xs" if "x \<in> set xs" for x
    using assms(1) that by (induction xs) (auto simp: sorted_wrt_append intro: less_imp_le)
  then have "x < z" if "x \<in> set xs" for x using assms(3) that by fastforce
  with assms show ?thesis by (auto simp: sorted_wrt_append intro: order.strict_trans)
qed

lemma separator_sorted:
  fixes ks :: "bytes list"
  assumes srt: "ssorted (A @ map (\<lambda>k. (k, 1)) ks @ B)" and i: "0 < i" "i < length ks"
  shows "ssorted (A @ map (\<lambda>k. (k, 1)) (take i ks) @ (ks ! i, 0::nat) # map (\<lambda>k. (k, 1)) (drop i ks) @ B)"
proof -
  let ?f = "\<lambda>k. (k, 1::nat)"
  have ne: "take i ks \<noteq> []" using i by auto
  have d: "drop i ks = ks ! i # drop (Suc i) ks" using i(2) by (simp add: Cons_nth_drop_Suc)
  have "map ?f ks = map ?f (take i ks) @ map ?f (drop i ks)" by (simp flip: map_append)
  then have *: "ssorted ((A @ map ?f (take i ks)) @ ?f (ks ! i) # map ?f (drop (Suc i) ks) @ B)"
    using srt d by simp
  then have "\<forall>x\<in>set (map ?f (take i ks)). x < ?f (ks ! i)"
    unfolding sorted_wrt_append set_append list.set by blast
  then have "?f (last (take i ks)) < ?f (ks ! i)" using last_in_set [OF ne] by auto
  then have "last (map ?f (take i ks)) < (ks ! i, 0)" by (simp add: last_map [OF ne])
  then show ?thesis using ssorted_insert [OF *, of "(ks ! i, 0)"] ne d by simp
qed

lemma leaf_sorted:
  assumes "ssorted (flatA c @ map (\<lambda>k. (k, 1)) ks @ flatB c)" "in_hole c k" "length vs = length ks"
  shows "ssorted (flatA c @ map (\<lambda>k. (k, 1)) (map fst (kv_insert k v (zip ks vs))) @ flatB c)"
proof -
  let ?ks = "map fst (kv_insert k v (zip ks vs))"
  have st: "set ?ks = insert k (set ks)" using kv_insert_keys [of k v "zip ks vs"] assms(3) by simp
  have "ssorted ks" using assms(1) by (simp add: sorted_wrt_append ssorted_flat_keys del: One_nat_def)
  then have "ssorted ?ks" using kv_insert_sorted [of "zip ks vs" k v] assms(3) by simp
  moreover have "x < (k', 1)" if "x \<in> set (flatA c)" "k' \<in> set ?ks" for x k'
    using that assms(1,2) unfolding st by (auto simp: sorted_wrt_append in_hole_def)
  moreover have "(k', 1) < x" if "x \<in> set (flatB c)" "k' \<in> set ?ks" for x k'
    using that assms(1,2) unfolding st by (auto simp: sorted_wrt_append in_hole_def)
  moreover have "ssorted (flatA c)" "ssorted (flatB c)" "\<forall>x\<in>set (flatA c). \<forall>y\<in>set (flatB c). x < y"
    using assms(1) by (auto simp: sorted_wrt_append)
  ultimately show ?thesis by (auto simp: sorted_wrt_append ssorted_flat_keys simp del: map_map One_nat_def)
qed

lemma leaf_absorbed:
  fixes v :: bytes
  assumes gd: "good P (length c) (plug c (GLeaf p ks vs)) g" and Pp: "P p = Some n"
    and hole: "in_hole c k"
  defines "m \<equiv> kv_insert k v (zip ks vs)"
  assumes sm: "length m \<le> 4"
    and n': "content [p \<mapsto> n'] p = Some (map fst m, map snd m, [], False)" "pn_left n' = pn_left n"
      "pn_right n' = pn_right n"
  shows "good (P(p \<mapsto> n')) (length c) (plug c (GLeaf p (map fst m) (map snd m))) g"
proof -
  let ?P = "P(p \<mapsto> n')"
  note G = gd [unfolded good_plug0]
  have lk: "links ?P x = links P x" for x using Pp n' by (simp add: links_def)
  have ct: "content ?P x = content P x" if "x \<notin> {p}" for x using that by (simp add: content_def)
  have len: "length vs = length ks" using G by simp
  have rc: "repc ?P p c"
    by (rule repc_frame [of P p c "{p}", OF _ ct]) (use G in auto)
  have "linked P 0 (rowl c @ GLeaf p ks vs # rowr c)" "linkedc P c" using G by auto
  then have l: "linked ?P 0 (rowl c @ GLeaf p (map fst m) (map snd m) # rowr c)" "linkedc ?P c"
    using chain_cong [of _ P ?P] linkedc_cong [of c P ?P] lk by auto
  have "ssorted (flatA c @ flat (GLeaf p (map fst m) (map snd m)) @ flatB c)"
    using leaf_sorted [of c ks k vs v] G hole len unfolding m_def by simp
  moreover have "length ks \<le> length m" using length_kv_insert [of k v "zip ks vs"] len by (auto simp: m_def)
  moreover have "dom ?P = dom P" using Pp by auto
  ultimately show ?thesis
    unfolding good_plug0 using G rc l sm n' by (auto simp: content_def)
qed

lemma leaf_split_at:
  assumes gd: "good P (length c) (plug c (GLeaf p ks vs)) g" "P p = Some n" "q \<notin> dom P" "q \<noteq> 0"
  shows "split_at P c p n q"
proof -
  note G = gd(1) [unfolded good_plug0]
  have "p \<noteq> 0" using assms G by auto
  moreover have "set (ctx_pids c) \<subseteq> dom P" using G repc_dom by (metis subsetI)
  ultimately show ?thesis using assms G unfolding split_at_def by auto
qed

lemma leaf_split:
  fixes v :: bytes
  assumes gd: "good P (length c) (plug c (GLeaf p ks vs)) g" and Pp: "P p = Some n"
    and hole: "in_hole c k" and q: "q \<notin> dom P" "q \<noteq> 0"
  defines "m \<equiv> kv_insert k v (zip ks vs)"
  assumes full: "length m = 5"
    and n1: "content [p \<mapsto> n1] p = Some (map fst (take 2 m), map snd (take 2 m), [], False)"
      "pn_left n1 = pn_left n" "pn_right n1 = q"
    and n2: "content [q \<mapsto> n2] q = Some (map fst (drop 2 m), map snd (drop 2 m), [], False)"
      "pn_left n2 = p" "pn_right n2 = pn_right n"
  shows "two (split_pages p n1 q n2 P) 0 c (GLeaf p (map fst (take 2 m)) (map snd (take 2 m))) (fst (m ! 2))
           (GLeaf q (map fst (drop 2 m)) (map snd (drop 2 m))) g"
proof -
  let ?P = "split_pages p n1 q n2 P"
  note G = gd [unfolded good_plug0]
  note s = leaf_split_at [OF gd Pp q]
  note ct = split_content [OF s n2(3)]
  have sub: "set (ctx_pids c) \<subseteq> dom P" and z: "0 \<notin> dom P" using s by (simp_all add: split_at_def)
  have rc: "repc ?P p c"
    by (rule repc_frame [of P p c "{p, q}", OF _ ct(1)]) (use G s sub q(1) in \<open>auto simp: split_at_def\<close>)
  have lk: "linked ?P 0 (rowl c @ GLeaf p a b # GLeaf q d e # rowr c)" for a b d e
    using split_chain [OF s n1(2,3) n2(2,3)] by simp
  have lc: "linkedc ?P c" using split_linkedc [OF s n2(3)] G by blast
  have "ssorted (flatA c @ map (\<lambda>k. (k, 1)) ks @ flatB c)" "length vs = length ks" using G by simp_all
  then have "ssorted (flatA c @ map (\<lambda>k. (k, 1)) (map fst m) @ flatB c)"
    using leaf_sorted [of c ks k vs v] hole unfolding m_def by simp
  from separator_sorted [OF this, of 2] have
    srt: "ssorted (flatA c @ map (\<lambda>k. (k, 1)) (map fst (take 2 m)) @ (fst (m ! 2), 0)
      # map (\<lambda>k. (k, 1)) (map fst (drop 2 m)) @ flatB c)"
    using full by (simp add: take_map drop_map)
  have "rep ?P (GLeaf p (map fst (take 2 m)) (map snd (take 2 m)))"
    "rep ?P (GLeaf q (map fst (drop 2 m)) (map snd (drop 2 m)))"
    using ct(2,3) n1(1) n2(1) by (simp_all add: content_def)
  moreover have "distinct ([p] @ [q] @ ctx_pids c)" using s q(1) sub by (auto simp: split_at_def)
  moreover have "card (dom ?P) = Suc (card (dom P))" using ct(4) q(1) by simp
  moreover have "card (dom P) \<le> Suc (length (ctx_pids c)) + g" "wfc 0 c" using G by simp_all
  ultimately show ?thesis
    unfolding two_def using rc lk lc srt full ct(4) q(2) z by simp
qed

end
