(* ===== verification/BtreeInsert.thy ===== *)
theory BtreeInsert
  imports BtreeCache BtreeSplit
begin

text \<open>
  The code of the B+ tree against its specification: the descents reach the leaf in whose hole the key
  belongs, an insertion makes the tree of the sorted association list with the key put in, splits
  move up the stack, and lookups read that list.
\<close>

section \<open>Choosing a child\<close>

definition goes_to :: "bytes list \<Rightarrow> bytes \<Rightarrow> nat \<Rightarrow> bool" where
  "goes_to ks k j \<longleftrightarrow> j \<le> length ks \<and> (\<forall>i<j. ks ! i \<le> k) \<and> (\<forall>i. j \<le> i \<longrightarrow> i < length ks \<longrightarrow> k < ks ! i)"

lemma near_goes_to:
  assumes "near ks k i" "ssorted ks"
  shows "goes_to ks k (if k < ks ! i then i else Suc i)"
proof -
  have lo: "ks ! j < ks ! i" if "j < i" for j
    using that assms by (auto simp: near_def intro: ssorted_nth)
  have hi: "ks ! i < ks ! j" if "i < j" "j < length ks" for j
    using that assms(2) by (auto intro: ssorted_nth)
  consider "ks ! i = k" | "k < ks ! i" "\<forall>j<i. ks ! j < k"
    | "ks ! i < k" "\<forall>j. i < j \<longrightarrow> j < length ks \<longrightarrow> k < ks ! j"
    using assms(1) by (auto simp: near_def)
  then show ?thesis
  proof cases
    case 1
    then show ?thesis using lo hi assms(1)
      by (auto simp: goes_to_def near_def less_Suc_eq less_imp_le Suc_le_eq)
  next
    case 2
    then show ?thesis using hi assms(1)
      by (auto simp: goes_to_def near_def less_imp_le le_less intro: order.strict_trans)
  next
    case 3
    then have "ks ! j \<le> k" if "j \<le> i" for j
      using lo [of j] that by (cases "j = i") auto
    with 3 show ?thesis using assms(1)
      by (auto simp: goes_to_def near_def less_Suc_eq_le Suc_le_eq)
  qed
qed

lemma ilv_last:
  "length xs = length ks \<Longrightarrow> ks \<noteq> [] \<Longrightarrow> \<exists>zs. ilv xs ks = zs @ [(last ks, 0)]"
proof (induction xs ks rule: ilv.induct)
  case (3 x xs k ks)
  show ?case
  proof (cases ks)
    case Nil
    with 3 show ?thesis by auto
  next
    case (Cons k' ks')
    with 3 obtain zs where "ilv xs ks = zs @ [(last ks, 0)]" by auto
    with Cons show ?thesis by (intro exI [of _ "x @ (k, 0) # zs"]) simp
  qed
qed auto

lemma in_hole_child:
  assumes w: "wfc h c" "length ts = Suc (length ks)" and hole: "in_hole c k"
    and srt: "ssorted (flatA c @ flat (GNode p ks ts) @ flatB c)" and j: "goes_to ks k j"
  shows "in_hole ((p, ks, take j ts, drop (Suc j) ts) # c) k"
proof -
  have jl: "j \<le> length ks" "j < length ts" using j w(2) by (auto simp: goes_to_def)
  let ?L = "ilv (map flat (take j ts)) (take j ks)"
  let ?R = "case drop j ks of [] \<Rightarrow> [] | k # ks' \<Rightarrow> (k, 0) # ilv (map flat (drop (Suc j) ts)) ks'"
  have ts: "ts = take j ts @ ts ! j # drop (Suc j) ts" using jl(2) by (rule id_take_nth_drop)
  have "ilv (map flat (take j ts @ ts ! j # drop (Suc j) ts)) ks = ?L @ flat (ts ! j) @ ?R"
    using ilv_append [of "map flat (take j ts)" ks "map flat (ts ! j # drop (Suc j) ts)"] jl w(2)
    by (auto simp: ilv_Cons min_def split: list.splits)
  then have fl: "flat (GNode p ks ts) = ?L @ flat (ts ! j) @ ?R" using ts by simp
  have "x < (k, 1)" if "x \<in> set ?L" for x
  proof (cases "j = 0")
    case False
    then have ne: "take j ks \<noteq> []" using jl by auto
    from ilv_last [OF _ ne, of "map flat (take j ts)"] jl obtain zs where
      zs: "?L = zs @ [(last (take j ks), 0)]" by (auto simp: min_absorb2)
    have "last (take j ks) = ks ! (j - 1)" using False jl by (simp add: last_conv_nth [OF ne] min_absorb2)
    moreover have "ks ! (j - 1) \<le> k" using j False by (simp add: goes_to_def)
    moreover have "x \<le> (last (take j ks), 0)"
      using srt that unfolding fl zs by (auto simp: sorted_wrt_append less_imp_le)
    ultimately show ?thesis by (auto intro: order.strict_trans1)
  qed (use that in simp)
  moreover have "(k, 1) < x" if x: "x \<in> set ?R" for x
  proof (cases "drop j ks")
    case (Cons k' ks')
    have "k' = ks ! j" using nth_via_drop [OF Cons] by simp
    moreover have "j < length ks" using Cons by (cases "j < length ks") auto
    ultimately have "k < k'" using j by (simp add: goes_to_def)
    then have "(k, 1) < (k', 0 :: nat)" by simp
    moreover have "(k', 0) \<le> x" using srt x unfolding fl Cons by (auto simp: sorted_wrt_append less_imp_le)
    ultimately show ?thesis by (rule order.strict_trans2)
  qed (use x in simp)
  moreover have "flatA ((p, ks, take j ts, drop (Suc j) ts) # c) = flatA c @ ?L"
    "flatB ((p, ks, take j ts, drop (Suc j) ts) # c) = ?R @ flatB c"
    using jl by (simp_all add: min_absorb2)
  ultimately show ?thesis
    using hole unfolding in_hole_def by (metis Un_iff set_append)
qed

section \<open>The stack of a descent\<close>

definition entry :: "pages \<Rightarrow> frame \<Rightarrow> TraversePath" where
  "entry P = (\<lambda>(p, ks, ls, rs). \<lparr>tp_n = node_of p (the (P p)), tp_idx = word_of_int (int (length ls))\<rparr>)"

lemma entries_cong:
  "(\<And>p. p \<in> set (upper c) \<Longrightarrow> P p = P' p) \<Longrightarrow> map (entry P) c = map (entry P') c"
  using path_upper by (fastforce simp: entry_def)

lemma shape_keys_sorted:
  assumes "ssorted (flatA c @ flat (GNode p ks ts) @ flatB c)" "length ts = Suc (length ks)"
  shows "ssorted ks"
proof -
  have "ssorted (ilv xs ks) \<Longrightarrow> length ks < length xs \<Longrightarrow> ssorted ks \<and> (\<forall>k\<in>set ks. (k, 0) \<in> set (ilv xs ks))"
    for xs
  proof (induction xs ks rule: ilv.induct)
    case (3 x xs k ks)
    then show ?case by (fastforce simp: sorted_wrt_append)
  qed auto
  then show ?thesis using assms by (auto simp: sorted_wrt_append)
qed


lemma content_page: "content P p = Some (ks, vs, cs, i) \<Longrightarrow>
   \<exists>n. P p = Some n \<and> pn_keys n = ks \<and> pn_vals n = vs \<and> pn_children n = cs \<and> pn_internal n = i"
  by (auto simp: content_def)

section \<open>The descent of an insertion\<close>

lemma insert_node_internal:
  assumes "ssorted (n_Keys nd)" "n_Keys nd \<noteq> []" "\<not> n_Leaf nd"
    "length (n_Children nd) = Suc (length (n_Keys nd))"
  shows "\<exists>j. goes_to (n_Keys nd) key j \<and> (\<forall>f s. insert_node C lsn nd f key val rp st s
     = (Ok (n_Children nd ! j, rp, stack_Add \<lparr>tp_n = nd, tp_idx = word_of_int (int j)\<rparr> st), s))"
proof -
  obtain i where i: "InsertBinarySearch (n_Keys nd) key 0 = Ok (int i)" "near (n_Keys nd) key i"
    using InsertBinarySearch_near [OF assms(2,1), of key 0] by auto
  have il: "i < length (n_Keys nd)" using i(2) by (simp add: near_def)
  have "insert_node C lsn nd f key val rp st s =
    (Ok (n_Children nd ! (if key < n_Keys nd ! i then i else Suc i), rp,
         stack_Add \<lparr>tp_n = nd, tp_idx = word_of_int (int (if key < n_Keys nd ! i then i else Suc i))\<rparr> st), s)"
    for f s
    using il assms i(1) index_Ok [of i "n_Children nd"] index_Ok [of "Suc i" "n_Children nd"]
    by (simp add: insert_node_def orPanic_def bindS_def liftR_def returnS_def add.commute)
  then show ?thesis using near_goes_to [OF i(2) assms(1)] by blast
qed

text \<open>One step down a tree, on the ghost side.\<close>

lemma good_node:
  assumes "good P (Suc h + length c) (plug c (GNode p ks ts)) g"
  shows "\<exists>n. P p = Some n \<and> pn_keys n = ks \<and> pn_vals n = [] \<and> pn_children n = map root ts \<and> pn_internal n"
    "ssorted ks" "ks \<noteq> []" "length ts = Suc (length ks)" "wfc (Suc h) c"
proof -
  note G = assms [unfolded good_plug]
  show "\<exists>n. P p = Some n \<and> pn_keys n = ks \<and> pn_vals n = [] \<and> pn_children n = map root ts \<and> pn_internal n"
    using G content_page [of P p ks "[]" "map root ts" True] by auto
  show l: "length ts = Suc (length ks)" "ks \<noteq> []" "wfc (Suc h) c" using G by auto
  show "ssorted ks" using shape_keys_sorted [of c p ks ts] G l(1) by blast
qed

lemma good_child:
  assumes "good P (Suc h + length c) (plug c (GNode p ks ts)) g" "in_hole c key" "goes_to ks key j"
  defines "c' \<equiv> (p, ks, take j ts, drop (Suc j) ts) # c"
  shows "plug c' (ts ! j) = plug c (GNode p ks ts)" "in_hole c' key"
    "good P (h + length c') (plug c' (ts ! j)) g" "length (take j ts) = j" "j < length ts"
proof -
  note n = good_node [OF assms(1)]
  show j: "j < length ts" "length (take j ts) = j" using assms(3) n(4) by (auto simp: goes_to_def)
  show pl: "plug c' (ts ! j) = plug c (GNode p ks ts)"
    using id_take_nth_drop [OF j(1), symmetric] by (simp add: c'_def)
  show "in_hole c' key"
    unfolding c'_def using assms(1) [unfolded good_plug]
    by (intro in_hole_child [OF n(5,4) assms(2) _ assms(3)]) blast
  show "good P (h + length c') (plug c' (ts ! j)) g" using assms(1) unfolding pl by (simp add: c'_def)
qed

lemma insert_descend_to_leaf:
  assumes ok: "cache_ok C ci pg pid"
  shows "\<lbrakk>good P (h + length c) (plug c t) g; in_hole c key; h < fuel; stack_holds st (map (entry P) c);
     St ci pg P r free_mutex w bt;
     \<And>c' p ks vs fuel' oldF st' bt'. \<lbrakk>plug c' (GLeaf p ks vs) = plug c t; length c' = h + length c;
        in_hole c' key; stack_holds st' (map (entry P) c'); St ci pg P r free_mutex w bt'\<rbrakk>
        \<Longrightarrow> yields (insert_descend (Suc fuel') C lsn key val p oldF rp st') bt' Q\<rbrakk>
   \<Longrightarrow> yields (insert_descend fuel C lsn key val (root t) oldF rp st) bt Q"
proof (induction h arbitrary: c t fuel oldF st bt)
  case 0
  from "0.prems"(1) obtain p ks vs where t: "t = GLeaf p ks vs"
    unfolding good_plug by (cases t) auto
  from "0.prems"(3) obtain fuel' where "fuel = Suc fuel'" by (cases fuel) auto
  with 0 t show ?case by simp
next
  case (Suc h)
  from Suc.prems(1) obtain p ks ts where t: "t = GNode p ks ts"
    unfolding good_plug by (cases t) auto
  note gd = Suc.prems(1) [unfolded t]
  note gn = good_node [OF gd]
  obtain n where n: "P p = Some n" "pn_keys n = ks" "pn_vals n = []" "pn_children n = map root ts" "pn_internal n"
    using gn(1) by blast
  have nz: "p \<noteq> 0" using cache_pos [OF ok Suc.prems(5) n(1)] by auto
  obtain fuel' where fuel: "fuel = Suc fuel'" "h < fuel'" using Suc.prems(3) by (cases fuel) auto
  let ?nd = "node_of p n"
  obtain j where j: "goes_to ks key j"
    "\<And>f s. insert_node C lsn ?nd f key val rp st s
       = (Ok (map root ts ! j, rp, stack_Add \<lparr>tp_n = ?nd, tp_idx = word_of_int (int j)\<rparr> st), s)"
    using insert_node_internal [of ?nd key C lsn val rp st] n gn(2-4) by (auto simp: node_of_def)
  note gc = good_child [OF gd Suc.prems(2) j(1)]
  let ?c = "(p, ks, take j ts, drop (Suc j) ts) # c"
  have st: "stack_holds (stack_Add \<lparr>tp_n = ?nd, tp_idx = word_of_int (int j)\<rparr> st) (map (entry P) ?c)"
    using stack_holds_Add [OF Suc.prems(4)] n(1) gc(4) by (simp add: entry_def)
  have step: "yields (tryErr (insert_node C lsn ?nd f key val rp st)) bt' (\<lambda>x s'.
      yields (case x of
          Inl e \<Rightarrow>
            bindS (ignoreErr (ReleaseFrame C f))
             (\<lambda>_. bindS (case oldFrame of None \<Rightarrow> returnS () | Some f \<Rightarrow> ignoreErr (ReleaseFrame C f))
                   (\<lambda>_. failS e))
          | Inr (next, rp, stack) \<Rightarrow> insert_descend fuel' C lsn key val next (Some f) rp stack) s' Q)"
    if "St ci pg P r free_mutex w bt'" for f bt' oldFrame
  proof -
    have "yields (insert_descend fuel' C lsn key val (root (ts ! j)) (Some f) rp
       (stack_Add \<lparr>tp_n = ?nd, tp_idx = word_of_int (int j)\<rparr> st)) bt' Q"
      by (rule Suc.IH [OF gc(3,2) fuel(2) st that]) (use Suc.prems(6) gc(1) t in simp)
    then show ?thesis using j(2) gc(5) by (intro yields_tryErr) (simp add: yields_def)
  qed
  have "yields (insert_descend fuel C lsn key val p oldF rp st) bt Q"
    unfolding fuel(1) insert_descend.simps [of "Suc fuel'"] using nz
    by (simp, intro yields_buildPage [OF ok Suc.prems(5) n(1)])
       (simp, intro yields_Release_opt [OF ok], assumption,
        rule yields_locks(1), assumption, rule yields_unlocks(1), assumption, erule step)
  then show ?case by (simp add: t)
qed


section \<open>The leaf\<close>

lemma zip_split: "i < length ks \<Longrightarrow> length vs = length ks \<Longrightarrow>
    zip ks vs = zip (take i ks) (take i vs) @ (ks ! i, vs ! i) # zip (drop (Suc i) ks) (drop (Suc i) vs)"
  by (metis id_take_nth_drop length_take zip_Cons_Cons zip_append)

lemma kv_insert_front: "(\<And>x. x \<in> set m \<Longrightarrow> k < fst x) \<Longrightarrow> kv_insert k v m = (k, v) # m"
  by (cases m) auto

lemma insert_leaf_keys_kv:
  fixes val :: bytes
  assumes near: "near (n_Keys nd) key i" and srt: "ssorted (n_Keys nd)"
    and len: "length (n_Values nd) = length (n_Keys nd)"
  defines "m \<equiv> kv_insert key val (zip (n_Keys nd) (n_Values nd))"
  shows "insert_leaf_keys nd (int i) (n_Keys nd ! i) key val
     = Ok (nd\<lparr>n_Keys := map fst m, n_Values := map snd m\<rparr>)"
proof -
  let ?ks = "n_Keys nd" and ?vs = "n_Values nd"
  have i: "i < length ?ks" using near by (simp add: near_def)
  note z = zip_split [OF i len]
  have gt: "\<And>x. x \<in> set (drop (Suc i) ?ks) \<Longrightarrow> ?ks ! i < x"
    using srt ssorted_nth [OF srt, of i] by (force simp: in_set_conv_nth)
  have lt: "\<And>x. x \<in> set (take i ?ks) \<Longrightarrow> x < ?ks ! i"
    using srt i ssorted_nth [OF srt, of _ i] by (force simp: in_set_conv_nth)
  let ?A = "zip (take i ?ks) (take i ?vs)" and ?B = "zip (drop (Suc i) ?ks) (drop (Suc i) ?vs)"
  have A: "map fst ?A = take i ?ks" "map snd ?A = take i ?vs" using len i by simp_all
  have B: "map fst ?B = drop (Suc i) ?ks" "map snd ?B = drop (Suc i) ?vs" using len i by simp_all
  consider "?ks ! i = key" | "key < ?ks ! i" "\<forall>j<i. ?ks ! j < key"
    | "?ks ! i < key" "\<forall>j. i < j \<longrightarrow> j < length ?ks \<longrightarrow> key < ?ks ! j"
    using near by (auto simp: near_def)
  then show ?thesis
  proof cases
    case 1
    then have "\<forall>p\<in>set ?A. fst p < key" using lt by (auto dest: set_zip_leftD)
    then have "m = ?A @ (key, val) # ?B" unfolding m_def z using 1 by (simp add: kv_insert_append1)
    then show ?thesis
      using 1 i len A B by (simp add: insert_leaf_keys_def upd_conv_take_nth_drop)
  next
    case 2
    then have "\<forall>p\<in>set ?A. fst p < key" by (auto dest!: set_zip_leftD simp: in_set_conv_nth)
    then have "m = ?A @ (key, val) # (?ks ! i, ?vs ! i) # ?B"
      unfolding m_def z using 2 by (simp add: kv_insert_append1)
    then show ?thesis
      using 2 i len A B
      by (simp add: insert_leaf_keys_def InsertToList_keep_def InsertToList_Ok Cons_nth_drop_Suc)
  next
    case 3
    then have "\<forall>p\<in>set ?A. fst p < key" using lt by (fastforce dest: set_zip_leftD)
    moreover have "key < fst x" if "x \<in> set ?B" for x
    proof -
      have "fst x \<in> set (drop (Suc i) ?ks)" using that by (metis prod.collapse set_zip_leftD)
      then show ?thesis using 3(2) by (auto simp: in_set_conv_nth dest: sym)
    qed
    ultimately have "m = ?A @ (?ks ! i, ?vs ! i) # (key, val) # ?B"
      unfolding m_def z using 3(1) by (auto simp: kv_insert_append1 kv_insert_front)
    moreover have "\<not> key < ?ks ! i" "key \<noteq> ?ks ! i" using 3(1) by auto
    moreover have "InsertToList xs (int i + 1) v = Ok (take (Suc i) xs @ v # drop (Suc i) xs)"
      if "i < length xs" for xs :: "bytes list" and v
      using InsertToList_Ok [of "Suc i" xs v] that by (simp add: add.commute)
    ultimately show ?thesis
      using i len A B
      by (simp add: insert_leaf_keys_def InsertToList_keep_def take_Suc_conv_app_nth)
  qed
qed

text \<open>The log after the record of an insertion: one record, unless the caller passed its own LSN.\<close>

definition wal_after :: "bytes \<Rightarrow> u32 \<Rightarrow> bytes \<Rightarrow> bytes \<Rightarrow> WAL \<Rightarrow> WAL" where
  "wal_after lsn p key val w = (if lsn = [] then snd (AddPutLog p key val w) else w)"

lemma AddPutLog_Ok: "key \<noteq> [] \<Longrightarrow> val \<noteq> [] \<Longrightarrow> \<exists>l w'. AddPutLog p key val w = (Ok l, w') \<and> l \<noteq> []"
  by (auto simp: AddPutLog_def assign_def assignLSN_def le32_def Let_def)

lemma yields_putLSN:
  assumes "St ci pg P r mu w bt" "key \<noteq> []" "val \<noteq> []"
    and "\<And>l bt'. St ci pg P r mu (wal_after lsn p key val w) bt' \<Longrightarrow> l \<noteq> [] \<Longrightarrow> (lsn \<noteq> [] \<Longrightarrow> l = lsn) \<Longrightarrow> Q l bt'"
  shows "yields (putLSN lsn p key val) bt Q"
proof (cases "lsn = []")
  case True
  obtain l w' where l: "AddPutLog p key val w = (Ok l, w')" "l \<noteq> []"
    using AddPutLog_Ok [OF assms(2,3)] by blast
  have "St ci pg P r mu (wal_after lsn p key val w) (bt\<lparr>bt_wal := w'\<rparr>)"
    using assms(1) l True by (simp add: St_def wal_after_def)
  moreover have "bt_wal bt = w" using assms(1) by (simp add: St_def)
  ultimately show ?thesis
    using assms(4) l True by (simp add: putLSN_def) (simp add: yields_def on_wal_def)
next
  case False
  with assms(1,4) show ?thesis by (simp add: putLSN_def wal_after_def)
qed

lemma pnode_node:
  "(pn_internal n \<Longrightarrow> pn_vals n = []) \<Longrightarrow> (\<not> pn_internal n \<Longrightarrow> pn_children n = [])
   \<Longrightarrow> pnode_of (pn_internal n) ((node_of p n)\<lparr>n_LeftSibling := q\<rparr>) = n\<lparr>pn_left := q\<rparr>"
  by (simp add: pnode_of_def node_of_def)

text \<open>The right neighbour of a page, as a split finds it.\<close>

definition right_page :: "pages \<Rightarrow> u32 \<Rightarrow> u32 \<Rightarrow> bool \<Rightarrow> bool" where
  "right_page P p rt i \<longleftrightarrow> rt = 0 \<or> (rt \<noteq> p \<and> (\<exists>n. P rt = Some n \<and> pn_internal n = i
      \<and> (if i then pn_vals n = [] else pn_children n = [])))"

lemma St_cong: "St ci pg P r mu w bt \<Longrightarrow> P = P' \<Longrightarrow> St ci pg P' r mu w bt"
  by simp

lemma insert_overflow_ok:
  assumes ok: "cache_ok C ci pg pid" and st: "St ci pg P r mu w bt" and room: "card (dom P) < max_pages"
    and Pp: "P p = Some n" "\<not> pn_internal n" and f: "pid f = p"
    and nd: "n_Leaf nd" "n_Children nd = []" "n_PageId nd = p" "length (n_Keys nd) = 5"
      "length (n_Values nd) = 5"
    and rt: "right_page P p (n_RightSibling nd) False"
    and Q: "\<And>q bt'. \<lbrakk>q \<notin> dom P; 0 <s q;
        St ci pg (split_pages p
            \<lparr>pn_keys = take 2 (n_Keys nd), pn_vals = take 2 (n_Values nd), pn_children = [],
             pn_internal = False, pn_right = q, pn_left = n_LeftSibling nd\<rparr> q
            \<lparr>pn_keys = drop 2 (n_Keys nd), pn_vals = drop 2 (n_Values nd), pn_children = [],
             pn_internal = False, pn_right = n_RightSibling nd, pn_left = p\<rparr> P) r mu w bt'\<rbrakk>
        \<Longrightarrow> Q \<lparr>sr_PromotedSeparatorKey = n_Keys nd ! 2, sr_NewNodeId = q, sr_OpLSN = lsn\<rparr> bt'"
  shows "yields (insert_overflow C lsn nd f) bt Q"
proof -
  let ?rt = "n_RightSibling nd"
  have spl: "split lsn nd = Ok (nd\<lparr>n_Keys := take 2 (n_Keys nd), n_Values := take 2 (n_Values nd)\<rparr>,
      \<lparr>n_Keys = drop 2 (n_Keys nd), n_Children = [], n_Leaf = True, n_Values = drop 2 (n_Values nd),
       n_LeftSibling = 0, n_RightSibling = 0, n_PageId = 0, n_lsn = lsn\<rparr>, [])"
    using nd by (simp add: split_def createNode_def Let_def)
  have pos: "0 <s p" by (rule cache_pos [OF ok st Pp(1)])
  have pos_rt: "0 <s ?rt \<longleftrightarrow> ?rt \<noteq> 0"
    using rt cache_pos [OF ok st, of ?rt] by (auto simp: right_page_def)
  have prom: "index (drop 2 (n_Keys nd)) 0 = Ok (n_Keys nd ! 2)"
    using index_Ok [of 0 "drop 2 (n_Keys nd)"] nd(4) by simp
  show ?thesis
    unfolding insert_overflow_def spl
  proof (simp del: fun_upd_apply, rule yields_assignFrame [OF ok st room],
      simp_all del: fun_upd_apply add: pos_rt prom Let_def, goal_cases)
    case (1 fq bt1)
    have q: "pid fq \<noteq> p" "P (pid fq) = None" using 1(1) Pp(1) by auto
    show ?case
    proof (cases "?rt = 0")
      case True
      then show ?thesis
        apply (simp del: fun_upd_apply)
        apply (rule yields_Sync [OF ok 1(3)], simp)
        apply (rule yields_Sync [OF ok], assumption, use q f Pp in simp)
        apply (rule Q [OF 1(1,2)])
        apply (erule St_cong, use q f Pp nd True in \<open>simp add: split_pages_def pnode_of_def fun_upd_twist\<close>)
        done
    next
      case False
      with rt obtain nr where nr: "P ?rt = Some nr" "\<not> pn_internal nr" "pn_children nr = []" "?rt \<noteq> p"
        by (auto simp: right_page_def)
      have rq: "?rt \<noteq> pid fq" using nr q by auto
      from False show ?thesis
        apply (simp del: fun_upd_apply)
        apply (rule yields_buildPage [OF ok 1(3), of _ nr], use nr rq in simp)
        apply (simp del: fun_upd_apply)
        apply (rule yields_Sync [OF ok], assumption, simp)
        apply (rule yields_Sync [OF ok], assumption, use q f Pp in simp)
        apply (rule yields_Sync [OF ok, where n = nr], assumption, use q f nr rq in simp)
        apply (rule Q [OF 1(1,2)])
        apply (erule St_cong)
        apply (use q f Pp nd nr rq in \<open>auto simp: split_pages_def pnode_of_def node_of_def fun_eq_iff\<close>)
        done
    qed
  qed
qed


lemma kids_shape: "shape m (Suc h) t \<Longrightarrow> u \<in> set (kids t) \<Longrightarrow> shape DEGREE h u"
  by (cases t) auto

lemma kids_rep: "rep P t \<Longrightarrow> u \<in> set (kids t) \<Longrightarrow> rep P u"
  by (cases t) auto

lemma row_shape: "wfc h c \<Longrightarrow> t \<in> set (rowl c) \<union> set (rowr c) \<Longrightarrow> shape DEGREE h t"
proof (induction c arbitrary: h t rule: rowl.induct)
  case (2 p ks ls rs c)
  show ?case
  proof (cases "t \<in> set ls \<union> set rs")
    case False
    with 2 obtain u where "u \<in> set (rowl c) \<union> set (rowr c)" "t \<in> set (kids u)" by auto
    with 2 kids_shape show ?thesis by (metis wfc.simps(2))
  qed (use 2 in auto)
qed simp

lemma row_rep: "repc P q c \<Longrightarrow> t \<in> set (rowl c) \<union> set (rowr c) \<Longrightarrow> rep P t"
proof (induction c arbitrary: q t rule: rowl.induct)
  case (2 p ks ls rs c)
  show ?case
  proof (cases "t \<in> set ls \<union> set rs")
    case False
    with 2 obtain u where "u \<in> set (rowl c) \<union> set (rowr c)" "t \<in> set (kids u)" by auto
    with 2 kids_rep show ?thesis by (metis repc.simps(2))
  qed (use 2 in auto)
qed simp

lemma hole_right_page:
  assumes "wfc h c" "repc P p c" "right_of c \<noteq> p"
  shows "right_page P p (right_of c) (0 < h)"
proof (cases "right_of c = 0")
  case False
  then obtain t where t: "t \<in> set (rowl c) \<union> set (rowr c)" "right_of c = root t"
    using right_of_row by blast
  have "rep P t" "shape DEGREE h t" using row_rep [OF assms(2) t(1)] row_shape [OF assms(1) t(1)] .
  then show ?thesis using assms(3) t(2)
    by (cases t; cases h) (auto simp: right_page_def dest!: content_page)
qed (simp add: right_page_def)

lemma split_upper:
  assumes s: "split_at P c p n q" and "pn_right n2 = pn_right n" and x: "x \<in> set (upper c)"
  shows "split_pages p n1 q n2 P x = P x"
proof (rule split_agree [OF s assms(2)])
  have "x \<in> set (ctx_pids c)" using x set_levels by blast
  then show "x \<in> dom P" "x \<noteq> p" using s by (auto simp: split_at_def)
  show "right_of c \<noteq> 0 \<Longrightarrow> x \<noteq> right_of c"
    using right_of_notin_upper [of c] x s by (auto simp: split_at_def)
qed

lemma split_entries:
  assumes "split_at P c p n q" "pn_right n2 = pn_right n"
  shows "map (entry (split_pages p n1 q n2 P)) c = map (entry P) c"
  using split_upper [OF assms] by (rule entries_cong)

text \<open>What an insertion into a leaf leaves behind: a whole tree, or a tree with a pending half.\<close>

definition inserted ::
  "pages \<Rightarrow> ctx \<Rightarrow> u32 \<Rightarrow> (bytes \<times> bytes) list \<Rightarrow> nat \<Rightarrow> SplitResponse \<Rightarrow> SplitResponse \<Rightarrow> pages \<Rightarrow> bool" where
  "inserted P c p m g rp rp' P' \<longleftrightarrow>
     (rp' = rp \<and> (\<exists>ks vs. good P' (length c) (plug c (GLeaf p ks vs)) g \<and> kvA c @ zip ks vs @ kvB c = m))
   \<or> (\<exists>t1 t2. two P' 0 c t1 (sr_PromotedSeparatorKey rp') t2 g \<and> root t1 = p \<and> root t2 = sr_NewNodeId rp'
        \<and> sr_NewNodeId rp' \<noteq> 0 \<and> kvA c @ kvs t1 @ kvs t2 @ kvB c = m
        \<and> map (entry P') c = map (entry P) c \<and> card (dom P') = Suc (card (dom P)))"


lemma good_leaf:
  assumes "good P (length c) (plug c (GLeaf p ks vs)) g"
  shows "\<exists>n. P p = Some n \<and> pn_keys n = ks \<and> pn_vals n = vs \<and> pn_children n = [] \<and> \<not> pn_internal n"
    "ssorted ks" "ks \<noteq> []" "length vs = length ks" "length ks \<le> 4" "wfc 0 c" "repc P p c"
    "ssorted (flatA c @ map (\<lambda>k. (k, 1)) ks @ flatB c)"
proof -
  note G = assms [unfolded good_plug0]
  show "\<exists>n. P p = Some n \<and> pn_keys n = ks \<and> pn_vals n = vs \<and> pn_children n = [] \<and> \<not> pn_internal n"
    using G content_page [of P p ks vs "[]" False] by auto
  show srt: "ssorted (flatA c @ map (\<lambda>k. (k, 1)) ks @ flatB c)" using G by simp
  then have "ssorted (map (\<lambda>k. (k, 1::nat)) ks)" unfolding sorted_wrt_append by blast
  then show "ssorted ks" unfolding ssorted_flat_keys .
  show "ks \<noteq> []" "length vs = length ks" "length ks \<le> 4" "wfc 0 c" "repc P p c"
    using G by (auto split: if_splits)
qed

lemma hole_right:
  assumes "chain P 0 (map root (rowl c) @ p # map root (rowr c)) 0" "p \<notin> set (ctx_pids c)"
    "P p = Some n" "p \<noteq> 0"
  shows "pn_right n = right_of c" "right_of c \<noteq> p"
proof -
  show "pn_right n = right_of c" using chain_hole [OF assms(1)] assms(3) by (auto simp: links_def)
  show "right_of c \<noteq> p" using right_of_in_ctx [of c] assms(2,4) by metis
qed

lemma inserted_absorb:
  fixes v :: bytes
  assumes gd: "good P (length c) (plug c (GLeaf p ks vs)) g" "P p = Some n" "in_hole c k"
  defines "m \<equiv> kv_insert k v (zip ks vs)"
  assumes "length m \<le> 4" "content [p \<mapsto> n'] p = Some (map fst m, map snd m, [], False)"
    "pn_left n' = pn_left n" "pn_right n' = pn_right n"
  shows "inserted P c p (kvA c @ m @ kvB c) g rp rp (P(p \<mapsto> n'))"
  unfolding inserted_def
  by (intro disjI1 conjI exI [of _ "map fst m"] exI [of _ "map snd m"] refl)
     (use leaf_absorbed [OF gd] assms in \<open>auto simp: zip_map_fst_snd\<close>)

lemma inserted_split:
  fixes v :: bytes
  assumes gd: "good P (length c) (plug c (GLeaf p ks vs)) g" "P p = Some n" "in_hole c k"
    and q: "q \<notin> dom P" "q \<noteq> 0"
  defines "m \<equiv> kv_insert k v (zip ks vs)"
  assumes full: "length m = 5"
  shows "inserted P c p (kvA c @ m @ kvB c) g rp
     \<lparr>sr_PromotedSeparatorKey = map fst m ! 2, sr_NewNodeId = q, sr_OpLSN = l\<rparr>
     (split_pages p \<lparr>pn_keys = take 2 (map fst m), pn_vals = take 2 (map snd m), pn_children = [],
          pn_internal = False, pn_right = q, pn_left = pn_left n\<rparr>
        q \<lparr>pn_keys = drop 2 (map fst m), pn_vals = drop 2 (map snd m), pn_children = [],
          pn_internal = False, pn_right = pn_right n, pn_left = p\<rparr> P)"
    (is "inserted _ _ _ _ _ _ _ (split_pages p ?n1 q ?n2 P)")
proof -
  note s = leaf_split_at [OF gd(1,2) q]
  have "two (split_pages p ?n1 q ?n2 P) 0 c (GLeaf p (map fst (take 2 m)) (map snd (take 2 m)))
      (fst (m ! 2)) (GLeaf q (map fst (drop 2 m)) (map snd (drop 2 m))) g"
    unfolding m_def using full [unfolded m_def]
    by (intro leaf_split [OF gd q]) (auto simp: content_def take_map drop_map)
  moreover have "card (dom (split_pages p ?n1 q ?n2 P)) = Suc (card (dom P))"
    using split_content(4) [OF s, of ?n2 ?n1] q(1) by simp
  moreover have "take 2 m @ drop 2 m = m" by simp
  ultimately show ?thesis
    unfolding inserted_def using split_entries [OF s, of ?n2 ?n1] full q(2)
    by (intro disjI2 exI [of _ "GLeaf p (map fst (take 2 m)) (map snd (take 2 m))"]
          exI [of _ "GLeaf q (map fst (drop 2 m)) (map snd (drop 2 m))"])
       (simp add: zip_map_fst_snd flip: append_assoc)
qed

lemma insert_node_leaf:
  assumes ok: "cache_ok C ci pg pid" and gd: "good P (length c) (plug c (GLeaf p ks vs)) g"
    and hole: "in_hole c key" and ne: "key \<noteq> []" "val \<noteq> []" and st: "St ci pg P r mu w bt"
    and room: "card (dom P) < max_pages" and Pp: "P p = Some n" and f: "pid f = p"
    and Q: "\<And>rp' P' bt'. \<lbrakk>inserted P c p (kv_insert key val (kvs (plug c (GLeaf p ks vs)))) g rp rp' P';
        St ci pg P' r mu (wal_after lsn p key val w) bt'\<rbrakk> \<Longrightarrow> Q (0, rp', stk) bt'"
  shows "yields (insert_node C lsn (node_of p n) f key val rp stk) bt Q"
proof -
  note gl = good_leaf [OF gd]
  define m where "m = kv_insert key val (zip ks vs)"
  have n: "pn_keys n = ks" "pn_vals n = vs" "pn_children n = []" "\<not> pn_internal n" using gl(1) Pp by auto
  have nd: "n_Keys (node_of p n) = ks" "n_Values (node_of p n) = vs" "n_Leaf (node_of p n)"
    "n_PageId (node_of p n) = p" using n by (simp_all add: node_of_def)
  have "kv_insert key val (kvs (plug c (GLeaf p ks vs))) = kvA c @ m @ kvB c"
    using in_hole_insert [OF hole gl(6)] by (simp add: kvs_plug m_def)
  note Q = Q [unfolded this]
  obtain i where i: "InsertBinarySearch ks key 0 = Ok (int i)" "near ks key i"
    using InsertBinarySearch_near [OF gl(3,2), of key 0] by auto
  have il: "index ks (int i) = Ok (ks ! i)" using i(2) by (simp add: near_def)
  have lk: "insert_leaf_keys ((node_of p n)\<lparr>n_lsn := l\<rparr>) (int i) (ks ! i) key val
      = Ok ((node_of p n)\<lparr>n_lsn := l, n_Keys := map fst m, n_Values := map snd m\<rparr>)" for l
    using insert_leaf_keys_kv [of "(node_of p n)\<lparr>n_lsn := l\<rparr>" key i val] i(2) gl(2,4)
    by (simp add: m_def node_of_def n)
  show ?thesis
    unfolding insert_node_def using nd gl(3) i(1)
  proof (simp add: il del: fun_upd_apply, intro yields_putLSN [OF st ne], simp add: lk, goal_cases)
    case (1 l bt1)
    let ?nd = "(node_of p n)\<lparr>n_lsn := l, n_Keys := map fst m, n_Values := map snd m\<rparr>"
    show ?case
    proof (cases "length m \<le> 4")
      case True
      have "inserted P c p (kvA c @ m @ kvB c) g rp rp (P(p \<mapsto> pnode_of (pn_internal n) ?nd))"
        using True n unfolding m_def
        by (intro inserted_absorb [OF gd Pp hole]) (auto simp: content_def pnode_of_def node_of_def)
      then show ?thesis
        using True Q f Pp by (simp, intro yields_ignoreErr yields_Sync [OF ok 1(1)]) simp_all
    next
      case False
      have "length m \<le> 5"
        using length_kv_insert [of key val "zip ks vs"] gl(4,5) by (auto simp: m_def)
      with False have full: "length m = 5" by simp
      have z: "p \<noteq> 0" using cache_pos [OF ok st Pp] by auto
      have "chain P 0 (map root (rowl c) @ p # map root (rowr c)) 0" "p \<notin> set (ctx_pids c)"
        using gd [unfolded good_plug0] by simp_all
      note hp = hole_right [OF this Pp z]
      have rt: "right_page P p (n_RightSibling ?nd) False"
        using hole_right_page [OF gl(6,7) hp(2)] hp(1) by (simp add: node_of_def)
      have "yields (insert_overflow C l ?nd f) bt1 (\<lambda>rp s'. Q (0, rp, stk) s')"
      proof (rule insert_overflow_ok [OF ok 1(1) room Pp n(4) f _ _ _ _ _ rt], goal_cases)
        case (6 q bt2)
        then have "q \<noteq> 0" by auto
        note ins = inserted_split [OF gd Pp hole 6(1) this full [unfolded m_def], folded m_def, of rp l]
        show ?case using Q [OF ins] 6(3) by (simp add: node_of_def)
      qed (use full nd n in \<open>simp_all add: node_of_def\<close>)
      with False show ?thesis by simp
    qed
  qed
qed


section \<open>Splits move up\<close>

text \<open>The parent a split finds on the stack, and its lists with the promoted key and the new page.\<close>

lemma two_parent:
  assumes "two P h ((p, ks, ls, rs) # c) t1 k t2 g"
  shows "\<exists>n. P p = Some n \<and> pn_keys n = ks \<and> pn_vals n = [] \<and> pn_children n = map root (ls @ t1 # rs)
       \<and> pn_internal n"
    "length ks = length ls + length rs" "length ks \<le> 3" "length ls \<le> length ks"
proof -
  have "content P p = Some (ks, [], map root (ls @ t1 # rs), True)"
    using assms by (simp add: two_def)
  from content_page [OF this] show "\<exists>n. P p = Some n \<and> pn_keys n = ks \<and> pn_vals n = []
      \<and> pn_children n = map root (ls @ t1 # rs) \<and> pn_internal n" by simp
  show "length ks = length ls + length rs" "length ks \<le> 3" "length ls \<le> length ks"
    using assms by (simp_all add: two_def)
qed

lemma uint_small:
  "n < 4 \<Longrightarrow> uint (word_of_nat n :: u32) = int n"
  "n < 4 \<Longrightarrow> uint (word_of_nat n + 1 :: u32) = int (Suc n)"
proof -
  show *: "n < 4 \<Longrightarrow> uint (word_of_nat n :: u32) = int n"
    by (simp add: unsigned_of_nat take_bit_nat_eq_self)
  show "n < 4 \<Longrightarrow> uint (word_of_nat n + 1 :: u32) = int (Suc n)"
    using * by (simp add: uint_word_arith_bintrs take_bit_int_eq_self)
qed

text \<open>The parent node once the key and the page are in.\<close>

definition fuller :: "u32 \<Rightarrow> pnode \<Rightarrow> bytes list \<Rightarrow> gtree list \<Rightarrow> Node" where
  "fuller p n ks ts = (node_of p n)\<lparr>n_Keys := ks, n_Children := map root ts\<rparr>"

lemma add_to_parent_entry:
  assumes tw: "two P h ((p, ks, ls, rs) # c) t1 k t2 g" and Pp: "P p = Some n"
    and rp: "sr_PromotedSeparatorKey rp = k" "sr_NewNodeId rp = root t2"
  defines "nd \<equiv> fuller p n (absorb ks (length ls) k) (ls @ t1 # t2 # rs)"
  shows "add_to_parent C (entry P (p, ks, ls, rs)) rp =
     bindS (on_cache (cache_Get C p)) (\<lambda>parentFr.
     bindS (if length ks = 3 then split_parent C (sr_OpLSN rp) nd
            else returnS (nd, rp\<lparr>sr_NewNodeId := 0, sr_PromotedSeparatorKey := []\<rparr>)) (\<lambda>(pn, rp).
     bindS (orPanic (SyncNode C parentFr (sr_OpLSN rp) pn)) (\<lambda>_.
     bindS (ignoreErr (ReleaseFrame C parentFr)) (\<lambda>_. returnS rp))))"
proof -
  note tp = two_parent [OF tw]
  have n: "pn_keys n = ks" "pn_vals n = []" "pn_children n = map root (ls @ t1 # rs)" "pn_internal n"
    using tp(1) Pp by auto
  have l: "length ls < 4" using tp(3,4) by linarith
  have "InsertToList ks (uint (word_of_nat (length ls) :: u32)) k = Ok (absorb ks (length ls) k)"
    using InsertToList_Ok [of "length ls" ks k] tp(4) uint_small(1) [OF l] by (simp add: absorb_def)
  moreover have "InsertToList (map root ls @ root t1 # map root rs) (uint (word_of_nat (length ls) + 1 :: u32)) (root t2)
      = Ok (map root (ls @ t1 # t2 # rs))"
    using InsertToList_Ok [of "Suc (length ls)" "map root (ls @ t1 # rs)" "root t2"] uint_small(2) [OF l]
    by simp
  moreover have "3 < Suc (length ks) \<longleftrightarrow> length ks = 3" using tp(3) by linarith
  ultimately show ?thesis
    unfolding add_to_parent_def entry_def using tp(4) Pp n rp
    by (intro ext) (simp add: bindS_def liftR_def node_of_def nd_def fuller_def Let_def split: res.splits prod.splits)
qed

lemma add_to_parent_absorb:
  assumes ok: "cache_ok C ci pg pid" and tw: "two P h ((p, ks, ls, rs) # c) t1 k t2 g"
    and sm: "length ks < 3" and st: "St ci pg P r mu w bt"
    and rp: "sr_PromotedSeparatorKey rp = k" "sr_NewNodeId rp = root t2"
    and Q: "\<And>P' rp' bt'. \<lbrakk>good P' (Suc h + length c) (plug c (GNode p (absorb ks (length ls) k) (ls @ t1 # t2 # rs))) g;
        sr_NewNodeId rp' = 0; St ci pg P' r mu w bt'\<rbrakk> \<Longrightarrow> Q rp' bt'"
  shows "yields (add_to_parent C (entry P (p, ks, ls, rs)) rp) bt Q"
proof -
  obtain n where n: "P p = Some n" "pn_keys n = ks" "pn_vals n = []" "pn_internal n"
    using two_parent(1) [OF tw] by blast
  let ?nd = "fuller p n (absorb ks (length ls) k) (ls @ t1 # t2 # rs)"
  have gd: "good (P(p \<mapsto> pnode_of True ?nd)) (Suc h + length c)
      (plug c (GNode p (absorb ks (length ls) k) (ls @ t1 # t2 # rs))) g"
    by (rule two_absorbed [OF tw sm n(1)]) (use n in \<open>simp_all add: pnode_of_def fuller_def node_of_def\<close>)
  show ?thesis
    unfolding add_to_parent_entry [OF tw n(1) rp] using sm n
    by (simp del: fun_upd_apply, intro yields_Get [OF ok st n(1)] yields_Sync [OF ok])
       (assumption, simp, intro yields_ignoreErr yields_Release [OF ok], assumption,
        rule Q [OF gd], simp_all)
qed

lemma split_parent_ok:
  assumes ok: "cache_ok C ci pg pid" and st: "St ci pg P r mu w bt" and room: "card (dom P) < max_pages"
    and nd: "\<not> n_Leaf nd" "n_Values nd = []" "n_PageId nd = p" "length (n_Keys nd) = 4"
      "length (n_Children nd) = 5" "P p = Some n"
    and rt: "right_page P p (n_RightSibling nd) True"
    and Q: "\<And>q bt'. \<lbrakk>q \<notin> dom P; 0 <s q;
        St ci pg ((split_pages p n q
            \<lparr>pn_keys = drop 3 (n_Keys nd), pn_vals = [], pn_children = drop 3 (n_Children nd),
             pn_internal = True, pn_right = n_RightSibling nd, pn_left = p\<rparr> P)) r mu w bt'\<rbrakk>
        \<Longrightarrow> Q (nd\<lparr>n_Keys := take 2 (n_Keys nd), n_Children := take 3 (n_Children nd), n_RightSibling := q\<rparr>,
               \<lparr>sr_PromotedSeparatorKey = n_Keys nd ! 2, sr_NewNodeId = q, sr_OpLSN = lsn\<rparr>) bt'"
  shows "yields (split_parent C lsn nd) bt Q"
proof -
  let ?rt = "n_RightSibling nd"
  have spl: "split lsn nd = Ok (nd\<lparr>n_Keys := take 2 (n_Keys nd), n_Children := take 3 (n_Children nd)\<rparr>,
      \<lparr>n_Keys = drop 3 (n_Keys nd), n_Children = drop 3 (n_Children nd), n_Leaf = False, n_Values = [],
       n_LeftSibling = 0, n_RightSibling = 0, n_PageId = 0, n_lsn = lsn\<rparr>, n_Keys nd ! 2)"
    using nd by (simp add: split_def createNode_def Let_def)
  have pos_rt: "0 <s ?rt \<longleftrightarrow> ?rt \<noteq> 0"
    using rt cache_pos [OF ok st, of ?rt] by (auto simp: right_page_def)
  show ?thesis
    unfolding split_parent_def spl
  proof (simp del: fun_upd_apply, rule yields_assignFrame [OF ok st room],
      simp_all del: fun_upd_apply add: pos_rt Let_def, goal_cases)
    case (1 fq bt1)
    have q: "pid fq \<noteq> p" "P (pid fq) = None" using 1(1) nd(6) by auto
    show ?case
    proof (cases "?rt = 0")
      case True
      then show ?thesis
        apply (simp del: fun_upd_apply)
        apply (rule yields_Sync [OF ok 1(3)], simp)
        apply (rule Q [OF 1(1,2)])
        apply (erule St_cong, use q nd True in \<open>auto simp: split_pages_def pnode_of_def fun_eq_iff\<close>)
        done
    next
      case False
      with rt obtain nr where nr: "P ?rt = Some nr" "pn_internal nr" "pn_vals nr = []" "?rt \<noteq> p"
        by (auto simp: right_page_def)
      have rq: "?rt \<noteq> pid fq" using nr q by auto
      from False show ?thesis
        apply (simp del: fun_upd_apply)
        apply (rule yields_buildPage [OF ok 1(3), of _ nr], use nr rq in simp)
        apply (simp del: fun_upd_apply)
        apply (rule yields_Sync [OF ok, where n = nr], assumption, use nr rq in simp)
        apply (rule yields_Sync [OF ok], assumption, use rq in simp)
        apply (rule Q [OF 1(1,2)])
        apply (erule St_cong)
        apply (use q nd nr rq in \<open>auto simp: split_pages_def pnode_of_def node_of_def fun_eq_iff\<close>)
        done
    qed
  qed
qed


lemma split_pages_again:
  "p \<noteq> q \<Longrightarrow> pn_right n2 \<noteq> p \<Longrightarrow> (split_pages p n q n2 P)(p \<mapsto> n1) = split_pages p n1 q n2 P"
  by (auto simp: split_pages_def Let_def fun_eq_iff)

text \<open>A full parent splits in turn: the pending half moves one level up.\<close>

definition moved_up ::
  "pages \<Rightarrow> nat \<Rightarrow> ctx \<Rightarrow> u32 \<Rightarrow> (bytes \<times> bytes) list \<Rightarrow> nat \<Rightarrow> SplitResponse \<Rightarrow> pages \<Rightarrow> bool" where
  "moved_up P h c p m g rp P' \<longleftrightarrow>
     (\<exists>t1 t2. two P' h c t1 (sr_PromotedSeparatorKey rp) t2 g \<and> root t1 = p \<and> root t2 = sr_NewNodeId rp
        \<and> sr_NewNodeId rp \<noteq> 0 \<and> kvs t1 @ kvs t2 = m
        \<and> map (entry P') c = map (entry P) c \<and> card (dom P') = Suc (card (dom P)))"

lemma moved_up_split:
  assumes tw: "two P h ((p, ks, ls, rs) # c) t1 k t2 g" and full: "length ks = 3"
    and Pp: "P p = Some n" and q: "q \<notin> dom P" "q \<noteq> 0"
  defines "ts \<equiv> ls @ t1 # t2 # rs" and "ks' \<equiv> absorb ks (length ls) k"
  shows "moved_up P (Suc h) c p (concat (map kvs ts)) g
     \<lparr>sr_PromotedSeparatorKey = ks' ! 2, sr_NewNodeId = q, sr_OpLSN = l\<rparr>
     (split_pages p \<lparr>pn_keys = take 2 ks', pn_vals = [], pn_children = take 3 (map root ts),
        pn_internal = True, pn_right = q, pn_left = pn_left n\<rparr>
      q \<lparr>pn_keys = drop 3 ks', pn_vals = [], pn_children = drop 3 (map root ts),
        pn_internal = True, pn_right = pn_right n, pn_left = p\<rparr> P)"
    (is "moved_up _ _ _ _ _ _ _ (split_pages p ?n1 q ?n2 P)")
proof -
  note s = two_split_at [OF tw Pp q]
  have "two (split_pages p ?n1 q ?n2 P) (Suc h) c (GNode p (take 2 ks') (take 3 ts)) (ks' ! 2)
      (GNode q (drop 3 ks') (drop 3 ts)) g"
    by (rule two_split [OF tw full Pp q, folded ts_def ks'_def])
       (simp_all add: content_def take_map drop_map)
  moreover have "concat (map kvs (take 3 ts)) @ concat (map kvs (drop 3 ts)) = concat (map kvs ts)"
    by (metis append_take_drop_id concat_append map_append)
  moreover have "card (dom (split_pages p ?n1 q ?n2 P)) = Suc (card (dom P))"
    using split_content(4) [OF s, of ?n2 ?n1] q(1) by simp
  ultimately show ?thesis
    unfolding moved_up_def using split_entries [OF s, of ?n2 ?n1] q(2)
    by (intro exI [of _ "GNode p (take 2 ks') (take 3 ts)"] exI [of _ "GNode q (drop 3 ks') (drop 3 ts)"]) simp
qed

lemma add_to_parent_split:
  assumes ok: "cache_ok C ci pg pid" and tw: "two P h ((p, ks, ls, rs) # c) t1 k t2 g"
    and full: "length ks = 3" and st: "St ci pg P r mu w bt" and room: "card (dom P) < max_pages"
    and rp: "sr_PromotedSeparatorKey rp = k" "sr_NewNodeId rp = root t2"
    and Q: "\<And>P' rp' bt'. \<lbrakk>moved_up P (Suc h) c p (concat (map kvs (ls @ t1 # t2 # rs))) g rp' P';
        St ci pg P' r mu w bt'\<rbrakk> \<Longrightarrow> Q rp' bt'"
  shows "yields (add_to_parent C (entry P (p, ks, ls, rs)) rp) bt Q"
proof -
  note tp = two_parent [OF tw]
  obtain n where n: "P p = Some n" "pn_keys n = ks" "pn_vals n = []" "pn_internal n"
    using tp(1) by blast
  let ?nd = "fuller p n (absorb ks (length ls) k) (ls @ t1 # t2 # rs)"
  have nd: "\<not> n_Leaf ?nd" "n_Values ?nd = []" "n_PageId ?nd = p" "length (n_Keys ?nd) = 4"
    "length (n_Children ?nd) = 5" "n_LeftSibling ?nd = pn_left n" "n_RightSibling ?nd = pn_right n"
    using n full tp(2,4) by (simp_all add: fuller_def node_of_def)
  have z: "p \<noteq> 0" using cache_pos [OF ok st n(1)] by auto
  have wr: "wfc (Suc h) c" "repc P p c" "chain P 0 (map root (rowl c) @ p # map root (rowr c)) 0"
    "p \<notin> set (ctx_pids c)" using tw by (auto simp: two_def)
  note hp = hole_right [OF wr(3,4) n(1) z]
  have rt: "right_page P p (n_RightSibling ?nd) True"
    using hole_right_page [OF wr(1,2) hp(2)] hp(1) nd(7) by simp
  show ?thesis
    unfolding add_to_parent_entry [OF tw n(1) rp] using full
  proof (simp del: fun_upd_apply, intro yields_Get [OF ok st n(1)], goal_cases)
    case (1 f bt1)
    then have f: "pid f = p" and st1: "St ci pg P r mu w bt1" by auto
    show ?case
    proof (rule split_parent_ok [OF ok st1 room nd(1-5) n(1) rt], goal_cases)
      case (1 q bt2)
      have q: "q \<noteq> 0" "p \<noteq> q" using 1(1,2) n(1) by auto
      note M = moved_up_split [OF tw full n(1) 1(1) q(1), of "sr_OpLSN rp"]
      have rq: "pn_right n \<noteq> p" "pn_right n \<noteq> q"
        using split_at_right(2,5,6) [OF two_split_at [OF tw n(1) 1(1) q(1)]] by simp_all
      have fu: "n_Keys ?nd = absorb ks (length ls) k" "n_Children ?nd = map root (ls @ t1 # t2 # rs)"
        by (simp_all add: fuller_def)
      note st2 = 1(3) [unfolded fu nd(7)]
      show ?case
        apply (simp del: fun_upd_apply map_append list.map add: fu)
        apply (rule yields_Sync [OF ok st2, of _ n])
        using split_pages_at(1) [OF q(2) _ _ z] rq
        apply (simp add: f)
        apply (rule yields_ignoreErr, rule yields_Release [OF ok], assumption)
        apply (rule Q [OF M], erule St_cong)
        using rq q n apply (simp add: f split_pages_again pnode_of_def fuller_def node_of_def)
        done
    qed
  qed
qed

end
