(* ===== verification/BtreeCorrect.thy ===== *)
theory BtreeCorrect
  imports BtreeInsert
begin

text \<open>
  The operations of the tree as a whole: a state \<open>represents\<close> a sorted association list, an insertion
  makes it represent the list with the key put in, a batch folds that, and lookups read the list.
\<close>

section \<open>Propagation\<close>

lemma root_plug_cong: "root t = root t' \<Longrightarrow> root (plug c t) = root (plug c t')"
  by (cases c) (simp, rule root_plug, simp)

lemma new_root_ok:
  assumes ok: "cache_ok C ci pg pid" and tw: "two P h [] t1 k t2 g" and room: "card (dom P) < max_pages"
    and st: "St ci pg P (root t1) free_mutex w bt"
    and rp: "sr_PromotedSeparatorKey rp = k" "sr_NewNodeId rp = root t2"
    and Q: "\<And>P' q bt'. \<lbrakk>good P' (Suc h) (GNode q [k] [t1, t2]) g; St ci pg P' q free_mutex w bt'\<rbrakk> \<Longrightarrow> Q () bt'"
  shows "yields (new_root C rp) bt Q"
proof -
  let ?nd = "\<lparr>n_Keys = [k], n_Children = [root t1, root t2], n_Leaf = False, n_Values = [],
      n_LeftSibling = 0, n_RightSibling = 0, n_PageId = 0, n_lsn = []\<rparr>"
  have r: "bt_Root bt = root t1" using st by (simp add: St_def)
  have "yields (new_root C rp) bt Q =
    yields (assignFrame C (sr_OpLSN rp) True ?nd) bt (\<lambda>x s'. yields (case x of (rootFr, newRoot) \<Rightarrow>
      bindS (orPanic (SyncNode C rootFr (sr_OpLSN rp) newRoot)) (\<lambda>_.
      bindS (on_mu Lock) (\<lambda>_. bindS (set_Root (n_PageId newRoot)) (\<lambda>_. on_mu Unlock)))) s' Q)"
    using rp r by (simp add: new_root_def createNode_def)
  moreover have "yields (assignFrame C (sr_OpLSN rp) True ?nd) bt (\<lambda>x s'. yields (case x of (rootFr, newRoot) \<Rightarrow>
      bindS (orPanic (SyncNode C rootFr (sr_OpLSN rp) newRoot)) (\<lambda>_.
      bindS (on_mu Lock) (\<lambda>_. bindS (set_Root (n_PageId newRoot)) (\<lambda>_. on_mu Unlock)))) s' Q)"
  proof (rule yields_assignFrame [OF ok st room], simp_all del: fun_upd_apply, goal_cases)
    case (1 f bt1)
    let ?n = "pnode_of True (?nd\<lparr>n_PageId := pid f\<rparr>)"
    have gd: "good (P(pid f \<mapsto> ?n)) (Suc h) (GNode (pid f) [k] [t1, t2]) g"
      by (rule two_root [OF tw 1(1)]) (use 1(2) in \<open>auto simp: pnode_of_def\<close>)
    show ?case
      apply (rule yields_Sync [OF ok 1(3)], simp)
      apply (rule yields_locks(1), assumption)
      apply (simp add: yields_set_Root del: fun_upd_apply)
      apply (rule yields_unlocks(1) [where r = "pid f" and P = "P(pid f \<mapsto> ?n)" and ci = ci and pg = pg and w = w])
      apply (simp add: St_def pnode_of_def)
      apply (erule Q [OF gd])
      done
  qed
  ultimately show ?thesis by simp
qed

lemma propagate_ok:
  assumes ok: "cache_ok C ci pg pid"
  shows "\<lbrakk>two P h c t1 (sr_PromotedSeparatorKey rp) t2 g; sr_NewNodeId rp = root t2; root t2 \<noteq> 0;
     stack_holds st (map (entry P) c); length c < fuel; card (dom P) + length c < max_pages;
     St ci pg P (root (plug c t1)) free_mutex w bt;
     \<And>P' h' t bt'. \<lbrakk>good P' h' t g; kvs t = kvA c @ kvs t1 @ kvs t2 @ kvB c;
        St ci pg P' (root t) free_mutex w bt'\<rbrakk> \<Longrightarrow> Q () bt'\<rbrakk>
   \<Longrightarrow> yields (propagate_splits fuel C rp st) bt Q"
proof (induction c arbitrary: P h t1 t2 rp st fuel bt)
  case Nil
  from Nil.prems(5) obtain fuel' where fuel: "fuel = Suc fuel'" by (cases fuel) auto
  have cnt: "\<not> 0 < st_Count st" using stack_holds_Count [OF Nil.prems(4)] by simp
  have "yields (new_root C rp) bt (\<lambda>x s'. yields (propagate_splits fuel' C (rp\<lparr>sr_NewNodeId := 0\<rparr>) st) s' Q)"
  proof (rule new_root_ok [OF ok Nil.prems(1) _ _ refl Nil.prems(2)])
    fix P' q bt'
    assume "good P' (Suc h) (GNode q [sr_PromotedSeparatorKey rp] [t1, t2]) g" "St ci pg P' q free_mutex w bt'"
    then have "Q () bt'" by (intro Nil.prems(8)) auto
    then show "yields (propagate_splits fuel' C (rp\<lparr>sr_NewNodeId := 0\<rparr>) st) bt' Q"
      by (simp add: propagate_splits.simps [of fuel'])
  qed (use Nil.prems in auto)
  with Nil.prems(2,3) cnt show ?case by (simp add: propagate_splits.simps [of "Suc fuel'"] fuel)
next
  case (Cons fr c)
  obtain p ks ls rs where fr: "fr = (p, ks, ls, rs)" by (cases fr)
  note tw = Cons.prems(1) [unfolded fr]
  from Cons.prems(5) obtain fuel' where fuel: "fuel = Suc fuel'" "length c < fuel'" by (cases fuel) auto
  have pop: "fst (stack_Pop st) = Ok (entry P (p, ks, ls, rs))"
    "stack_holds (snd (stack_Pop st)) (map (entry P) c)"
    using btstack.pop_rep [of st "entry P (p, ks, ls, rs)" "map (entry P) c"] Cons.prems(4) by (simp_all add: fr)
  have cnt: "0 < st_Count st" using stack_holds_Count [OF Cons.prems(4)] by simp
  have un: "yields (propagate_splits fuel C rp st) bt Q =
     yields (add_to_parent C (entry P (p, ks, ls, rs)) rp) bt
       (\<lambda>rp s'. yields (propagate_splits fuel' C rp (snd (stack_Pop st))) s' Q)"
    using Cons.prems(2,3) cnt by (simp add: propagate_splits.simps [of "Suc fuel'"] fuel pop)
  have st: "St ci pg P (root (plug c (GNode p ks' ts))) free_mutex w bt" for ks' ts
    using Cons.prems(7) root_plug_cong [of "GNode p ks (ls @ t1 # rs)" "GNode p ks' ts" c] by (simp add: fr)
  have kv: "kvA c @ concat (map kvs (ls @ t1 # t2 # rs)) @ kvB c
      = kvA (fr # c) @ kvs t1 @ kvs t2 @ kvB (fr # c)" by (simp add: fr)
  show ?case
  proof (cases "length ks = 3")
    case True
    show ?thesis
      unfolding un
    proof (rule add_to_parent_split [OF ok tw True st [of ks "ls @ t1 # rs"] _ refl Cons.prems(2)])
      fix P' rp' bt'
      assume mv: "moved_up P (Suc h) c p (concat (map kvs (ls @ t1 # t2 # rs))) g rp' P'"
        and st': "St ci pg P' (root (plug c (GNode p ks (ls @ t1 # rs)))) free_mutex w bt'"
      from mv obtain u1 u2 where u: "two P' (Suc h) c u1 (sr_PromotedSeparatorKey rp') u2 g" "root u1 = p"
        "sr_NewNodeId rp' = root u2" "root u2 \<noteq> 0" "kvs u1 @ kvs u2 = concat (map kvs (ls @ t1 # t2 # rs))"
        "map (entry P') c = map (entry P) c" "card (dom P') = Suc (card (dom P))"
        unfolding moved_up_def by metis
      have st2: "St ci pg P' (root (plug c u1)) free_mutex w bt'"
        using st' root_plug_cong [of u1 "GNode p ks (ls @ t1 # rs)" c] u(2) by simp
      show "yields (propagate_splits fuel' C rp' (snd (stack_Pop st))) bt' Q"
      proof (rule Cons.IH [OF u(1,3,4) pop(2) [folded u(6)] fuel(2) _ st2], goal_cases)
        case (2 P2 h2 t bt2)
        have "kvs t = kvA (fr # c) @ kvs t1 @ kvs t2 @ kvB (fr # c)"
          unfolding 2(2) kv [symmetric] u(5) [symmetric] by simp
        then show ?case by (rule Cons.prems(8) [OF 2(1) _ 2(3)])
      qed (use u(7) Cons.prems(6) in simp)
    qed (use Cons.prems in simp)
  next
    case False
    then have sm: "length ks < 3" using two_parent(3) [OF tw] by simp
    show ?thesis
      unfolding un
    proof (rule add_to_parent_absorb [OF ok tw sm st [of "absorb ks (length ls) (sr_PromotedSeparatorKey rp)"
          "ls @ t1 # t2 # rs"] refl Cons.prems(2)], goal_cases)
      case (1 P' rp' bt')
      have "Q () bt'" by (rule Cons.prems(8) [OF 1(1) _ 1(3)]) (simp add: kvs_plug fr)
      then show ?case using 1(2) by (simp add: propagate_splits.simps [of fuel'])
    qed
  qed
qed


section \<open>Insertion\<close>

text \<open>The tree stores the association list \<open>m\<close>; at most \<open>g\<close> pages of the cache are not part of it.\<close>

definition represents ::
  "('s \<Rightarrow> bool) \<Rightarrow> ('s \<Rightarrow> pages) \<Rightarrow> nat \<Rightarrow> 's BTree \<Rightarrow> (bytes \<times> bytes) list \<Rightarrow> bool" where
  "represents ci pg g bt m \<longleftrightarrow> ci (bt_cache bt) \<and> bt_mu bt = free_mutex \<and>
     (if bt_Root bt = 0 then m = [] \<and> card (dom (pg (bt_cache bt))) \<le> g
      else \<exists>h t. good (pg (bt_cache bt)) h t g \<and> root t = bt_Root bt \<and> kvs t = m)"

text \<open>The keys and values of the \<^verbatim>\<open>PUT\<close> records in the log buffer, oldest first.\<close>

fun put_kv :: "nodeValue \<Rightarrow> (bytes \<times> bytes) list" where
  "put_kv (LogNode b) = (if b_opType b = PUT then [(b_key b, b_val b)] else [])"
| "put_kv (CheckNode _) = []"

definition logged :: "WAL \<Rightarrow> (bytes \<times> bytes) list" where
  "logged w = concat (map put_kv (walBuff w))"

lemma logged_after:
  "key \<noteq> [] \<Longrightarrow> val \<noteq> [] \<Longrightarrow>
   logged (wal_after lsn p key val w) = logged w @ (if lsn = [] then [(key, val)] else [])"
  by (simp add: logged_def wal_after_def AddPutLog_def assign_def assignLSN_def WALBuffer_Add_def Let_def)

text \<open>Room for the pages of one more insertion, and fuel for the path.\<close>

definition room :: "nat \<Rightarrow> nat \<Rightarrow> bool" where
  "room k g \<longleftrightarrow> 2 * k + g + 2 < max_pages"

lemma good_sizes:
  assumes "good P h t g"
  shows "h < length (kvs t)" "card (dom P) \<le> length (kvs t) + g"
  using assms height_lt_pids [of 1 h t] pids_le_kvs_root [of h t] by (auto simp: good_def)

lemma good_nonzero: "good P h t g \<Longrightarrow> root t \<noteq> 0"
  using rep_dom [of P t "root t"] root_in_pids [of t] by (auto simp: good_def)

lemma insert_first_ok:
  assumes ok: "cache_ok C ci pg pid" and st: "St ci pg P 0 free_mutex w bt" and g: "card (dom P) \<le> g"
    and rm: "room 0 g" and ne: "key \<noteq> []" "val \<noteq> []"
    and Q: "\<And>P' p l bt'. \<lbrakk>good P' 0 (GLeaf p [key] [val]) g; St ci pg P' p free_mutex (wal_after lsn p key val w) bt';
        l \<noteq> []\<rbrakk> \<Longrightarrow> Q l bt'"
  shows "yields (insert_first C lsn key val) bt Q"
proof -
  have c: "card (dom P) < max_pages" using g rm by (simp add: room_def)
  have z: "0 \<notin> dom P"
    using cache_pos [OF ok st, of 0] by auto
  show ?thesis
    unfolding insert_first_def Let_def
  proof (simp del: fun_upd_apply, rule yields_assignFrame [OF ok st c], simp_all del: fun_upd_apply, goal_cases)
    case (1 f bt1)
    let ?nd = "\<lparr>n_Keys = [key], n_Children = [], n_Leaf = True, n_Values = [val], n_LeftSibling = 0,
        n_RightSibling = 0, n_PageId = pid f, n_lsn = []\<rparr>"
    let ?P = "P(pid f \<mapsto> pnode_of False ?nd)"
    have gd: "good ?P 0 (GLeaf (pid f) [key] [val]) g"
      using 1(1,2) g z by (auto simp: good_def content_def links_def pnode_of_def)
    have key: "frame_GetKey C f (bt_cache b) = pid f" if "St ci pg P' r mu w' b" for P' r mu w' b
      using that cache_okD(1) [OF ok] by (auto simp: cache_get_ok_def St_def)
    show ?case
    proof (rule yields_locks(1) [OF 1(3)], goal_cases)
      case (1 bt2)
      note st2 = 1
      let ?b = "bt2\<lparr>bt_Root := pid f\<rparr>"
      have st3: "St ci pg ?P (pid f) \<lparr>readers = 0, writer = True\<rparr> w ?b"
        using st2 by (simp add: St_def pnode_of_def)
      have "yields (putLSN lsn (pid f) key val) ?b (\<lambda>l s'.
          yields (on_cache (frame_UpdatePageLSN C f l)) s' (\<lambda>_ s'.
          yields (SyncNode C f l (?nd\<lparr>n_lsn := l\<rparr>)) s' (\<lambda>_ s'. yields (on_mu Unlock) s' (\<lambda>_ s'. Q l s'))))"
        apply (rule yields_putLSN [OF st3 ne])
        apply (rule yields_UpdateLSN [OF ok], assumption)
        apply (rule yields_Sync [OF ok], assumption, simp)
        apply (rule yields_unlocks(1), assumption)
        apply (erule Q [rotated])
        using gd by (simp_all add: pnode_of_def)
      then show ?case
        by (simp add: yields_def set_Root_def key [OF st2])
    qed
  qed
qed


lemma insert_at_leaf:
  assumes ok: "cache_ok C ci pg pid" and gd: "good P (length c) (plug c (GLeaf p ks vs)) g"
    and hole: "in_hole c key" and ne: "key \<noteq> []" "val \<noteq> []" and st: "St ci pg P r free_mutex w bt"
    and c: "card (dom P) < max_pages"
    and Q: "\<And>f rp' P' bt'. \<lbrakk>inserted P c p (kv_insert key val (kvs (plug c (GLeaf p ks vs)))) g rp rp' P';
        St ci pg P' r free_mutex (wal_after lsn p key val w) bt'\<rbrakk> \<Longrightarrow> Q (Some f, rp', stk) bt'"
  shows "yields (insert_descend (Suc fuel') C lsn key val p oldF rp stk) bt Q"
proof -
  obtain n where n: "P p = Some n" using good_leaf(1) [OF gd] by blast
  have z: "p \<noteq> 0" using cache_pos [OF ok st n] by auto
  have step: "yields (tryErr (insert_node C lsn (node_of p n) f key val rp stk)) bt' (\<lambda>x s'.
      yields (case x of
          Inl e \<Rightarrow>
            bindS (ignoreErr (ReleaseFrame C f))
             (\<lambda>_. bindS (case oldFrame of None \<Rightarrow> returnS () | Some f \<Rightarrow> ignoreErr (ReleaseFrame C f))
                   (\<lambda>_. failS e))
          | Inr (next, rp, stack) \<Rightarrow> insert_descend fuel' C lsn key val next (Some f) rp stack) s' Q)"
    if "pid f = p" "St ci pg P r free_mutex w bt'" for f bt' oldFrame
    by (rule yields_tryErr, rule insert_node_leaf [OF ok gd hole ne that(2) c n that(1)])
       (use Q in \<open>simp add: insert_descend.simps [of fuel']\<close>)
  show ?thesis
    unfolding insert_descend.simps [of "Suc fuel'"] using z
    by (simp, intro yields_buildPage [OF ok st n])
       (simp, intro yields_Release_opt [OF ok], assumption,
        rule yields_locks(1), assumption, rule yields_unlocks(1), assumption, erule (1) step)
qed

lemma propagate_inserted:
  assumes ok: "cache_ok C ci pg pid"
    and ins: "inserted P c p m g \<lparr>sr_PromotedSeparatorKey = [], sr_NewNodeId = 0, sr_OpLSN = []\<rparr> rp P'"
    and r: "\<And>t. root t = p \<Longrightarrow> root (plug c t) = r" and st: "St ci pg P' r free_mutex w bt"
    and stk: "stack_holds stk (map (entry P) c)" and fuel: "length c < fuel"
    and rm: "card (dom P) + length c + 1 < max_pages"
    and Q: "\<And>P' h' t' bt'. \<lbrakk>good P' h' t' g; kvs t' = m; St ci pg P' (root t') free_mutex w bt'\<rbrakk> \<Longrightarrow> Q () bt'"
  shows "yields (propagate_splits fuel C rp stk) bt Q"
  using ins [unfolded inserted_def]
proof (elim disjE exE conjE)
  fix ks vs
  assume rp: "rp = \<lparr>sr_PromotedSeparatorKey = [], sr_NewNodeId = 0, sr_OpLSN = []\<rparr>"
    and gd: "good P' (length c) (plug c (GLeaf p ks vs)) g" and kv: "kvA c @ zip ks vs @ kvB c = m"
  have "Q () bt" by (rule Q [OF gd]) (use kv st r [of "GLeaf p ks vs"] in \<open>simp_all add: kvs_plug\<close>)
  then show ?thesis using rp by (simp add: propagate_splits.simps [of fuel])
next
  fix t1 t2
  assume tw: "two P' 0 c t1 (sr_PromotedSeparatorKey rp) t2 g" and r1: "root t1 = p"
    and r2: "root t2 = sr_NewNodeId rp" "sr_NewNodeId rp \<noteq> 0"
    and kv: "kvA c @ kvs t1 @ kvs t2 @ kvB c = m"
    and e: "map (entry P') c = map (entry P) c" and cd: "card (dom P') = Suc (card (dom P))"
  show ?thesis
  proof (rule propagate_ok [OF ok tw r2(1) [symmetric]])
    show "stack_holds stk (map (entry P') c)" unfolding e by (rule stk)
    show "St ci pg P' (root (plug c t1)) free_mutex w bt" using st r [OF r1] by simp
  qed (use r2 fuel rm cd kv Q in auto)
qed

lemma insert_existing_ok:
  assumes ok: "cache_ok C ci pg pid" and gd: "good P h t g" and ne: "key \<noteq> []" "val \<noteq> []"
    and st: "St ci pg P (root t) free_mutex w bt" and fuel: "h < fuel" and rm: "card (dom P) + h + 1 < max_pages"
    and Q: "\<And>P' h' t' p bt'. \<lbrakk>good P' h' t' g; kvs t' = kv_insert key val (kvs t);
        St ci pg P' (root t') free_mutex (wal_after lsn p key val w) bt'\<rbrakk> \<Longrightarrow> Q () bt'"
  shows "yields (insert_existing fuel C lsn key val sr) bt Q"
proof -
  let ?rp = "\<lparr>sr_PromotedSeparatorKey = [], sr_NewNodeId = 0, sr_OpLSN = []\<rparr>"
  let ?K = "\<lambda>x s'. yields (case x of (oldFrame, rp, st) \<Rightarrow>
      bindS (case oldFrame of None \<Rightarrow> returnS () | Some f \<Rightarrow> orPanic (ReleaseFrame C f))
        (\<lambda>_. propagate_splits fuel C rp st)) s' Q"
  have main: "yields (insert_descend fuel C lsn key val (root t) None ?rp (NewBTStack sr)) bt1 ?K"
    if st1: "St ci pg P (root t) free_mutex w bt1" for bt1
  proof (rule insert_descend_to_leaf [OF ok, where c = "[]" and h = h and g = g and r = "root t"])
    show "good P (h + length []) (plug [] t) g" "in_hole [] key" using gd by (simp_all add: in_hole_def)
    show "h < fuel" "stack_holds (NewBTStack sr) (map (entry P) [])" using fuel by simp_all
    show "St ci pg P (root t) free_mutex w bt1" by (rule st1)
    fix c p ks vs fuel' oldF stk bt2
    assume c: "plug c (GLeaf p ks vs) = plug [] t" "length c = h + length []" "in_hole c key"
      "stack_holds stk (map (entry P) c)" and st2: "St ci pg P (root t) free_mutex w bt2"
    have gdc: "good P (length c) (plug c (GLeaf p ks vs)) g" using gd c(1,2) by simp
    have r: "root (plug c u) = root t" if "root u = p" for u
      using root_plug_cong [of u "GLeaf p ks vs" c] c(1) that by simp
    show "yields (insert_descend (Suc fuel') C lsn key val p oldF ?rp stk) bt2 ?K"
    proof (rule insert_at_leaf [OF ok gdc c(3) ne st2], goal_cases)
      case (2 f rp P' bt3)
      show ?case
        by (simp, rule yields_Release [OF ok 2(2)],
            rule propagate_inserted [OF ok 2(1) [unfolded c(1) plug.simps(1)] r _ c(4)])
           (use c(2) fuel rm Q in simp_all)
    qed (use rm in simp)
  qed
  have "bt_Root b = root t" if "St ci pg P (root t) mu w b" for mu b using that by (simp add: St_def)
  then show ?thesis
    unfolding insert_existing_def yields_bind yields_value
    by (intro yields_locks(2) [OF st]) (rule yields_unlocks(2), assumption, use main in simp)
qed


lemma represents_tree:
  "represents ci pg g bt m \<Longrightarrow> bt_Root bt \<noteq> 0 \<Longrightarrow>
   \<exists>h t. good (pg (bt_cache bt)) h t g \<and> root t = bt_Root bt \<and> kvs t = m
      \<and> St ci pg (pg (bt_cache bt)) (root t) free_mutex (bt_wal bt) bt"
proof -
  assume "represents ci pg g bt m" "bt_Root bt \<noteq> 0"
  then obtain h t where "good (pg (bt_cache bt)) h t g" "root t = bt_Root bt" "kvs t = m"
    "ci (bt_cache bt)" "bt_mu bt = free_mutex" by (auto simp: represents_def)
  then show ?thesis by (intro exI [of _ h] exI [of _ t]) (simp add: St_def)
qed

lemma representsI:
  "good P h t g \<Longrightarrow> St ci pg P (root t) free_mutex w bt \<Longrightarrow> represents ci pg g bt (kvs t)"
  using good_nonzero [of P h t g] unfolding represents_def St_def by auto

lemma insert_one_ok:
  assumes ok: "cache_ok C ci pg pid" and rp: "represents ci pg g bt m" and ne: "key \<noteq> []" "val \<noteq> []"
    and fuel: "length m < fuel" and rm: "room (length m) g"
  shows "\<exists>l bt'. insert_one fuel C lsn key val bt = (Ok l, bt') \<and> represents ci pg g bt' (kv_insert key val m)
     \<and> logged (bt_wal bt') = logged (bt_wal bt) @ (if lsn = [] then [(key, val)] else [])
     \<and> bt_Root bt' \<noteq> 0 \<and> (if bt_Root bt = 0 then l \<noteq> [] else l = lsn)"
proof (cases "bt_Root bt = 0")
  case True
  then have P: "m = []" "card (dom (pg (bt_cache bt))) \<le> g"
    "St ci pg (pg (bt_cache bt)) 0 free_mutex (bt_wal bt) bt"
    using rp by (simp_all add: represents_def St_def)
  have "yields (insert_first C lsn key val) bt (\<lambda>l bt'. represents ci pg g bt' [(key, val)]
     \<and> logged (bt_wal bt') = logged (bt_wal bt) @ (if lsn = [] then [(key, val)] else []) \<and> bt_Root bt' \<noteq> 0 \<and> l \<noteq> [])"
  proof (rule insert_first_ok [OF ok P(3,2) _ ne], goal_cases)
    case (2 P' p l bt')
    then show ?case
      using representsI [of P' 0 "GLeaf p [key] [val]" g] good_nonzero [OF 2(1)] logged_after [OF ne]
      by (simp add: St_def)
  qed (use rm in \<open>simp add: room_def\<close>)
  with True P(1) show ?thesis by (auto simp: insert_one_def yields_result)
next
  case False
  then obtain h t where t: "good (pg (bt_cache bt)) h t g" "root t = bt_Root bt" "kvs t = m"
    "St ci pg (pg (bt_cache bt)) (root t) free_mutex (bt_wal bt) bt"
    using represents_tree [OF rp] by auto
  note sz = good_sizes [OF t(1), unfolded t(3)]
  have "yields (insert_existing fuel C lsn key val (bt_Root bt)) bt (\<lambda>_ bt'. represents ci pg g bt' (kv_insert key val m)
     \<and> logged (bt_wal bt') = logged (bt_wal bt) @ (if lsn = [] then [(key, val)] else []) \<and> bt_Root bt' \<noteq> 0)"
  proof (rule insert_existing_ok [OF ok t(1) ne t(4)], goal_cases)
    case (3 P' h' t' p bt')
    then show ?case
      using representsI [OF 3(1,3)] good_nonzero [OF 3(1)] logged_after [OF ne] t(3) by (simp add: St_def)
  qed (use sz fuel rm in \<open>simp_all add: room_def\<close>)
  with False show ?thesis by (auto simp: insert_one_def yields_result bindS_def returnS_def)
qed

definition kv_inserts :: "(bytes \<times> bytes) list \<Rightarrow> (bytes \<times> bytes) list \<Rightarrow> (bytes \<times> bytes) list" where
  "kv_inserts xs m = fold (\<lambda>(k, v). kv_insert k v) xs m"

lemma insert_loop_ok:
  assumes ok: "cache_ok C ci pg pid"
  shows "\<lbrakk>represents ci pg g bt m; length vals = length keys; [] \<notin> set keys; [] \<notin> set vals;
     length m + length keys \<le> fuel; room (length m + length keys) g\<rbrakk> \<Longrightarrow>
   \<exists>bt'. insert_loop fuel C keys vals lsn bt = (Ok True, bt')
     \<and> represents ci pg g bt' (kv_inserts (zip keys vals) m)
     \<and> logged (bt_wal bt') = logged (bt_wal bt) @
         (if lsn \<noteq> [] then [] else if bt_Root bt = 0 then take 1 (zip keys vals) else zip keys vals)"
proof (induction keys arbitrary: vals lsn bt m)
  case Nil
  then show ?case by (auto simp: kv_inserts_def returnS_def)
next
  case (Cons k ks)
  from Cons.prems obtain v vs where v: "vals = v # vs" "length vs = length ks" "[] \<notin> set vs" "v \<noteq> []"
    by (cases vals) auto
  have "length m < fuel" "room (length m) g" "k \<noteq> []" using Cons.prems by (auto simp: room_def)
  from insert_one_ok [OF ok Cons.prems(1) this(3) v(4) this(1,2), of lsn] obtain l b where
    b: "insert_one fuel C lsn k v bt = (Ok l, b)" "represents ci pg g b (kv_insert k v m)"
    "logged (bt_wal b) = logged (bt_wal bt) @ (if lsn = [] then [(k, v)] else [])"
    "bt_Root b \<noteq> 0" "if bt_Root bt = 0 then l \<noteq> [] else l = lsn" by blast
  have len: "length (kv_insert k v m) \<le> Suc (length m)" using length_kv_insert [of k v m] by auto
  have "\<exists>b'. insert_loop fuel C ks vs l b = (Ok True, b')
     \<and> represents ci pg g b' (kv_inserts (zip ks vs) (kv_insert k v m))
     \<and> logged (bt_wal b') = logged (bt_wal b) @
         (if l \<noteq> [] then [] else if bt_Root b = 0 then take 1 (zip ks vs) else zip ks vs)"
    by (rule Cons.IH [OF b(2) v(2)]) (use Cons.prems v len in \<open>auto simp: room_def\<close>)
  then show ?case using b v(1) by (auto simp: kv_inserts_def bindS_def split: if_splits)
qed

lemma kv_inserts_map_of: "map_of (kv_inserts xs m) = map_of m ++ map_of (rev xs)"
  by (induction xs arbitrary: m) (auto simp: kv_inserts_def map_of_kv_insert map_add_def fun_eq_iff split: option.splits)

lemma length_kv_inserts: "length (kv_inserts xs m) \<le> length m + length xs"
proof (induction xs arbitrary: m)
  case (Cons x xs)
  obtain k v where x: "x = (k, v)" by (cases x)
  have "length (kv_insert k v m) \<le> Suc (length m)" using length_kv_insert [of k v m] by auto
  with Cons [of "kv_insert k v m"] x show ?case by (simp add: kv_inserts_def)
qed (simp add: kv_inserts_def)

lemma kv_inserts_nonempty: "xs \<noteq> [] \<Longrightarrow> kv_inserts xs m \<noteq> []"
  using kv_inserts_map_of [of xs m] by (cases xs rule: rev_cases) (auto simp: fun_eq_iff split: if_splits)

lemma kv_inserts_sorted: "ssorted (map fst m) \<Longrightarrow> ssorted (map fst (kv_inserts xs m))"
  by (induction xs arbitrary: m) (auto simp: kv_inserts_def kv_insert_sorted)

text \<open>Keys come out of a well-formed tree in increasing order.\<close>

lemma filter_ilv: "filter (\<lambda>x. snd x = 1) (ilv xs ks) = concat (map (filter (\<lambda>x. snd x = 1)) xs)"
  by (induction xs ks rule: ilv.induct) auto

lemma flat_kvs: "shape d h t \<Longrightarrow> filter (\<lambda>x. snd x = 1) (flat t) = map (\<lambda>x. (fst x, 1)) (kvs t)"
proof (induction d h t rule: shape.induct)
  case (1 d p ks vs)
  have "map (\<lambda>x. (fst x, 1::nat)) (zip ks vs) = map (\<lambda>k. (k, 1)) (map fst (zip ks vs))" by simp
  with 1 show ?case by simp
next
  case (2 d h p ks ts)
  have "map (filter (\<lambda>x. snd x = 1)) (map flat ts) = map (map (\<lambda>x. (fst x, 1))) (map kvs ts)"
    using 2 by (auto simp: comp_def)
  then show ?case by (simp only: flat.simps kvs.simps filter_ilv map_concat)
qed auto

lemma kvs_sorted:
  assumes "shape d h t" "ssorted (flat t)"
  shows "ssorted (map fst (kvs t))"
proof -
  have "ssorted (map (\<lambda>x. (fst x, 1::nat)) (kvs t))"
    using sorted_wrt_filter [OF assms(2), of "\<lambda>x. snd x = 1"] flat_kvs [OF assms(1)] by simp
  moreover have "map (\<lambda>x. (fst x, 1::nat)) (kvs t) = map (\<lambda>k. (k, 1)) (map fst (kvs t))" by simp
  ultimately show ?thesis by (simp only: ssorted_flat_keys)
qed

lemma represents_sorted: "represents ci pg g bt m \<Longrightarrow> ssorted (map fst m)"
  using kvs_sorted by (auto simp: represents_def good_def split: if_splits)

end
