(* ===== verification/BtreeRead.thy ===== *)
theory BtreeRead
  imports BtreeCorrect
begin

text \<open>
  The read operations of the tree, \<^verbatim>\<open>Get\<close> and \<^verbatim>\<open>RangeSearch\<close>, against the association list the tree
  stores. The range scan follows the right-sibling links of the leaves.
\<close>

section \<open>Outcomes\<close>

text \<open>\<open>ends m s Q\<close>: \<open>Q\<close> holds of the outcome of a call, whatever it is, and of the new state.\<close>

definition ends :: "('s \<Rightarrow> 'a res \<times> 's) \<Rightarrow> 's \<Rightarrow> ('a res \<Rightarrow> 's \<Rightarrow> bool) \<Rightarrow> bool" where
  "ends m s Q = (case m s of (r, s') \<Rightarrow> Q r s')"

lemma ends_bind: "yields m s (\<lambda>x s'. ends (f x) s' Q) \<Longrightarrow> ends (bindS m f) s Q"
  unfolding ends_def bindS_def yields_result by (elim exE conjE) simp

lemma ends_bind_res:
  "ends m s (\<lambda>r s'. case r of Ok x \<Rightarrow> ends (f x) s' Q | Err e \<Rightarrow> Q (Err e) s'
      | Panic p \<Rightarrow> Q (Panic p) s' | Blocked \<Rightarrow> Q Blocked s') \<Longrightarrow> ends (bindS m f) s Q"
  by (auto simp: ends_def bindS_def split: prod.splits res.splits)

lemma ends_return [simp]: "ends (returnS x) s Q = Q (Ok x) s"
  by (simp add: ends_def returnS_def)

lemma ends_fail [simp]: "ends (failS e) s Q = Q (Err e) s"
  by (simp add: ends_def failS_def)

lemma ends_result: "ends m s Q \<longleftrightarrow> Q (fst (m s)) (snd (m s))"
  by (simp add: ends_def split: prod.splits)

section \<open>Searching a node\<close>

lemma near_member:
  assumes "near ks k i" "ks ! i \<noteq> k" "ssorted ks"
  shows "k \<notin> set ks"
proof
  assume "k \<in> set ks"
  then obtain j where j: "j < length ks" "ks ! j = k" by (auto simp: in_set_conv_nth)
  then show False using assms ssorted_nth [OF assms(3), of i j] ssorted_nth [OF assms(3), of j i]
    by (cases j i rule: linorder_cases) (auto simp: near_def)
qed

lemma yields_try_liftR [simp]:
  "yields (tryErr (liftR (Err e))) s Q = Q (Inl e) s"
  "yields (tryErr (liftR (Ok x))) s Q = Q (Inr x) s"
  by (simp_all add: yields_def tryErr_def liftR_def)

lemma search_leaf:
  assumes "n_Leaf nd" "n_Keys nd \<noteq> []" "ssorted (n_Keys nd)" "length (n_Values nd) = length (n_Keys nd)"
  shows "search nd key = (case map_of (zip (n_Keys nd) (n_Values nd)) key of
     Some v \<Rightarrow> Ok (v, 0) | None \<Rightarrow> Err (BTreeError ''Key not found''))"
proof -
  obtain i where i: "InsertBinarySearch (n_Keys nd) key 0 = Ok (int i)" "near (n_Keys nd) key i"
    using InsertBinarySearch_near [OF assms(2,3), of key 0] by auto
  have il: "i < length (n_Keys nd)" using i(2) by (simp add: near_def)
  have v: "n_Values nd \<noteq> []" using assms(2,4) by auto
  show ?thesis
  proof (cases "n_Keys nd ! i = key")
    case True
    then have "map_of (zip (n_Keys nd) (n_Values nd)) key = Some (n_Values nd ! i)"
      using map_of_zip_nth [OF assms(4) [symmetric] ssorted_distinct [OF assms(3)], of i] il assms(4)
      by simp
    with True il i(1) v assms show ?thesis by (simp add: search_def)
  next
    case False
    with near_member [OF i(2) _ assms(3)] have "map_of (zip (n_Keys nd) (n_Values nd)) key = None"
      using assms(4) by (auto simp: map_of_eq_None_iff dest: set_zip_leftD)
    then show ?thesis
      unfolding \<open>map_of (zip (n_Keys nd) (n_Values nd)) key = None\<close>
      using False il i(1) v assms by (auto simp: search_def)
  qed
qed

lemma search_internal:
  assumes "\<not> n_Leaf nd" "n_Keys nd \<noteq> []" "ssorted (n_Keys nd)"
    "length (n_Children nd) = Suc (length (n_Keys nd))"
  shows "\<exists>j. goes_to (n_Keys nd) key j \<and> search nd key = Ok ([], n_Children nd ! j)
     \<and> (\<forall>p. rangeSearch nd key p = Ok ([], 0, n_Children nd ! j))"
proof -
  obtain i where i: "InsertBinarySearch (n_Keys nd) key 0 = Ok (int i)" "near (n_Keys nd) key i"
    using InsertBinarySearch_near [OF assms(2,3), of key 0] by auto
  have il: "i < length (n_Keys nd)" using i(2) by (simp add: near_def)
  have c: "n_Children nd \<noteq> []" using assms(4) by auto
  let ?j = "if key < n_Keys nd ! i then i else Suc i"
  have "search nd key = Ok ([], n_Children nd ! ?j)"
    "\<And>p. rangeSearch nd key p = Ok ([], 0, n_Children nd ! ?j)"
    using il i(1) c assms index_Ok [of "Suc i" "n_Children nd"]
    by (simp_all add: search_def rangeSearch_def add.commute)
  then show ?thesis using near_goes_to [OF i(2) assms(3)] by blast
qed

section \<open>Get\<close>

lemma get_descend_ok:
  assumes ok: "cache_ok C ci pg pid"
  shows "\<lbrakk>good P (h + length c) (plug c t) g; in_hole c key; h < fuel; St ci pg P r mu w bt;
     \<And>f v bt'. \<lbrakk>map_of (kvs (plug c t)) key = Some v; St ci pg P r mu w bt'\<rbrakk> \<Longrightarrow> Q (Ok (Some f, v)) bt';
     \<And>bt'. \<lbrakk>map_of (kvs (plug c t)) key = None; St ci pg P r mu w bt'\<rbrakk>
        \<Longrightarrow> Q (Err (BTreeError ''Key not found'')) bt'\<rbrakk>
   \<Longrightarrow> ends (get_descend fuel C key (root t) oldF val) bt Q"
proof (induction h arbitrary: c t fuel oldF val bt)
  case 0
  from "0.prems"(1) obtain p ks vs where t: "t = GLeaf p ks vs"
    unfolding good_plug by (cases t) auto
  have gd: "good P (length c) (plug c (GLeaf p ks vs)) g" using "0.prems"(1) t by simp
  note gl = good_leaf [OF gd]
  obtain n where n: "P p = Some n" "pn_keys n = ks" "pn_vals n = vs" "\<not> pn_internal n" using gl(1) by blast
  obtain fuel' where fuel: "fuel = Suc fuel'" using "0.prems"(3) by (cases fuel) auto
  have pos: "0 <s p" by (rule cache_pos [OF ok "0.prems"(4) n(1)])
  have lk: "map_of (kvs (plug c t)) key = map_of (zip ks vs) key"
    using in_hole_lookup [OF "0.prems"(2) gl(6), of "zip ks vs"] by (simp add: kvs_plug t)
  have sr: "search (node_of p n) key = (case map_of (zip ks vs) key of
      Some v \<Rightarrow> Ok (v, 0) | None \<Rightarrow> Err (BTreeError ''Key not found''))"
    using search_leaf [of "node_of p n" key] n gl(2-4) by (simp add: node_of_def)
  have rel: "yields (case fo of None \<Rightarrow> returnS () | Some f \<Rightarrow> ignoreErr (ReleaseFrame C f)) b R"
    if "St ci pg P r mu w b" "\<And>b'. St ci pg P r mu w b' \<Longrightarrow> R () b'" for fo b R
    using that yields_Release [OF ok that(1)] by (cases fo) (auto intro: yields_ignoreErr)
  have "ends (get_descend fuel C key p oldF val) bt Q"
    unfolding fuel get_descend.simps [of "Suc fuel'"] using pos
    apply (simp del: fun_upd_apply)
    apply (rule ends_bind, rule yields_buildPage [OF ok "0.prems"(4) n(1)])
    apply (simp, rule ends_bind, rule yields_Release_opt [OF ok], assumption)
    apply (rule ends_bind)
    apply (cases "map_of (zip ks vs) key")
     apply (simp add: sr, rule ends_bind, rule yields_ignoreErr, rule yields_Release [OF ok], assumption)
     apply (rule ends_bind, erule rel)
     apply (simp add: "0.prems"(6) lk)
    apply (simp add: sr get_descend.simps [of fuel'] "0.prems"(5) lk)
    done
  then show ?case by (simp add: t)
next
  case (Suc h)
  from Suc.prems(1) obtain p ks ts where t: "t = GNode p ks ts"
    unfolding good_plug by (cases t) auto
  note gd = Suc.prems(1) [unfolded t]
  note gn = good_node [OF gd]
  obtain n where n: "P p = Some n" "pn_keys n = ks" "pn_vals n = []" "pn_children n = map root ts" "pn_internal n"
    using gn(1) by blast
  obtain fuel' where fuel: "fuel = Suc fuel'" "h < fuel'" using Suc.prems(3) by (cases fuel) auto
  have pos: "0 <s p" by (rule cache_pos [OF ok Suc.prems(4) n(1)])
  obtain j where j: "goes_to ks key j" "search (node_of p n) key = Ok ([], map root ts ! j)"
    using search_internal [of "node_of p n" key] n gn(2-4) by (auto simp: node_of_def)
  note gc = good_child [OF gd Suc.prems(2) j(1)]
  have IH: "ends (get_descend fuel' C key (root (ts ! j)) (Some f) []) b Q" if "St ci pg P r mu w b" for f b
    by (rule Suc.IH [OF gc(3,2) fuel(2) that]) (use Suc.prems(5,6) gc(1) t in auto)
  have "ends (get_descend fuel C key p oldF val) bt Q"
    unfolding fuel get_descend.simps [of "Suc fuel'"] using pos
    apply (simp del: fun_upd_apply)
    apply (rule ends_bind, rule yields_buildPage [OF ok Suc.prems(4) n(1)])
    apply (simp, rule ends_bind, rule yields_Release_opt [OF ok], assumption)
    apply (rule ends_bind)
    apply (simp add: j(2) gc(5) IH)
    done
  then show ?case by (simp add: t)
qed

lemma Get_ok:
  assumes ok: "cache_ok C ci pg pid" and rp: "represents ci pg g bt m" and r: "bt_Root bt \<noteq> 0"
    and fuel: "length m < fuel"
  shows "\<exists>bt'. Get fuel C key bt = (case map_of m key of Some v \<Rightarrow> Ok v
       | None \<Rightarrow> Err (BTreeError ''Key not found''), bt') \<and> represents ci pg g bt' m"
proof -
  obtain h t where t: "good (pg (bt_cache bt)) h t g" "root t = bt_Root bt" "kvs t = m"
    "St ci pg (pg (bt_cache bt)) (root t) free_mutex (bt_wal bt) bt"
    using represents_tree [OF rp r] by auto
  let ?P = "pg (bt_cache bt)" and ?w = "bt_wal bt"
  have rep: "represents ci pg g b m" if "St ci pg ?P (root t) free_mutex ?w b" for b
    using representsI [OF t(1) that] t(3) by simp
  have rt: "bt_Root b = root t" if "St ci pg ?P (root t) mu ?w b" for b mu using that by (simp add: St_def)
  have nz: "root t \<noteq> 0" using t(2) r by simp
  have "ends (Get fuel C key) bt (\<lambda>x b. x = (case map_of m key of Some v \<Rightarrow> Ok v
       | None \<Rightarrow> Err (BTreeError ''Key not found'')) \<and> represents ci pg g b m)"
    unfolding Get_def
    apply (rule ends_bind, rule yields_locks(2) [OF t(4)])
    apply (rule ends_bind, rule yields_value [THEN iffD2])
    apply (rule ends_bind, rule yields_unlocks(2), assumption)
    apply (simp add: rt nz)
    apply (rule ends_bind_res)
    apply (rule get_descend_ok [OF ok, where c = "[]" and h = h and g = g])
         apply (use t(1) good_sizes [OF t(1)] t(3) fuel in \<open>simp_all add: in_hole_def\<close>)
     apply (rule ends_bind, simp only: yields_orPanic, rule yields_Release [OF ok], assumption)
     apply (simp, rule rep, assumption)
    apply (rule rep, assumption)
    done
  then show ?thesis by (auto simp: ends_def split: prod.splits)
qed


section \<open>RangeSearch\<close>

definition item :: "bytes \<times> bytes \<Rightarrow> RangeItem" where
  "item kv = \<lparr>ri_Key = fst kv, ri_Val = snd kv\<rparr>"

text \<open>The loop over the leaves to the right, flattened to one pass over an association list with the loop's own tests: it stops before a key
  below \<open>maxKey\<close> and after the item that makes \<open>cnt\<close> items. It is a step of the proof and no specification: the comment in the code has the
  first test the other way round. \<^verbatim>\<open>scan_spec_upper\<close> says what the loop computes on a sorted list.\<close>

fun scan_spec :: "bytes \<Rightarrow> int \<Rightarrow> (bytes \<times> bytes) list \<Rightarrow> (bytes \<times> bytes) list \<Rightarrow> (bytes \<times> bytes) list" where
  "scan_spec maxKey cnt [] items = items"
| "scan_spec maxKey cnt (x # xs) items =
     (if maxKey \<noteq> [] \<and> fst x < maxKey then items
      else if int (length items) + 1 \<ge> cnt then items @ [x]
      else scan_spec maxKey cnt xs (items @ [x]))"

lemma scan_spec_prefix:
  "n \<le> length suf \<Longrightarrow> \<exists>k. scan_spec [] cnt (drop n suf) (take n suf) = take k suf
     \<and> n \<le> k \<and> int k \<le> max cnt (int n + 1) \<and> (length suf \<le> k \<or> cnt \<le> int k)"
proof (induction "length suf - n" arbitrary: n)
  case 0
  then show ?case by (intro exI [of _ n]) simp
next
  case (Suc d)
  then have n: "n < length suf" by simp
  have d: "drop n suf = suf ! n # drop (Suc n) suf" using n by (simp add: Cons_nth_drop_Suc)
  have t: "take (Suc n) suf = take n suf @ [suf ! n]" using n by (simp add: take_Suc_conv_app_nth)
  show ?case
  proof (cases "cnt \<le> int n + 1")
    case True
    then show ?thesis using n by (intro exI [of _ "Suc n"]) (simp add: d t)
  next
    case False
    from Suc.hyps(1) [of "Suc n"] Suc.hyps(2) n obtain k where
      "scan_spec [] cnt (drop (Suc n) suf) (take (Suc n) suf) = take k suf"
      "Suc n \<le> k" "int k \<le> max cnt (int n + 2)" "length suf \<le> k \<or> cnt \<le> int k" by force
    with False n show ?thesis by (intro exI [of _ k]) (auto simp: d t)
  qed
qed

lemma scan_spec_limit:
  "scan_spec [] cnt xs items = items @ take (max 1 (nat (cnt - int (length items)))) xs"
proof (induction xs arbitrary: items)
  case (Cons x xs)
  show ?case
  proof (cases "cnt \<le> int (length items) + 1")
    case False
    then have "max 1 (nat (cnt - int (length items))) = Suc (max 1 (nat (cnt - int (length (items @ [x])))))" by simp
    then show ?thesis using False Cons.IH [of "items @ [x]"] by simp
  qed simp
qed simp

lemma scan_spec_above: "\<forall>x\<in>set xs. \<not> fst x < maxKey \<Longrightarrow> scan_spec maxKey cnt xs items = scan_spec [] cnt xs items"
  by (induction xs arbitrary: items) auto

text \<open>On a sorted list only the first key decides: if it is below \<open>maxKey\<close>, nothing is added; if not, \<open>maxKey\<close> has no effect.\<close>

lemma scan_spec_upper:
  assumes "sorted_wrt (<) (map fst suf)" "n \<le> length suf"
  shows "scan_spec maxKey cnt (drop n suf) (take n suf)
     = take (if maxKey \<noteq> [] \<and> n < length suf \<and> fst (suf ! n) < maxKey then n else max (Suc n) (nat cnt)) suf"
proof (cases "maxKey \<noteq> [] \<and> n < length suf \<and> fst (suf ! n) < maxKey")
  case True
  then have d: "drop n suf = suf ! n # drop (Suc n) suf" by (simp add: Cons_nth_drop_Suc)
  show ?thesis unfolding d using True by simp
next
  case False
  have "\<not> fst x < maxKey" if x: "x \<in> set (drop n suf)" "maxKey \<noteq> []" for x
  proof -
    obtain j where "j < length suf - n" "x = drop n suf ! j" using x(1) unfolding in_set_conv_nth by auto
    then obtain i where i: "n \<le> i" "i < length suf" "x = suf ! i" using assms(2) by (intro that [of "n + j"]) auto
    have "fst (suf ! n) \<le> fst (suf ! i)"
      using sorted_wrt_nth_less [OF assms(1), of n i] i by (cases "n = i") auto
    then show ?thesis using False i x(2) by auto
  qed
  then have "scan_spec maxKey cnt (drop n suf) (take n suf) = scan_spec [] cnt (drop n suf) (take n suf)"
    by (cases "maxKey = []") (simp, rule scan_spec_above, blast)
  also have "\<dots> = take n suf @ take (max (Suc n) (nat cnt) - n) (drop n suf)"
  proof -
    have "max 1 (nat (cnt - int n)) = max (Suc n) (nat cnt) - n" by auto
    then show ?thesis using assms(2) by (simp add: scan_spec_limit min_absorb2)
  qed
  also have "\<dots> = take (max (Suc n) (nat cnt)) suf" using take_add [of n "max (Suc n) (nat cnt) - n" suf] by simp
  finally show ?thesis unfolding if_not_P [OF False] .
qed

lemma range_items_zip:
  "length vs = length ks \<Longrightarrow> range_items ks vs = Ok (map item (zip ks vs))"
  by (induction ks vs rule: range_items.induct) (auto simp: item_def)

lemma range_leaf_spec:
  "length vs = length ks \<Longrightarrow>
   (\<exists>r. range_leaf maxKey cnt ks vs (map item items) = Ok r
      \<and> (case r of Inl xs \<Rightarrow> xs = map item (scan_spec maxKey cnt (zip ks vs @ rest) items)
         | Inr xs \<Rightarrow> \<exists>ys. xs = map item ys
              \<and> scan_spec maxKey cnt (zip ks vs @ rest) items = scan_spec maxKey cnt rest ys))"
proof (induction ks arbitrary: vs items)
  case Nil
  then show ?case by auto
next
  case (Cons k ks)
  then obtain v vs' where v: "vs = v # vs'" "length vs' = length ks" by (cases vs) auto
  have sn: "map item items @ [\<lparr>ri_Key = k, ri_Val = v\<rparr>] = map item (items @ [(k, v)])" by (simp add: item_def)
  show ?case
  proof (cases "maxKey \<noteq> [] \<and> k < maxKey \<or> cnt \<le> int (length items) + 1")
    case True
    then show ?thesis unfolding v(1) by (auto simp: item_def)
  next
    case False
    then have "range_leaf maxKey cnt (k # ks) vs (map item items) = range_leaf maxKey cnt ks vs' (map item (items @ [(k, v)]))"
      "scan_spec maxKey cnt (zip (k # ks) vs @ rest) items = scan_spec maxKey cnt (zip ks vs' @ rest) (items @ [(k, v)])"
      unfolding v(1) by (auto simp: sn [symmetric] simp del: map_append)
    with Cons.IH [OF v(2), of "items @ [(k, v)]"] show ?thesis by (simp only:)
  qed
qed

text \<open>The leaves from a page to the end of the level.\<close>

definition leaves_at :: "pages \<Rightarrow> gtree list \<Rightarrow> bool" where
  "leaves_at P F \<longleftrightarrow> (\<forall>t\<in>set F. shape DEGREE 0 t \<and> rep P t)"

lemma range_scan_ok:
  assumes ok: "cache_ok C ci pg pid"
  shows "\<lbrakk>chain P l (map root F) 0; leaves_at P F; length F \<le> fuel; St ci pg P r mu w bt;
     \<And>bt'. St ci pg P r mu w bt' \<Longrightarrow> Q (map item (scan_spec maxKey cnt (concat (map kvs F)) items)) bt'\<rbrakk>
   \<Longrightarrow> yields (range_scan fuel C maxKey cnt (case F of [] \<Rightarrow> 0 | t # _ \<Rightarrow> root t) (map item items)) bt Q"
proof (induction F arbitrary: l fuel items bt)
  case Nil
  then show ?case by (simp add: range_scan.simps)
next
  case (Cons t F)
  from Cons.prems(2) obtain p ks vs where t: "t = GLeaf p ks vs" "length vs = length ks"
    "content P p = Some (ks, vs, [], False)" by (cases t) (auto simp: leaves_at_def)
  then obtain n where n: "P p = Some n" "pn_keys n = ks" "pn_vals n = vs" "\<not> pn_internal n"
    using content_page by blast
  have nx: "pn_right n = (case F of [] \<Rightarrow> 0 | t # _ \<Rightarrow> root t)"
    using Cons.prems(1) n(1) t(1) by (cases F) (auto simp: links_def)
  have ch: "chain P p (map root F) 0" using Cons.prems(1) t(1) by (cases F) auto
  have lf: "leaves_at P F" using Cons.prems(2) by (simp add: leaves_at_def)
  obtain fuel' where fuel: "fuel = Suc fuel'" "length F \<le> fuel'" using Cons.prems(3) by (cases fuel) auto
  have pos: "0 <s p" by (rule cache_pos [OF ok Cons.prems(4) n(1)])
  obtain res where res: "range_leaf maxKey cnt ks vs (map item items) = Ok res"
    "case res of Inl xs \<Rightarrow> xs = map item (scan_spec maxKey cnt (zip ks vs @ concat (map kvs F)) items)
     | Inr xs \<Rightarrow> \<exists>ys. xs = map item ys
         \<and> scan_spec maxKey cnt (zip ks vs @ concat (map kvs F)) items = scan_spec maxKey cnt (concat (map kvs F)) ys"
    using range_leaf_spec [OF t(2), of maxKey cnt items "concat (map kvs F)"] by blast
  have fin: "yields (case res of Inl items \<Rightarrow> returnS items
      | Inr items \<Rightarrow> range_scan fuel' C maxKey cnt (pn_right n) items) b Q" if st: "St ci pg P r mu w b" for b
  proof (cases res)
    case (Inl xs)
    with res(2) Cons.prems(5) [OF st] t(1) show ?thesis by simp
  next
    case (Inr xs)
    with res(2) obtain ys where ys: "xs = map item ys"
      "scan_spec maxKey cnt (zip ks vs @ concat (map kvs F)) items = scan_spec maxKey cnt (concat (map kvs F)) ys"
      by auto
    have "yields (range_scan fuel' C maxKey cnt (pn_right n) (map item ys)) b Q"
      unfolding nx by (rule Cons.IH [OF ch lf fuel(2) st]) (use Cons.prems(5) ys(2) t(1) in simp)
    with Inr ys(1) show ?thesis by simp
  qed
  have "yields (range_scan fuel C maxKey cnt p (map item items)) bt Q"
    unfolding fuel range_scan.simps [of "Suc fuel'"] using pos
    apply (simp del: fun_upd_apply)
    apply (rule yields_buildPage [OF ok Cons.prems(4) n(1)])
    apply (use n res(1) fin in \<open>simp add: node_of_def\<close>)
    done
  then show ?case by (simp add: t(1))
qed


lemma kvs_kids: "shape d (Suc h) t \<Longrightarrow> concat (map kvs (kids t)) = kvs t"
  by (cases t) auto

lemma kvB_row: "wfc h c \<Longrightarrow> concat (map kvs (rowr c)) = kvB c"
proof (induction c arbitrary: h rule: rowr.induct)
  case (2 p ks ls rs c)
  have "concat (map kvs (concat (map kids ts))) = concat (map kvs ts)"
    if "\<forall>t\<in>set ts. shape DEGREE (Suc h) t" for ts
    using that by (induction ts) (auto simp: kvs_kids)
  moreover have "\<forall>t\<in>set (rowr c). shape DEGREE (Suc h) t" using 2 row_shape [of "Suc h" c] by auto
  ultimately show ?case using 2(1) [of "Suc h"] 2(2) by simp
qed simp

lemma rangeSearch_leaf:
  assumes "n_Leaf nd" "n_Keys nd \<noteq> []" "ssorted (n_Keys nd)" "length (n_Values nd) = length (n_Keys nd)"
  shows "(\<exists>i<length (n_Keys nd). n_Keys nd ! i = key
            \<and> rangeSearch nd key p = Ok (map item (drop i (zip (n_Keys nd) (n_Values nd))), n_RightSibling nd, 0))
       \<or> key \<notin> set (n_Keys nd) \<and> rangeSearch nd key p = Err (BTreeError ''Key not found'')"
proof -
  obtain i where i: "InsertBinarySearch (n_Keys nd) key 0 = Ok (int i)" "near (n_Keys nd) key i"
    using InsertBinarySearch_near [OF assms(2,3), of key 0] by auto
  have il: "i < length (n_Keys nd)" using i(2) by (simp add: near_def)
  have v: "n_Values nd \<noteq> []" using assms(2,4) by auto
  show ?thesis
  proof (cases "n_Keys nd ! i = key")
    case True
    then show ?thesis
      using il i(1) v assms by (intro disjI1 exI [of _ i]) (simp add: rangeSearch_def range_items_zip drop_zip)
  next
    case False
    with near_member [OF i(2) _ assms(3)] il i(1) v assms show ?thesis by (auto simp: rangeSearch_def)
  qed
qed

lemma range_descend_ok:
  assumes ok: "cache_ok C ci pg pid"
  shows "\<lbrakk>good P (h + length c) (plug c t) g; in_hole c key; h < fuel; St ci pg P r mu w bt;
     \<And>c' p ks vs i nd bt'. \<lbrakk>good P (length c') (plug c' (GLeaf p ks vs)) g; plug c' (GLeaf p ks vs) = plug c t;
        in_hole c' key; i < length ks; ks ! i = key; St ci pg P r mu w bt'\<rbrakk>
        \<Longrightarrow> Q (Ok (Some nd, map item (drop i (zip ks vs)), right_of c')) bt';
     \<And>bt'. \<lbrakk>map_of (kvs (plug c t)) key = None; St ci pg P r mu w bt'\<rbrakk>
        \<Longrightarrow> Q (Err (BTreeError ''Key not found'')) bt'\<rbrakk>
   \<Longrightarrow> ends (range_descend fuel C key (root t) pge items rs) bt Q"
proof (induction h arbitrary: c t fuel pge items rs bt)
  case 0
  from "0.prems"(1) obtain p ks vs where t: "t = GLeaf p ks vs"
    unfolding good_plug by (cases t) auto
  have gd: "good P (length c) (plug c (GLeaf p ks vs)) g" using "0.prems"(1) t by simp
  note gl = good_leaf [OF gd]
  obtain n where n: "P p = Some n" "pn_keys n = ks" "pn_vals n = vs" "\<not> pn_internal n" using gl(1) by blast
  obtain fuel' where fuel: "fuel = Suc fuel'" using "0.prems"(3) by (cases fuel) auto
  have pos: "0 <s p" by (rule cache_pos [OF ok "0.prems"(4) n(1)])
  have z: "p \<noteq> 0" using pos by auto
  have "chain P 0 (map root (rowl c) @ p # map root (rowr c)) 0" "p \<notin> set (ctx_pids c)"
    using gd [unfolded good_plug0] by simp_all
  note hp = hole_right [OF this n(1) z]
  have lk: "map_of (kvs (plug c t)) key = map_of (zip ks vs) key"
    using in_hole_lookup [OF "0.prems"(2) gl(6), of "zip ks vs"] by (simp add: kvs_plug t)
  consider (found) i where "i < length ks" "ks ! i = key"
      "rangeSearch (node_of p n) key p = Ok (map item (drop i (zip ks vs)), right_of c, 0)"
    | (absent) "map_of (kvs (plug c t)) key = None"
      "rangeSearch (node_of p n) key p = Err (BTreeError ''Key not found'')"
    using rangeSearch_leaf [of "node_of p n" key p] n gl(2-4) hp(1)
    unfolding lk by (auto simp: node_of_def)
  then have "ends (range_descend fuel C key p pge items rs) bt Q"
  proof cases
    case found
    show ?thesis
      unfolding fuel range_descend.simps [of "Suc fuel'"] using pos
      by (simp del: fun_upd_apply) (rule ends_bind, rule yields_buildPage [OF ok "0.prems"(4) n(1)],
        simp, rule ends_bind, simp add: found(3) range_descend.simps [of fuel'],
        rule "0.prems"(5) [OF gd _ "0.prems"(2) found(1,2)], simp_all add: t)
  next
    case absent
    show ?thesis
      unfolding fuel range_descend.simps [of "Suc fuel'"] using pos
      by (simp del: fun_upd_apply) (rule ends_bind, rule yields_buildPage [OF ok "0.prems"(4) n(1)],
        simp add: absent(2) ends_def "0.prems"(6) absent(1))
  qed
  then show ?case by (simp add: t)
next
  case (Suc h)
  from Suc.prems(1) obtain p ks ts where t: "t = GNode p ks ts"
    unfolding good_plug by (cases t) auto
  note gd = Suc.prems(1) [unfolded t]
  note gn = good_node [OF gd]
  obtain n where n: "P p = Some n" "pn_keys n = ks" "pn_vals n = []" "pn_children n = map root ts" "pn_internal n"
    using gn(1) by blast
  obtain fuel' where fuel: "fuel = Suc fuel'" "h < fuel'" using Suc.prems(3) by (cases fuel) auto
  have pos: "0 <s p" by (rule cache_pos [OF ok Suc.prems(4) n(1)])
  obtain j where j: "goes_to ks key j" "\<And>p'. rangeSearch (node_of p n) key p' = Ok ([], 0, map root ts ! j)"
    using search_internal [of "node_of p n" key] n gn(2-4) by (auto simp: node_of_def)
  note gc = good_child [OF gd Suc.prems(2) j(1)]
  have IH: "ends (range_descend fuel' C key (root (ts ! j)) (Some (node_of p n)) [] 0) b Q"
    if "St ci pg P r mu w b" for b
    by (rule Suc.IH [OF gc(3,2) fuel(2) that]) (use Suc.prems(5,6) gc(1) t in simp_all)
  have "ends (range_descend fuel C key p pge items rs) bt Q"
    unfolding fuel range_descend.simps [of "Suc fuel'"] using pos
    by (simp del: fun_upd_apply) (rule ends_bind, rule yields_buildPage [OF ok Suc.prems(4) n(1)],
      simp, rule ends_bind, simp add: j(2) gc(5) IH)
  then show ?case by (simp add: t)
qed


lemma suffix_at_leaf:
  assumes srt: "ssorted (map fst (kvs (plug c (GLeaf p ks vs))))" and len: "length vs = length ks"
    and i: "i < length ks" "ks ! i = k"
  shows "dropWhile (\<lambda>x. fst x \<noteq> k) (kvs (plug c (GLeaf p ks vs))) = drop i (zip ks vs) @ kvB c"
    "drop i (zip ks vs) \<noteq> []"
proof -
  have m: "kvs (plug c (GLeaf p ks vs)) = (kvA c @ take i (zip ks vs)) @ drop i (zip ks vs) @ kvB c"
    using kvs_plug [of c "GLeaf p ks vs"] by (metis append.assoc append_take_drop_id kvs.simps(1))
  have d: "drop i (zip ks vs) = (k, vs ! i) # drop (Suc i) (zip ks vs)"
    using i len by (simp add: Cons_nth_drop_Suc [symmetric])
  then show "drop i (zip ks vs) \<noteq> []" by simp
  have "fst x \<noteq> k" if "x \<in> set (kvA c @ take i (zip ks vs))" for x
    using that srt unfolding m d by (force simp: sorted_wrt_append)
  then show "dropWhile (\<lambda>x. fst x \<noteq> k) (kvs (plug c (GLeaf p ks vs))) = drop i (zip ks vs) @ kvB c"
    unfolding m d by (subst dropWhile_append2) auto
qed

lemma leaves_right:
  assumes gd: "good P (length c) (plug c (GLeaf p ks vs)) g"
  shows "chain P p (map root (rowr c)) 0" "leaves_at P (rowr c)" "concat (map kvs (rowr c)) = kvB c"
    "length (rowr c) \<le> length (kvs (plug c (GLeaf p ks vs)))" "right_of c = (case rowr c of [] \<Rightarrow> 0 | t # _ \<Rightarrow> root t)"
proof -
  note gl = good_leaf [OF gd]
  have "chain P 0 (map root (rowl c) @ p # map root (rowr c)) 0" using gd [unfolded good_plug0] by simp
  then show "chain P p (map root (rowr c)) 0" by (cases "rowr c") (auto simp: chain_append)
  show lf: "leaves_at P (rowr c)"
    using row_shape [OF gl(6)] row_rep [OF gl(7)] by (auto simp: leaves_at_def)
  show kv: "concat (map kvs (rowr c)) = kvB c" by (rule kvB_row [OF gl(6)])
  have "length F \<le> length (concat (map kvs F))" if "\<forall>t\<in>set F. shape DEGREE 0 t" for F
  proof (use that in \<open>induction F\<close>)
    case (Cons t F)
    then have "1 \<le> length (kvs t)" by (cases t) auto
    with Cons show ?case by simp
  qed simp
  then have "length (rowr c) \<le> length (kvB c)" using lf kv by (metis leaves_at_def)
  then show "length (rowr c) \<le> length (kvs (plug c (GLeaf p ks vs)))" by (simp add: kvs_plug)
  show "right_of c = (case rowr c of [] \<Rightarrow> 0 | t # _ \<Rightarrow> root t)" by (simp add: right_of_def)
qed

text \<open>The outcome of a range search that starts at \<open>minKey\<close>, with \<open>suf\<close> the list from \<open>minKey\<close> on: the rest
  of the first leaf, then the scan.\<close>

definition range_result :: "bytes \<Rightarrow> int \<Rightarrow> (bytes \<times> bytes) list \<Rightarrow> RangeItem list res \<Rightarrow> bool" where
  "range_result maxKey cnt suf x \<longleftrightarrow>
     (if suf = [] then x = Err (BTreeError ''Key not found'')
      else \<exists>n. 1 \<le> n \<and> n \<le> 4 \<and> n \<le> length suf
             \<and> x = Ok (map item (scan_spec maxKey cnt (drop n suf) (take n suf))))"

lemma RangeSearch_ok:
  assumes ok: "cache_ok C ci pg pid" and rp: "represents ci pg g bt m" and r: "bt_Root bt \<noteq> 0"
    and fuel: "length m < fuel"
  shows "\<exists>x bt'. RangeSearch fuel C minKey maxKey cnt bt = (x, bt') \<and> represents ci pg g bt' m
     \<and> range_result maxKey (sint cnt) (dropWhile (\<lambda>x. fst x \<noteq> minKey) m) x"
proof -
  obtain h t where t: "good (pg (bt_cache bt)) h t g" "root t = bt_Root bt" "kvs t = m"
    "St ci pg (pg (bt_cache bt)) (root t) free_mutex (bt_wal bt) bt"
    using represents_tree [OF rp r] by auto
  let ?P = "pg (bt_cache bt)" and ?w = "bt_wal bt" and ?suf = "dropWhile (\<lambda>x. fst x \<noteq> minKey) m"
  let ?Q = "\<lambda>x b. represents ci pg g b m \<and> range_result maxKey (sint cnt) ?suf x"
  have rep: "represents ci pg g b m" if "St ci pg ?P (root t) free_mutex ?w b" for b
    using representsI [OF t(1) that] t(3) by simp
  have found: "yields (range_scan fuel C maxKey (sint cnt) (right_of c) (map item (drop i (zip ks vs)))) b (\<lambda>x s. ?Q (Ok x) s)"
    if gd: "good ?P (length c) (plug c (GLeaf p ks vs)) g" and pl: "plug c (GLeaf p ks vs) = plug [] t"
      and i: "i < length ks" "ks ! i = minKey"
      and st: "St ci pg ?P (root t) free_mutex ?w b" for c p ks vs i b
  proof -
    note gl = good_leaf [OF gd] and lr = leaves_right [OF gd]
    have kv: "kvs (plug c (GLeaf p ks vs)) = m" using pl t(3) by simp
    note sf = suffix_at_leaf [OF represents_sorted [OF rp, folded kv] gl(4) i, unfolded kv]
    have "range_result maxKey (sint cnt) ?suf (Ok (map item (scan_spec maxKey (sint cnt) (kvB c) (drop i (zip ks vs)))))"
      unfolding range_result_def sf(1) using gl(4,5) i(1)
      by (auto intro!: exI [of _ "length (drop i (zip ks vs))"])
    then show ?thesis
      unfolding lr(5) using lr(4) fuel
      by (intro range_scan_ok [OF ok lr(1,2) _ st]) (auto simp: lr(3) kv rep)
  qed
  have absent: "?Q (Err (BTreeError ''Key not found'')) b"
    if "map_of (kvs (plug [] t)) minKey = None" "St ci pg ?P (root t) free_mutex ?w b" for b
  proof -
    have "?suf = []" using that(1) t(3) by (auto simp: map_of_eq_None_iff)
    then show ?thesis using rep [OF that(2)] by (simp add: range_result_def)
  qed
  have "ends (bindS (range_descend fuel C minKey (root t) None [] 0) (\<lambda>(pge, items, rightSibId).
           case pge of
             None \<Rightarrow> panicS ''nil pointer dereference''
           | Some _ \<Rightarrow> range_scan fuel C maxKey (sint cnt) rightSibId items)) bt ?Q"
  proof (rule ends_bind_res, rule range_descend_ok [OF ok, where c = "[]" and h = h and g = g and r = "root t"
        and P = ?P and w = ?w and mu = free_mutex], goal_cases)
    case (5 c p ks vs i nd b)
    have "yields (range_scan fuel C maxKey (sint cnt) (right_of c) (map item (drop i (zip ks vs)))) b (\<lambda>x s. ?Q (Ok x) s)"
      by (rule found [OF 5(1,2,4,5,6)])
    then show ?case by (auto simp: ends_def yields_result)
  next
    case (6 b)
    then show ?case using absent by simp
  qed (use t good_sizes [OF t(1)] fuel in \<open>simp_all add: in_hole_def\<close>)
  then have "ends (RangeSearch fuel C minKey maxKey cnt) bt ?Q"
    using r t(2) by (simp add: ends_def RangeSearch_def)
  then show ?thesis unfolding ends_def by (auto split: prod.splits)
qed

end
