(* ===== verification/BtreeProps.thy ===== *)
theory BtreeProps
  imports BtreeRead
begin

text \<open>
  The properties of the B+ tree's insertion and lookups. A cache that keeps its pages in a list
  shows that the contract of the cache can be met; it is used by the examples only.
\<close>

section \<open>A cache over a list of pages\<close>

type_synonym pstore = "pnode list"

definition ls_inv :: "pstore \<Rightarrow> bool" where
  "ls_inv s \<longleftrightarrow> length s \<le> max_pages"

definition ls_pages :: "pstore \<Rightarrow> pages" where
  "ls_pages s p = (if 1 \<le> unat p \<and> unat p \<le> length s then Some (s ! (unat p - 1)) else None)"

definition ls_new :: "bytes list \<Rightarrow> bytes list option \<Rightarrow> u32 list option \<Rightarrow> pnode" where
  "ls_new ks vs cs = \<lparr>pn_keys = ks, pn_vals = (case vs of None \<Rightarrow> [] | Some v \<Rightarrow> v),
     pn_children = (case cs of None \<Rightarrow> [] | Some c \<Rightarrow> c), pn_internal = (vs = None), pn_right = 0, pn_left = 0\<rparr>"

definition list_cache :: "(u32, pstore) CacheApi" where
  "list_cache = \<lparr>
     cache_Get = (\<lambda>p s. (if ls_pages s p = None then Err (BufferManagerError ''no page'') else Ok p, s)),
     cache_CreateNewEntry = (\<lambda>lsn ks vs cs isRoot s.
       if length s < max_pages then (Ok (word_of_nat (Suc (length s))), s @ [ls_new ks vs cs])
       else (Err (BufferManagerError ''full''), s)),
     cache_SyncFrame = (\<lambda>f lsn ks vs cs r l s.
       (Ok (), s[unat f - 1 := \<lparr>pn_keys = ks, pn_vals = vs, pn_children = cs,
                 pn_internal = pn_internal (s ! (unat f - 1)), pn_right = r, pn_left = l\<rparr>])),
     cache_ReleaseFrame = (\<lambda>f d s. (Ok (), s)),
     cache_MarkFrameDirty = (\<lambda>f s. (Ok (), s)),
     cache_SetNewRoot = (\<lambda>f s. (Ok (), s)),
     cache_GetRootPageId = (\<lambda>s. 0),
     cache_Close = (\<lambda>s. (Ok (), s)),
     frame_GetKey = (\<lambda>f s. f),
     frame_GetMinPage = (\<lambda>f s. case ls_pages s f of
         None \<Rightarrow> Err (BufferManagerError ''no page'')
       | Some n \<Rightarrow> Ok \<lparr>mp_Keys = pn_keys n, mp_Vals = pn_vals n, mp_Children = pn_children n,
                       mp_PageId = f, mp_RightSibling = pn_right n, mp_LeftSibling = pn_left n\<rparr>),
     frame_Internal = (\<lambda>f s. case ls_pages s f of None \<Rightarrow> False | Some n \<Rightarrow> pn_internal n),
     frame_MarkAsDead = (\<lambda>f s. (Ok (), s)),
     frame_UpdatePageLSN = (\<lambda>f lsn s. (Ok (), s))\<rparr>"

lemma unat_page: "n \<le> max_pages \<Longrightarrow> unat (word_of_nat n :: u32) = n"
  by (simp add: max_pages_def unsigned_of_nat take_bit_nat_eq_self)

lemma page_pos:
  assumes "1 \<le> unat p" "unat p \<le> max_pages"
  shows "0 <s (p :: u32)"
proof -
  have "int (unat p) < int (2 ^ 31)" using assms(2) by (simp only: of_nat_less_iff max_pages_def) simp
  then have "uint p < 2 ^ 31" by simp
  moreover have "- (2 ^ 31) \<le> uint p" by (rule order_trans [of _ 0]) simp_all
  ultimately have "sint p = uint p" by (simp add: sint_uint signed_take_bit_int_eq_self)
  moreover have "p \<noteq> 0" using assms(1) by auto
  ultimately show ?thesis by (simp add: word_sless_alt word_neq_0_conv word_less_def)
qed

lemma ls_dom: "dom (ls_pages s) = {p. 1 \<le> unat p \<and> unat p \<le> length s}"
  by (auto simp: ls_pages_def split: if_splits)

lemma ls_card: "length s \<le> max_pages \<Longrightarrow> card (dom (ls_pages s)) = length s"
proof -
  assume s: "length s \<le> max_pages"
  have u: "unat (word_of_nat n :: u32) = n" if "n \<le> length s" for n
    using that s unat_page by simp
  have "dom (ls_pages s) = word_of_nat ` {1..length s}"
  proof (intro set_eqI iffI)
    fix p :: u32
    assume "p \<in> dom (ls_pages s)"
    then show "p \<in> word_of_nat ` {1..length s}"
      by (intro image_eqI [of _ _ "unat p"]) (auto simp: ls_dom)
  qed (auto simp: ls_dom u)
  moreover have "inj_on (word_of_nat :: nat \<Rightarrow> u32) {1..length s}"
    by (rule inj_onI) (metis u atLeastAtMost_iff)
  ultimately show ?thesis by (simp add: card_image)
qed

lemma ls_append:
  assumes "length s < max_pages"
  shows "ls_pages (s @ [n]) = (ls_pages s)(word_of_nat (Suc (length s)) \<mapsto> n)"
    "word_of_nat (Suc (length s)) \<notin> dom (ls_pages s)"
proof -
  have u: "unat (word_of_nat (Suc (length s)) :: u32) = Suc (length s)"
    using assms by (intro unat_page) simp
  then show "word_of_nat (Suc (length s)) \<notin> dom (ls_pages s)" by (simp add: ls_dom)
  show "ls_pages (s @ [n]) = (ls_pages s)(word_of_nat (Suc (length s)) \<mapsto> n)"
  proof
    fix p :: u32
    show "ls_pages (s @ [n]) p = ((ls_pages s)(word_of_nat (Suc (length s)) \<mapsto> n)) p"
    proof (cases "p = word_of_nat (Suc (length s))")
      case True
      then show ?thesis using u by (simp add: ls_pages_def)
    next
      case False
      then have "unat p \<noteq> Suc (length s)" using u by (metis word_unat_eq_iff)
      then show ?thesis using False by (auto simp: ls_pages_def nth_append)
    qed
  qed
qed

lemma ls_update:
  assumes "ls_pages s p = Some n"
  shows "ls_pages (s[unat p - 1 := n']) = (ls_pages s)(p \<mapsto> n')" "s ! (unat p - 1) = n"
proof -
  have p: "1 \<le> unat p" "unat p \<le> length s" "s ! (unat p - 1) = n"
    using assms by (auto simp: ls_pages_def split: if_splits)
  then show "s ! (unat p - 1) = n" by simp
  show "ls_pages (s[unat p - 1 := n']) = (ls_pages s)(p \<mapsto> n')"
  proof
    fix q :: u32
    have "unat p = unat q" if "1 \<le> unat q" "unat p - 1 = unat q - 1" using that p by linarith
    then show "ls_pages (s[unat p - 1 := n']) q = ((ls_pages s)(p \<mapsto> n')) q"
      using p by (auto simp: ls_pages_def nth_list_update word_unat_eq_iff)
  qed
qed

lemma list_cache_ok: "cache_ok list_cache ls_inv ls_pages (\<lambda>f. f)"
proof -
  have "cache_get_ok list_cache ls_inv ls_pages (\<lambda>f. f)"
    unfolding cache_get_ok_def
    by (auto simp: list_cache_def ls_inv_def ls_dom intro!: page_pos)
  moreover have "cache_put_ok list_cache ls_inv ls_pages (\<lambda>f. f)"
    unfolding cache_put_ok_def
  proof (intro conjI allI impI; elim conjE)
    fix s f lsn ks vs cs r l n
    assume "ls_inv s" "ls_pages s f = Some n"
    then show "\<exists>s'. cache_SyncFrame list_cache f lsn ks vs cs r l s = (Ok (), s') \<and> ls_inv s' \<and>
        ls_pages s' = (ls_pages s)(f \<mapsto> \<lparr>pn_keys = ks, pn_vals = vs, pn_children = cs,
           pn_internal = pn_internal n, pn_right = r, pn_left = l\<rparr>)"
      using ls_update [of s f n] by (simp add: list_cache_def ls_inv_def)
  next
    fix s :: pstore and lsn ks vs and isRoot :: bool
    assume "ls_inv s" "card (dom (ls_pages s)) < max_pages"
    then show "\<exists>f s'. cache_CreateNewEntry list_cache lsn ks (Some vs) None isRoot s = (Ok f, s') \<and> ls_inv s' \<and>
        f \<notin> dom (ls_pages s) \<and> ls_pages s' = (ls_pages s)(f \<mapsto> \<lparr>pn_keys = ks, pn_vals = vs,
          pn_children = [], pn_internal = False, pn_right = 0, pn_left = 0\<rparr>)"
      using ls_append(2) by (simp add: list_cache_def ls_inv_def ls_card ls_append(1) ls_new_def)
  next
    fix s :: pstore and lsn ks cs and isRoot :: bool
    assume "ls_inv s" "card (dom (ls_pages s)) < max_pages"
    then show "\<exists>f s'. cache_CreateNewEntry list_cache lsn ks None (Some cs) isRoot s = (Ok f, s') \<and> ls_inv s' \<and>
        f \<notin> dom (ls_pages s) \<and> ls_pages s' = (ls_pages s)(f \<mapsto> \<lparr>pn_keys = ks, pn_vals = [],
          pn_children = cs, pn_internal = True, pn_right = 0, pn_left = 0\<rparr>)"
      using ls_append(2) by (simp add: list_cache_def ls_inv_def ls_card ls_append(1) ls_new_def)
  qed
  moreover have "cache_pin_ok list_cache ls_inv ls_pages"
    unfolding cache_pin_ok_def by (simp add: list_cache_def)
  ultimately show ?thesis by (simp add: cache_ok_def)
qed


definition empty_tree :: "pstore BTree" where
  "empty_tree = \<lparr>bt_Root = 0, bt_mu = free_mutex,
     bt_wal = \<lparr>walBuff = [], walWriter = \<lparr>w_fd = empty_file, w_confFD = Some empty_file, w_queue = [],
                 w_running = False, w_maxPage = 0, w_maxOffset = 25\<rparr>\<rparr>, bt_cache = []\<rparr>"

lemma empty_tree_represents: "represents ls_inv ls_pages 0 empty_tree []"
  by (simp add: represents_def empty_tree_def ls_inv_def ls_card)

text \<open>A tree with one leaf, as the first insertion leaves it.\<close>

definition leaf_tree :: "pstore BTree" where
  "leaf_tree = empty_tree\<lparr>bt_Root := 1,
     bt_cache := [\<lparr>pn_keys = [[1], [2], [3]], pn_vals = [[10], [20], [30]], pn_children = [], pn_internal = False,
                   pn_right = 0, pn_left = 0\<rparr>]\<rparr>"

lemma leaf_tree_represents:
  "represents ls_inv ls_pages 0 leaf_tree [([1], [10]), ([2], [20]), ([3], [30])]"
proof -
  let ?P = "ls_pages (bt_cache leaf_tree)"
  have d: "card (dom ?P) = 1" by (simp add: leaf_tree_def ls_card max_pages_def)
  have "good ?P 0 (GLeaf 1 [[1], [2], [3]] [[10], [20], [30]]) 0"
    unfolding good_def d by (simp add: leaf_tree_def ls_dom content_def links_def ls_pages_def)
  then have "\<exists>h t. good ?P h t 0 \<and> root t = 1 \<and> kvs t = [([1], [10]), ([2], [20]), ([3], [30])]"
    by (intro exI [of _ 0] exI [of _ "GLeaf 1 [[1], [2], [3]] [[10], [20], [30]]"]) simp
  then show ?thesis
    by (simp add: represents_def leaf_tree_def empty_tree_def ls_inv_def max_pages_def)
qed

lemma room_small: "k \<le> 1000 \<Longrightarrow> g \<le> 1000 \<Longrightarrow> room k g"
  by (simp add: room_def max_pages_def)

section \<open>Properties\<close>

text \<open>C1. Insertion refines the sorted association list. For a cache that keeps its contract, a batch of
  non-empty keys and values put into a tree that stores \<open>m\<close> returns true, leaves every lock free and
  leaves a tree (balanced, with its sibling links, its keys in order) that stores \<open>m\<close> with the batch
  put in from left to right. The fuel and the room for pages are bounded by the number of keys.\<close>

theorem InsertValue_refines:
  assumes "cache_ok C ci pg pid" "represents ci pg g bt m"
    and "length vals = length keys" "[] \<notin> set keys" "[] \<notin> set vals"
    and "length m + length keys \<le> fuel" "room (length m + length keys) g"
  shows "\<exists>bt'. InsertValue fuel C keys vals lsn bt = (Ok True, bt')
     \<and> represents ci pg g bt' (kv_inserts (zip keys vals) m)"
  using insert_loop_ok [OF assms] unfolding InsertValue_def by blast

theorem InsertValue_refines_witness:
  "\<exists>bt'. InsertValue 10 list_cache [[4], [2], [9]] [[40], [21], [90]] [] leaf_tree = (Ok True, bt')
     \<and> represents ls_inv ls_pages 0 bt' [([1], [10]), ([2], [21]), ([3], [30]), ([4], [40]), ([9], [90])]"
  using InsertValue_refines [OF list_cache_ok leaf_tree_represents, of "[[40], [21], [90]]" "[[4], [2], [9]]" 10 "[]"]
  by (simp add: room_small kv_inserts_def)

text \<open>C2. A lookup returns what the stored list has for the key, and the error the code uses for a missing
  key otherwise; it changes neither the contents nor the locks.\<close>

theorem Get_refines:
  assumes "cache_ok C ci pg pid" "represents ci pg g bt m" "bt_Root bt \<noteq> 0" "length m < fuel"
  shows "\<exists>bt'. Get fuel C key bt = (case map_of m key of Some v \<Rightarrow> Ok v
       | None \<Rightarrow> Err (BTreeError ''Key not found''), bt') \<and> represents ci pg g bt' m"
  by (rule Get_ok [OF assms])

theorem Get_refines_witness:
  "\<exists>bt'. Get 4 list_cache [2] leaf_tree = (Ok [20], bt')
     \<and> represents ls_inv ls_pages 0 bt' [([1], [10]), ([2], [20]), ([3], [30])]"
  using Get_refines [OF list_cache_ok leaf_tree_represents, of 4 "[2]"] by (simp add: leaf_tree_def)

text \<open>C3. What was put in comes out: after a batch, a lookup of any key of the batch returns the value of its
  last occurrence, and a key outside the batch has the value it had.\<close>

theorem Get_after_InsertValue:
  assumes "cache_ok C ci pg pid" "represents ci pg g bt m"
    and "length vals = length keys" "[] \<notin> set keys" "[] \<notin> set vals" "keys \<noteq> []"
    and "length m + length keys < fuel" "room (length m + length keys) g"
  shows "\<exists>bt' bt''. InsertValue fuel C keys vals lsn bt = (Ok True, bt')
     \<and> Get fuel C key bt' = (case (map_of m ++ map_of (rev (zip keys vals))) key of Some v \<Rightarrow> Ok v
          | None \<Rightarrow> Err (BTreeError ''Key not found''), bt'')"
proof -
  obtain bt' where b: "insert_loop fuel C keys vals lsn bt = (Ok True, bt')"
    "represents ci pg g bt' (kv_inserts (zip keys vals) m)"
    using insert_loop_ok [OF assms(1-5) _ assms(8), of fuel lsn] assms(7) by auto
  have len: "length (kv_inserts (zip keys vals) m) \<le> length m + length keys"
    using length_kv_inserts [of "zip keys vals" m] assms(3) by simp
  have "kv_inserts (zip keys vals) m \<noteq> []" 
    using assms(3,6) by (intro kv_inserts_nonempty) (cases keys; cases vals; simp)
  then have "bt_Root bt' \<noteq> 0" using b(2) by (auto simp: represents_def)
  from Get_ok [OF assms(1) b(2) this, of fuel key] len assms(7) show ?thesis
    using b(1) by (auto simp: InsertValue_def kv_inserts_map_of)
qed

theorem Get_after_InsertValue_witness:
  "\<exists>bt' bt''. InsertValue 10 list_cache [[4], [2], [4]] [[40], [21], [41]] [] leaf_tree = (Ok True, bt')
     \<and> Get 10 list_cache [4] bt' = (Ok [41], bt'')"
  using Get_after_InsertValue [OF list_cache_ok leaf_tree_represents,
      of "[[40], [21], [41]]" "[[4], [2], [4]]" 10 "[]" "[4]"]
  by (simp add: room_small)

text \<open>C15. The log of a batch: into a tree that has a root, one \<^verbatim>\<open>PUT\<close> record per key in order when the caller
  passes no LSN, and none when it passes one. Into an empty tree only the first key is logged,
  since the LSN of its record is assigned to the parameter the other keys test.\<close>

theorem InsertValue_logged:
  assumes "cache_ok C ci pg pid" "represents ci pg g bt m"
    and "length vals = length keys" "[] \<notin> set keys" "[] \<notin> set vals"
    and "length m + length keys \<le> fuel" "room (length m + length keys) g"
  shows "\<exists>bt'. InsertValue fuel C keys vals lsn bt = (Ok True, bt')
     \<and> logged (bt_wal bt') = logged (bt_wal bt) @
         (if lsn \<noteq> [] then [] else if bt_Root bt = 0 then take 1 (zip keys vals) else zip keys vals)"
  using insert_loop_ok [OF assms] unfolding InsertValue_def by blast

theorem InsertValue_logged_witness:
  "\<exists>bt'. InsertValue 10 list_cache [[4], [2]] [[40], [21]] [] empty_tree = (Ok True, bt')
     \<and> logged (bt_wal bt') = [([4], [40])]"
  using InsertValue_logged [OF list_cache_ok empty_tree_represents, of "[[40], [21]]" "[[4], [2]]" 10 "[]"]
  by (simp add: room_small empty_tree_def logged_def)



text \<open>C14. Without an upper key, a range search returns a prefix of the keys from the start key on, in
  order: all of them, or at least as many as asked for; and never more than the larger of the limit and five.\<close>

theorem RangeSearch_prefix:
  assumes "cache_ok C ci pg pid" "represents ci pg g bt m" "bt_Root bt \<noteq> 0" "length m < fuel"
    and "minKey \<in> fst ` set m"
  shows "\<exists>n bt'. RangeSearch fuel C minKey [] cnt bt
       = (Ok (map item (take n (dropWhile (\<lambda>x. fst x \<noteq> minKey) m))), bt')
     \<and> int n \<le> max (sint cnt) 5
     \<and> (length (dropWhile (\<lambda>x. fst x \<noteq> minKey) m) \<le> n \<or> sint cnt \<le> int n)"
proof -
  define suf where "suf = dropWhile (\<lambda>x. fst x \<noteq> minKey) m"
  have ne: "suf \<noteq> []" using assms(5) by (auto simp: suf_def)
  from RangeSearch_ok [OF assms(1-4), of minKey "[]" cnt] obtain n bt' where n: "1 \<le> n" "n \<le> 4" "n \<le> length suf"
    "RangeSearch fuel C minKey [] cnt bt
       = (Ok (map item (scan_spec [] (sint cnt) (drop n suf) (take n suf))), bt')"
    unfolding range_result_def suf_def [symmetric] using ne by auto
  from scan_spec_prefix [OF n(3), of "sint cnt"] obtain k where
    "scan_spec [] (sint cnt) (drop n suf) (take n suf) = take k suf" "int k \<le> max (sint cnt) (int n + 1)"
    "length suf \<le> k \<or> sint cnt \<le> int k" by auto
  then show ?thesis unfolding suf_def [symmetric] using n by (intro exI [of _ k]) auto
qed

theorem RangeSearch_prefix_witness:
  "\<exists>n bt'. RangeSearch 4 list_cache [2] [] 5 leaf_tree = (Ok (map item (take n [([2], [20]), ([3], [30])])), bt')
     \<and> int n \<le> 5 \<and> (2 \<le> n \<or> 5 \<le> int n)"
  using RangeSearch_prefix [OF list_cache_ok leaf_tree_represents, of 4 "[2]" 5]
  by (auto simp: leaf_tree_def)

definition leaf_with :: "bytes list \<Rightarrow> bytes list \<Rightarrow> Node" where
  "leaf_with ks vs = \<lparr>n_Keys = ks, n_Children = [], n_Leaf = True, n_Values = vs, n_LeftSibling = 0, n_RightSibling = 0, n_PageId = 1, n_lsn = []\<rparr>"

text \<open>C37. Inserting into a leaf is insertion into a sorted list: on a leaf with strictly increasing keys, the binary search and the two shifts of keys and values that follow it give
  the leaf whose entries are the reference insertion of the new entry (a key that is there gets the new value).\<close>

theorem leaf_insert_reference:
  assumes "n_Keys nd \<noteq> []" "ssorted (n_Keys nd)" "length (n_Values nd) = length (n_Keys nd)"
  shows "bindR (InsertBinarySearch (n_Keys nd) key 0) (\<lambda>idx. bindR (index (n_Keys nd) idx) (\<lambda>kAtIdx. insert_leaf_keys nd idx kAtIdx key val))
     = Ok (nd\<lparr>n_Keys := map fst (kv_insert key val (zip (n_Keys nd) (n_Values nd))), n_Values := map snd (kv_insert key val (zip (n_Keys nd) (n_Values nd)))\<rparr>)"
proof -
  obtain i where i: "InsertBinarySearch (n_Keys nd) key 0 = Ok (int i)" "near (n_Keys nd) key i"
    using InsertBinarySearch_near[OF assms(1,2), of key 0] by auto
  then show ?thesis using insert_leaf_keys_kv[OF i(2) assms(2,3)] by (simp add: near_def)
qed

theorem leaf_insert_reference_witness:
  "bindR (InsertBinarySearch [[1], [4], [9]] [5] 0) (\<lambda>idx. bindR (index [[1], [4], [9]] idx) (\<lambda>kAtIdx.
     insert_leaf_keys (leaf_with [[1], [4], [9]] [[10], [40], [90]]) idx kAtIdx [5] [50])) = Ok (leaf_with [[1], [4], [5], [9]] [[10], [40], [50], [90]])"
  using leaf_insert_reference [of "leaf_with [[1], [4], [9]] [[10], [40], [90]]" "[5]" "[50]"] by (simp add: leaf_with_def)

end
