(* ===== verification/BtreeDelete.thy ===== *)
theory BtreeDelete
  imports Btree
begin

text \<open>
  Deletion in the B+ tree: \<^verbatim>\<open>deleteValue\<close>, \<^verbatim>\<open>handleLeafUnderflow\<close>, \<^verbatim>\<open>handleInternalUnderflow\<close> and
  \<^verbatim>\<open>DeleteValue\<close> of \<^verbatim>\<open>pkg/bptree/bp_tree.go\<close>. The merge metadata the source passes by pointer is
  returned, also when the call returns an error: the underflow handlers return the metadata with
  the error, if any.
\<close>

type_synonym handled = "gerror option \<times> MergeMetadata"

section \<open>Leaves\<close>

text \<open>A node without siblings: the root may underflow, and an empty root is dropped. An error of
  \<^verbatim>\<open>MarkAsDead\<close> returns with the tree's lock held.\<close>

definition leaf_root ::
  "('f, 's) CacheApi \<Rightarrow> MergeMetadata \<Rightarrow> Node \<Rightarrow> 'f \<Rightarrow> 's BTree \<Rightarrow> handled res \<times> 's BTree" where
  "leaf_root C mr n fr =
     bindS (on_mu Lock) (\<lambda>_.
     bindS (\<lambda>bt. (Ok (bt_Root bt), bt)) (\<lambda>root.
     if root = n_PageId n then
       bindS (if length (n_Keys n) = 0
              then bindS (tryErr (on_cache (frame_MarkAsDead C fr))) (\<lambda>r. case r of
                     Inl e \<Rightarrow> returnS (Some e)
                   | Inr _ \<Rightarrow> bindS (set_Root 0) (\<lambda>_. returnS None))
              else returnS None) (\<lambda>eo. case eo of
         Some e \<Rightarrow> returnS (Some e, mr)
       | None \<Rightarrow>
           (let mr = mr\<lparr>mm_merged := False, mm_rebalanceKey := []\<rparr> in
            bindS (ignoreErr (SyncNode C fr (mm_OpLSN mr) n)) (\<lambda>_.
            bindS (on_mu Unlock) (\<lambda>_. returnS (None, mr)))))
     else
       bindS (on_mu Unlock) (\<lambda>_.
       returnS (Some (BTreeError ''No sibling to merge/borrow leaf node''), mr))))"

text \<open>The node, the sibling and the rebalance key after the keys of both are shared out. The left of
  the two is cut at the middle.\<close>

definition share_leaves :: "bool \<Rightarrow> Node \<Rightarrow> Node \<Rightarrow> (Node \<times> Node \<times> bytes) res" where
  "share_leaves rightMerge n sib =
     (let totKeys = (if rightMerge then n_Keys n @ n_Keys sib else n_Keys sib @ n_Keys n);
          totVals = (if rightMerge then n_Values n @ n_Values sib else n_Values sib @ n_Values n);
          mid = length totKeys div 2 in
      if length totVals < mid then Panic ''slice bounds out of range''
      else bindR (index (drop mid totKeys) 0) (\<lambda>k.
        if rightMerge
        then Ok (n\<lparr>n_Keys := take mid totKeys, n_Values := take mid totVals\<rparr>,
                 sib\<lparr>n_Keys := drop mid totKeys, n_Values := drop mid totVals\<rparr>, k)
        else Ok (n\<lparr>n_Keys := drop mid totKeys, n_Values := drop mid totVals\<rparr>,
                 sib\<lparr>n_Keys := take mid totKeys, n_Values := take mid totVals\<rparr>, k)))"

definition redistribute_leaf ::
  "('f, 's) CacheApi \<Rightarrow> MergeMetadata \<Rightarrow> bool \<Rightarrow> Node \<Rightarrow> 'f \<Rightarrow> Node \<Rightarrow> 'f \<Rightarrow> 's BTree \<Rightarrow> handled res \<times> 's BTree" where
  "redistribute_leaf C mr rightMerge n fr sib mergeFr =
     bindS (liftR (share_leaves rightMerge n sib)) (\<lambda>(n, sib, k).
     bindS (orPanic (SyncNode C fr (mm_OpLSN mr) n)) (\<lambda>_.
     bindS (orPanic (SyncNode C mergeFr (mm_OpLSN mr) sib)) (\<lambda>_.
     bindS (orPanic (on_cache (cache_MarkFrameDirty C mergeFr))) (\<lambda>_.
     returnS (None, mr\<lparr>mm_rebalanceKey := k, mm_rightMerge := rightMerge\<rparr>)))))"

text \<open>Writing back the node on the far side of a merged node with the sibling link that skips it; the
  result is an error to return, if any.\<close>

definition skip_left ::
  "('f, 's) CacheApi \<Rightarrow> bytes \<Rightarrow> Node \<Rightarrow> 's BTree \<Rightarrow> gerror option res \<times> 's BTree" where
  "skip_left C lsn n =
     bindS (tryErr (buildPage C (n_LeftSibling n))) (\<lambda>r. case r of
       Inl e \<Rightarrow> returnS (Some e)
     | Inr (frame, leftSib) \<Rightarrow>
         bindS (orPanic (SyncNode C frame lsn (leftSib\<lparr>n_RightSibling := n_RightSibling n\<rparr>))) (\<lambda>_.
         bindS (orPanic (on_cache (cache_MarkFrameDirty C frame))) (\<lambda>_.
         bindS (ignoreErr (ReleaseFrame C frame)) (\<lambda>_. returnS None))))"

definition skip_right ::
  "('f, 's) CacheApi \<Rightarrow> bytes \<Rightarrow> Node \<Rightarrow> 's BTree \<Rightarrow> gerror option res \<times> 's BTree" where
  "skip_right C lsn n =
     bindS (tryErr (buildPage C (n_RightSibling n))) (\<lambda>r. case r of
       Inl e \<Rightarrow> returnS (Some e)
     | Inr (frame, rightSib) \<Rightarrow>
         bindS (orPanic (SyncNode C frame lsn (rightSib\<lparr>n_LeftSibling := n_LeftSibling n\<rparr>))) (\<lambda>_.
         bindS (orPanic (on_cache (cache_MarkFrameDirty C frame))) (\<lambda>_.
         bindS (ignoreErr (ReleaseFrame C frame)) (\<lambda>_. returnS None))))"

definition merge_leaf ::
  "('f, 's) CacheApi \<Rightarrow> MergeMetadata \<Rightarrow> bool \<Rightarrow> Node \<Rightarrow> 'f \<Rightarrow> Node \<Rightarrow> 'f \<Rightarrow> 's BTree \<Rightarrow> handled res \<times> 's BTree" where
  "merge_leaf C mr rightMerge n fr sib mergeFr =
     (let sib = (if rightMerge
                 then sib\<lparr>n_Keys := n_Keys n @ n_Keys sib, n_Values := n_Values n @ n_Values sib\<rparr>
                 else sib\<lparr>n_Keys := n_Keys sib @ n_Keys n, n_Values := n_Values sib @ n_Values n\<rparr>) in
     bindS (if rightMerge then
              (if 0 <s n_LeftSibling n
               then bindS (skip_left C (mm_OpLSN mr) n) (\<lambda>eo. returnS (eo, sib\<lparr>n_LeftSibling := n_LeftSibling n\<rparr>))
               else returnS (None, sib))
            else
              (if 0 <s n_RightSibling n
               then bindS (skip_right C (mm_OpLSN mr) n) (\<lambda>eo. returnS (eo, sib\<lparr>n_RightSibling := n_RightSibling n\<rparr>))
               else returnS (None, sib))) (\<lambda>(eo, sib). case eo of
       Some e \<Rightarrow> returnS (Some e, mr)
     | None \<Rightarrow>
         (let mr = mr\<lparr>mm_merged := True\<rparr> in
          bindS (tryErr (on_cache (frame_MarkAsDead C fr))) (\<lambda>r. case r of
            Inl e \<Rightarrow> returnS (Some e, mr)
          | Inr _ \<Rightarrow>
              bindS (orPanic (SyncNode C fr (mm_OpLSN mr) n)) (\<lambda>_.
              bindS (orPanic (SyncNode C mergeFr (mm_OpLSN mr) sib)) (\<lambda>_.
              bindS (orPanic (on_cache (cache_MarkFrameDirty C mergeFr))) (\<lambda>_.
              returnS (None, mr\<lparr>mm_rightMerge := rightMerge\<rparr>))))))))"

definition handleLeafUnderflow ::
  "('f, 's) CacheApi \<Rightarrow> MergeMetadata \<Rightarrow> Node \<Rightarrow> 'f \<Rightarrow> 's BTree \<Rightarrow> handled res \<times> 's BTree" where
  "handleLeafUnderflow C mr n fr =
     (if \<not> n_Leaf n
      then returnS (Some (BTreeError ''(handleLeafUnderflow) Tried to merge internal node''), mr)
      else if \<not> 0 <s n_RightSibling n \<and> \<not> 0 <s n_LeftSibling n then leaf_root C mr n fr
      else
        (let rightMerge = 0 <s n_RightSibling n in
         bindS (tryErr (buildPage C (if rightMerge then n_RightSibling n else n_LeftSibling n))) (\<lambda>r. case r of
           Inl e \<Rightarrow> returnS (Some e, mr)
         | Inr (mergeFr, sib) \<Rightarrow>
             if length (n_Keys n) + length (n_Keys sib) \<ge> ORDER
             then redistribute_leaf C mr rightMerge n fr sib mergeFr
             else merge_leaf C mr rightMerge n fr sib mergeFr)))"

section \<open>Internal nodes\<close>

text \<open>An internal node without siblings that is not the root takes the root's place. The lock is held on
  every return before the \<^verbatim>\<open>Unlock\<close>.\<close>

definition internal_collapse ::
  "('f, 's) CacheApi \<Rightarrow> Node \<Rightarrow> 'f \<Rightarrow> MergeMetadata \<Rightarrow> BTStack \<Rightarrow> 's BTree \<Rightarrow> handled res \<times> 's BTree" where
  "internal_collapse C n fr mr stack =
     bindS (on_mu Lock) (\<lambda>_.
     if st_root stack = n_PageId n
     then returnS (None, mr\<lparr>mm_merged := False, mm_rebalanceKey := []\<rparr>)
     else
       bindS (tryErr (buildPage C (st_root stack))) (\<lambda>r. case r of
         Inl e \<Rightarrow> returnS (Some e, mr)
       | Inr (rootfr, rootNode) \<Rightarrow>
           bindS (tryErr (on_cache (frame_MarkAsDead C rootfr))) (\<lambda>r. case r of
             Inl e \<Rightarrow> returnS (Some e, mr)
           | Inr _ \<Rightarrow>
               bindS (ignoreErr (on_cache (cache_SetNewRoot C fr))) (\<lambda>_.
               bindS (\<lambda>bt. set_Root (frame_GetKey C fr (bt_cache bt)) bt) (\<lambda>_.
               bindS (on_mu Unlock) (\<lambda>_.
               bindS (tryErr (SyncNode C rootfr (mm_OpLSN mr) rootNode)) (\<lambda>r. case r of
                 Inl e \<Rightarrow> returnS (Some e, mr)
               | Inr _ \<Rightarrow> returnS (None, mr\<lparr>mm_merged := False, mm_rebalanceKey := []\<rparr>))))))))"

text \<open>Sharing out: on the right side the sibling's lists are not cut, as in the source.\<close>

definition share_internal :: "bool \<Rightarrow> Node \<Rightarrow> Node \<Rightarrow> (Node \<times> Node \<times> bytes) res" where
  "share_internal rightMerge n sib =
     (let totKeys = (if rightMerge then n_Keys n @ n_Keys sib else n_Keys sib @ n_Keys n);
          totChildren = (if rightMerge then n_Children n @ n_Children sib else n_Children sib @ n_Children n);
          midK = length totKeys div 2; midC = length totChildren div 2 in
      if rightMerge
      then bindR (index (n_Keys sib) 0) (\<lambda>k.
             Ok (n\<lparr>n_Keys := take midK totKeys, n_Children := take midC totChildren\<rparr>, sib, k))
      else bindR (index (drop midK totKeys) 0) (\<lambda>k.
             Ok (n\<lparr>n_Keys := drop midK totKeys, n_Children := drop midC totChildren\<rparr>,
                 sib\<lparr>n_Keys := take midK totKeys, n_Children := take midC totChildren\<rparr>, k)))"

definition redistribute_internal ::
  "('f, 's) CacheApi \<Rightarrow> MergeMetadata \<Rightarrow> bool \<Rightarrow> Node \<Rightarrow> 'f \<Rightarrow> Node \<Rightarrow> 'f \<Rightarrow> 's BTree \<Rightarrow> handled res \<times> 's BTree" where
  "redistribute_internal C mr rightMerge n fr sib mergeFr =
     bindS (liftR (share_internal rightMerge n sib)) (\<lambda>(n, sib, k).
     (let mr = mr\<lparr>mm_rebalanceKey := k\<rparr> in
     bindS (tryErr (SyncNode C fr (mm_OpLSN mr) n)) (\<lambda>r. case r of
       Inl e \<Rightarrow> returnS (Some e, mr)
     | Inr _ \<Rightarrow>
         bindS (tryErr (SyncNode C mergeFr (mm_OpLSN mr) sib)) (\<lambda>r. case r of
           Inl e \<Rightarrow> returnS (Some e, mr)
         | Inr _ \<Rightarrow>
             bindS (orPanic (on_cache (cache_MarkFrameDirty C mergeFr))) (\<lambda>_.
             returnS (None, mr\<lparr>mm_rightMerge := rightMerge\<rparr>))))))"

text \<open>Merging pulls the parent's separator down. On the right side the far neighbour's errors are
  returned; on the left side they are panics. The far neighbour's frame is not released.\<close>

definition internal_links ::
  "('f, 's) CacheApi \<Rightarrow> bytes \<Rightarrow> bool \<Rightarrow> Node \<Rightarrow> Node \<Rightarrow> 's BTree \<Rightarrow> (gerror option \<times> Node) res \<times> 's BTree" where
  "internal_links C lsn rightMerge n sib =
     (if rightMerge then
        (if 0 <s n_LeftSibling n
         then bindS (tryErr (buildPage C (n_LeftSibling n))) (\<lambda>r. case r of
                Inl e \<Rightarrow> returnS (Some e, sib)
              | Inr (frame, leftSib) \<Rightarrow>
                  bindS (tryErr (SyncNode C frame lsn (leftSib\<lparr>n_RightSibling := n_RightSibling n\<rparr>))) (\<lambda>r. case r of
                    Inl e \<Rightarrow> returnS (Some e, sib\<lparr>n_LeftSibling := n_LeftSibling n\<rparr>)
                  | Inr _ \<Rightarrow>
                      bindS (orPanic (on_cache (cache_MarkFrameDirty C frame))) (\<lambda>_.
                      returnS (None, sib\<lparr>n_LeftSibling := n_LeftSibling n\<rparr>))))
         else returnS (None, sib\<lparr>n_LeftSibling := 0\<rparr>))
      else
        (if 0 <s n_RightSibling n
         then bindS (tryErr (buildPage C (n_RightSibling n))) (\<lambda>r. case r of
                Inl e \<Rightarrow> returnS (Some e, sib)
              | Inr (frame, rightSib) \<Rightarrow>
                  bindS (orPanic (SyncNode C frame lsn (rightSib\<lparr>n_LeftSibling := n_LeftSibling n\<rparr>))) (\<lambda>_.
                  bindS (orPanic (on_cache (cache_MarkFrameDirty C frame))) (\<lambda>_.
                  returnS (None, sib\<lparr>n_RightSibling := n_RightSibling n\<rparr>))))
         else returnS (None, sib\<lparr>n_RightSibling := 0\<rparr>)))"

definition merge_internal ::
  "('f, 's) CacheApi \<Rightarrow> MergeMetadata \<Rightarrow> bool \<Rightarrow> TraversePath \<Rightarrow> Node \<Rightarrow> 'f \<Rightarrow> Node \<Rightarrow> 'f \<Rightarrow> 's BTree \<Rightarrow> handled res \<times> 's BTree" where
  "merge_internal C mr rightMerge path n fr sib mergeFr =
     bindS (liftR (index (n_Keys (tp_n path)) (if rightMerge then uint (tp_idx path) else uint (tp_idx path - 1)))) (\<lambda>sep.
     (let sib = (if rightMerge
                 then sib\<lparr>n_Keys := n_Keys n @ sep # n_Keys sib, n_Children := n_Children n @ n_Children sib\<rparr>
                 else sib\<lparr>n_Keys := n_Keys sib @ sep # n_Keys n, n_Children := n_Children sib @ n_Children n\<rparr>) in
     bindS (internal_links C (mm_OpLSN mr) rightMerge n sib) (\<lambda>(eo, sib). case eo of
       Some e \<Rightarrow> returnS (Some e, mr)
     | None \<Rightarrow>
         bindS (orPanic (on_cache (frame_MarkAsDead C fr))) (\<lambda>_.
         bindS (orPanic (SyncNode C fr (mm_OpLSN mr) n)) (\<lambda>_.
         bindS (orPanic (SyncNode C mergeFr (mm_OpLSN mr) sib)) (\<lambda>_.
         bindS (orPanic (on_cache (cache_MarkFrameDirty C mergeFr))) (\<lambda>_.
         returnS (None, mr\<lparr>mm_merged := True, mm_rightMerge := rightMerge\<rparr>))))))))"

definition handleInternalUnderflow ::
  "('f, 's) CacheApi \<Rightarrow> Node \<Rightarrow> 'f \<Rightarrow> MergeMetadata \<Rightarrow> BTStack \<Rightarrow> 's BTree \<Rightarrow> handled res \<times> 's BTree" where
  "handleInternalUnderflow C n fr mr stack =
     (if n_Leaf n then returnS (Some (BTreeError ''Tried to merge leaf node''), mr)
      else (case stack_Parent stack of
        Ok path \<Rightarrow>
          (if \<not> 0 <s n_RightSibling n \<and> \<not> 0 <s n_LeftSibling n then internal_collapse C n fr mr stack
           else
             (let rightMerge = 0 <s n_RightSibling n in
              bindS (tryErr (buildPage C (if rightMerge then n_RightSibling n else n_LeftSibling n))) (\<lambda>r. case r of
                Inl e \<Rightarrow> returnS (Some e, mr)
              | Inr (mergeFr, sib) \<Rightarrow>
                  if length (n_Children n) + length (n_Children sib) \<ge> ORDER + 1
                  then redistribute_internal C mr rightMerge n fr sib mergeFr
                  else merge_internal C mr rightMerge path n fr sib mergeFr)))
      | Err e \<Rightarrow> if st_root stack \<noteq> n_PageId n then returnS (Some e, mr) else returnS (None, mr)
      | Panic p \<Rightarrow> panicS p
      | Blocked \<Rightarrow> (\<lambda>bt. (Blocked, bt))))"

section \<open>Deletion\<close>

definition delLSN :: "bytes \<Rightarrow> u32 \<Rightarrow> bytes \<Rightarrow> 's BTree \<Rightarrow> bytes res \<times> 's BTree" where
  "delLSN lsn pageId key =
     (if length lsn = 0 then orPanic (on_wal (AddDelLog pageId key)) else returnS lsn)"

text \<open>\<^verbatim>\<open>deleteValue\<close>: -1 ends the descent, 1 is what a deletion without underflow returns.\<close>

definition deleteValue ::
  "('f, 's) CacheApi \<Rightarrow> bytes \<Rightarrow> Node \<Rightarrow> 'f \<Rightarrow> bytes \<Rightarrow> BTStack \<Rightarrow> MergeMetadata
   \<Rightarrow> 's BTree \<Rightarrow> (u32 \<times> BTStack \<times> MergeMetadata) res \<times> 's BTree" where
  "deleteValue C lsn n f key stack mr =
     (if length (n_Keys n) = 0 then returnS (-1, stack, mr)
      else
        bindS (liftR (InsertBinarySearch (n_Keys n) key 0)) (\<lambda>idx.
        bindS (liftR (index (n_Keys n) idx)) (\<lambda>kAtIdx.
        if n_Leaf n then
          (if bytes_compare key kAtIdx \<noteq> 0 then returnS (-1, stack, mr)
           else
             bindS (delLSN lsn (n_PageId n) key) (\<lambda>lsn.
             bindS (liftR (index (n_Values n) idx)) (\<lambda>_.
             (let n = n\<lparr>n_lsn := lsn,
                        n_Keys := take (nat idx) (n_Keys n) @ drop (nat idx + 1) (n_Keys n),
                        n_Values := take (nat idx) (n_Values n) @ drop (nat idx + 1) (n_Values n)\<rparr> in
              if length (n_Keys n) < DEGREE then
                bindS (handleLeafUnderflow C (mr\<lparr>mm_OpLSN := lsn\<rparr>) n f) (\<lambda>(eo, mr).
                returnS (-1, stack, mr))
              else
                bindS (SyncNode C f lsn n) (\<lambda>_. returnS (1, stack, mr))))))
        else if bytes_compare key kAtIdx = -1 then
          bindS (liftR (index (n_Children n) idx)) (\<lambda>c.
          returnS (c, stack_Add \<lparr>tp_n = n, tp_idx = word_of_int idx\<rparr> stack, mr))
        else
          bindS (liftR (index (n_Children n) (idx + 1))) (\<lambda>c.
          returnS (c, stack_Add \<lparr>tp_n = n, tp_idx = word_of_int (idx + 1)\<rparr> stack, mr)))))"

fun delete_descend ::
  "nat \<Rightarrow> ('f, 's) CacheApi \<Rightarrow> bytes \<Rightarrow> bytes \<Rightarrow> u32 \<Rightarrow> 'f option \<Rightarrow> BTStack \<Rightarrow> MergeMetadata
   \<Rightarrow> 's BTree \<Rightarrow> ('f option \<times> BTStack \<times> MergeMetadata) res \<times> 's BTree" where
  "delete_descend fuel C lsn key nodePageId oldFrame stack mr =
     (if \<not> 0 <s nodePageId then returnS (oldFrame, stack, mr)
      else case fuel of
        0 \<Rightarrow> (\<lambda>bt. (Blocked, bt))
      | Suc fuel' \<Rightarrow>
          bindS (tryErr (buildPage C nodePageId)) (\<lambda>r. case r of
            Inl e \<Rightarrow> failS (BTreeError ''Unable to delete val: %v'')
          | Inr (frame, node) \<Rightarrow>
              bindS (case oldFrame of None \<Rightarrow> returnS () | Some f \<Rightarrow> ignoreErr (ReleaseFrame C f)) (\<lambda>_.
              bindS (tryErr (deleteValue C lsn node frame key stack mr)) (\<lambda>r. case r of
                Inl e \<Rightarrow>
                  bindS (ignoreErr (ReleaseFrame C frame)) (\<lambda>_.
                  bindS (case oldFrame of None \<Rightarrow> returnS () | Some f \<Rightarrow> ignoreErr (ReleaseFrame C f)) (\<lambda>_.
                  failS e))
              | Inr (next, stack, mr) \<Rightarrow>
                  bindS (orPanic (on_cache (cache_MarkFrameDirty C frame))) (\<lambda>_.
                  delete_descend fuel' C lsn key next (Some frame) stack mr)))))"

declare delete_descend.simps [simp del]

text \<open>The parent after a redistribution (the rebalance key enters the parent's list; only a list of one
  key has its key replaced) or a merge (a separator and a child pointer leave).\<close>

definition update_parent :: "MergeMetadata \<Rightarrow> TraversePath \<Rightarrow> int \<Rightarrow> Node res" where
  "update_parent mr path keyIdx =
     (let n = tp_n path; ks = n_Keys n; cs = n_Children n; ci = unat (tp_idx path) in
      if length (mm_rebalanceKey mr) > 0 then
        (if length ks = 1 then Ok (n\<lparr>n_Keys := ks[nat keyIdx := mm_rebalanceKey mr]\<rparr>)
         else if mm_rightMerge mr
         then Ok (n\<lparr>n_Keys := take (nat keyIdx) ks @ mm_rebalanceKey mr # drop (nat keyIdx) ks\<rparr>)
         else if keyIdx = 0 then Panic ''slice bounds out of range''
         else Ok (n\<lparr>n_Keys := take (nat (keyIdx - 1)) ks @ mm_rebalanceKey mr # drop (nat (keyIdx - 1)) ks\<rparr>))
      else if ci \<ge> length cs then Panic ''slice bounds out of range''
      else if mm_rightMerge mr
      then Ok (n\<lparr>n_Keys := take (nat keyIdx) ks @ drop (nat keyIdx + 1) ks,
                 n_Children := take ci cs @ drop (ci + 1) cs\<rparr>)
      else if keyIdx = 0 then Panic ''slice bounds out of range''
      else Ok (n\<lparr>n_Keys := take (nat (keyIdx - 1)) ks @ drop (nat keyIdx) ks,
                 n_Children := take ci cs @ drop (ci + 1) cs\<rparr>))"

text \<open>The root with one child: the child becomes the root, and it is the child's frame that is marked dead
  and overwritten with the old root's lists. A failing write returns with the lock held.\<close>

definition collapse_root ::
  "('f, 's) CacheApi \<Rightarrow> bytes \<Rightarrow> Node \<Rightarrow> 's BTree \<Rightarrow> unit res \<times> 's BTree" where
  "collapse_root C lsn n =
     bindS (orPanic (buildPage C (n_Children n ! 0))) (\<lambda>(nodeFr, _).
     bindS (on_mu Lock) (\<lambda>_.
     bindS (set_Root (n_Children n ! 0)) (\<lambda>_.
     bindS (ignoreErr (on_cache (cache_SetNewRoot C nodeFr))) (\<lambda>_.
     bindS (orPanic (on_cache (frame_MarkAsDead C nodeFr))) (\<lambda>_.
     bindS (SyncNode C nodeFr lsn n) (\<lambda>_.
     on_mu Unlock))))))"

text \<open>The third branch drops the error of \<^verbatim>\<open>buildPage\<close> and would write through a nil frame.\<close>

definition sync_parent ::
  "('f, 's) CacheApi \<Rightarrow> bytes \<Rightarrow> Node \<Rightarrow> 's BTree \<Rightarrow> unit res \<times> 's BTree" where
  "sync_parent C lsn n =
     bindS (tryErr (buildPage C (n_PageId n))) (\<lambda>r. case r of
       Inl e \<Rightarrow> panicS ''nil pointer dereference''
     | Inr (pathFr, _) \<Rightarrow> SyncNode C pathFr lsn n)"

definition fix_parent ::
  "('f, 's) CacheApi \<Rightarrow> MergeMetadata \<Rightarrow> Node \<Rightarrow> 'f \<Rightarrow> BTStack \<Rightarrow> 's BTree \<Rightarrow> MergeMetadata res \<times> 's BTree" where
  "fix_parent C mr n fr st =
     bindS (\<lambda>bt. (Ok (bt_Root bt), bt)) (\<lambda>root.
     if length (n_Keys n) < DEGREE - 1 \<and> root \<noteq> n_PageId n then
       bindS (handleInternalUnderflow C n fr mr st) (\<lambda>(eo, mr). case eo of
         Some e \<Rightarrow> failS e
       | None \<Rightarrow> returnS mr)
     else if length (n_Keys n) < DEGREE - 1 \<and> length (n_Children n) = 1 then
       bindS (collapse_root C (mm_OpLSN mr) n) (\<lambda>_. returnS mr)
     else bindS (sync_parent C (mm_OpLSN mr) n) (\<lambda>_. returnS mr))"

text \<open>The loop that unwinds the stack.\<close>

fun propagate_merges ::
  "nat \<Rightarrow> ('f, 's) CacheApi \<Rightarrow> bytes \<Rightarrow> MergeMetadata \<Rightarrow> BTStack \<Rightarrow> 's BTree \<Rightarrow> unit res \<times> 's BTree" where
  "propagate_merges fuel C key mr st =
     (if \<not> (mm_merged mr \<or> length (mm_rebalanceKey mr) > 0) then returnS ()
      else case fuel of
        0 \<Rightarrow> (\<lambda>bt. (Blocked, bt))
      | Suc fuel' \<Rightarrow>
          bindS (liftR (fst (stack_Pop st))) (\<lambda>path.
          (let st = snd (stack_Pop st) in
          bindS (on_cache (cache_Get C (n_PageId (tp_n path)))) (\<lambda>fr.
          bindS (liftR (InsertBinarySearch (n_Keys (tp_n path)) key 0)) (\<lambda>keyIdx.
          bindS (liftR (update_parent mr path keyIdx)) (\<lambda>n.
          bindS (fix_parent C (mr\<lparr>mm_merged := False, mm_rebalanceKey := []\<rparr>) n fr st) (\<lambda>mr.
          bindS (orPanic (on_cache (cache_MarkFrameDirty C fr))) (\<lambda>_.
          bindS (ignoreErr (ReleaseFrame C fr)) (\<lambda>_.
          propagate_merges fuel' C key mr st)))))))))"

declare propagate_merges.simps [simp del]

text \<open>The loop over the keys returns in its first iteration. With no root it returns with the read lock
  taken.\<close>

definition DeleteValue ::
  "nat \<Rightarrow> ('f, 's) CacheApi \<Rightarrow> bytes list \<Rightarrow> bytes \<Rightarrow> 's BTree \<Rightarrow> bool res \<times> 's BTree" where
  "DeleteValue fuel C keys lsn bt = (case keys of
      [] \<Rightarrow> (Ok True, bt)
    | key # _ \<Rightarrow>
        bindS (on_mu RLock) (\<lambda>_.
        bindS (\<lambda>bt. (Ok (bt_Root bt), bt)) (\<lambda>root.
        if root = 0 then failS (BTreeError ''BTree not initialized.'')
        else
          bindS (on_mu RUnlock) (\<lambda>_.
          bindS (delete_descend fuel C lsn key root None (NewBTStack (bt_Root bt))
                   \<lparr>mm_rebalanceKey = [], mm_rightMerge = False, mm_merged = False, mm_OpLSN = []\<rparr>)
            (\<lambda>(oldFrame, st, mr).
          bindS (case oldFrame of None \<Rightarrow> returnS () | Some f \<Rightarrow> ignoreErr (ReleaseFrame C f)) (\<lambda>_.
          bindS (propagate_merges fuel C key mr st) (\<lambda>_.
          returnS True)))))) bt)"

end
