(* ===== verification/BtreeDeleteOk.thy ===== *)
theory BtreeDeleteOk
  imports BtreeRead BtreeDelete
begin

text \<open>
  Deletions that do not rebalance: the descent of \<^verbatim>\<open>DeleteValue\<close> for a key that is absent, for a key in a
  leaf that stays at least half full (after which the loop goes on at page 1, the value
  \<^verbatim>\<open>deleteValue\<close> returns), and for a tree that is one leaf.
\<close>

section \<open>The association list and the log\<close>

definition kv_delete :: "'k \<Rightarrow> ('k \<times> 'v) list \<Rightarrow> ('k \<times> 'v) list" where
  "kv_delete k m = filter (\<lambda>x. fst x \<noteq> k) m"

fun del_key :: "nodeValue \<Rightarrow> bytes list" where
  "del_key (LogNode b) = (if b_opType b = DEL then [b_key b] else [])"
| "del_key (CheckNode _) = []"

text \<open>The keys of the \<^verbatim>\<open>DEL\<close> records in the log buffer, oldest first.\<close>

definition logged_dels :: "WAL \<Rightarrow> bytes list" where
  "logged_dels w = concat (map del_key (walBuff w))"

lemma kv_delete_absent: "k \<notin> fst ` set m \<Longrightarrow> kv_delete k m = m"
  by (auto simp: kv_delete_def intro!: filter_True)

lemma kv_delete_append [simp]: "kv_delete k (xs @ ys) = kv_delete k xs @ kv_delete k ys"
  by (simp add: kv_delete_def)

lemma map_of_kv_delete: "map_of (kv_delete k m) = (map_of m)(k := None)"
  by (induction m) (auto simp: kv_delete_def)

lemma kv_delete_nth:
  assumes "distinct ks" "length vs = length ks" "i < length ks"
  shows "kv_delete (ks ! i) (zip ks vs)
     = zip (take i ks @ drop (Suc i) ks) (take i vs @ drop (Suc i) vs)"
proof -
  have "ks ! i \<notin> set (take i ks)" "ks ! i \<notin> set (drop (Suc i) ks)"
    using assms(1) id_take_nth_drop [OF assms(3)]
    by (metis distinct_append not_distinct_conv_prefix, metis distinct.simps(2) distinct_append)
  then have "kv_delete (ks ! i) (zip (take i ks) (take i vs)) = zip (take i ks) (take i vs)"
    "kv_delete (ks ! i) (zip (drop (Suc i) ks) (drop (Suc i) vs)) = zip (drop (Suc i) ks) (drop (Suc i) vs)"
    by (intro kv_delete_absent; auto dest: set_zip_leftD)+
  then show ?thesis
    unfolding zip_split [OF assms(3,2)] using assms(2,3) by (simp add: zip_append) (simp add: kv_delete_def)
qed

section \<open>Trees\<close>

lemma good_kid:
  assumes "good P (Suc h + length c) (plug c (GNode p ks ts)) g" "j < length ts"
  defines "c' \<equiv> (p, ks, take j ts, drop (Suc j) ts) # c"
  shows "plug c' (ts ! j) = plug c (GNode p ks ts)" "good P (h + length c') (plug c' (ts ! j)) g"
proof -
  show "plug c' (ts ! j) = plug c (GNode p ks ts)"
    using id_take_nth_drop [OF assms(2), symmetric] by (simp add: c'_def)
  then show "good P (h + length c') (plug c' (ts ! j)) g" using assms(1) by (simp add: c'_def)
qed

lemma good_mono: "good P h t g \<Longrightarrow> g \<le> g' \<Longrightarrow> good P h t g'"
  by (simp add: good_def)

text \<open>Every page of a tree is the root of a subtree.\<close>

lemma page_in_tree:
  "\<lbrakk>q \<in> set (pids t); good P (h + length c) (plug c t) g\<rbrakk> \<Longrightarrow>
   \<exists>h' c' u. plug c' u = plug c t \<and> root u = q \<and> h' + length c' = h + length c"
proof (induction h arbitrary: c t)
  case 0
  then have "root t = q" by (cases t) (auto simp: good_plug0)
  then show ?case by blast
next
  case (Suc h)
  from Suc.prems(2) obtain p ks ts where t: "t = GNode p ks ts" unfolding good_plug by (cases t) auto
  show ?case
  proof (cases "q = p")
    case True
    then show ?thesis using t by (intro exI [of _ "Suc h"] exI [of _ c] exI [of _ t]) simp
  next
    case False
    with Suc.prems(1) t obtain u where "u \<in> set ts" "q \<in> set (pids u)" by auto
    then obtain j where j: "j < length ts" "q \<in> set (pids (ts ! j))" by (metis in_set_conv_nth)
    from good_kid [OF Suc.prems(2) [unfolded t] j(1)] Suc.IH [OF j(2)] show ?thesis
      by (metis (no_types, lifting) add_Suc add_Suc_right list.size(4) t One_nat_def add.right_neutral)
  qed
qed

lemma good_all_pages:
  assumes "good P h t 0"
  shows "set (pids t) = dom P"
proof (rule card_subset_eq)
  show sub: "set (pids t) \<subseteq> dom P" using assms rep_dom by (auto simp: good_def)
  show "finite (dom P)" by simp
  have "card (dom P) \<le> card (set (pids t))" using assms by (simp add: good_def distinct_card)
  then show "card (set (pids t)) = card (dom P)" using card_mono [OF _ sub] by simp
qed

lemma leaf_deleted:
  assumes gd: "good P (length c) (plug c (GLeaf p ks vs)) g" and Pp: "P p = Some n" and i: "i < length ks"
    and sz: "3 \<le> length ks \<or> c = [] \<and> 2 \<le> length ks"
  defines "ks' \<equiv> take i ks @ drop (Suc i) ks" and "vs' \<equiv> take i vs @ drop (Suc i) vs"
  assumes n': "content [p \<mapsto> n'] p = Some (ks', vs', [], False)" "pn_left n' = pn_left n" "pn_right n' = pn_right n"
  shows "good (P(p \<mapsto> n')) (length c) (plug c (GLeaf p ks' vs')) g"
proof -
  let ?P = "P(p \<mapsto> n')"
  note G = gd [unfolded good_plug0]
  have lk: "links ?P x = links P x" for x using Pp n' by (simp add: links_def)
  have ct: "content ?P x = content P x" if "x \<notin> {p}" for x using that by (simp add: content_def)
  have rc: "repc ?P p c"
    by (rule repc_frame [of P p c "{p}", OF _ ct]) (use G in auto)
  have "linked P 0 (rowl c @ GLeaf p ks vs # rowr c)" "linkedc P c" using G by auto
  then have l: "linked ?P 0 (rowl c @ GLeaf p ks' vs' # rowr c)" "linkedc ?P c"
    using chain_cong [of _ P ?P] linkedc_cong [of c P ?P] lk by auto
  have "ssorted (flatA c @ map (\<lambda>k. (k, 1)) (take i ks @ ks ! i # drop (Suc i) ks) @ flatB c)"
    using G i by (simp add: id_take_nth_drop [symmetric])
  then have "ssorted (flatA c @ flat (GLeaf p ks' vs') @ flatB c)"
    by (auto simp: ks'_def sorted_wrt_append)
  moreover have "dom ?P = dom P" using Pp by auto
  moreover have "length vs' = length ks'" "Suc (length ks') = length ks" using G i by (auto simp: ks'_def vs'_def)
  ultimately show ?thesis
    unfolding good_plug0 using G rc l sz n' by (auto simp: content_def)
qed

section \<open>The descent\<close>

lemma minus_one_ends [simp]: "\<not> 0 <s (-1 :: u32)"
  by (simp add: word_sless_alt)

lemma delete_descend_end [simp]:
  "delete_descend fuel C lsn key (-1) oldF stk mr = returnS (oldF, stk, mr)"
  by (simp add: delete_descend.simps [of fuel])

lemma one_goes_on [simp]: "0 <s (1 :: u32)"
  by (simp add: word_sless_alt)

lemma deleteValue_internal:
  assumes "ssorted (n_Keys nd)" "n_Keys nd \<noteq> []" "\<not> n_Leaf nd"
    "length (n_Children nd) = Suc (length (n_Keys nd))"
  shows "\<exists>j. goes_to (n_Keys nd) key j \<and> (\<forall>f s. deleteValue C lsn nd f key st mr s
     = (Ok (n_Children nd ! j, stack_Add \<lparr>tp_n = nd, tp_idx = word_of_int (int j)\<rparr> st, mr), s))"
proof -
  obtain i where i: "InsertBinarySearch (n_Keys nd) key 0 = Ok (int i)" "near (n_Keys nd) key i"
    using InsertBinarySearch_near [OF assms(2,1), of key 0] by auto
  have il: "i < length (n_Keys nd)" using i(2) by (simp add: near_def)
  have "deleteValue C lsn nd f key st mr s =
    (Ok (n_Children nd ! (if key < n_Keys nd ! i then i else Suc i),
         stack_Add \<lparr>tp_n = nd, tp_idx = word_of_int (int (if key < n_Keys nd ! i then i else Suc i))\<rparr> st, mr), s)"
    for f s
    using il assms i(1) index_Ok [of i "n_Children nd"] index_Ok [of "Suc i" "n_Children nd"]
    by (simp add: deleteValue_def bindS_def liftR_def returnS_def add.commute)
  then show ?thesis using near_goes_to [OF i(2) assms(1)] by blast
qed

lemma deleteValue_absent:
  assumes "ssorted (n_Keys nd)" "n_Keys nd \<noteq> []" "n_Leaf nd" "key \<notin> set (n_Keys nd)"
  shows "deleteValue C lsn nd f key st mr s = (Ok (-1, st, mr), s)"
proof -
  obtain i where i: "InsertBinarySearch (n_Keys nd) key 0 = Ok (int i)" "i < length (n_Keys nd)"
    using InsertBinarySearch_near [OF assms(2,1), of key 0] by (auto simp: near_def)
  with assms have "key \<noteq> n_Keys nd ! i" by auto
  with i assms show ?thesis by (simp add: deleteValue_def bindS_def liftR_def returnS_def)
qed

lemma yields_Dirty:
  assumes "cache_ok C ci pg pid" "St ci pg P r mu w bt"
    and "\<And>bt'. St ci pg P r mu w bt' \<Longrightarrow> Q () bt'"
  shows "yields (on_cache (cache_MarkFrameDirty C f)) bt Q"
proof -
  obtain s' where "cache_MarkFrameDirty C f (bt_cache bt) = (Ok (), s')" "ci s'" "pg s' = P"
    using assms(2) cache_okD(3) [OF assms(1)] unfolding cache_pin_ok_def St_def by blast
  with assms(2,3) show ?thesis by (auto intro: yields_cacheI)
qed

lemma yields_Release_ignore:
  assumes "cache_ok C ci pg pid" "St ci pg P r mu w bt"
    and "\<And>bt'. St ci pg P r mu w bt' \<Longrightarrow> Q () bt'"
  shows "yields (case fo of None \<Rightarrow> returnS () | Some f \<Rightarrow> ignoreErr (ReleaseFrame C f)) bt Q"
  using assms yields_Release [OF assms(1,2)] by (cases fo) (auto intro: yields_ignoreErr)

text \<open>One round of the loop, when \<^verbatim>\<open>deleteValue\<close> returns a page to go on with.\<close>

lemma delete_round:
  assumes ok: "cache_ok C ci pg pid" and st: "St ci pg P r mu w bt" and p: "P p = Some n"
    and dv: "\<And>f bt1. pid f = p \<Longrightarrow> St ci pg P r mu w bt1 \<Longrightarrow>
       yields (deleteValue C lsn (node_of p n) f key stk mr) bt1 (\<lambda>(nx, stk', mr') bt2.
         (\<exists>P' r' w'. St ci pg P' r' mu w' bt2 \<and> (\<forall>bt3. St ci pg P' r' mu w' bt3 \<longrightarrow>
            yields (delete_descend fuel C lsn key nx (Some f) stk' mr') bt3 Q)))"
  shows "yields (delete_descend (Suc fuel) C lsn key p oldF stk mr) bt Q"
proof -
  have pos: "0 <s p" by (rule cache_pos [OF ok st p])
  show ?thesis
    unfolding delete_descend.simps [of "Suc fuel"] using pos
    apply (simp del: fun_upd_apply)
    apply (rule yields_tryErr, rule yields_buildPage [OF ok st p])
    apply (simp, rule yields_Release_ignore [OF ok], assumption)
    apply (rule yields_tryErr, rule yields_mono [OF dv], assumption+)
    apply (clarsimp simp del: fun_upd_apply)
    apply (rule yields_Dirty [OF ok], assumption)
    apply simp
    done
qed

lemma delete_step:
  assumes ok: "cache_ok C ci pg pid" and st: "St ci pg P r mu w bt" and p: "P p = Some n"
    and dv: "\<And>f s. deleteValue C lsn (node_of p n) f key stk mr s = (Ok (nx, stk', mr), s)"
    and rest: "\<And>f bt'. St ci pg P r mu w bt' \<Longrightarrow> yields (delete_descend fuel C lsn key nx (Some f) stk' mr) bt' Q"
  shows "yields (delete_descend (Suc fuel) C lsn key p oldF stk mr) bt Q"
proof (rule delete_round [OF ok st p])
  fix f bt1
  assume "St ci pg P r mu w bt1"
  then have "\<exists>P' r' w'. St ci pg P' r' mu w' bt1 \<and> (\<forall>bt3. St ci pg P' r' mu w' bt3 \<longrightarrow>
      yields (delete_descend fuel C lsn key nx (Some f) stk' mr) bt3 Q)" using rest by blast
  then show "yields (deleteValue C lsn (node_of p n) f key stk mr) bt1 (\<lambda>(nx, stk', mr') bt2.
         (\<exists>P' r' w'. St ci pg P' r' mu w' bt2 \<and> (\<forall>bt3. St ci pg P' r' mu w' bt3 \<longrightarrow>
            yields (delete_descend fuel C lsn key nx (Some f) stk' mr') bt3 Q)))"
    by (simp add: yields_def [of "deleteValue C lsn (node_of p n) f key stk mr"] dv)
qed

lemma delete_descend_absent:
  assumes ok: "cache_ok C ci pg pid"
  shows "\<lbrakk>good P (h + length c) (plug c t) g; key \<notin> fst ` set (kvs t); h < fuel; St ci pg P r mu w bt;
     \<And>f stk' bt'. St ci pg P r mu w bt' \<Longrightarrow> Q (Some f, stk', mr) bt'\<rbrakk>
   \<Longrightarrow> yields (delete_descend fuel C lsn key (root t) oldF stk mr) bt Q"
proof (induction h arbitrary: c t fuel oldF stk bt)
  case 0
  from "0.prems"(1) obtain p ks vs where t: "t = GLeaf p ks vs"
    unfolding good_plug by (cases t) auto
  have gd: "good P (length c) (plug c (GLeaf p ks vs)) g" using "0.prems"(1) t by simp
  note gl = good_leaf [OF gd]
  obtain n where n: "P p = Some n" "pn_keys n = ks" "\<not> pn_internal n" using gl(1) by blast
  obtain fuel' where fuel: "fuel = Suc fuel'" using "0.prems"(3) by (cases fuel) auto
  have "key \<notin> set ks" using "0.prems"(2) gl(4) t by (auto simp: in_set_conv_nth image_iff set_zip)
  then have dv: "deleteValue C lsn (node_of p n) f key stk mr s = (Ok (-1, stk, mr), s)" for f s
    using n gl(2,3) by (intro deleteValue_absent) (simp_all add: node_of_def)
  show ?case
    unfolding t root.simps fuel
    by (rule delete_step [OF ok "0.prems"(4) n(1) dv]) (simp add: "0.prems"(5))
next
  case (Suc h)
  from Suc.prems(1) obtain p ks ts where t: "t = GNode p ks ts"
    unfolding good_plug by (cases t) auto
  note gd = Suc.prems(1) [unfolded t]
  note gn = good_node [OF gd]
  obtain n where n: "P p = Some n" "pn_keys n = ks" "pn_children n = map root ts" "pn_internal n"
    using gn(1) by blast
  obtain fuel' where fuel: "fuel = Suc fuel'" "h < fuel'" using Suc.prems(3) by (cases fuel) auto
  obtain j where j: "j < length ts" "\<And>f s. deleteValue C lsn (node_of p n) f key stk mr s
     = (Ok (root (ts ! j), stack_Add \<lparr>tp_n = node_of p n, tp_idx = word_of_int (int j)\<rparr> stk, mr), s)"
  proof -
    from deleteValue_internal [of "node_of p n" key C lsn stk mr] n gn(2-4) obtain j where
      j: "goes_to ks key j" "\<And>f s. deleteValue C lsn (node_of p n) f key stk mr s
        = (Ok (map root ts ! j, stack_Add \<lparr>tp_n = node_of p n, tp_idx = word_of_int (int j)\<rparr> stk, mr), s)"
      by (auto simp: node_of_def)
    then have "j < length ts" using gn(4) by (simp add: goes_to_def)
    with j(2) show ?thesis by (intro that [of j]) simp_all
  qed
  have ab: "key \<notin> fst ` set (kvs (ts ! j))" using Suc.prems(2) nth_mem [OF j(1)] t by force
  show ?case
    unfolding t root.simps fuel(1)
    by (rule delete_step [OF ok Suc.prems(4) n(1) j(2)])
       (rule Suc.IH [OF good_kid(2) [OF gd j(1)] ab fuel(2) _ Suc.prems(5)])
qed

lemma delete_descend_to_leaf:
  assumes ok: "cache_ok C ci pg pid"
  shows "\<lbrakk>good P (h + length c) (plug c t) g; in_hole c key; h + k < fuel; St ci pg P r mu w bt;
     \<And>c' p ks vs fuel' oldF stk' bt'. \<lbrakk>plug c' (GLeaf p ks vs) = plug c t; length c' = h + length c;
        in_hole c' key; k \<le> fuel'; St ci pg P r mu w bt'\<rbrakk>
        \<Longrightarrow> yields (delete_descend (Suc fuel') C lsn key p oldF stk' mr) bt' Q\<rbrakk>
   \<Longrightarrow> yields (delete_descend fuel C lsn key (root t) oldF stk mr) bt Q"
proof (induction h arbitrary: c t fuel oldF stk bt)
  case 0
  from "0.prems"(1) obtain p ks vs where t: "t = GLeaf p ks vs"
    unfolding good_plug by (cases t) auto
  from "0.prems"(3) obtain fuel' where "fuel = Suc fuel'" "k \<le> fuel'" by (cases fuel) auto
  with 0 t show ?case by simp
next
  case (Suc h)
  from Suc.prems(1) obtain p ks ts where t: "t = GNode p ks ts"
    unfolding good_plug by (cases t) auto
  note gd = Suc.prems(1) [unfolded t]
  note gn = good_node [OF gd]
  obtain n where n: "P p = Some n" "pn_keys n = ks" "pn_children n = map root ts" "pn_internal n"
    using gn(1) by blast
  obtain fuel' where fuel: "fuel = Suc fuel'" "h + k < fuel'" using Suc.prems(3) by (cases fuel) auto
  obtain j where j: "goes_to ks key j" "\<And>f s. deleteValue C lsn (node_of p n) f key stk mr s
     = (Ok (map root ts ! j, stack_Add \<lparr>tp_n = node_of p n, tp_idx = word_of_int (int j)\<rparr> stk, mr), s)"
    using deleteValue_internal [of "node_of p n" key C lsn stk mr] n gn(2-4) by (auto simp: node_of_def)
  note gc = good_child [OF gd Suc.prems(2) j(1)]
  have IH: "yields (delete_descend fuel' C lsn key (map root ts ! j) (Some f) stk' mr) bt3 Q"
    if "St ci pg P r mu w bt3" for f stk' bt3
    using Suc.IH [OF gc(3,2) fuel(2) that, of "Some f" stk'] Suc.prems(5) gc(1,5) t by simp
  show ?case
    unfolding t root.simps fuel(1)
    by (rule delete_step [OF ok Suc.prems(4) n(1) j(2)]) (rule IH)
qed

section \<open>The leaf\<close>

text \<open>The log after the record of a deletion.\<close>

definition wal_after_del :: "bytes \<Rightarrow> u32 \<Rightarrow> bytes \<Rightarrow> WAL \<Rightarrow> WAL" where
  "wal_after_del lsn p key w = (if lsn = [] then snd (AddDelLog p key w) else w)"

lemma logged_dels_after:
  "key \<noteq> [] \<Longrightarrow> logged_dels (wal_after_del lsn p key w) = logged_dels w @ (if lsn = [] then [key] else [])"
  by (simp add: logged_dels_def wal_after_del_def AddDelLog_def assign_def assignLSN_def WALBuffer_Add_def Let_def)

lemma yields_delLSN:
  assumes "St ci pg P r mu w bt" "key \<noteq> []"
    and "\<And>l bt'. St ci pg P r mu (wal_after_del lsn p key w) bt' \<Longrightarrow> Q l bt'"
  shows "yields (delLSN lsn p key) bt Q"
proof (cases "lsn = []")
  case True
  obtain l w' where l: "AddDelLog p key w = (Ok l, w')"
    using assms(2) by (cases "assign (word_of_nat (BLOG_HEADER_SIZE + 5 + length key)) w") (simp add: AddDelLog_def Let_def)
  have "St ci pg P r mu (wal_after_del lsn p key w) (bt\<lparr>bt_wal := w'\<rparr>)"
    using assms(1) l True by (simp add: St_def wal_after_del_def)
  moreover have "bt_wal bt = w" using assms(1) by (simp add: St_def)
  ultimately show ?thesis
    using assms(3) l True by (simp add: delLSN_def) (simp add: yields_def on_wal_def)
next
  case False
  with assms(1,3) show ?thesis by (simp add: delLSN_def wal_after_del_def)
qed

text \<open>Deleting the \<open>i\<close>-th key of a node.\<close>

definition cut :: "nat \<Rightarrow> Node \<Rightarrow> Node" where
  "cut i n = n\<lparr>n_Keys := take i (n_Keys n) @ drop (Suc i) (n_Keys n),
               n_Values := take i (n_Values n) @ drop (Suc i) (n_Values n)\<rparr>"

lemma deleteValue_leaf:
  assumes st: "St ci pg P r mu w bt" and nd: "ssorted (n_Keys nd)" "n_Leaf nd" "key \<in> set (n_Keys nd)"
      "length (n_Values nd) = length (n_Keys nd)" "key \<noteq> []"
    and rest: "\<And>i l bt'. \<lbrakk>i < length (n_Keys nd); n_Keys nd ! i = key;
        St ci pg P r mu (wal_after_del lsn (n_PageId nd) key w) bt'\<rbrakk> \<Longrightarrow>
      yields (if length (n_Keys nd) \<le> DEGREE
        then bindS (handleLeafUnderflow C (mr\<lparr>mm_OpLSN := l\<rparr>) (cut i (nd\<lparr>n_lsn := l\<rparr>)) f)
               (\<lambda>(eo, mr). returnS (-1, stk, mr))
        else bindS (SyncNode C f l (cut i (nd\<lparr>n_lsn := l\<rparr>))) (\<lambda>_. returnS (1, stk, mr))) bt' Q"
  shows "yields (deleteValue C lsn nd f key stk mr) bt Q"
proof -
  have ne: "n_Keys nd \<noteq> []" using nd(3) by auto
  obtain i where i: "InsertBinarySearch (n_Keys nd) key 0 = Ok (int i)" "near (n_Keys nd) key i"
    using InsertBinarySearch_near [OF ne nd(1), of key 0] by auto
  have il: "i < length (n_Keys nd)" using i(2) by (simp add: near_def)
  have k: "n_Keys nd ! i = key" using near_member [OF i(2) _ nd(1)] nd(3) by blast
  have dv: "deleteValue C lsn nd f key stk mr = bindS (delLSN lsn (n_PageId nd) key) (\<lambda>l.
      if length (n_Keys nd) \<le> DEGREE
      then bindS (handleLeafUnderflow C (mr\<lparr>mm_OpLSN := l\<rparr>) (cut i (nd\<lparr>n_lsn := l\<rparr>)) f)
             (\<lambda>(eo, mr). returnS (-1, stk, mr))
      else bindS (SyncNode C f l (cut i (nd\<lparr>n_lsn := l\<rparr>))) (\<lambda>_. returnS (1, stk, mr)))"
  proof
    fix s
    have "length (take i (n_Keys nd) @ drop (Suc i) (n_Keys nd)) < DEGREE \<longleftrightarrow> length (n_Keys nd) \<le> DEGREE"
      using il by auto
    then show "deleteValue C lsn nd f key stk mr s = bindS (delLSN lsn (n_PageId nd) key) (\<lambda>l.
      if length (n_Keys nd) \<le> DEGREE
      then bindS (handleLeafUnderflow C (mr\<lparr>mm_OpLSN := l\<rparr>) (cut i (nd\<lparr>n_lsn := l\<rparr>)) f)
             (\<lambda>(eo, mr). returnS (-1, stk, mr))
      else bindS (SyncNode C f l (cut i (nd\<lparr>n_lsn := l\<rparr>))) (\<lambda>_. returnS (1, stk, mr))) s"
      using ne il k i(1) nd(2,4) index_Ok [of i "n_Values nd"]
      by (simp add: deleteValue_def bindS_def liftR_def cut_def Let_def split: res.splits prod.splits)
  qed
  show ?thesis unfolding dv yields_bind by (rule yields_delLSN [OF st nd(5)]) (rule rest [OF il k])
qed

text \<open>A leaf that keeps at least two keys: the loop goes on at page 1, and finds the key nowhere.\<close>

lemma delete_at_leaf:
  assumes ok: "cache_ok C ci pg pid" and st: "St ci pg P r mu w bt"
    and gd: "good P (length c) (plug c (GLeaf p ks vs)) g" and hole: "in_hole c key"
    and k: "key \<in> set ks" "key \<noteq> []" "3 \<le> length ks" and one: "1 \<in> set (pids (plug c (GLeaf p ks vs)))"
    and fuel: "Suc (length c) \<le> fuel"
    and Q: "\<And>f stk' bt' P' ks' vs'. \<lbrakk>St ci pg P' r mu (wal_after_del lsn p key w) bt';
       good P' (length c) (plug c (GLeaf p ks' vs')) g;
       kvs (plug c (GLeaf p ks' vs')) = kv_delete key (kvs (plug c (GLeaf p ks vs)))\<rbrakk> \<Longrightarrow> Q (Some f, stk', mr) bt'"
  shows "yields (delete_descend (Suc fuel) C lsn key p oldF stk mr) bt Q"
proof -
  note gl = good_leaf [OF gd]
  obtain n where n: "P p = Some n" "pn_keys n = ks" "pn_vals n = vs" "pn_children n = []" "\<not> pn_internal n"
    using gl(1) by blast
  let ?w = "wal_after_del lsn p key w"
  have AB: "kv_delete key (kvA c) = kvA c" "kv_delete key (kvB c) = kvB c"
    using hole kvA_flatA kvB_flatB [OF gl(6)] by (intro kv_delete_absent; fastforce simp: in_hole_def)+
  show ?thesis
  proof (rule delete_round [OF ok st n(1)], rule deleteValue_leaf, assumption)
    fix f bt1 i l bt2
    assume f: "pid f = p" and i: "i < length (n_Keys (node_of p n))" "n_Keys (node_of p n) ! i = key"
      and st2: "St ci pg P r mu (wal_after_del lsn (n_PageId (node_of p n)) key w) bt2"
    have i': "i < length ks" "ks ! i = key" using i n by (simp_all add: node_of_def)
    let ?nd = "cut i ((node_of p n)\<lparr>n_lsn := l\<rparr>)"
    let ?ks = "take i ks @ drop (Suc i) ks" and ?vs = "take i vs @ drop (Suc i) vs"
    let ?P = "P(p \<mapsto> pnode_of (pn_internal n) ?nd)"
    have g': "good ?P (length c) (plug c (GLeaf p ?ks ?vs)) g"
      by (rule leaf_deleted [OF gd n(1) i'(1)])
         (use k(3) n in \<open>simp_all add: content_def pnode_of_def cut_def node_of_def\<close>)
    have kv: "kvs (plug c (GLeaf p ?ks ?vs)) = kv_delete key (kvs (plug c (GLeaf p ks vs)))"
      using kv_delete_nth [OF ssorted_distinct [OF gl(2)] gl(4) i'(1)] i'(2) AB by (simp add: kvs_plug)
    have pd: "set (pids (plug c (GLeaf p ?ks ?vs))) = set (pids (plug c (GLeaf p ks vs)))"
      using set_pids_plug [of c "GLeaf p ?ks ?vs"] set_pids_plug [of c "GLeaf p ks vs"] by (metis pids.simps(1) set_mset_mset)
    obtain h' c' u where u: "plug c' u = plug c (GLeaf p ?ks ?vs)" "root u = 1" "h' + length c' = length c"
      using page_in_tree [of 1 "plug c (GLeaf p ?ks ?vs)" ?P "length c" "[]" g] g' one pd by auto
    have ab: "key \<notin> fst ` set (kvs u)"
    proof -
      have "set (kvs u) \<subseteq> set (kvs (plug c' u))" by (auto simp: kvs_plug)
      then show ?thesis unfolding u(1) kv by (auto simp: kv_delete_def)
    qed
    have rest: "yields (delete_descend fuel C lsn key 1 (Some f) stk' mr) bt3 Q"
      if "St ci pg ?P r mu ?w bt3" for stk' bt3
      unfolding u(2) [symmetric]
      by (rule delete_descend_absent [OF ok, of ?P h' c' u g], unfold u)
         (use g' ab fuel u(3) that Q [OF _ g' kv] in auto)
    then have ex: "\<exists>P' r' w'. St ci pg P' r' mu w' b \<and> (\<forall>bt3. St ci pg P' r' mu w' bt3 \<longrightarrow>
        yields (delete_descend fuel C lsn key 1 (Some f) stk mr) bt3 Q)" if "St ci pg ?P r mu ?w b" for b
      using that by blast
    have big: "\<not> length (n_Keys (node_of p n)) \<le> DEGREE" using k(3) n by (simp add: node_of_def)
    have "n_PageId (node_of p n) = p" by (simp add: node_of_def)
    with st2 have st2': "St ci pg P r mu ?w bt2" by simp
    show "yields (if length (n_Keys (node_of p n)) \<le> DEGREE
        then bindS (handleLeafUnderflow C (mr\<lparr>mm_OpLSN := l\<rparr>) ?nd f) (\<lambda>(eo, mr). returnS (-1, stk, mr))
        else bindS (SyncNode C f l ?nd) (\<lambda>_. returnS (1, stk, mr))) bt2
      (\<lambda>(nx, stk', mr') bt2. \<exists>P' r' w'. St ci pg P' r' mu w' bt2 \<and> (\<forall>bt3. St ci pg P' r' mu w' bt3 \<longrightarrow>
            yields (delete_descend fuel C lsn key nx (Some f) stk' mr') bt3 Q))"
      unfolding if_not_P [OF big] yields_bind yields_return prod.case
      by (rule yields_Sync [OF ok st2', of f n], use f n in simp, rule ex) (use f in simp)
  qed (use n k gl(2-4) in \<open>simp_all add: node_of_def\<close>)
qed

section \<open>A tree of one leaf\<close>

text \<open>What the code relies on of \<^verbatim>\<open>Frame.MarkAsDead\<close>: it succeeds and changes no cell of a page.\<close>

definition cache_dead_ok :: "('f, 's) CacheApi \<Rightarrow> ('s \<Rightarrow> bool) \<Rightarrow> ('s \<Rightarrow> pages) \<Rightarrow> bool" where
  "cache_dead_ok C ci pg \<longleftrightarrow>
     (\<forall>s f. ci s \<longrightarrow> (\<exists>s'. frame_MarkAsDead C f s = (Ok (), s') \<and> ci s' \<and> pg s' = pg s))"

lemma yields_Dead:
  assumes "cache_dead_ok C ci pg" "St ci pg P r mu w bt"
    and "\<And>bt'. St ci pg P r mu w bt' \<Longrightarrow> Q () bt'"
  shows "yields (on_cache (frame_MarkAsDead C f)) bt Q"
proof -
  obtain s' where "frame_MarkAsDead C f (bt_cache bt) = (Ok (), s')" "ci s'" "pg s' = P"
    using assms(1,2) unfolding cache_dead_ok_def St_def by blast
  with assms(2,3) show ?thesis by (auto intro: yields_cacheI)
qed

lemma leaf_root_ok:
  assumes ok: "cache_ok C ci pg pid" and dead: "cache_dead_ok C ci pg" and st: "St ci pg P r free_mutex w bt"
    and p: "P r = Some n" "n_PageId nd = r" "pid f = r"
    and mr: "\<not> mm_merged mr" "mm_rebalanceKey mr = []"
    and Q: "\<And>bt' mr'. \<lbrakk>St ci pg (P(r \<mapsto> pnode_of (pn_internal n) nd)) (if n_Keys nd = [] then 0 else r) free_mutex w bt';
       \<not> mm_merged mr'; mm_rebalanceKey mr' = []\<rbrakk> \<Longrightarrow> Q (None, mr') bt'"
  shows "yields (leaf_root C mr nd f) bt Q"
proof -
  let ?M = "\<lparr>readers = 0, writer = True\<rparr>"
  have root: "bt_Root b = r" if "St ci pg P r mu w b" for b mu using that by (simp add: St_def)
  have fin: "yields (ignoreErr (SyncNode C f l nd)) b (\<lambda>_ b. yields (on_mu Unlock) b (\<lambda>_ b. Q (None, mr') b))"
    if "St ci pg P (if n_Keys nd = [] then 0 else r) ?M w b" "\<not> mm_merged mr'" "mm_rebalanceKey mr' = []" for l b mr'
    apply (rule yields_ignoreErr, rule yields_Sync [OF ok that(1)])
     apply (use p in simp)
    apply (rule yields_unlocks(1), assumption)
    apply (rule Q [OF _ that(2,3)])
    apply (use p in simp)
    done
  have zero: "St ci pg P 0 ?M w (b\<lparr>bt_Root := 0\<rparr>)" if "St ci pg P r ?M w b" for b
    using that by (simp add: St_def)
  show ?thesis
  proof (cases "n_Keys nd = []")
    case True
    show ?thesis
      unfolding leaf_root_def yields_bind yields_value
      apply (rule yields_locks(1) [OF st])
      apply (simp add: root p(2) True yields_set_Root Let_def)
      apply (rule yields_tryErr, rule yields_Dead [OF dead], assumption)
      apply (simp add: yields_set_Root, rule fin)
        apply (simp add: True zero)
       apply simp_all
      done
  next
    case False
    show ?thesis
      unfolding leaf_root_def yields_bind yields_value
      apply (rule yields_locks(1) [OF st])
      apply (simp add: root p(2) False Let_def, rule fin)
        apply (simp_all add: False)
      done
  qed
qed

end
