(* ===== verification/BtreeDeleteProps.thy ===== *)
theory BtreeDeleteProps
  imports BtreeProps BtreeDeleteOk
begin

text \<open>
  The properties of deletion: what it gets right (deletions that keep the leaf half full, and trees of
  one leaf), the error of an empty tree, and a redistribution that loses a key.
\<close>

section \<open>Whole deletions\<close>

definition no_merge :: MergeMetadata where
  "no_merge = \<lparr>mm_rebalanceKey = [], mm_rightMerge = False, mm_merged = False, mm_OpLSN = []\<rparr>"

lemma propagate_none:
  "\<not> mm_merged mr \<Longrightarrow> mm_rebalanceKey mr = [] \<Longrightarrow> propagate_merges fuel C key mr st = returnS ()"
  by (simp add: propagate_merges.simps [of fuel])

text \<open>A call whose descent ends without a merge or a redistribution.\<close>

lemma DeleteValue_descent:
  assumes ok: "cache_ok C ci pg pid" and st: "St ci pg P r free_mutex w bt" and r: "r \<noteq> 0"
    and desc: "\<And>bt1. St ci pg P r free_mutex w bt1 \<Longrightarrow>
       yields (delete_descend fuel C lsn key r None (NewBTStack r) no_merge) bt1
         (\<lambda>(f, stk, mr) bt2. \<not> mm_merged mr \<and> mm_rebalanceKey mr = []
            \<and> (\<exists>P' r' w'. St ci pg P' r' free_mutex w' bt2 \<and> (\<forall>bt3. St ci pg P' r' free_mutex w' bt3 \<longrightarrow> Q bt3)))"
  shows "\<exists>bt'. DeleteValue fuel C (key # rest) lsn bt = (Ok True, bt') \<and> Q bt'"
proof -
  have r0: "bt_Root b = r" if "St ci pg P r mu w b" for b mu using that by (simp add: St_def)
  define M where "M = bindS (on_mu RLock) (\<lambda>_.
      bindS (\<lambda>bt. (Ok (bt_Root bt), bt)) (\<lambda>root.
      if root = 0 then failS (BTreeError ''BTree not initialized.'')
      else
        bindS (on_mu RUnlock) (\<lambda>_.
        bindS (delete_descend fuel C lsn key root None (NewBTStack r) no_merge) (\<lambda>(oldFrame, st, mr).
        bindS (case oldFrame of None \<Rightarrow> returnS () | Some f \<Rightarrow> ignoreErr (ReleaseFrame C f)) (\<lambda>_.
        bindS (propagate_merges fuel C key mr st) (\<lambda>_. returnS True))))))"
  have M: "DeleteValue fuel C (key # rest) lsn bt = M bt"
    unfolding DeleteValue_def M_def no_merge_def r0 [OF st] by simp
  have "yields M bt (\<lambda>x bt'. x = True \<and> Q bt')"
    unfolding M_def yields_bind yields_value
    apply (rule yields_locks(2) [OF st])
    apply (simp add: r0 r del: One_nat_def)
    apply (rule yields_unlocks(2), assumption)
    apply (rule yields_mono [OF desc], assumption)
    apply clarsimp
    apply (rule yields_Release_ignore [OF ok], assumption)
    apply (simp add: propagate_none)
    done
  then show ?thesis unfolding M by (auto simp: yields_result)
qed

lemma DeleteValue_no_underflow:
  assumes ok: "cache_ok C ci pg pid" and rp: "represents ci pg 0 bt m" and r: "bt_Root bt \<noteq> 0" and key: "key \<noteq> []"
    and fuel: "2 * length m \<le> fuel"
    and big: "\<And>p n. pg (bt_cache bt) p = Some n \<Longrightarrow> \<not> pn_internal n \<Longrightarrow> key \<in> set (pn_keys n) \<Longrightarrow> 3 \<le> length (pn_keys n)"
    and one: "1 \<in> dom (pg (bt_cache bt))"
  shows "\<exists>bt'. DeleteValue fuel C (key # rest) lsn bt = (Ok True, bt') \<and> represents ci pg 0 bt' (kv_delete key m)
     \<and> logged_dels (bt_wal bt') = logged_dels (bt_wal bt) @ (if lsn = [] \<and> key \<in> fst ` set m then [key] else [])"
proof -
  obtain h t where t: "good (pg (bt_cache bt)) h t 0" "root t = bt_Root bt" "kvs t = m"
    "St ci pg (pg (bt_cache bt)) (root t) free_mutex (bt_wal bt) bt"
    using represents_tree [OF rp r] by auto
  let ?P = "pg (bt_cache bt)" and ?w = "bt_wal bt" and ?r = "root t"
  let ?R = "\<lambda>b. represents ci pg 0 b (kv_delete key m)
     \<and> logged_dels (bt_wal b) = logged_dels ?w @ (if lsn = [] \<and> key \<in> fst ` set m then [key] else [])"
  have nz: "?r \<noteq> 0" using t(2) r by simp
  have hm: "h < length m" using good_sizes [OF t(1)] t(3) by simp
  have g0: "good ?P (h + length []) (plug [] t) 0" using t(1) by simp
  show ?thesis
  proof (rule DeleteValue_descent [OF ok t(4) nz])
    fix bt1
    assume st1: "St ci pg ?P ?r free_mutex ?w bt1"
    show "yields (delete_descend fuel C lsn key ?r None (NewBTStack ?r) no_merge) bt1
         (\<lambda>(f, stk, mr) bt2. \<not> mm_merged mr \<and> mm_rebalanceKey mr = []
            \<and> (\<exists>P' r' w'. St ci pg P' r' free_mutex w' bt2 \<and> (\<forall>bt3. St ci pg P' r' free_mutex w' bt3 \<longrightarrow> ?R bt3)))"
    proof (cases "key \<in> fst ` set m")
      case False
      have "?R b" if "St ci pg ?P ?r free_mutex ?w b" for b
        using representsI [OF t(1) that] t(3) False that by (auto simp: kv_delete_absent St_def)
      then have "\<exists>P' r' w'. St ci pg P' r' free_mutex w' b \<and> (\<forall>bt3. St ci pg P' r' free_mutex w' bt3 \<longrightarrow> ?R bt3)"
        if "St ci pg ?P ?r free_mutex ?w b" for b using that by blast
      then show ?thesis
        by (intro delete_descend_absent [OF ok g0 _ _ st1]) (use False t(3) hm fuel in \<open>auto simp: no_merge_def\<close>)
    next
      case True
      show ?thesis
      proof (rule delete_descend_to_leaf [OF ok g0 _ _ st1, where k = "Suc h"], goal_cases)
        case (3 c p ks vs fuel' oldF stk bt2)
        have gl: "good ?P (length c) (plug c (GLeaf p ks vs)) 0" using 3(1,2) g0 by simp
        note L = good_leaf [OF gl]
        have "map_of (zip ks vs) key \<noteq> None"
          using in_hole_lookup [OF 3(3) L(6), of "zip ks vs"] True t(3) 3(1)
          by (metis kvs.simps(1) kvs_plug map_of_eq_None_iff plug.simps(1))
        then have k: "key \<in> set ks" by (auto dest: map_of_SomeD set_zip_leftD)
        have sz: "3 \<le> length ks" using L(1) big k by blast
        have one': "1 \<in> set (pids (plug c (GLeaf p ks vs)))"
          using good_all_pages [OF gl] one by simp
        show ?case
        proof (rule delete_at_leaf [OF ok 3(5) gl 3(3) k key sz one'], goal_cases)
          case (2 f stk' bt' P' ks' vs')
          have "root (plug c (GLeaf p ks' vs')) = ?r"
            using root_plug_cong [of "GLeaf p ks' vs'" "GLeaf p ks vs" c] 3(1) by simp
          with 2 have "?R b" if "St ci pg P' ?r free_mutex (wal_after_del lsn p key ?w) b" for b
            using representsI [OF 2(2), of ci pg "wal_after_del lsn p key ?w" b] that True key t(3) 3(1)
            by (auto simp: St_def logged_dels_after)
          then have "\<exists>P' r' w'. St ci pg P' r' free_mutex w' bt' \<and> (\<forall>bt3. St ci pg P' r' free_mutex w' bt3 \<longrightarrow> ?R bt3)"
            using 2(1) by blast
          then show ?case unfolding prod.case by (simp add: no_merge_def)
        qed (use 3 in simp)
      qed (use hm fuel in \<open>simp_all add: in_hole_def\<close>)
    qed
  qed
qed

text \<open>A tree of at most two keys is one leaf.\<close>

lemma small_tree:
  assumes "good P h t g" "length (kvs t) \<le> 2"
  shows "h = 0 \<and> (\<exists>p ks vs. t = GLeaf p ks vs)"
proof (cases h)
  case 0
  then show ?thesis using assms(1) by (cases t) (auto simp: good_def)
next
  case (Suc h')
  then obtain p ks ts where t: "t = GNode p ks ts" "1 \<le> length ks" "length ts = Suc (length ks)"
    "\<forall>u\<in>set ts. shape DEGREE h' u" using assms(1) by (cases t) (auto simp: good_def)
  then have "2 \<le> length ts" by simp
  then obtain a b us where ts: "ts = a # b # us" by (cases ts; cases "tl ts") auto
  with t pids_le_kvs [of h' a] pids_le_kvs [of h' b] have "Suc (length (pids a)) + Suc (length (pids b)) \<le> length (kvs t)"
    by simp
  moreover have "0 < length (pids a)" using root_in_pids [of a] by (cases "pids a") auto
  ultimately show ?thesis using assms(2) by linarith
qed

lemma cut_leaf_good:
  assumes gd: "good P 0 (GLeaf r ks vs) g" and Pr: "P r = Some n" and i: "i < length ks" and nd: "n_Keys nd = ks" "n_Values nd = vs"
      "n_Children nd = []" "n_LeftSibling nd = pn_left n" "n_RightSibling nd = pn_right n"
    and two: "2 \<le> length ks"
  shows "good (P(r \<mapsto> pnode_of False (cut i nd))) 0 (GLeaf r (take i ks @ drop (Suc i) ks) (take i vs @ drop (Suc i) vs)) g"
  using leaf_deleted [of P "[]" r ks vs g n i "pnode_of False (cut i nd)"] assms
  by (simp add: content_def pnode_of_def cut_def)

lemma DeleteValue_small:
  assumes ok: "cache_ok C ci pg pid" and dead: "cache_dead_ok C ci pg" and rp: "represents ci pg g bt m"
    and r: "bt_Root bt \<noteq> 0" and key: "key \<noteq> []" "key \<in> fst ` set m" and small: "length m \<le> 2" and fuel: "0 < fuel"
  shows "\<exists>bt'. DeleteValue fuel C (key # rest) lsn bt = (Ok True, bt') \<and> represents ci pg (Suc g) bt' (kv_delete key m)"
proof -
  obtain h t where t: "good (pg (bt_cache bt)) h t g" "root t = bt_Root bt" "kvs t = m"
    "St ci pg (pg (bt_cache bt)) (root t) free_mutex (bt_wal bt) bt"
    using represents_tree [OF rp r] by auto
  let ?P = "pg (bt_cache bt)" and ?w = "bt_wal bt"
  from small_tree [OF t(1)] small t(3) obtain p ks vs where h: "h = 0" and tl: "t = GLeaf p ks vs" by auto
  have gd: "good ?P (length []) (plug [] (GLeaf p ks vs)) g" using t(1) h tl by simp
  note L = good_leaf [OF gd]
  obtain n where n: "?P p = Some n" "pn_keys n = ks" "pn_vals n = vs" "pn_children n = []" "\<not> pn_internal n"
    using L(1) by blast
  have lk: "pn_left n = 0" "pn_right n = 0" using gd n(1) by (auto simp: good_def links_def)
  have st: "St ci pg ?P p free_mutex ?w bt" using t(4) tl by simp
  have nz: "p \<noteq> 0" using t(2) tl r by simp
  have k: "key \<in> set ks" using key(2) t(3) tl by (auto dest: set_zip_leftD)
  obtain fuel' where f': "fuel = Suc fuel'" using fuel by (cases fuel) auto
  let ?R = "\<lambda>b. represents ci pg (Suc g) b (kv_delete key m)"
  let ?E = "\<lambda>bt2. \<exists>P' r' w'. St ci pg P' r' free_mutex w' bt2 \<and> (\<forall>bt3. St ci pg P' r' free_mutex w' bt3 \<longrightarrow> ?R bt3)"
  have small': "length (n_Keys (node_of p n)) \<le> DEGREE" using small t(3) tl L(4) n by (auto simp: node_of_def)
  show ?thesis
  proof (rule DeleteValue_descent [OF ok st nz], unfold f')
    fix bt1
    assume st1: "St ci pg ?P p free_mutex ?w bt1"
    show "yields (delete_descend (Suc fuel') C lsn key p None (NewBTStack p) no_merge) bt1
         (\<lambda>(f, stk, mr) bt2. \<not> mm_merged mr \<and> mm_rebalanceKey mr = [] \<and> ?E bt2)"
    proof (rule delete_round [OF ok st1 n(1)], rule deleteValue_leaf, assumption)
      fix f bt2 i l bt3
      assume f: "pid f = p" and i: "i < length (n_Keys (node_of p n))" "n_Keys (node_of p n) ! i = key"
        and st3: "St ci pg ?P p free_mutex (wal_after_del lsn (n_PageId (node_of p n)) key ?w) bt3"
      let ?nd = "cut i ((node_of p n)\<lparr>n_lsn := l\<rparr>)" and ?w' = "wal_after_del lsn (n_PageId (node_of p n)) key ?w"
      let ?P' = "?P(p \<mapsto> pnode_of (pn_internal n) ?nd)" and ?r' = "if n_Keys ?nd = [] then 0 else p"
      have i': "i < length ks" "ks ! i = key" using i n by (simp_all add: node_of_def)
      have kv: "kv_delete key m = zip (take i ks @ drop (Suc i) ks) (take i vs @ drop (Suc i) vs)"
        using kv_delete_nth [OF ssorted_distinct [OF L(2)] L(4) i'(1)] i'(2) t(3) tl by simp
      have R: "?R b" if b: "St ci pg ?P' ?r' free_mutex ?w' b" for b
      proof (cases "n_Keys ?nd = []")
        case True
        then have "kv_delete key m = []" using kv n by (simp add: cut_def node_of_def)
        moreover have "card (dom ?P') \<le> Suc g"
          using gd n(1) by (simp add: good_def insert_absorb domI)
        ultimately show ?thesis using b True by (simp add: represents_def St_def)
      next
        case False
        then have "2 \<le> length ks" using i'(1) n by (cases ks; cases "tl ks") (auto simp: cut_def node_of_def)
        with gd i' n have "good ?P' 0 (GLeaf p (take i ks @ drop (Suc i) ks) (take i vs @ drop (Suc i) vs)) g"
          using cut_leaf_good [of ?P p ks vs g n i "(node_of p n)\<lparr>n_lsn := l\<rparr>"] by (simp add: node_of_def)
        then have "good ?P' 0 (GLeaf p (take i ks @ drop (Suc i) ks) (take i vs @ drop (Suc i) vs)) (Suc g)"
          by (rule good_mono) simp
        from representsI [OF this, of ci pg ?w' b] b False kv show ?thesis by simp
      qed
      have hl: "handleLeafUnderflow C mr' ?nd f = leaf_root C mr' ?nd f" for mr'
        using lk n by (simp add: handleLeafUnderflow_def cut_def node_of_def)
      have E: "?E b" if "St ci pg ?P' ?r' free_mutex ?w' b" for b
        using that R by (intro exI [of _ ?P'] exI [of _ ?r'] exI [of _ ?w']) blast
      show "yields (if length (n_Keys (node_of p n)) \<le> DEGREE
          then bindS (handleLeafUnderflow C (no_merge\<lparr>mm_OpLSN := l\<rparr>) ?nd f) (\<lambda>(eo, mr). returnS (-1, NewBTStack p, mr))
          else bindS (SyncNode C f l ?nd) (\<lambda>_. returnS (1, NewBTStack p, no_merge))) bt3
        (\<lambda>(nx, stk', mr') bt2. \<exists>P' r' w'. St ci pg P' r' free_mutex w' bt2 \<and> (\<forall>bt3. St ci pg P' r' free_mutex w' bt3 \<longrightarrow>
              yields (delete_descend fuel' C lsn key nx (Some f) stk' mr') bt3
                (\<lambda>(f, stk, mr) bt2. \<not> mm_merged mr \<and> mm_rebalanceKey mr = [] \<and> ?E bt2)))"
        unfolding if_P [OF small'] yields_bind hl
        apply (rule leaf_root_ok [OF ok dead st3 n(1)])
            apply (use f in \<open>simp_all add: cut_def node_of_def no_merge_def\<close>) [4]
        apply (unfold prod.case yields_return delete_descend_end)
        apply (rule exI, rule exI, rule exI, rule conjI, assumption)
        apply (simp add: E)
        done
    qed (use n k key L(2-4) in \<open>simp_all add: node_of_def\<close>)
  qed
qed

lemma list_cache_dead_ok: "cache_dead_ok list_cache ls_inv ls_pages"
  by (simp add: cache_dead_ok_def list_cache_def)

text \<open>A root over three leaves.\<close>

definition three_leaves :: "pstore BTree" where
  "three_leaves = empty_tree\<lparr>bt_Root := 4, bt_cache :=
     [\<lparr>pn_keys = [[1], [2]], pn_vals = [[10], [20]], pn_children = [], pn_internal = False, pn_right = 2, pn_left = 0\<rparr>,
      \<lparr>pn_keys = [[3], [4], [5]], pn_vals = [[30], [40], [50]], pn_children = [], pn_internal = False, pn_right = 3, pn_left = 1\<rparr>,
      \<lparr>pn_keys = [[6], [7], [8]], pn_vals = [[60], [70], [80]], pn_children = [], pn_internal = False, pn_right = 0, pn_left = 2\<rparr>,
      \<lparr>pn_keys = [[3], [6]], pn_vals = [], pn_children = [1, 2, 3], pn_internal = True, pn_right = 0, pn_left = 0\<rparr>]\<rparr>"

definition three_kvs :: "(bytes \<times> bytes) list" where
  "three_kvs = [([1], [10]), ([2], [20]), ([3], [30]), ([4], [40]), ([5], [50]), ([6], [60]), ([7], [70]), ([8], [80])]"

lemma three_leaves_represents: "represents ls_inv ls_pages 0 three_leaves three_kvs"
proof -
  let ?P = "ls_pages (bt_cache three_leaves)"
  let ?t = "GNode 4 [[3], [6]] [GLeaf 1 [[1], [2]] [[10], [20]], GLeaf 2 [[3], [4], [5]] [[30], [40], [50]],
    GLeaf 3 [[6], [7], [8]] [[60], [70], [80]]]"
  have P: "?P 1 = Some (bt_cache three_leaves ! 0)" "?P 2 = Some (bt_cache three_leaves ! 1)"
    "?P 3 = Some (bt_cache three_leaves ! 2)" "?P 4 = Some (bt_cache three_leaves ! 3)"
    by (simp_all add: ls_pages_def three_leaves_def)
  have "length (bt_cache three_leaves) = 4" by (simp add: three_leaves_def)
  then have d: "card (dom ?P) = 4" "0 \<notin> dom ?P" using ls_card [of "bt_cache three_leaves"]
    by (simp_all add: ls_dom max_pages_def del: One_nat_def)
  have "rep ?P ?t" by (simp add: content_def P) (simp add: three_leaves_def)
  moreover have "linked ?P (Suc 0) [?t]" by (simp add: links_def P) (simp add: three_leaves_def)
  ultimately have "good ?P (Suc 0) ?t 0" unfolding good_def using d by simp
  then have "\<exists>h t. good ?P h t 0 \<and> root t = 4 \<and> kvs t = three_kvs"
    by (intro exI [of _ "Suc 0"] exI [of _ ?t]) (simp add: three_kvs_def)
  then show ?thesis
    by (simp add: represents_def three_leaves_def empty_tree_def ls_inv_def max_pages_def)
qed

text \<open>Deleting the first key: the leaves are shared out and the root holds three separators for three children.\<close>

lemmas run_simps = bindS_def on_mu_def RLock_def RUnlock_def Lock_def Unlock_def buildPage_def on_cache_def on_wal_def loadNode_def
  list_cache_def ls_pages_def returnS_def failS_def InsertBinarySearch.simps tryErr_def ignoreErr_def liftR_def orPanic_def ReleaseFrame_def
  SyncNode_def index_def word_sless_alt free_mutex_def empty_tree_def

definition shared_out :: "pstore" where
  "shared_out =
     [\<lparr>pn_keys = [[2], [3]], pn_vals = [[20], [30]], pn_children = [], pn_internal = False, pn_right = 2, pn_left = 0\<rparr>,
      \<lparr>pn_keys = [[4], [5]], pn_vals = [[40], [50]], pn_children = [], pn_internal = False, pn_right = 3, pn_left = 1\<rparr>,
      \<lparr>pn_keys = [[6], [7], [8]], pn_vals = [[60], [70], [80]], pn_children = [], pn_internal = False, pn_right = 0, pn_left = 2\<rparr>,
      \<lparr>pn_keys = [[4], [3], [6]], pn_vals = [], pn_children = [1, 2, 3], pn_internal = True, pn_right = 0, pn_left = 0\<rparr>]"

lemma delete_first:
  "\<exists>w. DeleteValue 10 list_cache [[1]] [] three_leaves = (Ok True, three_leaves\<lparr>bt_wal := w, bt_cache := shared_out\<rparr>)"
  by (simp add: DeleteValue_def delete_descend.simps deleteValue_def three_leaves_def handleLeafUnderflow_def redistribute_leaf_def
     share_leaves_def propagate_merges.simps update_parent_def fix_parent_def sync_parent_def delLSN_def AddDelLog_def assign_def
     assignLSN_def Let_def stack_Add_def stack_Pop_def NewBTStack_def shared_out_def run_simps)

lemma lookup_third:
  "fst (Get 10 list_cache [3] three_leaves) = Ok [30]"
  "fst (Get 10 list_cache [3] (three_leaves\<lparr>bt_wal := w, bt_cache := shared_out\<rparr>)) = Err (BTreeError ''Key not found'')"
  by (simp_all add: Get_def get_descend.simps search_def three_leaves_def shared_out_def run_simps)

definition one_key :: "pstore BTree" where
  "one_key = empty_tree\<lparr>bt_Root := 1,
     bt_cache := [\<lparr>pn_keys = [[1]], pn_vals = [[10]], pn_children = [], pn_internal = False, pn_right = 0, pn_left = 0\<rparr>]\<rparr>"

lemma one_key_represents: "represents ls_inv ls_pages 0 one_key [([1], [10])]"
proof -
  let ?P = "ls_pages (bt_cache one_key)"
  have d: "card (dom ?P) = 1" by (simp add: one_key_def ls_card max_pages_def)
  have "good ?P 0 (GLeaf 1 [[1]] [[10]]) 0"
    unfolding good_def d by (simp add: one_key_def ls_dom content_def links_def ls_pages_def)
  then have "\<exists>h t. good ?P h t 0 \<and> root t = 1 \<and> kvs t = [([1], [10])]"
    by (intro exI [of _ 0] exI [of _ "GLeaf 1 [[1]] [[10]]"]) simp
  then show ?thesis by (simp add: represents_def one_key_def empty_tree_def ls_inv_def max_pages_def)
qed

section \<open>Properties\<close>

text \<open>C5. Deletion refines removal from the sorted association list, where no leaf underflows: if every leaf
  that holds the key has at least three keys, page 1 is a page of the tree and the tree has no
  pages outside it, a call deletes the first key of its batch (the others are never looked at),
  adds one \<^verbatim>\<open>DEL\<close> record if the key was there and the caller gave no LSN, and leaves all locks free.\<close>

theorem DeleteValue_refines:
  assumes "cache_ok C ci pg pid" "represents ci pg 0 bt m" "bt_Root bt \<noteq> 0" "key \<noteq> []" "2 * length m \<le> fuel"
    and "\<And>p n. pg (bt_cache bt) p = Some n \<Longrightarrow> \<not> pn_internal n \<Longrightarrow> key \<in> set (pn_keys n) \<Longrightarrow> 3 \<le> length (pn_keys n)"
    and "1 \<in> dom (pg (bt_cache bt))"
  shows "\<exists>bt'. DeleteValue fuel C (key # rest) lsn bt = (Ok True, bt') \<and> represents ci pg 0 bt' (kv_delete key m)
     \<and> logged_dels (bt_wal bt') = logged_dels (bt_wal bt) @ (if lsn = [] \<and> key \<in> fst ` set m then [key] else [])"
  by (rule DeleteValue_no_underflow [OF assms])

theorem DeleteValue_refines_witness:
  "\<exists>bt'. DeleteValue 16 list_cache [[4], [7]] [] three_leaves = (Ok True, bt')
     \<and> represents ls_inv ls_pages 0 bt' [([1], [10]), ([2], [20]), ([3], [30]), ([5], [50]), ([6], [60]), ([7], [70]), ([8], [80])]
     \<and> logged_dels (bt_wal bt') = [[4]]"
proof -
  have P: "ls_pages (bt_cache three_leaves) p = Some n \<Longrightarrow> n \<in> set (bt_cache three_leaves)" for p n
    by (auto simp: ls_pages_def split: if_splits)
  have "3 \<le> length (pn_keys n)" if "n \<in> set (bt_cache three_leaves)" "\<not> pn_internal n" "[4] \<in> set (pn_keys n)" for n
    using that by (auto simp: three_leaves_def)
  with P DeleteValue_refines [OF list_cache_ok three_leaves_represents, of "[4]" 16 "[[7]]" "[]"] show ?thesis
    by (force simp: three_leaves_def three_kvs_def kv_delete_def ls_dom empty_tree_def logged_dels_def)
qed

text \<open>C16. In a tree of one or two keys, deleting a stored key succeeds; the page of an emptied root is left
  behind (so one more page may be outside the tree) and the tree is empty again.\<close>

theorem DeleteValue_small_refines:
  assumes "cache_ok C ci pg pid" "cache_dead_ok C ci pg" "represents ci pg g bt m" "bt_Root bt \<noteq> 0"
    and "key \<noteq> []" "key \<in> fst ` set m" "length m \<le> 2" "0 < fuel"
  shows "\<exists>bt'. DeleteValue fuel C (key # rest) lsn bt = (Ok True, bt') \<and> represents ci pg (Suc g) bt' (kv_delete key m)"
  by (rule DeleteValue_small [OF assms])

theorem DeleteValue_small_refines_witness:
  "\<exists>bt'. DeleteValue 5 list_cache [[1]] [] one_key = (Ok True, bt') \<and> represents ls_inv ls_pages 1 bt' []"
  using DeleteValue_small_refines [OF list_cache_ok list_cache_dead_ok one_key_represents, of "[1]" 5 "[]" "[]"]
  by (simp add: kv_delete_def) (simp add: one_key_def)

text \<open>C17. Deleting from a tree without a root returns the error with the read lock still held, and every
  later insertion waits for ever.\<close>

theorem DeleteValue_empty_locks:
  assumes "cache_ok C ci pg pid" "represents ci pg g bt []" "bt_Root bt = 0" "room 0 g"
  shows "\<exists>bt'. DeleteValue fuel C (key # rest) lsn bt = (Err (BTreeError ''BTree not initialized.''), bt')
     \<and> readers (bt_mu bt') = 1 \<and> fst (InsertValue fuel' C (k # ks) (v # vs) l bt') = Blocked"
proof -
  let ?b = "bt\<lparr>bt_mu := \<lparr>readers = 1, writer = False\<rparr>\<rparr>"
  have bt: "bt_mu bt = free_mutex" "ci (bt_cache bt)" "card (dom (pg (bt_cache bt))) \<le> g"
    using assms(2,3) by (auto simp: represents_def)
  have del: "DeleteValue fuel C (key # rest) lsn bt = (Err (BTreeError ''BTree not initialized.''), ?b)"
    using bt(1) assms(3) by (simp add: DeleteValue_def bindS_def on_mu_def RLock_def free_mutex_def failS_def)
  have "card (dom (pg (bt_cache bt))) < max_pages" using bt(3) assms(4) by (simp add: room_def)
  then obtain f s' where f: "cache_CreateNewEntry C [] [k] (Some [v]) None True (bt_cache bt) = (Ok f, s')"
    using cache_okD(2) [OF assms(1), unfolded cache_put_ok_def, THEN conjunct2, THEN conjunct1, rule_format, of "bt_cache bt" "[]" "[k]" "[v]" True] bt(2)
    by auto
  have "fst (insert_one fuel' C l k v ?b) = Blocked"
    using f assms(3) by (simp add: insert_one_def insert_first_def assignFrame_def bindS_def on_cache_def on_mu_def Lock_def Let_def)
  then have "fst (InsertValue fuel' C (k # ks) (v # vs) l ?b) = Blocked"
    by (auto simp: InsertValue_def bindS_def split: prod.splits res.splits)
  with del show ?thesis by simp
qed

theorem DeleteValue_empty_locks_witness:
  "\<exists>bt'. DeleteValue 5 list_cache [[1]] [] empty_tree = (Err (BTreeError ''BTree not initialized.''), bt')
     \<and> readers (bt_mu bt') = 1 \<and> fst (InsertValue 5 list_cache [[1]] [[2]] [] bt') = Blocked"
  using DeleteValue_empty_locks [OF list_cache_ok empty_tree_represents, of 5 "[1]" "[]" "[]" 5 "[1]" "[]" "[2]" "[]" "[]"]
  by (simp add: room_small) (simp add: empty_tree_def)

text \<open>An example of a redistribution that loses keys: with the leaf of the deleted key at its minimum and a right sibling of
  three keys, the new separator is put beside the old one instead of in its place. The call reports
  success, but a key that is still stored is no longer found.\<close>

lemma DeleteValue_loses_key:
  "map_of three_kvs [3] = Some [30] \<and> fst (Get 10 list_cache [3] three_leaves) = Ok [30]
   \<and> fst (DeleteValue 10 list_cache [[1]] [] three_leaves) = Ok True
   \<and> fst (Get 10 list_cache [3] (snd (DeleteValue 10 list_cache [[1]] [] three_leaves)))
       = Err (BTreeError ''Key not found'')"
  using delete_first lookup_third by (auto simp: three_kvs_def)

end
