(* ===== verification/WalCorrect.thy ===== *)
theory WalCorrect
  imports Wal
begin

text \<open>
  Correctness of the write-ahead log: sizes and positions of records, the invariant that ties the
  position counters to the bytes of the file and the buffer, the order of log sequence numbers,
  and the reader against the writer. The buffer and the write queue are interpretations of the
  queue contract.
\<close>

section \<open>The queues\<close>

definition WALBuffer_pop :: "WALBuffer \<Rightarrow> nodeValue option \<times> WALBuffer" where
  "WALBuffer_pop buf = (case buf of [] \<Rightarrow> (None, []) | n # ns \<Rightarrow> (Some n, ns))"

interpretation wal_buffer: fifo_queue "\<lambda>_. True" "\<lambda>buf. buf" WALBuffer_Add WALBuffer_pop
  by unfold_locales (auto simp: WALBuffer_Add_def WALBuffer_pop_def)

interpretation write_queue: fifo_queue "\<lambda>_. True" w_queue AddJob unshift
  by unfold_locales (auto simp: AddJob_def unshift_def split: list.splits)

text \<open>\<^verbatim>\<open>run\<close> writes the queue to the file in order and empties it.\<close>

lemma run_appends:
  "f_err (w_fd wr) = None \<Longrightarrow>
   \<exists>ns. run wr = (Ok ns, wr\<lparr>w_queue := [], w_running := False,
      w_fd := (w_fd wr)\<lparr>f_data := f_data (w_fd wr) @ concat (w_queue wr)\<rparr>\<rparr>)"
proof (induction "w_queue wr" arbitrary: wr)
  case Nil
  then show ?case by (simp add: run.simps [of wr] unshift_def)
next
  case (Cons d ds)
  let ?wr = "wr\<lparr>w_queue := ds, w_fd := (w_fd wr)\<lparr>f_data := f_data (w_fd wr) @ d\<rparr>\<rparr>"
  have u: "unshift wr = (Some d, wr\<lparr>w_queue := ds\<rparr>)" by (simp add: unshift_def Cons.hyps(2) [symmetric])
  have w: "writeWal d (wr\<lparr>w_queue := ds\<rparr>) = (Ok (length d), ?wr)"
    using Cons.prems by (simp add: writeWal_def orPanic_def on_fd_def AppendWrite_ok)
  obtain ns where "run ?wr = (Ok ns, ?wr\<lparr>w_queue := [], w_running := False,
      w_fd := (w_fd ?wr)\<lparr>f_data := f_data (w_fd ?wr) @ concat (w_queue ?wr)\<rparr>\<rparr>)"
    using Cons.hyps(1) [of ?wr] Cons.prems by auto
  then show ?case using u w Cons.hyps(2) by (simp add: run.simps [of wr] flip: Cons.hyps(2))
qed

section \<open>Sizes and positions\<close>

definition pos :: "WalWriter \<Rightarrow> nat" where
  "pos wr = unat (w_maxPage wr) * 8192 + unat (w_maxOffset wr)"

definition in_page :: "WalWriter \<Rightarrow> bool" where
  "in_page wr \<longleftrightarrow> 8 < unat (w_maxOffset wr) \<and> unat (w_maxOffset wr) < 8192"

text \<open>The bytes a record of size \<open>sz\<close> takes at offset \<open>off\<close> of a page: one page header more when it
  reaches the end of the page.\<close>

definition grow :: "nat \<Rightarrow> nat \<Rightarrow> nat" where
  "grow off sz = (if off + sz < 8192 then sz else sz + 8)"

lemma checkLogOverflow_bytes:
  assumes "8 < unat off" "unat off < 8192" "length data \<le> 8184"
  shows "\<exists>bs. checkLogOverflow data page off = Ok bs \<and> length bs = grow (unat off) (length data)
     \<and> take (8192 - unat off) bs = take (8192 - unat off) data"
proof (cases "unat off + length data < 8192")
  case True
  with assms show ?thesis by (simp add: checkLogOverflow_def grow_def)
next
  case False
  have "off div 8192 = 0" using assms(2) by (simp add: word_unat_eq_iff unat_div_distrib)
  moreover have "unat (8192 - off) = 8192 - unat off"
    using assms(2) by (subst unat_sub) (simp_all add: word_le_nat_alt)
  ultimately show ?thesis using False assms
    by (simp add: checkLogOverflow_def grow_def Let_def WALPageHeader_toBytes_def)
qed

lemma assignLSN_next:
  assumes o: "unat (w_maxOffset wr) < 8192" and sz: "unat sz \<le> 8184" and pg: "w_maxPage wr \<noteq> -1"
    and a: "assignLSN sz wr = (lsn, wr')"
  shows "lsn = le32 (w_maxPage wr) @ le32 (w_maxOffset wr) @ le32 sz"
    "w_fd wr' = w_fd wr" "w_confFD wr' = w_confFD wr" "w_queue wr' = w_queue wr"
    "if unat (w_maxOffset wr) + unat sz < 8192
     then unat (w_maxOffset wr') = unat (w_maxOffset wr) + unat sz \<and> w_maxPage wr' = w_maxPage wr
     else unat (w_maxOffset wr') = unat (w_maxOffset wr) + unat sz - 8192 + 8
       \<and> unat (w_maxPage wr') = unat (w_maxPage wr) + 1"
proof -
  let ?o = "w_maxOffset wr"
  have s: "unat (?o + sz) = unat ?o + unat sz"
    using o sz by (subst unat_add_lem [THEN iffD1]) simp_all
  show "lsn = le32 (w_maxPage wr) @ le32 ?o @ le32 sz" "w_fd wr' = w_fd wr" "w_confFD wr' = w_confFD wr"
    "w_queue wr' = w_queue wr"
    using a by (auto simp: assignLSN_def Let_def split: if_splits)
  show "if unat ?o + unat sz < 8192
     then unat (w_maxOffset wr') = unat ?o + unat sz \<and> w_maxPage wr' = w_maxPage wr
     else unat (w_maxOffset wr') = unat ?o + unat sz - 8192 + 8 \<and> unat (w_maxPage wr') = unat (w_maxPage wr) + 1"
  proof (cases "unat ?o + unat sz < 8192")
    case True
    then have "\<not> 8192 \<le> ?o + sz" using s by (simp add: word_le_nat_alt)
    with a s True show ?thesis by (auto simp: assignLSN_def Let_def)
  next
    case False
    then have le: "8192 \<le> ?o + sz" using s by (simp add: word_le_nat_alt)
    have d: "unat (?o + sz - 8192) = unat ?o + unat sz - 8192" using le s by (subst unat_sub) simp_all
    then have "unat (?o + sz - 8192) < 16384" using o sz by linarith
    then have "unat (?o + sz - 8192 + 8) = unat (?o + sz - 8192) + 8"
      by (subst unat_add_lem [THEN iffD1]) simp_all
    moreover have "unat (w_maxPage wr + 1) = unat (w_maxPage wr) + 1"
      using pg unatSuc [of "w_maxPage wr"] by (simp add: eq_neg_iff_add_eq_0 add.commute)
    ultimately show ?thesis using a le d False by (auto simp: assignLSN_def Let_def)
  qed
qed

text \<open>A writer at offset 8 is where a record that ended exactly at a page end leaves it: the page header is written already, but
  \<^const>\<open>checkLogOverflow\<close> writes it again in front of a record that stays in the page. \<open>extra\<close> counts such records.\<close>

definition at_page :: "WalWriter \<Rightarrow> bool" where
  "at_page wr \<longleftrightarrow> 8 \<le> unat (w_maxOffset wr) \<and> unat (w_maxOffset wr) < 8192"

definition extra :: "nat \<Rightarrow> WAL \<Rightarrow> nat" where
  "extra sz w = (if unat (w_maxOffset (walWriter w)) = 8 \<and> 8 + sz < 8192 then 1 else 0)"

lemma in_page_at [simp]: "in_page wr \<Longrightarrow> at_page wr"
  by (simp add: in_page_def at_page_def)

lemma extra_in_page [simp]: "in_page (walWriter w) \<Longrightarrow> extra sz w = 0"
  by (simp add: in_page_def extra_def)

lemma checkLogOverflow_size:
  assumes "at_page (walWriter w)" "length data \<le> 8184"
  shows "\<exists>bs. checkLogOverflow data page (w_maxOffset (walWriter w)) = Ok bs
     \<and> length bs = grow (unat (w_maxOffset (walWriter w))) (length data) + 8 * extra (length data) w"
proof (cases "unat (w_maxOffset (walWriter w)) = 8 \<and> 8 + length data < 8192")
  case True
  then show ?thesis by (simp add: checkLogOverflow_def grow_def extra_def WALPageHeader_toBytes_def)
next
  case False
  let ?o = "w_maxOffset (walWriter w)"
  consider "8 < unat ?o" | "unat ?o = 8" "length data = 8184" using assms False by (force simp: at_page_def)
  then show ?thesis
  proof cases
    case 1
    then show ?thesis using checkLogOverflow_bytes [of ?o data page] assms by (auto simp: at_page_def extra_def)
  next
    case 2
    then have "?o = 8" by (simp add: word_unat_eq_iff)
    then show ?thesis using 2 by (simp add: checkLogOverflow_def grow_def extra_def Let_def WALPageHeader_toBytes_def)
  qed
qed

lemma assignLSN_pos:
  assumes ip: "at_page wr" and sz: "unat sz \<le> 8184" and pg: "w_maxPage wr \<noteq> -1"
    and a: "assignLSN sz wr = (lsn, wr')"
  shows "pos wr' = pos wr + grow (unat (w_maxOffset wr)) (unat sz)" "at_page wr'"
    "in_page wr \<Longrightarrow> unat (w_maxOffset wr) + unat sz \<noteq> 8192 \<Longrightarrow> in_page wr'"
proof -
  have "unat (w_maxOffset wr) < 8192" using ip by (simp add: at_page_def)
  from assignLSN_next(5) [OF this sz pg a]
  show "pos wr' = pos wr + grow (unat (w_maxOffset wr)) (unat sz)" "at_page wr'"
    "in_page wr \<Longrightarrow> unat (w_maxOffset wr) + unat sz \<noteq> 8192 \<Longrightarrow> in_page wr'"
    using ip sz unfolding pos_def grow_def in_page_def at_page_def by (auto split: if_splits)
qed

section \<open>The invariant\<close>

text \<open>The file with the buffered records appended is eight bytes longer than the position counters say for each of \<open>d\<close> doubled page headers.\<close>

definition wal_drift :: "nat \<Rightarrow> WAL \<Rightarrow> bool" where
  "wal_drift d w \<longleftrightarrow> at_page (walWriter w) \<and> f_err (w_fd (walWriter w)) = None \<and> w_queue (walWriter w) = []
     \<and> (\<exists>bs. nodes_bytes (walBuff w) = Ok bs
            \<and> length (f_data (w_fd (walWriter w))) + length bs = pos (walWriter w) + 8 * d)"

text \<open>No header is doubled, and the next will not be.\<close>

definition wal_inv :: "WAL \<Rightarrow> bool" where
  "wal_inv w \<longleftrightarrow> in_page (walWriter w) \<and> f_err (w_fd (walWriter w)) = None \<and> w_queue (walWriter w) = []
     \<and> (\<exists>bs. nodes_bytes (walBuff w) = Ok bs
            \<and> length (f_data (w_fd (walWriter w))) + length bs = pos (walWriter w))"

lemma wal_inv_drift: "wal_inv w \<longleftrightarrow> in_page (walWriter w) \<and> wal_drift 0 w"
  by (auto simp: wal_inv_def wal_drift_def)

text \<open>A record of size \<open>sz\<close> may be added: it is at most a page less its header, and the page counter does not wrap.\<close>

definition fits :: "nat \<Rightarrow> WAL \<Rightarrow> bool" where
  "fits sz w \<longleftrightarrow> sz \<le> 8184 \<and> w_maxPage (walWriter w) \<noteq> -1"

lemma nodes_bytes_append:
  "nodes_bytes xs = Ok a \<Longrightarrow> node_toBytes n = Ok b \<Longrightarrow> nodes_bytes (xs @ [n]) = Ok (a @ b)"
proof (induction xs arbitrary: a)
  case (Cons x xs)
  then show ?case by (cases "node_toBytes x"; cases "nodes_bytes xs") auto
qed simp

lemma length_BLogHeader [simp]: "length (BLogHeader_toBytes h) = 25"
  by (simp add: BLogHeader_toBytes_def)

lemma BLogHeader_lsn:
  assumes "h_lsn h = le32 p @ le32 off @ le32 sz"
  shows "of_le32 (slice 1 5 (BLogHeader_toBytes h)) = p" "of_le32 (slice 5 9 (BLogHeader_toBytes h)) = off"
    "of_le32 (slice 13 17 (BLogHeader_toBytes h)) = h_lSize h" "BLogHeader_toBytes h ! 0 = h_flag h"
  using assms by (simp_all add: BLogHeader_toBytes_def slice_def)

text \<open>Adding a record that was given the LSN of the current position.\<close>

lemma add_record:
  assumes inv: "wal_drift d w" and fit: "fits (unat sz) w" and a: "assign sz w = (lsn, w')"
    and n: "\<And>p off. lsn = le32 p @ le32 off @ le32 sz \<Longrightarrow>
        \<exists>data. node_toBytes n = checkLogOverflow data p off \<and> length data = unat sz"
  shows "wal_drift (d + extra (unat sz) w) (w'\<lparr>walBuff := WALBuffer_Add n (walBuff w')\<rparr>)"
    "unat (lsn_page lsn) * 8192 + unat (lsn_off lsn) = pos (walWriter w)"
proof -
  obtain wr' where wr': "assignLSN sz (walWriter w) = (lsn, wr')" "w' = w\<lparr>walWriter := wr'\<rparr>"
    using a by (auto simp: assign_def split: prod.splits)
  have ip: "at_page (walWriter w)" using inv by (simp add: wal_drift_def)
  have F: "unat sz \<le> 8184" "w_maxPage (walWriter w) \<noteq> -1" using fit by (simp_all add: fits_def)
  have "unat (w_maxOffset (walWriter w)) < 8192" using ip by (simp add: at_page_def)
  note P = assignLSN_pos [OF ip F wr'(1)] and A = assignLSN_next [OF this F(1,2) wr'(1)]
  obtain data where d: "node_toBytes n = checkLogOverflow data (w_maxPage (walWriter w)) (w_maxOffset (walWriter w))"
    "length data = unat sz" using n A(1) by blast
  obtain bs where b: "node_toBytes n = Ok bs" "length bs = grow (unat (w_maxOffset (walWriter w))) (unat sz) + 8 * extra (unat sz) w"
    using checkLogOverflow_size [OF ip, of data] F(1) d by auto
  from inv obtain old where "nodes_bytes (walBuff w) = Ok old"
    "length (f_data (w_fd (walWriter w))) + length old = pos (walWriter w) + 8 * d" by (auto simp: wal_drift_def)
  then have "nodes_bytes (walBuff w @ [n]) = Ok (old @ bs)"
    "length (f_data (w_fd wr')) + length (old @ bs) = pos wr' + 8 * (d + extra (unat sz) w)"
    using nodes_bytes_append b P(1) A(2) by simp_all
  then show "wal_drift (d + extra (unat sz) w) (w'\<lparr>walBuff := WALBuffer_Add n (walBuff w')\<rparr>)"
    using inv P(2) A(2,4) wr'(2) by (simp add: wal_drift_def WALBuffer_Add_def)
  show "unat (lsn_page lsn) * 8192 + unat (lsn_off lsn) = pos (walWriter w)"
    using A(1) by (simp add: lsn_page_def lsn_off_def pos_def)
qed

lemma unat_size: "n \<le> 8184 \<Longrightarrow> unat (word_of_nat n :: u32) = n"
  by (simp add: unsigned_of_nat take_bit_nat_eq_self)

lemma size_pos: "0 < n \<Longrightarrow> n < 2 ^ 32 \<Longrightarrow> 0 < (word_of_nat n :: u32)"
  by (simp add: word_less_nat_alt unsigned_of_nat take_bit_nat_eq_self)

lemma BLog_record:
  assumes "h_lsn h = le32 p @ le32 off @ le32 s"
  shows "node_toBytes (LogNode \<lparr>b_header = Some h, b_opType = t, b_keySize = ks, b_key = k, b_valSize = vs, b_val = v\<rparr>)
     = checkLogOverflow (BLog_body \<lparr>b_header = Some h, b_opType = t, b_keySize = ks, b_key = k, b_valSize = vs, b_val = v\<rparr> h) p off"
  using BLogHeader_lsn [OF assms] by (simp add: BLog_toBytes_def Let_def)

lemma AddPutLog_drift:
  assumes "wal_drift d w" "key \<noteq> []" "val \<noteq> []" "fits (34 + length key + length val) w"
    and a: "AddPutLog pid key val w = (Ok lsn, w')"
  shows "wal_drift (d + extra (34 + length key + length val) w) w'" "unat (lsn_page lsn) * 8192 + unat (lsn_off lsn) = pos (walWriter w)"
proof -
  let ?sz = "34 + length key + length val"
  obtain w1 where w1: "assign (word_of_nat ?sz) w = (lsn, w1)"
    using a assms(2,3) by (auto simp: AddPutLog_def Let_def split: prod.splits)
  let ?h = "\<lparr>h_flag = 0, h_lsn = lsn, h_pageId = pid, h_crc = 0, h_lSize = word_of_nat ?sz\<rparr>"
  let ?b = "\<lparr>b_header = Some ?h, b_opType = PUT, b_keySize = word_of_nat (length key), b_key = key,
     b_valSize = word_of_nat (length val), b_val = val\<rparr>"
  have w': "w' = w1\<lparr>walBuff := WALBuffer_Add (LogNode ?b) (walBuff w1)\<rparr>"
    using a assms(2,3) w1 by (auto simp: AddPutLog_def Let_def split: prod.splits)
  have sz: "?sz \<le> 8184" using assms(4) by (simp add: fits_def)
  have v: "0 < (word_of_nat (length val) :: u32)" using assms(3) sz by (intro size_pos) auto
  have "\<exists>data. node_toBytes (LogNode ?b) = checkLogOverflow data p off \<and> length data = ?sz"
    if "lsn = le32 p @ le32 off @ le32 (word_of_nat ?sz)" for p off
    using BLog_record [of ?h p off "word_of_nat ?sz" PUT "word_of_nat (length key)" key "word_of_nat (length val)" val] that v
    by (intro exI [of _ "BLog_body ?b ?h"]) (simp add: BLog_body_def)
  from add_record [OF assms(1) _ w1, of "LogNode ?b"] this unat_size [OF sz] assms(4) w'
  show "wal_drift (d + extra (34 + length key + length val) w) w'" "unat (lsn_page lsn) * 8192 + unat (lsn_off lsn) = pos (walWriter w)" by simp_all
qed

lemma AddDelLog_drift:
  assumes "wal_drift d w" "key \<noteq> []" "fits (30 + length key) w"
    and a: "AddDelLog pid key w = (Ok lsn, w')"
  shows "wal_drift (d + extra (30 + length key) w) w'" "unat (lsn_page lsn) * 8192 + unat (lsn_off lsn) = pos (walWriter w)"
proof -
  let ?sz = "30 + length key"
  obtain w1 where w1: "assign (word_of_nat ?sz) w = (lsn, w1)"
    using a assms(2) by (auto simp: AddDelLog_def Let_def split: prod.splits)
  let ?h = "\<lparr>h_flag = 0, h_lsn = lsn, h_pageId = pid, h_crc = 0, h_lSize = word_of_nat ?sz\<rparr>"
  let ?b = "\<lparr>b_header = Some ?h, b_opType = DEL, b_keySize = word_of_nat (length key), b_key = key,
     b_valSize = 0, b_val = []\<rparr>"
  have w': "w' = w1\<lparr>walBuff := WALBuffer_Add (LogNode ?b) (walBuff w1)\<rparr>"
    using a assms(2) w1 by (auto simp: AddDelLog_def Let_def split: prod.splits)
  have sz: "?sz \<le> 8184" using assms(3) by (simp add: fits_def)
  have "\<exists>data. node_toBytes (LogNode ?b) = checkLogOverflow data p off \<and> length data = ?sz"
    if "lsn = le32 p @ le32 off @ le32 (word_of_nat ?sz)" for p off
    using BLog_record [of ?h p off "word_of_nat ?sz" DEL "word_of_nat (length key)" key 0 "[]"] that
    by (intro exI [of _ "BLog_body ?b ?h"]) (simp add: BLog_body_def)
  from add_record [OF assms(1) _ w1, of "LogNode ?b"] this unat_size [OF sz] assms(3) w'
  show "wal_drift (d + extra (30 + length key) w) w'" "unat (lsn_page lsn) * 8192 + unat (lsn_off lsn) = pos (walWriter w)" by simp_all
qed


lemma AddCheckpoint_drift:
  assumes inv: "wal_drift d w" and fit: "fits 17 w" and conf: "w_confFD (walWriter w) = Some c" "f_err c = None"
    and l: "length latest = 12"
  shows "\<exists>w'. AddCheckpoint latest w = (Ok (), w') \<and> wal_drift (d + extra 17 w) w'
     \<and> (\<exists>c'. w_confFD (walWriter w') = Some c' \<and> f_err c' = None \<and> f_durable c' = f_data c'
          \<and> length (f_data c') = 12
          \<and> unat (lsn_page (f_data c')) * 8192 + unat (lsn_off (f_data c')) = pos (walWriter w))"
proof -
  obtain lsn w1 where w1: "assign 17 w = (lsn, w1)" by fastforce
  let ?redo = "of_le32 (take 4 latest) * 8192 + of_le32 (drop 4 latest) + of_le32 (slice 8 12 latest)"
  let ?cp = "\<lparr>c_flag = 0x80, c_redoPoint = ?redo, c_checkpointLSN = lsn\<rparr>"
  let ?w2 = "w1\<lparr>walBuff := WALBuffer_Add (CheckNode ?cp) (walBuff w1)\<rparr>"
  have "\<exists>data. node_toBytes (CheckNode ?cp) = checkLogOverflow data p off \<and> length data = 17"
    if "lsn = le32 p @ le32 off @ le32 17" for p off
    using that by (intro exI [of _ "[0x80] @ le32 ?redo @ lsn"]) (simp add: CheckPoint_toBytes_def)
  with add_record [OF inv _ w1, of "CheckNode ?cp"] fit have I: "wal_drift (d + extra 17 w) ?w2"
    "unat (lsn_page lsn) * 8192 + unat (lsn_off lsn) = pos (walWriter w)" by simp_all
  have len: "length lsn = 12" and cf: "w_confFD (walWriter w1) = Some c"
    using w1 conf(1) by (auto simp: assign_def assignLSN_def Let_def split: prod.splits if_splits)
  let ?c = "c\<lparr>f_data := lsn, f_durable := lsn\<rparr>"
  have "saveCheckpoint lsn (walWriter ?w2) = (Ok (), (walWriter ?w2)\<lparr>w_confFD := Some ?c\<rparr>)"
    using cf conf(2) by (simp add: saveCheckpoint_def bindS_def orPanic_def file_simps write_at_def)
  then have "AddCheckpoint latest w = (Ok (), ?w2\<lparr>walWriter := (walWriter ?w2)\<lparr>w_confFD := Some ?c\<rparr>\<rparr>)"
    using l w1 by (simp add: AddCheckpoint_def Let_def orPanic_def)
  moreover have "wal_drift (d + extra 17 w) (?w2\<lparr>walWriter := (walWriter ?w2)\<lparr>w_confFD := Some ?c\<rparr>\<rparr>)"
    using I(1) by (simp add: wal_drift_def at_page_def pos_def)
  ultimately show ?thesis using I(2) len conf(2) by simp
qed

text \<open>Flushing: the buffered records are appended to the file and the buffer is empty.\<close>

lemma BLogWrite_drift:
  assumes "wal_drift d w"
  shows "\<exists>w' bs. BLogWrite w = (Ok (), w') \<and> wal_drift d w' \<and> walBuff w' = [] \<and> nodes_bytes (walBuff w) = Ok bs
     \<and> f_data (w_fd (walWriter w')) = f_data (w_fd (walWriter w)) @ bs
     \<and> w_maxPage (walWriter w') = w_maxPage (walWriter w) \<and> w_maxOffset (walWriter w') = w_maxOffset (walWriter w)"
proof -
  from assms obtain bs where b: "nodes_bytes (walBuff w) = Ok bs"
    "length (f_data (w_fd (walWriter w))) + length bs = pos (walWriter w) + 8 * d" by (auto simp: wal_drift_def)
  have fe: "f_err (w_fd (walWriter w)) = None" "w_queue (walWriter w) = []" using assms by (auto simp: wal_drift_def)
  show ?thesis
  proof (cases "walBuff w = []")
    case True
    then show ?thesis using b assms by (intro exI [of _ w]) (simp add: BLogWrite_def flushWal_def)
  next
    case False
    let ?wr = "AddJob bs (walWriter w)"
    let ?wr' = "(walWriter w)\<lparr>w_queue := [], w_running := False,
      w_fd := (w_fd (walWriter w))\<lparr>f_data := f_data (w_fd (walWriter w)) @ bs\<rparr>\<rparr>"
    obtain ns where "run ?wr = (Ok ns, ?wr')" using run_appends [of ?wr] fe by (auto simp: AddJob_def)
    then have "BLogWrite w = (Ok (), w\<lparr>walBuff := [], walWriter := ?wr'\<rparr>)"
      using False b(1) by (simp add: BLogWrite_def flushWal_def)
    moreover have "wal_drift d (w\<lparr>walBuff := [], walWriter := ?wr'\<rparr>)"
      using assms b(2) by (simp add: wal_drift_def at_page_def pos_def)
    ultimately show ?thesis using b(1) by (simp add: pos_def)
  qed
qed

lemma AddPutLog_inv:
  assumes "wal_inv w" "key \<noteq> []" "val \<noteq> []" "fits (34 + length key + length val) w" "AddPutLog pid key val w = (Ok lsn, w')"
  shows "wal_drift 0 w'" "unat (lsn_page lsn) * 8192 + unat (lsn_off lsn) = pos (walWriter w)"
  using AddPutLog_drift [OF _ assms(2-5), of 0] assms(1) by (simp_all add: wal_inv_drift)

section \<open>The log as a state machine\<close>

text \<open>What the database does to its log: records of at most 8184 bytes and checkpoints are added while the page counter does not wrap,
  and the buffer is written out, in any order. The number counts the records that got a page header that was there already.\<close>

inductive wal_run :: "WAL \<Rightarrow> nat \<Rightarrow> WAL \<Rightarrow> bool" where
  nil: "wal_run w 0 w"
| put: "\<lbrakk>wal_run w0 d w; AddPutLog pid key val w = (Ok lsn, w'); key \<noteq> []; val \<noteq> [];
         fits (34 + length key + length val) w\<rbrakk> \<Longrightarrow> wal_run w0 (d + extra (34 + length key + length val) w) w'"
| del: "\<lbrakk>wal_run w0 d w; AddDelLog pid key w = (Ok lsn, w'); key \<noteq> []; fits (30 + length key) w\<rbrakk>
         \<Longrightarrow> wal_run w0 (d + extra (30 + length key) w) w'"
| checkpoint: "\<lbrakk>wal_run w0 d w; AddCheckpoint latest w = (Ok (), w'); fits 17 w; length latest = 12;
         w_confFD (walWriter w) = Some c; f_err c = None\<rbrakk> \<Longrightarrow> wal_run w0 (d + extra 17 w) w'"
| flush: "wal_run w0 d w \<Longrightarrow> BLogWrite w = (Ok (), w') \<Longrightarrow> wal_run w0 d w'"

lemma wal_run_drift: "wal_run w d w' \<Longrightarrow> wal_drift 0 w \<Longrightarrow> wal_drift d w'"
proof (induction rule: wal_run.induct)
  case (put w0 d w pid key val lsn w')
  then show ?case using AddPutLog_drift(1) by blast
next
  case (del w0 d w pid key lsn w')
  then show ?case using AddDelLog_drift(1) by blast
next
  case (checkpoint w0 d w latest w' c)
  then show ?case using AddCheckpoint_drift [of d w c latest] by auto
next
  case (flush w0 d w w')
  then show ?case using BLogWrite_drift [of d w] by auto
qed simp

text \<open>Rounds of the background writer are steps of the log; one round empties the buffer.\<close>

lemma walBgWriter_steps:
  "wal_run w0 d w \<Longrightarrow> wal_drift d w \<Longrightarrow> \<exists>w'. walBgWriter n w = (Ok (), w') \<and> wal_run w0 d w' \<and> (0 < n \<longrightarrow> walBuff w' = [])"
proof (induction n arbitrary: w)
  case (Suc n)
  obtain w1 where f: "BLogWrite w = (Ok (), w1)" "wal_drift d w1" "walBuff w1 = []"
    using BLogWrite_drift[OF Suc.prems(2)] by blast
  obtain w' where i: "walBgWriter n w1 = (Ok (), w')" "wal_run w0 d w'" "0 < n \<longrightarrow> walBuff w' = []"
    using Suc.IH[OF wal_run.flush[OF Suc.prems(1) f(1)] f(2)] by blast
  have "n = 0 \<Longrightarrow> w' = w1" using i(1) by simp
  then have "walBuff w' = []" using i(3) f(3) by (cases "n = 0") auto
  then show ?case using f i by (auto simp: bindS_def)
qed simp

text \<open>Opening: a new log holds its first checkpoint, an existing one continues at its end.\<close>

lemma NewWal_new:
  assumes "f_data f = []" "f_err f = None" "f_err c = None"
  shows "\<exists>w. NewWal f c = Ok w \<and> wal_inv w \<and> length (f_data (w_fd (walWriter w))) = 25
     \<and> (\<exists>c'. w_confFD (walWriter w) = Some c' \<and> f_data c' = first_lsn \<and> f_durable c' = first_lsn \<and> f_err c' = None)"
proof -
  let ?cp = "\<lparr>c_flag = 0x80, c_redoPoint = 8, c_checkpointLSN = first_lsn\<rparr>"
  obtain data where d: "CheckPoint_toBytes ?cp = Ok data" "length data = 25"
    by (simp add: CheckPoint_toBytes_def checkLogOverflow_def first_lsn_def WALPageHeader_toBytes_def Let_def)
  show ?thesis
    using assms d
    by (simp add: NewWal_def NewWalWriter_def loadMaxLSN_def initializeWriter_def orPanic_def bindS_def liftR_def
        on_fd_def saveCheckpoint_def file_simps write_at_def wal_inv_def in_page_def pos_def)
qed

lemma NewWal_existing:
  assumes "f_data f \<noteq> []" "f_err f = None" "length (f_data f) < 2 ^ 45"
    and "8 < length (f_data f) mod 8192"
  shows "\<exists>w. NewWal f c = Ok w \<and> wal_inv w \<and> w_fd (walWriter w) = f \<and> w_confFD (walWriter w) = Some c"
proof -
  let ?n = "length (f_data f)"
  have "unat (word_of_nat (?n div 8192) :: u32) = ?n div 8192"
    using assms(3) by (simp add: unsigned_of_nat take_bit_nat_eq_self less_mult_imp_div_less)
  moreover have "unat (word_of_nat (?n - 8192 * (?n div 8192)) :: u32) = ?n mod 8192"
    by (simp add: unsigned_of_nat take_bit_nat_eq_self minus_mult_div_eq_mod)
  ultimately show ?thesis
    using assms
    by (simp add: NewWal_def NewWalWriter_def loadMaxLSN_def calculatePageAndOffset_def Let_def initializeWriter_def
        orPanic_def wal_inv_def in_page_def pos_def)
qed


section \<open>The order of LSNs\<close>

text \<open>The LSNs of a run of assignments.\<close>

fun assign_all :: "u32 list \<Rightarrow> WalWriter \<Rightarrow> bytes list" where
  "assign_all [] wr = []"
| "assign_all (s # ss) wr = (case assignLSN s wr of (lsn, wr') \<Rightarrow> lsn # assign_all ss wr')"

lemma GreaterLSN_pos:
  assumes "8 \<le> length a" "8 \<le> length b" "unat (lsn_off a) < 8192" "unat (lsn_off b) < 8192"
  shows "GreaterLSN a b = Ok (unat (lsn_page b) * 8192 + unat (lsn_off b) < unat (lsn_page a) * 8192 + unat (lsn_off a))"
  using assms by (auto simp: GreaterLSN_def Let_def word_less_nat_alt word_unat_eq_iff)

text \<open>No assignment lets the page counter wrap while the pages are below \<open>n\<close> assignments of the end.\<close>

lemma assign_all_lsns:
  "\<lbrakk>in_page wr \<or> unat (w_maxOffset wr) = 8; \<forall>s\<in>set ss. 0 < unat s \<and> unat s \<le> 8184;
    unat (w_maxPage wr) + length ss < 2 ^ 32\<rbrakk> \<Longrightarrow>
   sorted_wrt (\<lambda>a b. GreaterLSN b a = Ok True) (assign_all ss wr)
   \<and> (\<forall>l\<in>set (assign_all ss wr). length l = 12 \<and> unat (lsn_off l) < 8192
        \<and> pos wr \<le> unat (lsn_page l) * 8192 + unat (lsn_off l))"
proof (induction ss arbitrary: wr)
  case (Cons s ss)
  let ?o = "w_maxOffset wr"
  have o: "8 \<le> unat ?o" "unat ?o < 8192" using Cons.prems(1) by (auto simp: in_page_def)
  have s: "0 < unat s" "unat s \<le> 8184" using Cons.prems(2) by auto
  obtain lsn wr' where a: "assignLSN s wr = (lsn, wr')" by fastforce
  have "unat (w_maxPage wr) + 1 < 2 ^ 32" using Cons.prems(3) by simp
  then have "w_maxPage wr \<noteq> -1" by (auto simp: unsigned_minus_1_eq_mask mask_eq_exp_minus_1)
  note A = assignLSN_next [OF o(2) s(2) this a]
  note lsn = A(1)
  have nx: "in_page wr' \<or> unat (w_maxOffset wr') = 8" "unat (w_maxPage wr') \<le> unat (w_maxPage wr) + 1"
    "pos wr < pos wr'"
    using A(5) o s unfolding in_page_def pos_def by (auto split: if_splits)
  have IH: "sorted_wrt (\<lambda>a b. GreaterLSN b a = Ok True) (assign_all ss wr')"
    "\<forall>l\<in>set (assign_all ss wr'). length l = 12 \<and> unat (lsn_off l) < 8192
        \<and> pos wr' \<le> unat (lsn_page l) * 8192 + unat (lsn_off l)"
    using Cons.IH [OF nx(1)] Cons.prems nx(2) by auto
  have "lsn_page lsn = w_maxPage wr" "lsn_off lsn = ?o" "length lsn = 12"
    unfolding lsn by (simp_all add: lsn_page_def lsn_off_def)
  then have "GreaterLSN l lsn = Ok True" if "l \<in> set (assign_all ss wr')" for l
    using that IH(2) nx(3) o GreaterLSN_pos [of l lsn] by (fastforce simp: pos_def)
  then show ?case
    using IH nx(3) a o \<open>lsn_page lsn = _\<close> \<open>lsn_off lsn = _\<close> \<open>length lsn = 12\<close> by (auto simp: pos_def)
qed simp

section \<open>Reading back\<close>

lemma AddPutLog_total: "key \<noteq> [] \<Longrightarrow> val \<noteq> [] \<Longrightarrow> \<exists>lsn w'. AddPutLog pid key val w = (Ok lsn, w')"
  by (auto simp: AddPutLog_def Let_def split: prod.splits)

lemma AddPutLog_form:
  assumes ne: "key \<noteq> []" "val \<noteq> []" and a: "AddPutLog pid key val w = (Ok lsn, w1)"
    and sm: "34 + length key + length val < 2 ^ 32"
  shows "\<exists>h b rest. lsn = le32 (w_maxPage (walWriter w)) @ le32 (w_maxOffset (walWriter w)) @ le32 (word_of_nat (34 + length key + length val))
     \<and> h_lsn h = lsn \<and> h_flag h = 0 \<and> h_lSize h = word_of_nat (34 + length key + length val)
     \<and> walBuff w1 = walBuff w @ [LogNode b] \<and> w_fd (walWriter w1) = w_fd (walWriter w)
     \<and> assignLSN (word_of_nat (34 + length key + length val)) (walWriter w) = (lsn, walWriter w1)
     \<and> node_toBytes (LogNode b) = checkLogOverflow (BLogHeader_toBytes h @ rest) (w_maxPage (walWriter w)) (w_maxOffset (walWriter w))
     \<and> length rest = 9 + length key + length val"
proof -
  let ?sz = "34 + length key + length val"
  let ?l = "le32 (w_maxPage (walWriter w)) @ le32 (w_maxOffset (walWriter w)) @ le32 (word_of_nat ?sz)"
  let ?h = "\<lparr>h_flag = 0, h_lsn = ?l, h_pageId = pid, h_crc = 0, h_lSize = word_of_nat ?sz\<rparr>"
  let ?b = "\<lparr>b_header = Some ?h, b_opType = PUT, b_keySize = word_of_nat (length key), b_key = key,
     b_valSize = word_of_nat (length val), b_val = val\<rparr>"
  let ?rest = "[op_byte PUT] @ le32 (word_of_nat (length key)) @ key @ le32 (word_of_nat (length val)) @ val"
  have v: "0 < (word_of_nat (length val) :: u32)" using ne(2) sm by (intro size_pos) auto
  have "lsn = ?l" "walBuff w1 = walBuff w @ [LogNode ?b]" "w_fd (walWriter w1) = w_fd (walWriter w)"
    "assignLSN (word_of_nat ?sz) (walWriter w) = (lsn, walWriter w1)"
    using a ne by (auto simp: AddPutLog_def assign_def assignLSN_def WALBuffer_Add_def Let_def split: prod.splits if_splits)
  moreover have "node_toBytes (LogNode ?b) = checkLogOverflow (BLogHeader_toBytes ?h @ ?rest) (w_maxPage (walWriter w)) (w_maxOffset (walWriter w))"
    using BLog_record [of ?h _ _ _ PUT "word_of_nat (length key)" key "word_of_nat (length val)" val] v
    by (simp add: BLog_body_def)
  ultimately show ?thesis by (intro exI [of _ ?h] exI [of _ ?b] exI [of _ ?rest]) simp
qed

text \<open>After a flush the header of a record stands in the file at the position its LSN names, up to the end of the page.\<close>

lemma flushed_record:
  assumes inv: "wal_inv w" and ne: "key \<noteq> []" "val \<noteq> []" and fit: "fits (34 + length key + length val) w"
    and a: "AddPutLog pid key val w = (Ok lsn, w1)" and b: "BLogWrite w1 = (Ok (), w2)"
    and hd: "unat (w_maxOffset (walWriter w)) + 17 \<le> 8192"
  shows "\<exists>h. lsn = le32 (w_maxPage (walWriter w)) @ le32 (w_maxOffset (walWriter w)) @ le32 (h_lSize h)
     \<and> h_lsn h = lsn \<and> h_flag h = 0 \<and> h_lSize h = word_of_nat (34 + length key + length val)
     \<and> take 17 (drop (pos (walWriter w)) (f_data (w_fd (walWriter w2)))) = take 17 (BLogHeader_toBytes h)
     \<and> pos (walWriter w) + 25 \<le> length (f_data (w_fd (walWriter w2)))
     \<and> f_err (w_fd (walWriter w2)) = None"
proof -
  let ?wr = "walWriter w"
  obtain h n rest where h: "lsn = le32 (w_maxPage ?wr) @ le32 (w_maxOffset ?wr) @ le32 (word_of_nat (34 + length key + length val))"
    "h_lsn h = lsn" "h_flag h = 0" "h_lSize h = word_of_nat (34 + length key + length val)"
    "walBuff w1 = walBuff w @ [LogNode n]" "w_fd (walWriter w1) = w_fd ?wr"
    "node_toBytes (LogNode n) = checkLogOverflow (BLogHeader_toBytes h @ rest) (w_maxPage ?wr) (w_maxOffset ?wr)"
    "length rest = 9 + length key + length val"
    using AddPutLog_form [OF ne a] fit unfolding fits_def by fastforce
  obtain bs where bs: "node_toBytes (LogNode n) = Ok bs" "25 \<le> length bs"
    "take (8192 - unat (w_maxOffset ?wr)) bs = take (8192 - unat (w_maxOffset ?wr)) (BLogHeader_toBytes h @ rest)"
    using checkLogOverflow_bytes [of "w_maxOffset ?wr" "BLogHeader_toBytes h @ rest" "w_maxPage ?wr"] h(7,8) inv fit
    by (auto simp: wal_inv_def in_page_def fits_def grow_def split: if_splits)
  have "take 17 bs = take 17 (take (8192 - unat (w_maxOffset ?wr)) bs)" using hd by simp
  also have "\<dots> = take 17 (BLogHeader_toBytes h)" unfolding bs(3) using hd by (simp add: min_absorb1)
  finally have t: "take 17 bs = take 17 (BLogHeader_toBytes h)" .
  obtain old where old: "nodes_bytes (walBuff w) = Ok old" "length (f_data (w_fd ?wr)) + length old = pos ?wr"
    using inv by (auto simp: wal_inv_def)
  have "wal_drift 0 w1" using AddPutLog_inv(1) [OF inv ne fit a] .
  from BLogWrite_drift [OF this] b nodes_bytes_append [OF old(1) bs(1)] h(5,6)
  have f: "f_data (w_fd (walWriter w2)) = (f_data (w_fd ?wr) @ old) @ bs" "f_err (w_fd (walWriter w2)) = None"
    by (auto simp: wal_drift_def)
  have len: "length (f_data (w_fd ?wr) @ old) = pos ?wr" using old(2) by simp
  have "drop (pos ?wr) (f_data (w_fd (walWriter w2))) = bs" unfolding f(1) len [symmetric] by simp
  moreover have "pos ?wr + 25 \<le> length (f_data (w_fd (walWriter w2)))"
    unfolding f(1) length_append [of "f_data (w_fd ?wr) @ old"] len using bs(2) by simp
  ultimately show ?thesis using h t f(2) by (intro exI [of _ h]) simp
qed

lemma getLogSize_put:
  assumes inv: "wal_inv w" and ne: "key \<noteq> []" "val \<noteq> []" and fit: "fits (34 + length key + length val) w"
    and a: "AddPutLog pid key val w = (Ok lsn, w1)" and b: "BLogWrite w1 = (Ok (), w2)"
    and hd: "unat (w_maxOffset (walWriter w)) + 17 \<le> 8192" and sm: "pos (walWriter w) < 2 ^ 32"
  shows "getLogSize (w_fd (walWriter w2)) lsn = Ok (word_of_nat (34 + length key + length val))"
proof -
  let ?wr = "walWriter w"
  obtain h where h: "lsn = le32 (w_maxPage ?wr) @ le32 (w_maxOffset ?wr) @ le32 (h_lSize h)" "h_lsn h = lsn"
     "h_flag h = 0" "h_lSize h = word_of_nat (34 + length key + length val)"
     "take 17 (drop (pos ?wr) (f_data (w_fd (walWriter w2)))) = take 17 (BLogHeader_toBytes h)"
     "pos ?wr + 25 \<le> length (f_data (w_fd (walWriter w2)))" "f_err (w_fd (walWriter w2)) = None"
    using flushed_record [OF inv ne fit a b hd] by blast
  have "unat (w_maxPage ?wr * 8192) = unat (w_maxPage ?wr) * 8192"
    using sm by (subst unat_mult_lem [THEN iffD1]) (simp_all add: pos_def)
  then have u: "unat (w_maxPage ?wr * 8192 + w_maxOffset ?wr) = pos ?wr"
    using sm by (subst unat_add_lem [THEN iffD1]) (simp_all add: pos_def)
  then have off: "unat (if w_maxPage ?wr > 0 then w_maxPage ?wr * 8192 + w_maxOffset ?wr else w_maxOffset ?wr) = pos ?wr"
    by (auto simp: pos_def word_gt_0 split: if_splits)
  have nm: "\<not> (8192 \<le> x mod (8192 :: u32))" for x
    by (simp add: word_mod_less_divisor not_le)
  let ?b = "take 25 (drop (pos ?wr) (f_data (w_fd (walWriter w2))))"
  have rd: "ReadAt (w_fd (walWriter w2)) 25 (pos ?wr) = (?b, None)" using h(6,7) by (simp add: ReadAt_ok)
  have t: "take 17 ?b = take 17 (BLogHeader_toBytes h)" using h(5) by (simp add: min_def)
  have sl: "slice 13 17 xs = drop 13 (take 17 xs)" for xs :: bytes by (simp add: slice_def drop_take)
  have "?b ! 0 = take 17 ?b ! 0" by (rule nth_take [symmetric]) simp
  also have "\<dots> = BLogHeader_toBytes h ! 0" unfolding t by (rule nth_take) simp
  finally have b0: "?b ! 0 = BLogHeader_toBytes h ! 0" .
  have b: "slice 13 17 ?b = slice 13 17 (BLogHeader_toBytes h)" unfolding sl t ..
  have "readLogHeader (w_fd (walWriter w2)) x = Ok (h_lSize h)" if "unat x = pos ?wr" for x
    using that nm BLogHeader_lsn [of h] h(1-3) rd b0 b by (simp add: readLogHeader_def Let_def BitIsSet_def)
  from this [OF off] show ?thesis
    using h(1,4) by (simp add: getLogSize_def Let_def cong: if_cong)
qed


section \<open>A record that ends at the end of a page\<close>

text \<open>The offset after such a record is 8, where \<^const>\<open>checkLogOverflow\<close> writes a page header although the
  record before it has written one.\<close>

lemma exact_fit_drift:
  assumes inv: "wal_inv w" and ne: "k1 \<noteq> []" "v1 \<noteq> []" "k2 \<noteq> []" "v2 \<noteq> []"
    and exact: "unat (w_maxOffset (walWriter w)) + (34 + length k1 + length v1) = 8192"
    and sm: "34 + length k2 + length v2 < 8184" and pg: "w_maxPage (walWriter w) \<noteq> -1" "w_maxPage (walWriter w) + 1 \<noteq> -1"
    and a1: "AddPutLog p1 k1 v1 w = (Ok l1, w1)" and a2: "AddPutLog p2 k2 v2 w1 = (Ok l2, w2)"
  shows "\<exists>bs. nodes_bytes (walBuff w2) = Ok bs
     \<and> length (f_data (w_fd (walWriter w2))) + length bs = pos (walWriter w2) + 8"
proof -
  let ?wr = "walWriter w" and ?wr1 = "walWriter w1"
  let ?s1 = "34 + length k1 + length v1" and ?s2 = "34 + length k2 + length v2"
  have o: "8 < unat (w_maxOffset ?wr)" "unat (w_maxOffset ?wr) < 8192" using inv by (auto simp: wal_inv_def in_page_def)
  have s: "?s1 \<le> 8184" "?s2 \<le> 8184" using exact o sm by linarith+
  obtain h1 n1 r1 where n1: "walBuff w1 = walBuff w @ [LogNode n1]" "w_fd ?wr1 = w_fd ?wr"
    "assignLSN (word_of_nat ?s1) ?wr = (l1, ?wr1)"
    "node_toBytes (LogNode n1) = checkLogOverflow (BLogHeader_toBytes h1 @ r1) (w_maxPage ?wr) (w_maxOffset ?wr)"
    "length r1 = 9 + length k1 + length v1"
    using AddPutLog_form [OF ne(1,2) a1] s(1) by fastforce
  obtain h2 n2 r2 where n2: "walBuff w2 = walBuff w1 @ [LogNode n2]" "w_fd (walWriter w2) = w_fd ?wr1"
    "assignLSN (word_of_nat ?s2) ?wr1 = (l2, walWriter w2)"
    "node_toBytes (LogNode n2) = checkLogOverflow (BLogHeader_toBytes h2 @ r2) (w_maxPage ?wr1) (w_maxOffset ?wr1)"
    "length r2 = 9 + length k2 + length v2"
    using AddPutLog_form [OF ne(3,4) a2] s(2) by fastforce
  note u = s [THEN unat_size]
  note A1 = assignLSN_next [OF o(2) _ pg(1) n1(3), unfolded u, OF s(1)]
  have o1: "unat (w_maxOffset ?wr1) = 8" "unat (w_maxPage ?wr1) = unat (w_maxPage ?wr) + 1"
    using A1(5) exact by auto
  have "w_maxPage ?wr1 = w_maxPage ?wr + 1"
  proof -
    have "1 + w_maxPage ?wr \<noteq> 0" using pg(1) by (simp add: eq_neg_iff_add_eq_0 add.commute)
    from unatSuc [OF this] show ?thesis using o1(2) by (simp add: word_unat_eq_iff add.commute)
  qed
  with pg(2) have pg1: "w_maxPage ?wr1 \<noteq> -1" by simp
  have "unat (w_maxOffset ?wr1) < 8192" using o1(1) by simp
  note A2 = assignLSN_next [OF this _ pg1 n2(3), unfolded u, OF s(2)]
  have p: "pos ?wr1 = pos ?wr + ?s1 + 8" "pos (walWriter w2) = pos ?wr1 + ?s2"
    using o1 exact A2(5) sm by (auto simp: pos_def split: if_splits)
  obtain b1 where b1: "node_toBytes (LogNode n1) = Ok b1" "length b1 = ?s1 + 8"
    using checkLogOverflow_bytes [of "w_maxOffset ?wr" "BLogHeader_toBytes h1 @ r1" "w_maxPage ?wr"] o s(1) n1(4,5) exact
    by (auto simp: grow_def)
  obtain b2 where b2: "node_toBytes (LogNode n2) = Ok b2" "length b2 = ?s2 + 8"
    using n2(4,5) o1(1) sm by (simp add: checkLogOverflow_def WALPageHeader_toBytes_def)
  obtain old where old: "nodes_bytes (walBuff w) = Ok old" "length (f_data (w_fd ?wr)) + length old = pos ?wr"
    using inv by (auto simp: wal_inv_def)
  have "nodes_bytes (walBuff w2) = Ok ((old @ b1) @ b2)"
    unfolding n2(1) n1(1) by (intro nodes_bytes_append old(1) b1(1) b2(1))
  then show ?thesis using old(2) b1(2) b2(2) p n1(2) n2(2) by simp
qed

section \<open>A record larger than a page\<close>


lemma nodes_bytes_panic: "nodes_bytes xs = Ok a \<Longrightarrow> node_toBytes n = Panic p \<Longrightarrow> nodes_bytes (xs @ [n]) = Panic p"
proof (induction xs arbitrary: a)
  case (Cons x xs)
  then show ?case by (cases "node_toBytes x"; cases "nodes_bytes xs") auto
qed simp

text \<open>The offset after a record that reaches past the end of the next page is beyond a page. For a record there that does not reach the next
  page end, \<^const>\<open>checkLogOverflow\<close> cuts behind its last byte.\<close>

lemma page_rest:
  fixes off :: u32
  assumes "unat off = 8192 * q + r" "r < 8192" "q < 2 ^ 18"
  shows "unat (8192 * (off div 8192 + 1) - off) = 8192 - r"
proof -
  have "unat (off div 8192) = q" using assms(1,2) by (simp add: unat_div_distrib)
  moreover have "unat (off div 8192) + unat (1 :: u32) < 2 ^ LENGTH(32)" using calculation assms(3) by simp
  ultimately have f: "unat (off div 8192 + 1) = q + 1" using unat_add_lem [of "off div 8192" 1] by simp
  moreover have "unat (8192 :: u32) * unat (off div 8192 + 1) < 2 ^ LENGTH(32)" unfolding f using assms(3) by simp
  ultimately have m: "unat (8192 * (off div 8192 + 1)) = 8192 * (q + 1)" using unat_mult_lem [of 8192 "off div 8192 + 1"] by simp
  have "off \<le> 8192 * (off div 8192 + 1)" unfolding word_le_nat_alt m using assms(1,2) by simp
  from unat_sub [OF this] show ?thesis unfolding m using assms(1,2) by simp
qed

lemma overflow_panics:
  assumes "8192 \<le> unat off" "unat off < 2 ^ 31" "unat off mod 8192 + length data < 8192"
  shows "checkLogOverflow data page off = Panic ''slice bounds out of range''"
proof -
  have "unat off div 8192 < 2 ^ 18" using assms(2) by (simp add: less_mult_imp_div_less)
  then have "unat (8192 * (off div 8192 + 1) - off) = 8192 - unat off mod 8192" by (intro page_rest [of _ "unat off div 8192"]) simp_all
  then have "length data < unat (8192 * (off div 8192 + 1) - off)" using assms(3) by linarith
  then show ?thesis using assms(1) unfolding checkLogOverflow_def Let_def by simp
qed

lemma next_offset:
  fixes o1 s1 :: u32
  assumes "8192 \<le> unat o1 + unat s1" "unat o1 + unat s1 < 2 ^ 31"
  shows "8192 \<le> o1 + s1" "unat (o1 + s1 - 8192 + 8) = unat o1 + unat s1 - 8192 + 8"
proof -
  have s: "unat (o1 + s1) = unat o1 + unat s1" using assms(2) unat_add_lem [of o1 s1] by simp
  then show le: "8192 \<le> o1 + s1" using assms(1) by (simp add: word_le_nat_alt)
  have d: "unat (o1 + s1 - 8192) = unat o1 + unat s1 - 8192" using unat_sub [OF le] s by simp
  have "unat (o1 + s1 - 8192) + unat (8 :: u32) < 2 ^ LENGTH(32)" unfolding d using assms(2) by simp
  then show "unat (o1 + s1 - 8192 + 8) = unat o1 + unat s1 - 8192 + 8" using unat_add_lem [of "o1 + s1 - 8192" 8] d by simp
qed

lemma large_record_panics:
  assumes inv: "wal_drift d w" and ne: "k1 \<noteq> []" "v1 \<noteq> []" "k2 \<noteq> []" "v2 \<noteq> []"
    and large: "16376 \<le> unat (w_maxOffset (walWriter w)) + (34 + length k1 + length v1)" "34 + length k1 + length v1 < 2 ^ 30"
    and small: "(unat (w_maxOffset (walWriter w)) + (34 + length k1 + length v1) + 8) mod 8192 + (34 + length k2 + length v2) < 8192"
    and a1: "AddPutLog p1 k1 v1 w = (Ok l1, w1)" and a2: "AddPutLog p2 k2 v2 w1 = (Ok l2, w2)"
  shows "\<exists>e. BLogWrite w2 = (Panic e, w2\<lparr>walBuff := []\<rparr>)"
proof -
  let ?wr = "walWriter w" and ?wr1 = "walWriter w1"
  let ?s1 = "34 + length k1 + length v1" and ?s2 = "34 + length k2 + length v2"
  have o: "8 \<le> unat (w_maxOffset ?wr)" "unat (w_maxOffset ?wr) < 8192" using inv by (auto simp: wal_drift_def at_page_def)
  obtain h1 n1 r1 where n1: "walBuff w1 = walBuff w @ [LogNode n1]" "w_fd ?wr1 = w_fd ?wr"
    "assignLSN (word_of_nat ?s1) ?wr = (l1, ?wr1)"
    "node_toBytes (LogNode n1) = checkLogOverflow (BLogHeader_toBytes h1 @ r1) (w_maxPage ?wr) (w_maxOffset ?wr)"
    "length r1 = 9 + length k1 + length v1"
    using AddPutLog_form [OF ne(1,2) a1] large(2) by fastforce
  have s2: "?s2 < 2 ^ 32" using small by simp
  obtain h2 n2 r2 where n2: "walBuff w2 = walBuff w1 @ [LogNode n2]"
    "node_toBytes (LogNode n2) = checkLogOverflow (BLogHeader_toBytes h2 @ r2) (w_maxPage ?wr1) (w_maxOffset ?wr1)"
    "length r2 = 9 + length k2 + length v2"
    using AddPutLog_form [OF ne(3,4) a2 s2] by fastforce
  have "take_bit LENGTH(32) ?s1 = ?s1" using large(2) by (intro take_bit_nat_eq_self) simp
  then have u: "unat (word_of_nat ?s1 :: u32) = ?s1" unfolding unsigned_of_nat by simp
  note nx = next_offset [of "w_maxOffset ?wr" "word_of_nat ?s1", unfolded u]
  have m: "unat (w_maxOffset ?wr1) = unat (w_maxOffset ?wr) + ?s1 - 8192 + 8"
  proof -
    have r: "8192 \<le> unat (w_maxOffset ?wr) + ?s1" "unat (w_maxOffset ?wr) + ?s1 < 2 ^ 31" using large o by simp_all
    have "w_maxOffset ?wr1 = w_maxOffset ?wr + word_of_nat ?s1 - 8192 + 8"
      using n1(3) nx(1) [OF r] unfolding assignLSN_def Let_def by (metis (no_types, lifting) WalWriter.select_convs(6) WalWriter.surjective WalWriter.update_convs(5,6) prod.inject)
    then show ?thesis using nx(2) [OF r] by (simp only:)
  qed
  have md: "unat (w_maxOffset ?wr1) mod 8192 = (unat (w_maxOffset ?wr) + ?s1 + 8) mod 8192"
  proof -
    have "unat (w_maxOffset ?wr) + ?s1 + 8 = unat (w_maxOffset ?wr1) + 8192" using m large(1) by simp
    then show ?thesis by (metis mod_add_self2)
  qed
  have b2: "node_toBytes (LogNode n2) = Panic ''slice bounds out of range''"
    unfolding n2(2) using m md large small n2(3) o by (intro overflow_panics) auto
  have "off div 8192 = 0" if "unat off < 8192" for off :: u32 using that by (simp add: word_unat_eq_iff unat_div_distrib)
  then have "unat (8192 * (w_maxOffset ?wr div 8192 + 1) - w_maxOffset ?wr) = 8192 - unat (w_maxOffset ?wr)"
    using o(2) by (simp add: unat_sub word_le_nat_alt)
  then obtain b1 where b1: "node_toBytes (LogNode n1) = Ok b1"
    using n1(4,5) o large(1) by (auto simp: checkLogOverflow_def Let_def split: if_splits)
  obtain old where old: "nodes_bytes (walBuff w) = Ok old" using inv by (auto simp: wal_drift_def)
  have "nodes_bytes (walBuff w2) = Panic ''slice bounds out of range''"
    unfolding n2(1) n1(1) by (rule nodes_bytes_panic [OF nodes_bytes_append [OF old b1] b2])
  moreover have "walBuff w2 \<noteq> []" using n2(1) by simp
  ultimately show ?thesis by (simp add: BLogWrite_def flushWal_def)
qed

section \<open>Properties\<close>

text \<open>C6. The position of the log. From a freshly created log, after any sequence of put and delete records and
  checkpoints, each of at most 8184 bytes and as long as the page counter does not wrap, with flushes in between, a flush succeeds, and the file is then longer than
  the position the writer gives to the next record by exactly eight bytes for each record that was added right behind one
  that ended at the end of a page and that stays in its page. Without such records the length is the position.\<close>

theorem wal_position:
  assumes "f_data f = []" "f_err f = None" "f_err c = None" "NewWal f c = Ok w" "wal_run w d w'"
  shows "\<exists>w''. BLogWrite w' = (Ok (), w'') \<and> walBuff w'' = []
     \<and> length (f_data (w_fd (walWriter w''))) = pos (walWriter w'') + 8 * d \<and> pos (walWriter w'') = pos (walWriter w')"
proof -
  have "wal_drift 0 w" using NewWal_new [OF assms(1-3)] assms(4) by (auto simp: wal_inv_drift)
  then have "wal_drift d w'" by (rule wal_run_drift [OF assms(5)])
  from BLogWrite_drift [OF this] show ?thesis by (auto simp: wal_drift_def pos_def)
qed

theorem wal_position_witness:
  "\<exists>w w' w''. NewWal empty_file empty_file = Ok w \<and> wal_run w 1 w' \<and> BLogWrite w' = (Ok (), w'')
     \<and> pos (walWriter w'') = 8192 + 8 + 36 \<and> length (f_data (w_fd (walWriter w''))) = 8192 + 8 + 36 + 8"
proof -
  have e: "f_data empty_file = []" "f_err empty_file = None" by (simp_all add: empty_file_def)
  obtain w where w: "NewWal empty_file empty_file = Ok w" using NewWal_new [OF e(1,2) e(2)] by blast
  then have o: "w_maxOffset (walWriter w) = 25" "w_maxPage (walWriter w) = 0"
    by (auto simp: NewWal_def NewWalWriter_def loadMaxLSN_def initializeWriter_def orPanic_def bindS_def liftR_def
      on_fd_def saveCheckpoint_def file_simps write_at_def empty_file_def CheckPoint_toBytes_def checkLogOverflow_def
      first_lsn_def)
  let ?v = "replicate 8132 7 :: bytes"
  obtain l1 w1 where a: "AddPutLog 1 [1] ?v w = (Ok l1, w1)" using AddPutLog_total [of "[1]" ?v 1 w] by auto
  have o1: "w_maxOffset (walWriter w1) = 8" "w_maxPage (walWriter w1) = 1"
    using a o by (auto simp: AddPutLog_def assign_def assignLSN_def Let_def split: prod.splits if_splits)
  obtain l2 w2 where b: "AddPutLog 1 [1] [2] w1 = (Ok l2, w2)" using AddPutLog_total [of "[1]" "[2]" 1 w1] by auto
  have p: "pos (walWriter w2) = 8192 + 8 + 36"
    using b o1 by (auto simp: AddPutLog_def assign_def assignLSN_def Let_def pos_def split: prod.splits if_splits)
  have "wal_run w (0 + extra (34 + length [1::u8] + length ?v) w) w1"
    using a o by (intro wal_run.put [OF wal_run.nil]) (auto simp: fits_def)
  then have "wal_run w 0 w1" using o by (simp add: extra_def)
  from wal_run.put [OF this b] have "wal_run w 1 w2" using o1 by (simp add: fits_def extra_def)
  with wal_position [OF e(1,2) e(2) w this] p w show ?thesis by auto
qed

text \<open>C18. Log sequence numbers grow: along any run of assignments of record sizes, each LSN is greater, for
  the comparison the rest of the program uses, than every earlier one.\<close>

theorem assignLSN_increasing:
  assumes "in_page wr" "\<forall>s\<in>set ss. 0 < unat s \<and> unat s \<le> 8184" "unat (w_maxPage wr) + length ss < 2 ^ 32"
  shows "sorted_wrt (\<lambda>a b. GreaterLSN b a = Ok True) (assign_all ss wr)"
  using assign_all_lsns [of wr ss] assms by blast

definition writer0 :: WalWriter where
  "writer0 = \<lparr>w_fd = empty_file, w_confFD = Some empty_file, w_queue = [], w_running = False,
     w_maxPage = 0, w_maxOffset = 25\<rparr>"

theorem assignLSN_increasing_witness:
  "sorted_wrt (\<lambda>a b. GreaterLSN b a = Ok True) (assign_all [8167, 100, 8184] writer0)"
  using assignLSN_increasing [of writer0 "[8167, 100, 8184]"] by (simp add: writer0_def in_page_def)



text \<open>C20. Reading back by LSN: in a log without doubled page headers, after a put record of at most 8184 bytes is added and the buffer flushed, the reader, given the
  record's LSN, returns the record's size, provided that the end of the page does not cut the first 17 bytes of the header, where the size stands
  (the reader's test for a header across two pages is never true), and that the position fits 32 bits.\<close>

theorem getLogSize_after_put:
  assumes "wal_inv w" "key \<noteq> []" "val \<noteq> []" "fits (34 + length key + length val) w"
    and "AddPutLog pid key val w = (Ok lsn, w1)" "BLogWrite w1 = (Ok (), w2)"
    and "unat (w_maxOffset (walWriter w)) + 17 \<le> 8192" "pos (walWriter w) < 2 ^ 32"
  shows "getLogSize (w_fd (walWriter w2)) lsn = Ok (word_of_nat (34 + length key + length val))"
  by (rule getLogSize_put [OF assms])

definition wal0 :: WAL where
  "wal0 = \<lparr>walBuff = [], walWriter = writer0\<lparr>w_fd := empty_file\<lparr>f_data := replicate 25 0\<rparr>\<rparr>\<rparr>"

theorem getLogSize_after_put_witness:
  "\<exists>lsn w1 w2. AddPutLog 1 [1] [2] wal0 = (Ok lsn, w1) \<and> BLogWrite w1 = (Ok (), w2)
     \<and> getLogSize (w_fd (walWriter w2)) lsn = Ok 36"
proof -
  have inv: "wal_inv wal0"
    by (simp add: wal_inv_def wal0_def writer0_def in_page_def pos_def empty_file_def)
  have fit: "fits (34 + length [1::u8] + length [2::u8]) wal0" by (simp add: fits_def wal0_def writer0_def)
  obtain lsn w1 where a: "AddPutLog 1 [1] [2] wal0 = (Ok lsn, w1)"
    using AddPutLog_total [of "[1]" "[2]" 1 wal0] by auto
  have "wal_drift 0 w1" by (rule AddPutLog_inv(1) [OF inv _ _ fit a]) simp_all
  then obtain w2 where b: "BLogWrite w1 = (Ok (), w2)" using BLogWrite_drift by blast
  from getLogSize_after_put [OF inv _ _ fit a b] show ?thesis
    using a b by (simp add: wal0_def writer0_def pos_def)
qed

text \<open>C21. A record that ends exactly at the end of a page breaks the position: after it and one more record,
  the file and buffer hold eight bytes more than the position says, since both records bring a page
  header, and the LSNs assigned from then on point eight bytes before their records.\<close>

theorem wal_exact_fit_drift:
  assumes "wal_inv w" "k1 \<noteq> []" "v1 \<noteq> []" "k2 \<noteq> []" "v2 \<noteq> []"
    and "unat (w_maxOffset (walWriter w)) + (34 + length k1 + length v1) = 8192"
    and "34 + length k2 + length v2 < 8184" "w_maxPage (walWriter w) \<noteq> -1" "w_maxPage (walWriter w) + 1 \<noteq> -1"
    and "AddPutLog p1 k1 v1 w = (Ok l1, w1)" "AddPutLog p2 k2 v2 w1 = (Ok l2, w2)"
  shows "\<exists>bs. nodes_bytes (walBuff w2) = Ok bs
     \<and> length (f_data (w_fd (walWriter w2))) + length bs = pos (walWriter w2) + 8"
  by (rule exact_fit_drift [OF assms])

theorem wal_exact_fit_drift_witness:
  "\<exists>l1 w1 l2 w2 bs. AddPutLog 1 [1] (replicate 8132 7) wal0 = (Ok l1, w1) \<and> AddPutLog 1 [1] [2] w1 = (Ok l2, w2)
     \<and> nodes_bytes (walBuff w2) = Ok bs \<and> length (f_data (w_fd (walWriter w2))) + length bs = pos (walWriter w2) + 8"
proof -
  have inv: "wal_inv wal0"
    by (simp add: wal_inv_def wal0_def writer0_def in_page_def pos_def empty_file_def)
  obtain l1 w1 where a: "AddPutLog 1 [1] (replicate 8132 7) wal0 = (Ok l1, w1)"
    using AddPutLog_total [of "[1]" "replicate 8132 7" 1 wal0] by auto
  obtain l2 w2 where b: "AddPutLog 1 [1] [2] w1 = (Ok l2, w2)"
    using AddPutLog_total [of "[1]" "[2]" 1 w1] by auto
  from wal_exact_fit_drift [OF inv _ _ _ _ _ _ _ _ a b] show ?thesis
    using a b by (auto simp: wal0_def writer0_def)
qed

text \<open>C22. A record that reaches past the end of the next page breaks the log: one page header is written for it, and the offset
  after it lies beyond a page. When a record that does not reach the next page end follows, the next flush panics, and all records of the
  buffer, also those added before, are dropped without having been written.\<close>

theorem wal_large_record:
  assumes "wal_drift d w" "k1 \<noteq> []" "v1 \<noteq> []" "k2 \<noteq> []" "v2 \<noteq> []"
    and "16376 \<le> unat (w_maxOffset (walWriter w)) + (34 + length k1 + length v1)" "34 + length k1 + length v1 < 2 ^ 30"
    and "(unat (w_maxOffset (walWriter w)) + (34 + length k1 + length v1) + 8) mod 8192 + (34 + length k2 + length v2) < 8192"
    and "AddPutLog p1 k1 v1 w = (Ok l1, w1)" "AddPutLog p2 k2 v2 w1 = (Ok l2, w2)"
  shows "\<exists>e. BLogWrite w2 = (Panic e, w2\<lparr>walBuff := []\<rparr>)"
  by (rule large_record_panics [OF assms])

theorem wal_large_record_witness:
  "\<exists>l1 w1 l2 w2 e. AddPutLog 1 [1] (replicate 17000 7) wal0 = (Ok l1, w1) \<and> AddPutLog 1 [1] [2] w1 = (Ok l2, w2)
     \<and> BLogWrite w2 = (Panic e, w2\<lparr>walBuff := []\<rparr>)"
proof -
  have inv: "wal_drift 0 wal0"
    by (simp add: wal_drift_def wal0_def writer0_def at_page_def pos_def empty_file_def)
  obtain l1 w1 where a: "AddPutLog 1 [1] (replicate 17000 7) wal0 = (Ok l1, w1)"
    using AddPutLog_total [of "[1]" "replicate 17000 7" 1 wal0] by auto
  obtain l2 w2 where b: "AddPutLog 1 [1] [2] w1 = (Ok l2, w2)"
    using AddPutLog_total [of "[1]" "[2]" 1 w1] by auto
  from wal_large_record [OF inv _ _ _ _ _ _ _ a b] show ?thesis
    using a b by (auto simp: wal0_def writer0_def)
qed

end
