(* ===== verification/Recovery.thy ===== *)
theory Recovery
  imports WalCorrect
begin

text \<open>
  The recovery manager, \<^verbatim>\<open>pkg/recovery/recovery.go\<close>: from the last checkpoint it walks through the log file and applies every record to the index
  again. The index is the package \<^verbatim>\<open>pkg/bp_tree\<close>, which is not in the repository: its \<^verbatim>\<open>InsertValue\<close> and \<^verbatim>\<open>DeleteValue\<close> for one key are the
  parameters \<open>ins\<close> and \<open>del\<close>, on an arbitrary state. The console output and the spinner are left out.
\<close>

section \<open>Structs\<close>

record RecoveryMngr =
  rm_fd :: "osfile option"
  rm_walSize :: nat
  rm_checkpointLSN :: bytes

record LogHeaderMetadata =
  lh_lsn :: bytes
  lh_pageId :: u32
  lh_logSize :: u32
  lh_multiPage :: bool

record Operation =
  o_opType :: OperationType
  o_key :: bytes
  o_val :: bytes
  o_lsn :: bytes
  o_multiPage :: bool

text \<open>A slice expression checks its bounds against the capacity; \<open>a\<close> is the underlying array.\<close>

definition go_slice :: "bytes \<Rightarrow> nat \<Rightarrow> nat \<Rightarrow> bytes res" where
  "go_slice a i j = (if j \<le> length a \<and> i \<le> j then Ok (slice i j a) else Panic ''slice bounds out of range'')"

text \<open>\<^verbatim>\<open>append(b[:idx], b[idx+8:]...)\<close> on a full slice: the bytes move to the front of the same array. The result is the array; the slice is eight bytes shorter.\<close>

definition cut_header :: "u32 \<Rightarrow> bytes \<Rightarrow> bytes res" where
  "cut_header idx b =
     (if unat idx > length b \<or> unat (idx + 8) > length b then Panic ''slice bounds out of range''
      else (let moved = take (unat idx) b @ drop (unat (idx + 8)) b in Ok (moved @ drop (length moved) b)))"

section \<open>Operations\<close>

definition rec_readLogHeader :: "u32 \<Rightarrow> RecoveryMngr \<Rightarrow> LogHeaderMetadata res" where
  "rec_readLogHeader off rm = (case rm_fd rm of
      None \<Rightarrow> Err (RecoveryError ''File descriptor not provided.'')
    | Some fd \<Rightarrow>
        (let endOff = off + 25 in
         case IsMultipage off endOff 8192 of
           Err e \<Rightarrow> Panic ''err'' | Panic p \<Rightarrow> Panic p | Blocked \<Rightarrow> Blocked
         | Ok multiPage \<Rightarrow>
             (case ReadAt fd (if multiPage then BLOG_HEADER_SIZE + WAL_PAGE_HEADER_SIZE else BLOG_HEADER_SIZE) (unat off) of
                (_, Some EOF) \<Rightarrow> Err EOF
              | (_, Some e) \<Rightarrow> Panic ''unable to read log header: %v''
              | (hdr, None) \<Rightarrow>
                  if BitIsSet (hdr ! 0) LOGTYPE_FLAG_POS then Err (InvalidLogError ''Log is a checkpoint'')
                  else bindR (if multiPage then cut_header (8192 * (off div 8192 + 1) - off) hdr else Ok hdr) (\<lambda>hdr.
                       (let md = \<lparr>lh_lsn = slice 1 13 hdr, lh_pageId = of_le32 (slice 17 21 hdr), lh_logSize = of_le32 (slice 13 17 hdr),
                                  lh_multiPage = multiPage\<rparr> in
                        if length (lh_lsn md) \<noteq> LSN_SIZE then Panic ''Invalid LSN size Received length: %d, expected: %d''
                        else if lh_pageId md \<le> 0 then Panic ''Invalid page ID. Received: %d.''
                        else Ok md)))))"

definition readFullLog :: "u32 \<Rightarrow> u32 \<Rightarrow> bytes \<Rightarrow> RecoveryMngr \<Rightarrow> Operation res" where
  "readFullLog startOff lSize lsn rm = (case rm_fd rm of
      None \<Rightarrow> Err (RecoveryError ''File descriptor not provided.'')
    | Some fd \<Rightarrow>
        (let endOff = startOff + lSize in
         case IsMultipage startOff endOff 8192 of
           Err e \<Rightarrow> Panic ''err'' | Panic p \<Rightarrow> Panic p | Blocked \<Rightarrow> Blocked
         | Ok multiPage \<Rightarrow>
             (case ReadAt fd (if multiPage then unat (lSize + 8) else unat lSize) (unat startOff) of
                (_, Some e) \<Rightarrow> Panic ''unable to read log: %v''
              | (b, None) \<Rightarrow>
                  if length b \<le> 0 then Panic ''invalid log in file.''
                  else bindR (if multiPage then cut_header (lSize - (endOff - 8192)) b else Ok b) (\<lambda>arr.
                       (let len = (if multiPage then length b - WAL_PAGE_HEADER_SIZE else length b); kOff = BLOG_HEADER_SIZE + 5 in
                        if len \<le> BLOG_HEADER_SIZE then Panic ''index out of range''
                        else
                          (let opType = (if arr ! BLOG_HEADER_SIZE = op_byte PUT then PUT else DEL) in
                           bindR (go_slice arr (BLOG_HEADER_SIZE + 1) (BLOG_HEADER_SIZE + 5)) (\<lambda>ks.
                           let kSize = unat (of_le32 ks) in
                           bindR (go_slice arr kOff (kOff + kSize)) (\<lambda>key.
                           if opType = PUT then
                             bindR (go_slice arr (kOff + kSize) (kOff + kSize + 4)) (\<lambda>vs.
                             bindR (go_slice arr (kOff + kSize + 4) (kOff + kSize + 4 + unat (of_le32 vs))) (\<lambda>val.
                             Ok \<lparr>o_opType = opType, o_key = key, o_val = val, o_lsn = lsn, o_multiPage = multiPage\<rparr>))
                           else Ok \<lparr>o_opType = opType, o_key = key, o_val = [], o_lsn = lsn, o_multiPage = multiPage\<rparr>))))))))"

text \<open>Applying a record: every failure is a panic.\<close>

definition reapplyLog :: "(bytes \<Rightarrow> bytes \<Rightarrow> bytes \<Rightarrow> 't \<Rightarrow> bool res \<times> 't) \<Rightarrow> (bytes \<Rightarrow> bytes \<Rightarrow> 't \<Rightarrow> bool res \<times> 't) \<Rightarrow> Operation \<Rightarrow> 't \<Rightarrow> unit res \<times> 't" where
  "reapplyLog ins del op =
     (if length (o_key op) \<le> 0 then panicS ''(reapply) Invalid key. Received %v''
      else if o_opType op = PUT then
        (if length (o_val op) \<le> 0 then panicS ''(reapply) Invalid value. Received %v''
         else bindS (orPanic (ins (o_key op) (o_val op) (o_lsn op))) (\<lambda>inserted. if inserted then returnS () else panicS ''Could not insert the value''))
      else bindS (orPanic (del (o_key op) (o_lsn op))) (\<lambda>deleted. if deleted then returnS () else panicS ''Could not insert the value''))"

text \<open>The walk; \<open>None\<close> when \<open>fuel\<close> rounds are not enough. The offset is a \<^verbatim>\<open>uint32\<close>.\<close>

fun walkThroughRecovery :: "(bytes \<Rightarrow> bytes \<Rightarrow> bytes \<Rightarrow> 't \<Rightarrow> bool res \<times> 't) \<Rightarrow> (bytes \<Rightarrow> bytes \<Rightarrow> 't \<Rightarrow> bool res \<times> 't) \<Rightarrow> nat \<Rightarrow> RecoveryMngr \<Rightarrow> u32 \<Rightarrow> u32
    \<Rightarrow> 't \<Rightarrow> (unit res \<times> 't) option" where
  "walkThroughRecovery ins del 0 rm currOff endOff t = (if currOff < endOff then None else Some (Ok (), t))"
| "walkThroughRecovery ins del (Suc fuel) rm currOff endOff t =
     (if \<not> currOff < endOff then Some (Ok (), t)
      else (case rec_readLogHeader currOff rm of
          Err (InvalidLogError _) \<Rightarrow> walkThroughRecovery ins del fuel rm (currOff + 17) endOff t
        | Err EOF \<Rightarrow> Some (Ok (), t)
        | Err e \<Rightarrow> Some (Err e, t)
        | Panic p \<Rightarrow> Some (Panic p, t)
        | Blocked \<Rightarrow> Some (Blocked, t)
        | Ok md \<Rightarrow>
            (case readFullLog currOff (lh_logSize md) (lh_lsn md) rm of
               Err e \<Rightarrow> Some (Panic ''err'', t)
             | Panic p \<Rightarrow> Some (Panic p, t)
             | Blocked \<Rightarrow> Some (Blocked, t)
             | Ok op \<Rightarrow>
                 (case reapplyLog ins del op t of
                    (Ok _, t) \<Rightarrow> walkThroughRecovery ins del fuel rm
                                    (if o_multiPage op then currOff + (lh_logSize md + 8) else currOff + lh_logSize md) endOff t
                  | (r, t) \<Rightarrow> Some (r, t)))))"

definition Recover :: "(bytes \<Rightarrow> bytes \<Rightarrow> bytes \<Rightarrow> 't \<Rightarrow> bool res \<times> 't) \<Rightarrow> (bytes \<Rightarrow> bytes \<Rightarrow> 't \<Rightarrow> bool res \<times> 't) \<Rightarrow> nat \<Rightarrow> RecoveryMngr \<Rightarrow> 't \<Rightarrow> (unit res \<times> 't) option" where
  "Recover ins del fuel rm t = (case rm_fd rm of
      None \<Rightarrow> Some (Panic ''(Recover) No attached file descriptor.'', t)
    | Some fd \<Rightarrow>
        if length (rm_checkpointLSN rm) < 8 then Some (Panic ''slice bounds out of range'', t)
        else
          (let checkPntPage = of_le32 (take 4 (rm_checkpointLSN rm)); checkPntPageOff = of_le32 (slice 4 8 (rm_checkpointLSN rm));
               checkpointOff = (if checkPntPage \<noteq> 0 then checkPntPage * 8192 + checkPntPageOff else checkPntPageOff) in
           case ReadAt fd CHECKPOINT_SIZE (unat checkpointOff) of
             (d, err) \<Rightarrow>
               if (err \<noteq> None \<and> err \<noteq> Some EOF) \<or> length d \<le> 0 then Some (Panic ''Unable to read checkpoint: %v'', t)
               else if length d < CHECKPOINT_SIZE then Some (Panic ''Only read %d bytes, expected %d bytes for the checkpoint'', t)
               else walkThroughRecovery ins del fuel rm (of_le32 (slice 1 5 d)) (word_of_nat (rm_walSize rm)) t))"

definition rec_Close :: "RecoveryMngr \<Rightarrow> unit res \<times> RecoveryMngr" where
  "rec_Close rm = (case rm_fd rm of
      None \<Rightarrow> (Ok (), rm)
    | Some fd \<Rightarrow> (case FClose fd of
        (Err _, fd) \<Rightarrow> (Err (RecoveryError ''Unable to shutdown Recovery Manager: %v''), rm\<lparr>rm_fd := Some fd\<rparr>)
      | (_, fd) \<Rightarrow> (Ok (), rm\<lparr>rm_fd := Some fd\<rparr>)))"

text \<open>The configuration file and the log file, or \<open>None\<close> when they cannot be opened. \<^verbatim>\<open>Read\<close> fills at most twelve bytes; the others stay zero.\<close>

definition NewRecoveryMngr :: "osfile option \<Rightarrow> osfile option \<Rightarrow> RecoveryMngr option res" where
  "NewRecoveryMngr conf walFile = (case conf of
      None \<Rightarrow> Err (RecoveryError ''Unable to open recovery file: %v'')
    | Some fd \<Rightarrow>
        (if f_err fd \<noteq> None then Panic ''err''
         else (let d = take LSN_SIZE (f_data fd) in
           if length d \<le> 0 then Ok None
           else (case walFile of
               None \<Rightarrow> Panic ''(recovery) Unable to open WAL file: %v''
             | Some walFd \<Rightarrow>
                 if f_err walFd \<noteq> None then Panic ''err''
                 else Ok (Some \<lparr>rm_fd = Some walFd, rm_walSize = length (f_data walFd),
                               rm_checkpointLSN = d @ replicate (LSN_SIZE - length d) 0\<rparr>)))))"

end
