(* ===== verification/RecoveryProps.thy ===== *)
theory RecoveryProps
  imports Recovery
begin

text \<open>
  Recovery returns on every log file, replays what was logged as long as the log is on its first page, and cannot read a record that crosses
  a later page boundary.
\<close>

section \<open>The walk goes forward\<close>

lemma multipage_nowrap:
  assumes "IsMultipage a (a + b) 8192 = Ok m"
  shows "unat (a + b) = unat a + unat b"
  using assms by (simp add: IsMultipage_def not_less no_olen_add_nat unat_word_ariths split: if_splits)

lemma ReadAt_full: "ReadAt fd n off = (b, None) \<Longrightarrow> length b = n \<and> (0 < n \<longrightarrow> off + n \<le> length (f_data fd))"
  by (auto simp: ReadAt_def Let_def min_def split: option.splits if_splits)

lemma header_checkpoint:
  assumes "rec_readLogHeader off rm = Err (InvalidLogError e)" "rm_fd rm = Some fd" "length (f_data fd) < 2 ^ 32"
  shows "unat (off + 17) = unat off + 17"
proof -
  obtain m b where "ReadAt fd (if m then 33 else 25) (unat off) = (b, None)"
    using assms(1,2) by (fastforce simp: rec_readLogHeader_def Let_def bindR_def split: res.splits prod.splits option.splits if_splits gerror.splits)
  then have "unat off + 25 \<le> length (f_data fd)" using ReadAt_full[of fd "if m then 33 else 25" "unat off" b] by (simp split: if_splits)
  then show ?thesis using assms(3) by (simp add: unat_word_ariths)
qed

lemma readFullLog_read:
  assumes "readFullLog off L lsn rm = Ok op" "rm_fd rm = Some fd"
  shows "\<exists>b. IsMultipage off (off + L) 8192 = Ok (o_multiPage op) \<and> ReadAt fd (if o_multiPage op then unat (L + 8) else unat L) (unat off) = (b, None)
     \<and> (if o_multiPage op then 33 else 25) < length b"
  using assms
  by (fastforce simp: readFullLog_def Let_def bindR_def split: res.splits prod.splits option.splits if_splits)

lemma readFullLog_forward:
  assumes "readFullLog off L lsn rm = Ok op" "rm_fd rm = Some fd" "length (f_data fd) < 2 ^ 32"
  shows "unat off < unat (if o_multiPage op then off + (L + 8) else off + L)"
proof -
  obtain b where b: "IsMultipage off (off + L) 8192 = Ok (o_multiPage op)"
      "ReadAt fd (if o_multiPage op then unat (L + 8) else unat L) (unat off) = (b, None)" "(if o_multiPage op then 33 else 25) < length b"
    using readFullLog_read[OF assms(1,2)] by blast
  note n = multipage_nowrap[OF b(1)] and r = ReadAt_full[OF b(2)]
  show ?thesis
  proof (cases "o_multiPage op")
    case True
    then have l: "33 < unat (L + 8)" "unat off + unat (L + 8) \<le> length (f_data fd)" using r b(3) by auto
    have "unat (off + (L + 8)) = unat off + unat (L + 8)" using l(2) assms(3) by (simp add: unat_word_ariths)
    then show ?thesis using True l(1) by simp
  next
    case False
    then show ?thesis using n r b(3) by auto
  qed
qed

lemma walk_ends:
  "rm_fd rm = Some fd \<Longrightarrow> length (f_data fd) < 2 ^ 32 \<Longrightarrow> unat endOff - unat currOff \<le> fuel \<Longrightarrow>
   \<exists>out. walkThroughRecovery ins del fuel rm currOff endOff t = Some out"
proof (induction fuel arbitrary: currOff t)
  case 0
  then show ?case by (auto simp: word_less_nat_alt)
next
  case (Suc fuel)
  have go: "\<exists>out. walkThroughRecovery ins del fuel rm off endOff t' = Some out" if "unat currOff < unat off" for off t'
    using Suc.IH[OF Suc.prems(1,2), of off t'] Suc.prems(3) that by simp
  have ck: "unat currOff < unat (currOff + 17)" if "rec_readLogHeader currOff rm = Err (InvalidLogError e)" for e
    using header_checkpoint[OF that Suc.prems(1,2)] by simp
  have fw: "\<exists>out. walkThroughRecovery ins del fuel rm (currOff + (L + 8)) endOff t' = Some out"
    if "readFullLog currOff L lsn rm = Ok op" "o_multiPage op" for L lsn op t'
    using go readFullLog_forward[OF that(1) Suc.prems(1,2)] that(2) by simp
  have fs: "\<exists>out. walkThroughRecovery ins del fuel rm (currOff + L) endOff t' = Some out"
    if "readFullLog currOff L lsn rm = Ok op" "\<not> o_multiPage op" for L lsn op t'
    using go readFullLog_forward[OF that(1) Suc.prems(1,2)] that(2) by simp
  show ?case using go ck fw fs by (auto split: res.splits gerror.splits prod.splits)
qed

section \<open>What is logged is replayed\<close>

datatype log_op = PutOp u32 bytes bytes | DelOp u32 bytes

fun log_add :: "log_op \<Rightarrow> WAL \<Rightarrow> bytes res \<times> WAL" where
  "log_add (PutOp p k v) = AddPutLog p k v"
| "log_add (DelOp p k) = AddDelLog p k"

fun log_size :: "log_op \<Rightarrow> nat" where
  "log_size (PutOp p k v) = 34 + length k + length v"
| "log_size (DelOp p k) = 30 + length k"

fun log_valid :: "log_op \<Rightarrow> bool" where
  "log_valid (PutOp p k v) = (p \<noteq> 0 \<and> k \<noteq> [] \<and> v \<noteq> [])"
| "log_valid (DelOp p k) = (p \<noteq> 0 \<and> k \<noteq> [])"

fun log_all :: "log_op list \<Rightarrow> WAL \<Rightarrow> bytes list res \<times> WAL" where
  "log_all [] = returnS []"
| "log_all (op # ops) = bindS (log_add op) (\<lambda>lsn. bindS (log_all ops) (\<lambda>lsns. returnS (lsn # lsns)))"

text \<open>The operation recovery makes of a record, and the record's bytes.\<close>

fun replayed :: "log_op \<Rightarrow> bytes \<Rightarrow> Operation" where
  "replayed (PutOp p k v) lsn = \<lparr>o_opType = PUT, o_key = k, o_val = v, o_lsn = lsn, o_multiPage = False\<rparr>"
| "replayed (DelOp p k) lsn = \<lparr>o_opType = DEL, o_key = k, o_val = [], o_lsn = lsn, o_multiPage = False\<rparr>"

fun log_page :: "log_op \<Rightarrow> u32" where
  "log_page (PutOp p k v) = p"
| "log_page (DelOp p k) = p"

fun log_body :: "log_op \<Rightarrow> bytes" where
  "log_body (PutOp p k v) = [0] @ le32 (word_of_nat (length k)) @ k @ le32 (word_of_nat (length v)) @ v"
| "log_body (DelOp p k) = [1] @ le32 (word_of_nat (length k)) @ k"

definition encode :: "log_op \<Rightarrow> bytes \<Rightarrow> bytes" where
  "encode op lsn = [0] @ lsn @ le32 (word_of_nat (log_size op)) @ le32 (log_page op) @ le32 0 @ log_body op"

fun reapply_all :: "(bytes \<Rightarrow> bytes \<Rightarrow> bytes \<Rightarrow> 't \<Rightarrow> bool res \<times> 't) \<Rightarrow> (bytes \<Rightarrow> bytes \<Rightarrow> 't \<Rightarrow> bool res \<times> 't) \<Rightarrow> Operation list \<Rightarrow> 't \<Rightarrow> unit res \<times> 't" where
  "reapply_all ins del [] = returnS ()"
| "reapply_all ins del (op # ops) = bindS (reapplyLog ins del op) (\<lambda>_. reapply_all ins del ops)"

lemma length_log_body: "25 + length (log_body op) = log_size op"
  by (cases op) simp_all

lemma length_encode: "length lsn = 12 \<Longrightarrow> length (encode op lsn) = log_size op"
  by (simp add: encode_def length_log_body[symmetric])

lemma log_add_form:
  assumes "log_valid op" "in_page (walWriter w)" "unat (w_maxOffset (walWriter w)) + log_size op < 8192"
  shows "\<exists>lsn w' n. log_add op w = (Ok lsn, w') \<and> length lsn = 12 \<and> walBuff w' = walBuff w @ [n] \<and> node_toBytes n = Ok (encode op lsn)
     \<and> w_fd (walWriter w') = w_fd (walWriter w) \<and> w_confFD (walWriter w') = w_confFD (walWriter w) \<and> w_queue (walWriter w') = w_queue (walWriter w)
     \<and> in_page (walWriter w') \<and> unat (w_maxOffset (walWriter w')) = unat (w_maxOffset (walWriter w)) + log_size op"
proof -
  let ?wr = "walWriter w" and ?sz = "word_of_nat (log_size op) :: u32"
  have sz: "unat ?sz = log_size op" using assms(3) unat_size[of "log_size op"] assms(2) by (simp add: in_page_def)
  have un: "unat (w_maxOffset ?wr + ?sz) = unat (w_maxOffset ?wr) + log_size op" using sz assms(3) by (simp add: unat_word_ariths)
  define lsn where "lsn = le32 (w_maxPage ?wr) @ le32 (w_maxOffset ?wr) @ le32 ?sz"
  have as: "assign ?sz w = (lsn, w\<lparr>walWriter := ?wr\<lparr>w_maxOffset := w_maxOffset ?wr + ?sz\<rparr>\<rparr>)"
    using un assms(3) by (simp add: assign_def assignLSN_def Let_def lsn_def word_le_nat_alt)
  have cut: "checkLogOverflow b (w_maxPage ?wr) (w_maxOffset ?wr) = Ok b" if "length b = log_size op" for b
    using that assms(2,3) by (simp add: checkLogOverflow_def in_page_def)
  let ?h = "\<lparr>h_flag = 0, h_lsn = lsn, h_pageId = log_page op, h_crc = 0, h_lSize = ?sz\<rparr>"
  have hd: "BLogHeader_toBytes ?h = [0] @ lsn @ le32 ?sz @ le32 (log_page op) @ le32 0" by (simp add: BLogHeader_toBytes_def lsn_def)
  have ip: "in_page (?wr\<lparr>w_maxOffset := w_maxOffset ?wr + ?sz\<rparr>)" using assms(2,3) un by (simp add: in_page_def)
  note bl = BLog_record[of ?h "w_maxPage ?wr" "w_maxOffset ?wr" ?sz, simplified, OF lsn_def]
  show ?thesis
  proof (cases op)
    case (PutOp p k v)
    have v: "0 < (word_of_nat (length v) :: u32)" using assms by (intro size_pos) (auto simp: PutOp)
    let ?b = "\<lparr>b_header = Some ?h, b_opType = PUT, b_keySize = word_of_nat (length k), b_key = k, b_valSize = word_of_nat (length v), b_val = v\<rparr>"
    have body: "BLog_body ?b ?h = encode op lsn" using v hd by (simp add: BLog_body_def encode_def PutOp)
    have "log_add op w = (Ok lsn, w\<lparr>walWriter := ?wr\<lparr>w_maxOffset := w_maxOffset ?wr + ?sz\<rparr>, walBuff := walBuff w @ [LogNode ?b]\<rparr>)"
      using as assms(1) by (simp add: PutOp AddPutLog_def Let_def WALBuffer_Add_def)
    moreover have "node_toBytes (LogNode ?b) = Ok (encode op lsn)"
      using bl body cut[of "encode op lsn"] length_encode[of lsn op] by (simp add: lsn_def)
    ultimately show ?thesis using ip un by (auto simp: lsn_def)
  next
    case (DelOp p k)
    let ?b = "\<lparr>b_header = Some ?h, b_opType = DEL, b_keySize = word_of_nat (length k), b_key = k, b_valSize = 0, b_val = []\<rparr>"
    have body: "BLog_body ?b ?h = encode op lsn" using hd by (simp add: BLog_body_def encode_def DelOp)
    have "log_add op w = (Ok lsn, w\<lparr>walWriter := ?wr\<lparr>w_maxOffset := w_maxOffset ?wr + ?sz\<rparr>, walBuff := walBuff w @ [LogNode ?b]\<rparr>)"
      using as assms(1) by (simp add: DelOp AddDelLog_def Let_def WALBuffer_Add_def)
    moreover have "node_toBytes (LogNode ?b) = Ok (encode op lsn)"
      using bl body cut[of "encode op lsn"] length_encode[of lsn op] by (simp add: lsn_def)
    ultimately show ?thesis using ip un by (auto simp: lsn_def)
  qed
qed

lemma log_all_form:
  "\<forall>op\<in>set ops. log_valid op \<Longrightarrow> in_page (walWriter w) \<Longrightarrow> unat (w_maxOffset (walWriter w)) + sum_list (map log_size ops) < 8192 \<Longrightarrow>
   nodes_bytes (walBuff w) = Ok old \<Longrightarrow>
   \<exists>lsns w'. log_all ops w = (Ok lsns, w') \<and> length lsns = length ops \<and> (\<forall>l\<in>set lsns. length l = 12)
     \<and> nodes_bytes (walBuff w') = Ok (old @ concat (map2 encode ops lsns)) \<and> w_fd (walWriter w') = w_fd (walWriter w)
     \<and> w_confFD (walWriter w') = w_confFD (walWriter w) \<and> w_queue (walWriter w') = w_queue (walWriter w)"
proof (induction ops arbitrary: w old)
  case (Cons op ops)
  obtain lsn w1 n where a: "log_add op w = (Ok lsn, w1)" "length lsn = 12" "walBuff w1 = walBuff w @ [n]" "node_toBytes n = Ok (encode op lsn)"
      "w_fd (walWriter w1) = w_fd (walWriter w)" "w_confFD (walWriter w1) = w_confFD (walWriter w)" "w_queue (walWriter w1) = w_queue (walWriter w)"
      "in_page (walWriter w1)" "unat (w_maxOffset (walWriter w1)) = unat (w_maxOffset (walWriter w)) + log_size op"
    using log_add_form[of op w] Cons.prems by auto
  have "nodes_bytes (walBuff w1) = Ok (old @ encode op lsn)" using nodes_bytes_append[OF Cons.prems(4) a(4)] a(3) by simp
  from Cons.IH[OF _ a(8) _ this] Cons.prems(1,3) a show ?case by (fastforce simp: bindS_def returnS_def)
qed (simp add: returnS_def)

text \<open>Reading a record that lies on the first page.\<close>

lemma read_record:
  assumes "rm_fd rm = Some fd" "f_err fd = None" "f_data fd = pre @ encode op lsn @ post" "length pre = unat off" "unat off + log_size op < 8192"
    and "log_valid op" "length lsn = 12"
  shows "rec_readLogHeader off rm = Ok \<lparr>lh_lsn = lsn, lh_pageId = log_page op, lh_logSize = word_of_nat (log_size op), lh_multiPage = False\<rparr>"
    "readFullLog off (word_of_nat (log_size op)) lsn rm = Ok (replayed op lsn)"
proof -
  have len: "25 < log_size op" by (cases op) simp_all
  have len2: "log_size op < 8192" using assms(5) by simp
  have small: "unat (word_of_nat n :: u32) = n" if "n < 8192" for n using that by (simp add: unsigned_of_nat take_bit_nat_eq_self)
  note sz = small[OF len2]
  have mp: "IsMultipage off (off + n) 8192 = Ok False" if "unat n \<le> log_size op" for n
  proof -
    have u: "unat (off + n) = unat off + unat n" using that assms(5) by (simp add: unat_word_ariths)
    have "off \<le> off + n" using u by (simp add: word_le_nat_alt)
    moreover have "off div 8192 = 0" "(off + n) div 8192 = 0" using u that assms(5) by (simp_all add: word_unat_eq_iff unat_div_distrib)
    ultimately show ?thesis by (simp add: IsMultipage_def not_less)
  qed
  have rd: "ReadAt fd n (unat off) = (take n (encode op lsn), None)" if "n \<le> log_size op" for n
    using that assms(2-4,7) length_encode[OF assms(7), of op] by (simp add: ReadAt_ok)
  have pg: "log_page op \<noteq> 0" using assms(6) by (cases op) simp_all
  have h: "take 25 (encode op lsn) = [0] @ lsn @ le32 (word_of_nat (log_size op)) @ le32 (log_page op) @ le32 0"
    using assms(7) by (simp add: encode_def)
  have z: "\<not> BitIsSet (0 :: u8) LOGTYPE_FLAG_POS" by (simp add: BitIsSet_bit)
  show "rec_readLogHeader off rm = Ok \<lparr>lh_lsn = lsn, lh_pageId = log_page op, lh_logSize = word_of_nat (log_size op), lh_multiPage = False\<rparr>"
    using assms(1,7) mp[of 25] rd[of 25] len z pg unfolding rec_readLogHeader_def
    by (simp add: h Let_def slice_def)
  have all: "take (log_size op) (encode op lsn) = encode op lsn" using length_encode[OF assms(7), of op] by simp
  have "IsMultipage off (off + word_of_nat (log_size op)) 8192 = Ok False" using mp sz by simp
  moreover have "ReadAt fd (unat (word_of_nat (log_size op) :: u32)) (unat off) = (encode op lsn, None)" using rd[of "log_size op"] all sz by simp
  ultimately have full: "readFullLog off (word_of_nat (log_size op)) lsn rm = (let arr = encode op lsn in
      bindR (go_slice arr 26 30) (\<lambda>ks. let kSize = unat (of_le32 ks) in bindR (go_slice arr 30 (30 + kSize)) (\<lambda>key.
        if arr ! 25 = op_byte PUT then
          bindR (go_slice arr (30 + kSize) (30 + kSize + 4)) (\<lambda>vs.
          bindR (go_slice arr (30 + kSize + 4) (30 + kSize + 4 + unat (of_le32 vs))) (\<lambda>val.
          Ok \<lparr>o_opType = PUT, o_key = key, o_val = val, o_lsn = lsn, o_multiPage = False\<rparr>))
        else Ok \<lparr>o_opType = DEL, o_key = key, o_val = [], o_lsn = lsn, o_multiPage = False\<rparr>)))"
    using assms(1) len length_encode[OF assms(7), of op] by (auto simp: readFullLog_def Let_def)
  have split: "encode op lsn = take 25 (encode op lsn) @ log_body op" "length (take 25 (encode op lsn)) = 25"
    using h assms(7) length_encode[OF assms(7), of op] len by (simp_all add: encode_def)
  define H where "H = take 25 (encode op lsn)"
  have H: "encode op lsn = H @ log_body op" "length H = 25" using split by (simp_all add: H_def)
  show "readFullLog off (word_of_nat (log_size op)) lsn rm = Ok (replayed op lsn)"
  proof (cases op)
    case (PutOp p k v)
    have "unat (word_of_nat (length k) :: u32) = length k" "unat (word_of_nat (length v) :: u32) = length v"
      using len2 by (auto intro!: small simp: PutOp)
    moreover have "drop (5 + n) (x # xs) = drop (4 + n) xs" "drop (9 + n) (x # xs) = drop (8 + n) xs" for n and x :: u8 and xs by (simp_all add: drop_Cons')
    ultimately show ?thesis unfolding full H(1) Let_def using H(2) by (simp add: PutOp go_slice_def slice_def nth_append)
  next
    case (DelOp p k)
    have "unat (word_of_nat (length k) :: u32) = length k" using len2 by (auto intro!: small simp: DelOp)
    then show ?thesis unfolding full H(1) Let_def using H(2) by (simp add: DelOp go_slice_def slice_def nth_append)
  qed
qed

lemma walk_records:
  "rm_fd rm = Some fd \<Longrightarrow> f_err fd = None \<Longrightarrow> f_data fd = pre @ concat (map2 encode ops lsns) \<Longrightarrow> length pre = unat off \<Longrightarrow>
   length (f_data fd) < 8192 \<Longrightarrow> endOff = word_of_nat (length (f_data fd)) \<Longrightarrow> length lsns = length ops \<Longrightarrow> \<forall>l\<in>set lsns. length l = 12 \<Longrightarrow>
   \<forall>op\<in>set ops. log_valid op \<Longrightarrow> length ops < fuel \<Longrightarrow>
   walkThroughRecovery ins del fuel rm off endOff t = Some (reapply_all ins del (map2 replayed ops lsns) t)"
proof (induction ops arbitrary: lsns pre off fuel t)
  case Nil
  then obtain n where n: "fuel = Suc n" by (cases fuel) auto
  have "unat endOff = unat off" using Nil by (simp add: unsigned_of_nat take_bit_nat_eq_self)
  then show ?case using n by (simp add: word_less_nat_alt returnS_def)
next
  case (Cons op ops)
  obtain lsn lsns' where l: "lsns = lsn # lsns'" using Cons.prems(7) by (cases lsns) auto
  obtain n where n: "fuel = Suc n" using Cons.prems(10) by (cases fuel) auto
  have len: "length lsn = 12" using Cons.prems(8) by (simp add: l)
  have data: "f_data fd = pre @ encode op lsn @ concat (map2 encode ops lsns')" using Cons.prems(3) by (simp add: l)
  have bound: "unat off + log_size op < 8192" using Cons.prems(4,5) data length_encode[OF len, of op] by simp
  have v: "log_valid op" using Cons.prems(9) by simp
  note rd = read_record[OF Cons.prems(1,2) data Cons.prems(4) bound v len]
  have e: "unat endOff = length (f_data fd)" using Cons.prems(5,6) by (simp add: unsigned_of_nat take_bit_nat_eq_self)
  have "unat off < unat endOff" using e data length_encode[OF len, of op] Cons.prems(4) by (cases op) simp_all
  then have lt: "off < endOff" by (simp add: word_less_nat_alt)
  have mp: "\<not> o_multiPage (replayed op lsn)" by (cases op) simp_all
  have sz: "unat (word_of_nat (log_size op) :: u32) = log_size op" using bound by (simp add: unsigned_of_nat take_bit_nat_eq_self)
  have off': "length (pre @ encode op lsn) = unat (off + word_of_nat (log_size op))"
    using Cons.prems(4) length_encode[OF len, of op] bound sz by (simp add: unat_word_ariths)
  have go: "walkThroughRecovery ins del n rm (off + word_of_nat (log_size op)) endOff t' = Some (reapply_all ins del (map2 replayed ops lsns') t')" for t'
    using Cons.IH[OF Cons.prems(1,2) _ off' Cons.prems(5,6), of lsns' n t'] Cons.prems(7-10) data by (simp add: l n)
  show ?case
  proof (cases "reapplyLog ins del (replayed op lsn) t")
    case (Pair r t')
    then show ?thesis using n lt rd mp go[of t'] by (cases r) (simp_all add: l bindS_def)
  qed
qed

lemma BLogWrite_files:
  assumes "nodes_bytes (walBuff w) = Ok bs" "f_err (w_fd (walWriter w)) = None" "w_queue (walWriter w) = []"
  shows "\<exists>w'. BLogWrite w = (Ok (), w') \<and> w_confFD (walWriter w') = w_confFD (walWriter w) \<and> f_err (w_fd (walWriter w')) = None
     \<and> f_data (w_fd (walWriter w')) = f_data (w_fd (walWriter w)) @ bs"
proof (cases "walBuff w = []")
  case False
  then show ?thesis using assms run_appends [of "AddJob bs (walWriter w)"] by (auto simp: BLogWrite_def flushWal_def AddJob_def)
qed (use assms in \<open>auto simp: BLogWrite_def flushWal_def\<close>)

definition first_page :: bytes where
  "first_page = le32 65544 @ le32 0 @ [0x80] @ le32 8 @ first_lsn"

lemma new_log:
  assumes "f_data f = []" "f_err f = None" "f_err c = None" "NewWal f c = Ok w"
  shows "f_data (w_fd (walWriter w)) = first_page" "f_err (w_fd (walWriter w)) = None" "walBuff w = []" "w_queue (walWriter w) = []"
    "w_maxOffset (walWriter w) = 25" "\<exists>c'. w_confFD (walWriter w) = Some c' \<and> f_data c' = first_lsn \<and> f_err c' = None"
proof -
  have "CheckPoint_toBytes \<lparr>c_flag = 0x80, c_redoPoint = 8, c_checkpointLSN = first_lsn\<rparr> = Ok first_page"
    by (simp add: CheckPoint_toBytes_def checkLogOverflow_def first_lsn_def WALPageHeader_toBytes_def Let_def first_page_def)
  then have "w = \<lparr>walBuff = [], walWriter = \<lparr>w_fd = f\<lparr>f_data := first_page, f_durable := first_page\<rparr>, w_confFD = Some (c\<lparr>f_data := first_lsn, f_durable := first_lsn\<rparr>),
      w_queue = [], w_running = False, w_maxPage = 0, w_maxOffset = 25\<rparr>\<rparr>"
    using assms by (simp add: NewWal_def NewWalWriter_def loadMaxLSN_def initializeWriter_def orPanic_def bindS_def liftR_def
        on_fd_def saveCheckpoint_def file_simps write_at_def)
  then show "f_data (w_fd (walWriter w)) = first_page" "f_err (w_fd (walWriter w)) = None" "walBuff w = []" "w_queue (walWriter w) = []"
    "w_maxOffset (walWriter w) = 25" "\<exists>c'. w_confFD (walWriter w) = Some c' \<and> f_data c' = first_lsn \<and> f_err c' = None"
    using assms by simp_all
qed

lemma length_first_page [simp]: "length first_page = 25"
  by (simp add: first_page_def first_lsn_def)

text \<open>The walk starts at the checkpoint that a new log begins with.\<close>

lemma Recover_first:
  assumes "rm_fd rm = Some fd" "f_err fd = None" "f_data fd = first_page @ rest" "rm_checkpointLSN rm = first_lsn" "rm_walSize rm = length (f_data fd)"
    and "length (f_data fd) < 8192" "rest = [] \<or> 8 \<le> length rest"
  shows "Recover ins del (Suc fuel) rm t = (if rest = [] then Some (Ok (), t) else walkThroughRecovery ins del fuel rm 25 (word_of_nat (length (f_data fd))) t)"
proof -
  let ?stop = "word_of_nat (length (f_data fd)) :: u32"
  have fl: "length first_lsn = 12" "of_le32 (take 4 first_lsn) = 0" "of_le32 (slice 4 8 first_lsn) = 8" by (simp_all add: first_lsn_def slice_def)
  have sl: "of_le32 (slice 1 5 (0x80 # le32 8 @ first_lsn)) = 8" by (simp add: slice_def)
  have "ReadAt fd CHECKPOINT_SIZE 8 = ([0x80] @ le32 8 @ first_lsn, None)"
    using assms(2,3) by (simp add: ReadAt_ok first_page_def) (simp add: first_lsn_def)
  then have R: "Recover ins del (Suc fuel) rm t = walkThroughRecovery ins del (Suc fuel) rm 8 ?stop t"
    using assms(1,4,5) fl sl by (simp add: Recover_def Let_def del: walkThroughRecovery.simps)
  have e: "unat ?stop = length (f_data fd)" using assms(6) by (simp add: unsigned_of_nat take_bit_nat_eq_self)
  have lt: "8 < ?stop" using e assms(3) by (simp add: word_less_nat_alt)
  have mp: "IsMultipage 8 (8 + 25) 8192 = Ok False" by (simp add: IsMultipage_def)
  show ?thesis
  proof (cases "rest = []")
    case True
    then have "rec_readLogHeader 8 rm = Err EOF" using assms(1-3) mp by (simp add: rec_readLogHeader_def Let_def ReadAt_ok)
    then show ?thesis using R lt True by simp
  next
    case False
    have b: "BitIsSet (0x80 :: u8) LOGTYPE_FLAG_POS" by (simp add: BitIsSet_bit)
    have "drop 8 first_page = [0x80] @ le32 8 @ first_lsn" by (simp add: first_page_def)
    then have "rec_readLogHeader 8 rm = Err (InvalidLogError ''Log is a checkpoint'')"
      using assms(1-3,7) mp False b by (simp add: rec_readLogHeader_def Let_def ReadAt_ok)
    then show ?thesis using R lt False by simp
  qed
qed

lemma log_size_pos: "31 \<le> log_size op" if "log_valid op"
  using that by (cases op) (simp_all add: Suc_le_eq)

lemma recovery_reads:
  assumes "f_data f = []" "f_err f = None" "f_err c = None" "NewWal f c = Ok w"
    and "\<forall>op\<in>set ops. log_valid op" "25 + sum_list (map log_size ops) < 8192"
  shows "\<exists>lsns w1 w2 rm. log_all ops w = (Ok lsns, w1) \<and> length lsns = length ops \<and> BLogWrite w1 = (Ok (), w2)
     \<and> NewRecoveryMngr (w_confFD (walWriter w2)) (Some (w_fd (walWriter w2))) = Ok (Some rm)
     \<and> (\<forall>fuel ins del (t :: 't). length ops + 1 < fuel \<longrightarrow> Recover ins del fuel rm t = Some (reapply_all ins del (map2 replayed ops lsns) t))"
proof -
  note nw = new_log[OF assms(1-4)]
  have ip: "in_page (walWriter w)" "unat (w_maxOffset (walWriter w)) = 25" using nw(5) by (simp_all add: in_page_def)
  obtain lsns w1 where l: "log_all ops w = (Ok lsns, w1)" "length lsns = length ops" "\<forall>l\<in>set lsns. length l = 12"
      "nodes_bytes (walBuff w1) = Ok (concat (map2 encode ops lsns))" "w_fd (walWriter w1) = w_fd (walWriter w)"
      "w_confFD (walWriter w1) = w_confFD (walWriter w)" "w_queue (walWriter w1) = w_queue (walWriter w)"
    using log_all_form[OF assms(5) ip(1), of "[]"] nw(3) ip(2) assms(6) by auto
  let ?rest = "concat (map2 encode ops lsns)"
  obtain w2 where w2: "BLogWrite w1 = (Ok (), w2)" "w_confFD (walWriter w2) = w_confFD (walWriter w)" "f_err (w_fd (walWriter w2)) = None"
      "f_data (w_fd (walWriter w2)) = first_page @ ?rest"
    using BLogWrite_files[OF l(4)] l(5-7) nw by auto
  let ?fd = "w_fd (walWriter w2)"
  have "length ls = length os \<Longrightarrow> \<forall>l\<in>set ls. length l = 12 \<Longrightarrow> length (concat (map2 encode os ls)) = sum_list (map log_size os)" for os ls
    by (induction os ls rule: list_induct2') (simp_all add: length_encode)
  from this[OF l(2,3)] have len: "length ?rest = sum_list (map log_size ops)" .
  obtain c' where c': "w_confFD (walWriter w2) = Some c'" "f_data c' = first_lsn" "f_err c' = None" using w2(2) nw(6) by auto
  let ?rm = "\<lparr>rm_fd = Some ?fd, rm_walSize = length (f_data ?fd), rm_checkpointLSN = first_lsn\<rparr>"
  have fl: "length first_lsn = 12" by (simp add: first_lsn_def)
  have rm: "NewRecoveryMngr (w_confFD (walWriter w2)) (Some ?fd) = Ok (Some ?rm)" using c' w2(3) fl by (auto simp: NewRecoveryMngr_def)
  have lt: "length (f_data ?fd) < 8192" using w2(4) len assms(6) by simp
  have "Recover ins del fuel ?rm t = Some (reapply_all ins del (map2 replayed ops lsns) t)" if f: "length ops + 1 < fuel" for fuel ins del and t :: 't
  proof -
    obtain n where n: "fuel = Suc n" "length ops < n" using f by (cases fuel) auto
    have walk: "walkThroughRecovery ins del n ?rm 25 (word_of_nat (length (f_data ?fd))) t = Some (reapply_all ins del (map2 replayed ops lsns) t)"
      using walk_records[of ?rm ?fd first_page ops lsns 25 "word_of_nat (length (f_data ?fd))" n ins del t] w2(3,4) lt l(2,3) assms(5) n(2) by simp
    show ?thesis
    proof (cases ops)
      case Nil
      then show ?thesis using Recover_first[of ?rm ?fd "[]" ins del n t] w2(3,4) lt n(1) by (simp add: returnS_def)
    next
      case (Cons op os)
      have r: "31 \<le> length ?rest" using len log_size_pos[of op] assms(5) by (simp add: Cons)
      have r8: "?rest = [] \<or> 8 \<le> length ?rest" using r by linarith
      have ne: "?rest \<noteq> []" using r by (metis list.size(3) not_numeral_le_zero)
      have "Recover ins del (Suc n) ?rm t = walkThroughRecovery ins del n ?rm 25 (word_of_nat (length (f_data ?fd))) t"
        using Recover_first[of ?rm ?fd ?rest ins del n t, OF _ w2(3,4) _ _ lt r8] ne by (simp only: if_False simp_thms RecoveryMngr.simps)
      then show ?thesis using walk n(1) by simp
    qed
  qed
  then show ?thesis using l(1,2) w2(1) rm by blast
qed

section \<open>Properties\<close>

text \<open>C8. Recovery ends on every log file of less than 4 GiB, whatever bytes the file, the configuration and the index hold: with as many rounds as the file has bytes
  the walk through the log has returned, with a result, an error or a panic.\<close>

theorem recovery_terminates:
  assumes "rm_fd rm = Some fd" "length (f_data fd) < 2 ^ 32" "rm_walSize rm \<le> fuel"
  shows "\<exists>out. Recover ins del fuel rm t = Some out"
proof -
  have "unat (word_of_nat (rm_walSize rm) :: u32) \<le> fuel"
    using assms(3) by (metis le_trans mod_less_eq_dividend unat_of_nat)
  then have "\<exists>out. walkThroughRecovery ins del fuel rm off (word_of_nat (rm_walSize rm)) t = Some out" for off
    using walk_ends[OF assms(1,2), of "word_of_nat (rm_walSize rm)" off fuel] by (meson diff_le_self le_trans)
  then show ?thesis using assms(1) by (simp add: Recover_def Let_def split: prod.split)
qed

theorem recovery_terminates_witness:
  "\<exists>out. Recover (\<lambda>k v l t. (Ok True, t)) (\<lambda>k l t. (Ok True, t)) 100
     \<lparr>rm_fd = Some (empty_file\<lparr>f_data := replicate 100 0xff\<rparr>), rm_walSize = 100, rm_checkpointLSN = first_lsn\<rparr> () = Some out"
  by (rule recovery_terminates [of _ "empty_file\<lparr>f_data := replicate 100 0xff\<rparr>"]) simp_all

text \<open>C7. What is logged is replayed. For any put and delete records added to a new log that stay on its first page: they are all accepted and flushed; a recovery manager
  opened on the two files of the log then applies exactly these operations to the index, in order, each with its log sequence number, and stops as soon as the index
  reports a failure.\<close>

theorem recovery_replays:
  assumes "f_data f = []" "f_err f = None" "f_err c = None" "NewWal f c = Ok w"
    and "\<forall>op\<in>set ops. log_valid op" "25 + sum_list (map log_size ops) < 8192" "length ops + 1 < fuel"
  shows "\<exists>lsns w1 w2 rm. log_all ops w = (Ok lsns, w1) \<and> length lsns = length ops \<and> BLogWrite w1 = (Ok (), w2)
     \<and> NewRecoveryMngr (w_confFD (walWriter w2)) (Some (w_fd (walWriter w2))) = Ok (Some rm)
     \<and> Recover ins del fuel rm (t :: 't) = Some (reapply_all ins del (map2 replayed ops lsns) t)"
proof -
  obtain lsns w1 w2 rm where r: "log_all ops w = (Ok lsns, w1)" "length lsns = length ops" "BLogWrite w1 = (Ok (), w2)"
      "NewRecoveryMngr (w_confFD (walWriter w2)) (Some (w_fd (walWriter w2))) = Ok (Some rm)"
      "\<forall>fuel ins del (t :: 't). length ops + 1 < fuel \<longrightarrow> Recover ins del fuel rm t = Some (reapply_all ins del (map2 replayed ops lsns) t)"
    using recovery_reads[OF assms(1-6)] by blast
  then show ?thesis using assms(7) by (intro exI[of _ lsns] exI[of _ w1] exI[of _ w2] exI[of _ rm]) simp
qed

theorem recovery_replays_witness:
  "\<exists>w lsns w1 w2 rm l1 l2 l3. NewWal empty_file empty_file = Ok w
     \<and> log_all [PutOp 1 [5] [6, 7], DelOp 2 [8], PutOp 1 [9] [1]] w = (Ok [l1, l2, l3], w1) \<and> BLogWrite w1 = (Ok (), w2)
     \<and> NewRecoveryMngr (w_confFD (walWriter w2)) (Some (w_fd (walWriter w2))) = Ok (Some rm)
     \<and> Recover (\<lambda>k v l t. (Ok True, t @ [(k, v)])) (\<lambda>k l t. (Ok True, t @ [(k, [])])) 9 rm [] = Some (Ok (), [([5], [6, 7]), ([8], []), ([9], [1])])"
proof -
  have e: "f_data empty_file = []" "f_err empty_file = None" by (simp_all add: empty_file_def)
  obtain w where w: "NewWal empty_file empty_file = Ok w" using NewWal_new[OF e e(2)] by blast
  let ?ops = "[PutOp 1 [5] [6, 7], DelOp 2 [8], PutOp 1 [9] [1]]"
  have v: "\<forall>op\<in>set ?ops. log_valid op" "25 + sum_list (map log_size ?ops) < 8192" "length ?ops + 1 < 9" by simp_all
  obtain lsns w1 w2 rm where r: "log_all ?ops w = (Ok lsns, w1)" "length lsns = length ?ops" "BLogWrite w1 = (Ok (), w2)"
      "NewRecoveryMngr (w_confFD (walWriter w2)) (Some (w_fd (walWriter w2))) = Ok (Some rm)"
      "Recover (\<lambda>k v l t. (Ok True, t @ [(k, v)])) (\<lambda>k l t. (Ok True, t @ [(k, [])])) 9 rm []
         = Some (reapply_all (\<lambda>k v l t. (Ok True, t @ [(k, v)])) (\<lambda>k l t. (Ok True, t @ [(k, [])])) (map2 replayed ?ops lsns) [])"
    using recovery_replays [where ins = "\<lambda>k v l t. (Ok True, t @ [(k, v)])" and del = "\<lambda>k l t. (Ok True, t @ [(k, [])])" and t = "[]", OF e e(2) w v] by blast
  obtain l1 l2 l3 where l: "lsns = [l1, l2, l3]" using r(2) by (auto simp: length_Suc_conv)
  then show ?thesis using w r by (auto simp: reapplyLog_def bindS_def orPanic_def returnS_def)
qed

text \<open>C36. A record that crosses the end of any page but the first cannot be read: recovery panics on it, since the place of the page header in the record is computed as
  if the record started on the first page.\<close>

theorem recovery_second_page:
  assumes "rm_fd rm = Some fd" "f_err fd = None" "8192 < unat off" "unat off div 8192 \<noteq> (unat off + unat L) div 8192"
    and "unat off + unat L + 8 \<le> length (f_data fd)" "length (f_data fd) < 2 ^ 32"
  shows "readFullLog off L lsn rm = Panic ''slice bounds out of range''"
proof -
  have u: "unat (off + L) = unat off + unat L" "unat (L + 8) = unat L + 8" using assms(5,6) by (simp_all add: unat_word_ariths)
  have "off \<le> off + L" using u(1) by (simp add: word_le_nat_alt)
  moreover have "off div 8192 \<noteq> (off + L) div 8192"
    using assms(4) u(1) by (simp add: word_unat_eq_iff unat_div_distrib)
  ultimately have mp: "IsMultipage off (off + L) 8192 = Ok True" by (simp add: IsMultipage_def not_less)
  have rd: "ReadAt fd (unat (L + 8)) (unat off) = (take (unat L + 8) (drop (unat off) (f_data fd)), None)" "length (take (unat L + 8) (drop (unat off) (f_data fd))) = unat L + 8"
    using assms(2,5) u(2) by (simp_all add: ReadAt_ok)
  have "L - (off + L - 8192) = 8192 - off" by simp
  moreover have "unat L + 8 < unat (8192 - off :: u32)"
  proof -
    have "unat (8192 - off :: u32) = 8192 + 2 ^ 32 - unat off" using assms(3) by (simp add: unat_sub_if')
    then show ?thesis using assms(3,5,6) by simp
  qed
  ultimately have "cut_header (L - (off + L - 8192)) (take (unat L + 8) (drop (unat off) (f_data fd))) = Panic ''slice bounds out of range''"
    using rd(2) by (simp add: cut_header_def)
  then show ?thesis using assms(1) mp rd by (simp add: readFullLog_def Let_def)
qed

theorem recovery_second_page_witness:
  "readFullLog 16300 200 [] \<lparr>rm_fd = Some (empty_file\<lparr>f_data := replicate 16508 0\<rparr>), rm_walSize = 16508, rm_checkpointLSN = first_lsn\<rparr>
     = Panic ''slice bounds out of range''"
  by (rule recovery_second_page [of _ "empty_file\<lparr>f_data := replicate 16508 0\<rparr>"]) (simp_all add: empty_file_def)

end
