(* ===== verification/Page.thy ===== *)
theory Page
  imports Helpers
begin

text \<open>
  The page of \<^verbatim>\<open>pkg/pager/page.go\<close>: 8192 bytes with a header of 51, updated in place. Each method takes the
  page's latch and releases it by \<^verbatim>\<open>defer\<close>, with no other call in between, so the latch is not part
  of the state. A nil page is \<^const>\<open>None\<close> where the source tests for it.
\<close>

section \<open>Definitions\<close>

abbreviation PAGE_SIZE_BYTES :: nat where "PAGE_SIZE_BYTES \<equiv> 8192"
abbreviation LSN_SIZE_BYTE :: nat where "LSN_SIZE_BYTE \<equiv> 12"
abbreviation CACHE_LINE_SIZE :: nat where "CACHE_LINE_SIZE \<equiv> 646"

text \<open>The bits of the flag byte: \<^verbatim>\<open>iota + 4\<close>.\<close>

abbreviation Dead :: nat where "Dead \<equiv> 4"
abbreviation Dirty :: nat where "Dirty \<equiv> 5"
abbreviation Written :: nat where "Written \<equiv> 6"
abbreviation IsInternal :: nat where "IsInternal \<equiv> 7"

record Page =
  pgeData :: bytes
  PageId :: u32

definition on_flag :: "(u8 \<Rightarrow> u8) \<Rightarrow> Page \<Rightarrow> Page" where
  "on_flag g p = p\<lparr>pgeData := (pgeData p)[0 := g (pgeData p ! 0)]\<rparr>"

definition put32 :: "nat \<Rightarrow> u32 \<Rightarrow> Page \<Rightarrow> Page" where
  "put32 off x p = p\<lparr>pgeData := put_at off (le32 x) (pgeData p)\<rparr>"

definition UpdateRightPtr :: "u32 \<Rightarrow> Page \<Rightarrow> unit res \<times> Page" where
  "UpdateRightPtr pageId p =
     (if pageId = 0 then (Ok (), p)
      else if \<not> BitIsSet (pgeData p ! 0) IsInternal
      then (Err (PagerError ''Invalid node: Only internal nodes can have right pointer in header.''), p)
      else (Ok (), put32 39 pageId p))"

definition MarkAsDead :: "Page \<Rightarrow> unit res \<times> Page" where
  "MarkAsDead p = (Ok (), on_flag (\<lambda>f. SetFlag f [Dead, Dirty]) p)"

definition MarkDirty :: "Page \<Rightarrow> Page" where
  "MarkDirty = on_flag (\<lambda>f. SetFlag f [Dirty])"

definition MarkClean :: "Page \<Rightarrow> Page" where
  "MarkClean = on_flag (\<lambda>f. UnsetFlag f [Dirty])"

definition IsDeleted :: "Page \<Rightarrow> bool" where
  "IsDeleted p = BitIsSet (pgeData p ! 0) Dead"

definition UpdateLSN :: "bytes option \<Rightarrow> Page \<Rightarrow> unit res \<times> Page" where
  "UpdateLSN lsn p = (case lsn of
      None \<Rightarrow> (Err (PagerError ''Invalid LSN provided''), p)
    | Some l \<Rightarrow>
        if length l \<noteq> LSN_SIZE_BYTE then (Err (PagerError ''LSN size is invalid.''), p)
        else (Ok (), p\<lparr>pgeData := put_at 5 l (pgeData p)\<rparr>))"

definition GetLSN :: "Page \<Rightarrow> bytes" where
  "GetLSN p = slice 5 (5 + LSN_SIZE_BYTE) (pgeData p)"

definition GetPageByteData :: "Page option \<Rightarrow> bytes res" where
  "GetPageByteData p = (case p of
      None \<Rightarrow> Err (PagerError ''Page is not set'')
    | Some p \<Rightarrow> Ok (pgeData p))"

definition initializePage :: "u32 \<Rightarrow> bool \<Rightarrow> Page \<Rightarrow> unit res \<times> Page" where
  "initializePage pageId internal p =
     (if pageId = 0 then (Err (PagerError ''Invalid page id provided''), p)
      else
        (let p = put32 1 pageId (p\<lparr>PageId := pageId\<rparr>) in
         (Ok (), if internal then on_flag (\<lambda>f. SetFlag f [IsInternal]) p else p)))"

definition page_Clear :: "Page option \<Rightarrow> Page res" where
  "page_Clear p = (case p of
      None \<Rightarrow> Err (PagerError ''Page is not set'')
    | Some p \<Rightarrow> Ok (p\<lparr>pgeData := replicate PAGE_SIZE_BYTES 0\<rparr>))"

definition page_IsInternal :: "Page \<Rightarrow> bool" where
  "page_IsInternal p = BitIsSet (pgeData p ! 0) IsInternal"

definition UpdateUpperOffset :: "u32 \<Rightarrow> Page \<Rightarrow> Page" where
  "UpdateUpperOffset = put32 25"

definition UpdateLowerOffset :: "u32 \<Rightarrow> Page \<Rightarrow> Page" where
  "UpdateLowerOffset = put32 29"

definition UpdateItemCount :: "u32 \<Rightarrow> Page \<Rightarrow> Page" where
  "UpdateItemCount = put32 17"

definition UpdateFreeSpace :: "u32 \<Rightarrow> Page \<Rightarrow> Page" where
  "UpdateFreeSpace = put32 21"

definition UpdateRightSibling :: "u32 \<Rightarrow> Page \<Rightarrow> Page" where
  "UpdateRightSibling = put32 43"

definition UpdateLeftSibling :: "u32 \<Rightarrow> Page \<Rightarrow> Page" where
  "UpdateLeftSibling = put32 47"

text \<open>\<^verbatim>\<open>copy(p.pgeData[5:17], lsn)\<close> copies at most twelve bytes.\<close>

definition SetLSN :: "bytes \<Rightarrow> Page \<Rightarrow> Page" where
  "SetLSN lsn p = p\<lparr>pgeData := put_at 5 (take 12 lsn) (pgeData p)\<rparr>"

definition SwapData :: "bytes option \<Rightarrow> Page \<Rightarrow> unit res \<times> Page" where
  "SwapData buff p = (case buff of
      None \<Rightarrow> (Err (PagerError ''No byte data provided''), p)
    | Some b \<Rightarrow> (Ok (), p\<lparr>pgeData := b\<rparr>))"

text \<open>Each chunk but the first; the chunks end before the end of the page.\<close>

definition TestAddDummyData :: "Page \<Rightarrow> unit res \<times> Page" where
  "TestAddDummyData p =
     (let n = PAGE_SIZE_BYTES div CACHE_LINE_SIZE in
      (Ok (), p\<lparr>pgeData := take CACHE_LINE_SIZE (pgeData p)
                  @ map (\<lambda>b. b OR 1) (slice CACHE_LINE_SIZE (n * CACHE_LINE_SIZE) (pgeData p))
                  @ drop (n * CACHE_LINE_SIZE) (pgeData p)\<rparr>))"

section \<open>Well-formed pages\<close>

definition page_wf :: "Page \<Rightarrow> bool" where
  "page_wf p \<longleftrightarrow> length (pgeData p) = PAGE_SIZE_BYTES"

lemma on_flag_wf [simp]: "page_wf (on_flag g p) = page_wf p"
  by (simp add: page_wf_def on_flag_def)

lemma put32_wf [simp]: "off + 4 \<le> 8192 \<Longrightarrow> page_wf p \<Longrightarrow> page_wf (put32 off x p)"
  by (simp add: page_wf_def put32_def)

lemma on_flag_first [simp]: "page_wf p \<Longrightarrow> pgeData (on_flag g p) ! 0 = g (pgeData p ! 0)"
  by (simp add: page_wf_def on_flag_def)

lemma on_flag_slice [simp]: "1 \<le> a \<Longrightarrow> slice a b (pgeData (on_flag g p)) = slice a b (pgeData p)"
  by (rule slice_eqI) (auto simp: on_flag_def)

text \<open>The contract of a header field that is not the flag byte: where its bytes are, and that an update
  writes the encoding of the value there and nothing else.\<close>

locale header_field =
  fixes put :: "'a \<Rightarrow> Page \<Rightarrow> Page"
    and enc :: "'a \<Rightarrow> bytes"
    and ok :: "'a \<Rightarrow> bool"
    and off :: nat
    and width :: nat
  assumes put_data: "ok x \<Longrightarrow> page_wf p \<Longrightarrow> pgeData (put x p) = put_at off (enc x) (pgeData p)"
    and enc_length: "ok x \<Longrightarrow> length (enc x) = width"
    and field_fits: "1 \<le> off" "off + width \<le> PAGE_SIZE_BYTES"
begin

lemma put_wf: "ok x \<Longrightarrow> page_wf p \<Longrightarrow> page_wf (put x p)"
  using put_data [of x p] enc_length [of x] field_fits by (simp add: page_wf_def)

lemma get_put: "ok x \<Longrightarrow> page_wf p \<Longrightarrow> b = off + width \<Longrightarrow> slice off b (pgeData (put x p)) = enc x"
  using put_data [of x p] enc_length [of x] field_fits by (simp add: page_wf_def)

lemma get_other: "ok x \<Longrightarrow> page_wf p \<Longrightarrow> b \<le> off \<or> off + width \<le> a \<Longrightarrow>
    slice a b (pgeData (put x p)) = slice a b (pgeData p)"
  using put_data [of x p] enc_length [of x] field_fits by (simp add: page_wf_def)

lemma flag_same: "ok x \<Longrightarrow> page_wf p \<Longrightarrow> pgeData (put x p) ! 0 = pgeData p ! 0"
  using put_data [of x p] enc_length [of x] field_fits by (simp add: page_wf_def nth_put_at)

lemmas laws = put_wf get_put get_other flag_same

end

interpretation item_count: header_field UpdateItemCount le32 "\<lambda>_. True" 17 4
  by unfold_locales (simp_all add: UpdateItemCount_def put32_def)

interpretation free_space: header_field UpdateFreeSpace le32 "\<lambda>_. True" 21 4
  by unfold_locales (simp_all add: UpdateFreeSpace_def put32_def)

interpretation upper_offset: header_field UpdateUpperOffset le32 "\<lambda>_. True" 25 4
  by unfold_locales (simp_all add: UpdateUpperOffset_def put32_def)

interpretation lower_offset: header_field UpdateLowerOffset le32 "\<lambda>_. True" 29 4
  by unfold_locales (simp_all add: UpdateLowerOffset_def put32_def)

interpretation right_sibling: header_field UpdateRightSibling le32 "\<lambda>_. True" 43 4
  by unfold_locales (simp_all add: UpdateRightSibling_def put32_def)

interpretation left_sibling: header_field UpdateLeftSibling le32 "\<lambda>_. True" 47 4
  by unfold_locales (simp_all add: UpdateLeftSibling_def put32_def)

interpretation page_lsn: header_field SetLSN "\<lambda>l. l" "\<lambda>l. length l = LSN_SIZE_BYTE" 5 12
  by unfold_locales (simp_all add: SetLSN_def)

interpretation page_id: header_field "\<lambda>x p. put32 1 x (p\<lparr>PageId := x\<rparr>)" le32 "\<lambda>_. True" 1 4
  by unfold_locales (simp_all add: put32_def)

interpretation right_ptr: header_field "put32 39" le32 "\<lambda>_. True" 39 4
  by unfold_locales (simp_all add: put32_def)

lemmas field_laws = item_count.laws free_space.laws upper_offset.laws lower_offset.laws right_sibling.laws
  left_sibling.laws page_lsn.laws page_id.laws right_ptr.laws

section \<open>The header as a record\<close>

record header =
  ph_dead :: bool
  ph_dirty :: bool
  ph_written :: bool
  ph_internal :: bool
  ph_id :: u32
  ph_lsn :: bytes
  ph_count :: u32
  ph_free :: u32
  ph_upper :: u32
  ph_lower :: u32
  ph_right_ptr :: u32
  ph_right :: u32
  ph_left :: u32

definition u32_at :: "nat \<Rightarrow> Page \<Rightarrow> u32" where
  "u32_at off p = of_le32 (slice off (off + 4) (pgeData p))"

definition header_of :: "Page \<Rightarrow> header" where
  "header_of p =
     \<lparr>ph_dead = IsDeleted p, ph_dirty = BitIsSet (pgeData p ! 0) Dirty, ph_written = BitIsSet (pgeData p ! 0) Written,
      ph_internal = page_IsInternal p, ph_id = u32_at 1 p, ph_lsn = GetLSN p, ph_count = u32_at 17 p,
      ph_free = u32_at 21 p, ph_upper = u32_at 25 p, ph_lower = u32_at 29 p, ph_right_ptr = u32_at 39 p,
      ph_right = u32_at 43 p, ph_left = u32_at 47 p\<rparr>"

datatype hdr_op = Kill | SetDirty | SetClean | PutLSN bytes | Init u32 bool | Upper u32 | Lower u32 | Count u32 | Free u32
  | RightPtr u32 | RightSib u32 | LeftSib u32

fun apply_op :: "hdr_op \<Rightarrow> Page \<Rightarrow> Page" where
  "apply_op Kill p = snd (MarkAsDead p)"
| "apply_op SetDirty p = MarkDirty p"
| "apply_op SetClean p = MarkClean p"
| "apply_op (PutLSN l) p = snd (UpdateLSN (Some l) p)"
| "apply_op (Init i b) p = snd (initializePage i b p)"
| "apply_op (Upper x) p = UpdateUpperOffset x p"
| "apply_op (Lower x) p = UpdateLowerOffset x p"
| "apply_op (Count x) p = UpdateItemCount x p"
| "apply_op (Free x) p = UpdateFreeSpace x p"
| "apply_op (RightPtr x) p = snd (UpdateRightPtr x p)"
| "apply_op (RightSib x) p = UpdateRightSibling x p"
| "apply_op (LeftSib x) p = UpdateLeftSibling x p"

text \<open>What each update means for the record: an LSN of the wrong size, page id 0 and a right pointer on a
  leaf or of page 0 change nothing, and initialising a page never clears the internal flag.\<close>

fun spec_op :: "hdr_op \<Rightarrow> header \<Rightarrow> header" where
  "spec_op Kill h = h\<lparr>ph_dead := True, ph_dirty := True\<rparr>"
| "spec_op SetDirty h = h\<lparr>ph_dirty := True\<rparr>"
| "spec_op SetClean h = h\<lparr>ph_dirty := False\<rparr>"
| "spec_op (PutLSN l) h = (if length l = 12 then h\<lparr>ph_lsn := l\<rparr> else h)"
| "spec_op (Init i b) h = (if i = 0 then h else h\<lparr>ph_id := i, ph_internal := (b \<or> ph_internal h)\<rparr>)"
| "spec_op (Upper x) h = h\<lparr>ph_upper := x\<rparr>"
| "spec_op (Lower x) h = h\<lparr>ph_lower := x\<rparr>"
| "spec_op (Count x) h = h\<lparr>ph_count := x\<rparr>"
| "spec_op (Free x) h = h\<lparr>ph_free := x\<rparr>"
| "spec_op (RightPtr x) h = (if x \<noteq> 0 \<and> ph_internal h then h\<lparr>ph_right_ptr := x\<rparr> else h)"
| "spec_op (RightSib x) h = h\<lparr>ph_right := x\<rparr>"
| "spec_op (LeftSib x) h = h\<lparr>ph_left := x\<rparr>"

lemmas header_simps = header_of_def u32_at_def IsDeleted_def page_IsInternal_def GetLSN_def

lemma flag_header:
  "page_wf p \<Longrightarrow> header_of (on_flag g p) = header_of p\<lparr>ph_dead := BitIsSet (g (pgeData p ! 0)) Dead,
     ph_dirty := BitIsSet (g (pgeData p ! 0)) Dirty, ph_written := BitIsSet (g (pgeData p ! 0)) Written,
     ph_internal := BitIsSet (g (pgeData p ! 0)) IsInternal\<rparr>"
  by (simp add: header_simps)

lemma UpdateLSN_SetLSN: "length l = 12 \<Longrightarrow> snd (UpdateLSN (Some l) p) = SetLSN l p"
  by (simp add: UpdateLSN_def SetLSN_def)

lemma apply_op_wf: "page_wf p \<Longrightarrow> page_wf (apply_op op p)"
proof (cases op)
  case (PutLSN l)
  assume "page_wf p"
  then show ?thesis using PutLSN by (cases "length l = 12") (simp_all add: UpdateLSN_SetLSN field_laws, simp add: UpdateLSN_def)
qed (simp_all add: MarkAsDead_def MarkDirty_def MarkClean_def initializePage_def UpdateRightPtr_def field_laws Let_def
  del: One_nat_def)

lemma apply_op_header:
  assumes "page_wf p"
  shows "header_of (apply_op op p) = spec_op op (header_of p)"
proof (cases op)
  case (PutLSN l)
  then show ?thesis using assms
    by (cases "length l = 12") (simp_all add: UpdateLSN_SetLSN field_laws header_simps, simp add: UpdateLSN_def)
next
  case (Init i b)
  then show ?thesis using assms hflags.is_set_set
    by (simp add: initializePage_def Let_def flag_header field_laws header_simps del: One_nat_def)
next
  case (RightPtr x)
  then show ?thesis using assms by (simp add: UpdateRightPtr_def header_simps field_laws)
qed (use assms hflags.is_set_set hflags.is_set_unset in
  \<open>simp_all add: MarkAsDead_def MarkDirty_def MarkClean_def flag_header header_simps field_laws\<close>)

lemma apply_ops_header:
  "page_wf p \<Longrightarrow> header_of (fold apply_op ops p) = fold spec_op ops (header_of p) \<and> page_wf (fold apply_op ops p)"
  by (induction ops arbitrary: p) (auto simp: apply_op_header apply_op_wf)

section \<open>Properties\<close>

text \<open>C26. The header updates refine updates of a record with one field per header entry: after any sequence
  of updates each field holds its last value, no update touches another field, and the page keeps
  its size. Marking a page dead also marks it dirty.\<close>

theorem header_refines:
  assumes "page_wf p"
  shows "header_of (fold apply_op ops p) = fold spec_op ops (header_of p) \<and> page_wf (fold apply_op ops p)"
  by (rule apply_ops_header [OF assms])

definition blank :: Page where
  "blank = \<lparr>pgeData = replicate PAGE_SIZE_BYTES 0, PageId = 0\<rparr>"

theorem header_refines_witness:
  "ph_left (header_of (fold apply_op [Init 7 True, LeftSib 3, RightSib 9, Count 4, Kill, SetClean] blank)) = 3
   \<and> ph_dead (header_of (fold apply_op [Init 7 True, LeftSib 3, RightSib 9, Count 4, Kill, SetClean] blank))
   \<and> \<not> ph_dirty (header_of (fold apply_op [Init 7 True, LeftSib 3, RightSib 9, Count 4, Kill, SetClean] blank))"
proof -
  have "page_wf blank" by (simp add: page_wf_def blank_def)
  from header_refines [OF this, of "[Init 7 True, LeftSib 3, RightSib 9, Count 4, Kill, SetClean]"] show ?thesis by simp
qed

end
