(* ===== verification/Frame.thy ===== *)
theory Frame
  imports Page
begin

text \<open>
  A slot of the buffer pool, \<^verbatim>\<open>pkg/buffermanager/frame.go\<close>: a page with its metadata and its latch. The latch outlives a
  call (\<^verbatim>\<open>Acquire\<close> and \<^verbatim>\<open>Release\<close> are for clients), so it is part of the state. The pointer to the clock entry that holds the
  frame is the entry's index in the pool. The atomic flags are plain booleans. A nil frame is
  \<^const>\<open>None\<close> where the source tests for it.
\<close>

record Frame =
  fr_page :: Page
  fr_isInternal :: bool
  fr_isDeleted :: bool
  fr_dirty :: bool
  fr_key :: u32
  fr_parentEntry :: "nat option"
  fr_mu :: rwmutex

definition isDirty :: "Frame \<Rightarrow> bool" where
  "isDirty f = fr_dirty f"

definition frame_MarkDirty :: "Frame \<Rightarrow> Frame" where
  "frame_MarkDirty f = f\<lparr>fr_dirty := True, fr_page := MarkDirty (fr_page f)\<rparr>"

definition frame_MarkClean :: "Frame \<Rightarrow> Frame" where
  "frame_MarkClean f = f\<lparr>fr_dirty := False, fr_page := MarkClean (fr_page f)\<rparr>"

definition MarkDead :: "Frame \<Rightarrow> Frame" where
  "MarkDead f = f\<lparr>fr_isDeleted := True, fr_dirty := True, fr_page := snd (MarkAsDead (fr_page f))\<rparr>"

definition IsDead :: "Frame \<Rightarrow> bool" where
  "IsDead f = fr_isDeleted f"

definition getKey :: "Frame \<Rightarrow> u32" where
  "getKey f = fr_key f"

definition GetPage :: "Frame \<Rightarrow> Page" where
  "GetPage f = fr_page f"

text \<open>The metadata of \<^verbatim>\<open>SetData\<close>; the call also marks the parent entry occupied (theory \<open>Clock\<close>).\<close>

definition SetData_frame :: "Page \<Rightarrow> bool \<Rightarrow> Frame \<Rightarrow> Frame" where
  "SetData_frame p markDirty f =
     (let f = f\<lparr>fr_isInternal := page_IsInternal p, fr_isDeleted := False\<rparr>;
          f = (if markDirty then f\<lparr>fr_dirty := True\<rparr> else f) in
      f\<lparr>fr_key := PageId p\<rparr>)"

definition on_latch :: "(rwmutex \<Rightarrow> 'a res \<times> rwmutex) \<Rightarrow> Frame \<Rightarrow> 'a res \<times> Frame" where
  "on_latch m f = (case m (fr_mu f) of (r, mu) \<Rightarrow> (r, f\<lparr>fr_mu := mu\<rparr>))"

definition ByteData :: "Frame \<Rightarrow> bytes res \<times> Frame" where
  "ByteData =
     bindS (on_latch RLock) (\<lambda>_ f.
       case GetPageByteData (Some (fr_page f)) of
         Ok d \<Rightarrow> bindS (on_latch RUnlock) (\<lambda>_. returnS d) f
       | Err e \<Rightarrow> bindS (on_latch RUnlock) (\<lambda>_. failS e) f
       | Panic p \<Rightarrow> (Panic p, f)
       | Blocked \<Rightarrow> (Blocked, f))"

definition frame_Clear :: "Frame option \<Rightarrow> Frame res" where
  "frame_Clear f = (case f of
      None \<Rightarrow> Err (BufferManagerError ''Frame is not set'')
    | Some f \<Rightarrow>
        (let f = f\<lparr>fr_dirty := False, fr_key := 0\<rparr> in
         case page_Clear (Some (fr_page f)) of
           Ok p \<Rightarrow> Ok (f\<lparr>fr_page := p\<rparr>)
         | _ \<Rightarrow> Ok f))"

definition RawBufferSlice :: "Frame \<Rightarrow> (bytes \<times> nat) res" where
  "RawBufferSlice f = bindR (GetPageByteData (Some (fr_page f))) (\<lambda>data. Ok (data, PAGE_SIZE_BYTES))"

definition Acquire :: "bool \<Rightarrow> Frame \<Rightarrow> unit res \<times> Frame" where
  "Acquire shared = (if shared then on_latch RLock else on_latch Lock)"

definition Release :: "bool \<Rightarrow> Frame \<Rightarrow> unit res \<times> Frame" where
  "Release shared = (if shared then on_latch RUnlock else on_latch Unlock)"

definition TestAddFrameDummyData :: "Frame \<Rightarrow> Frame" where
  "TestAddFrameDummyData f = f\<lparr>fr_page := snd (TestAddDummyData (fr_page f))\<rparr>"

section \<open>Lemmas\<close>

definition unlatched :: "Frame \<Rightarrow> bool" where
  "unlatched f \<longleftrightarrow> fr_mu f = free_mutex"

lemma ByteData_eq: "unlatched f \<Longrightarrow> ByteData f = (Ok (pgeData (fr_page f)), f)"
  by (cases f) (auto simp: ByteData_def on_latch_def bindS_def RLock_def RUnlock_def GetPageByteData_def returnS_def
      unlatched_def free_mutex_def)

lemma frame_Clear_eq:
  "frame_Clear (Some f) = Ok (f\<lparr>fr_dirty := False, fr_key := 0, fr_page := (fr_page f)\<lparr>pgeData := replicate PAGE_SIZE_BYTES 0\<rparr>\<rparr>)"
  by (simp add: frame_Clear_def page_Clear_def)

lemma Acquire_Release:
  assumes "unlatched f"
  shows "\<exists>f'. Acquire shared f = (Ok (), f') \<and> Release shared f' = (Ok (), f) \<and> \<not> unlatched f'"
  using assms by (cases f; cases shared) (auto simp: Acquire_def Release_def on_latch_def Lock_def Unlock_def RLock_def RUnlock_def
      unlatched_def free_mutex_def)

end
