(* ===== verification/Clock.thy ===== *)
theory Clock
  imports Frame
begin

text \<open>
  The buffer pool as a clock, \<^verbatim>\<open>pkg/buffermanager/clock.go\<close>: entries with reference, access and eviction bits and pin
  counts, and the hand that looks for a victim with a second chance. A \<^verbatim>\<open>*clockentry\<close> is an index into the pool. The
  mutexes of the clock and of an entry are taken and released inside one method; \<^verbatim>\<open>EvictWithoutClearing\<close> takes that of an entry
  while it holds that of the clock, and no method takes them the other way round. They are left out, as the operations of a pool run one after the other here; the pauses between the sweeps are too. The memory of the pool comes from \<^verbatim>\<open>manual.Alloc\<close>
  (zeroed C memory).
\<close>

section \<open>Entries\<close>

datatype SegmentType = unassigned | windowSegment | probationSegment | protectedSegment

record clockentry =
  ce_entry :: Frame
  ce_ref :: bool
  ce_acc :: bool
  ce_reserved :: bool
  ce_isOccupied :: bool
  ce_markedForEviction :: bool
  ce_pinCount :: u64
  ce_unpinCount :: u64
  ce_segtype :: SegmentType

definition markOccupied :: "clockentry \<Rightarrow> clockentry" where
  "markOccupied e = e\<lparr>ce_isOccupied := True\<rparr>"

definition markVacant :: "clockentry \<Rightarrow> clockentry" where
  "markVacant e = e\<lparr>ce_isOccupied := False\<rparr>"

definition occupied :: "clockentry \<Rightarrow> bool" where
  "occupied e = ce_isOccupied e"

definition reference :: "clockentry \<Rightarrow> clockentry" where
  "reference e = e\<lparr>ce_acc := True, ce_ref := True, ce_pinCount := ce_pinCount e + 1\<rparr>"

definition refIfOccupied :: "clockentry \<Rightarrow> bool \<times> clockentry" where
  "refIfOccupied e =
     (if \<not> ce_isOccupied e then (False, e)
      else if ce_markedForEviction e then (False, e)
      else (True, e\<lparr>ce_acc := True, ce_ref := True, ce_pinCount := ce_pinCount e + 1\<rparr>))"

definition updateSegment :: "SegmentType \<Rightarrow> clockentry \<Rightarrow> clockentry" where
  "updateSegment seg e = e\<lparr>ce_segtype := seg\<rparr>"

definition updateSegmentCAS :: "SegmentType \<Rightarrow> SegmentType \<Rightarrow> clockentry \<Rightarrow> bool \<times> clockentry" where
  "updateSegmentCAS old seg e =
     (if ce_segtype e \<noteq> old then (False, e) else (True, e\<lparr>ce_segtype := seg\<rparr>))"

definition unref :: "clockentry \<Rightarrow> unit res \<times> clockentry" where
  "unref e =
     (let pinCount = ce_pinCount e; unpinCount = ce_unpinCount e in
      if pinCount \<le> unpinCount then (Panic ''Called unref with equal no. of pins and unpins.'', e)
      else
        (let e = e\<lparr>ce_unpinCount := unpinCount + 1\<rparr> in
         (Ok (), if pinCount - unpinCount = 1 then e\<lparr>ce_acc := False\<rparr> else e)))"

definition markForEviction :: "clockentry \<Rightarrow> clockentry" where
  "markForEviction e = e\<lparr>ce_markedForEviction := True\<rparr>"

definition unMarkForEviction :: "clockentry \<Rightarrow> clockentry" where
  "unMarkForEviction e = e\<lparr>ce_markedForEviction := False\<rparr>"

definition isReferenced :: "clockentry \<Rightarrow> bool" where
  "isReferenced e = ce_acc e"

definition refIfNotReferenced :: "clockentry \<Rightarrow> bool \<times> clockentry" where
  "refIfNotReferenced e =
     (if ce_acc e then (False, e)
      else if ce_markedForEviction e then (False, e)
      else if \<not> ce_isOccupied e then (False, e)
      else (True, e\<lparr>ce_acc := True, ce_ref := True, ce_pinCount := ce_pinCount e + 1\<rparr>))"

definition getSegType :: "clockentry \<Rightarrow> SegmentType" where
  "getSegType e = ce_segtype e"

section \<open>The clock\<close>

record clock =
  clk_Head :: nat
  clk_Reserved :: "nat option"
  clk_capacity :: nat
  clk_bPool :: "clockentry list"

abbreviation MAX_LOOP :: nat where "MAX_LOOP \<equiv> 2"
abbreviation MAX_RETRIES :: nat where "MAX_RETRIES \<equiv> 2"

definition upd_entry :: "nat \<Rightarrow> (clockentry \<Rightarrow> clockentry) \<Rightarrow> clock \<Rightarrow> clock" where
  "upd_entry i g clk = clk\<lparr>clk_bPool := (clk_bPool clk)[i := g (clk_bPool clk ! i)]\<rparr>"

definition advance :: "clock \<Rightarrow> clock" where
  "advance clk = clk\<lparr>clk_Head := (clk_Head clk + 1) mod clk_capacity clk\<rparr>"

text \<open>The claim of a victim: pinned, and marked for eviction.\<close>

definition take_victim :: "clockentry \<Rightarrow> clockentry" where
  "take_victim e = e\<lparr>ce_acc := True, ce_ref := True, ce_pinCount := ce_pinCount e + 1, ce_markedForEviction := True\<rparr>"

text \<open>The inner loop, one entry at a time.\<close>

fun sweep :: "nat \<Rightarrow> SegmentType \<Rightarrow> clock \<Rightarrow> nat option res \<times> clock" where
  "sweep 0 seg clk = (Ok None, clk)"
| "sweep (Suc n) seg clk =
     (let i = clk_Head clk in
      if length (clk_bPool clk) \<le> i then (Panic ''index out of range'', clk)
      else
        (let e = clk_bPool clk ! i in
         if ce_reserved e then sweep n seg (advance clk)
         else if ce_acc e then sweep n seg (advance clk)
         else if ce_markedForEviction e then sweep n seg (advance clk)
         else if ce_segtype e \<noteq> seg then sweep n seg (advance clk)
         else if ce_ref e then sweep n seg (advance (upd_entry i (\<lambda>e. e\<lparr>ce_ref := False\<rparr>) clk))
         else (Ok (Some i), advance (upd_entry i take_victim clk))))"

fun retry_sweep :: "nat \<Rightarrow> SegmentType \<Rightarrow> clock \<Rightarrow> nat option res \<times> clock" where
  "retry_sweep 0 seg clk = (Ok None, clk)"
| "retry_sweep (Suc j) seg clk =
     bindS (sweep (clk_capacity clk * MAX_LOOP) seg) (\<lambda>r.
       case r of None \<Rightarrow> retry_sweep j seg | Some i \<Rightarrow> returnS (Some i)) clk"

definition EvictWithoutClearing :: "SegmentType \<Rightarrow> clock \<Rightarrow> nat option res \<times> clock" where
  "EvictWithoutClearing seg = retry_sweep MAX_RETRIES seg"

definition reset_fields :: "clockentry \<Rightarrow> clockentry" where
  "reset_fields e = e\<lparr>ce_acc := False, ce_ref := False, ce_isOccupied := False, ce_pinCount := 0, ce_unpinCount := 0, ce_segtype := unassigned\<rparr>"

definition clearEntry :: "nat option \<Rightarrow> clock \<Rightarrow> unit res \<times> clock" where
  "clearEntry e clk = (case e of
      None \<Rightarrow> (Err (BufferManagerError ''clearentry: No entry provided''), clk)
    | Some i \<Rightarrow> (case frame_Clear (Some (ce_entry (clk_bPool clk ! i))) of
        Ok f \<Rightarrow> (Ok (), upd_entry i (\<lambda>e. reset_fields (e\<lparr>ce_entry := f\<rparr>)) clk)
      | Err x \<Rightarrow> (Err x, clk) | Panic p \<Rightarrow> (Panic p, clk) | Blocked \<Rightarrow> (Blocked, clk)))"

definition resetEntry :: "nat option \<Rightarrow> clock \<Rightarrow> unit res \<times> clock" where
  "resetEntry e clk = (case e of
      None \<Rightarrow> (Err (BufferManagerError ''resetentry: No entry provided''), clk)
    | Some i \<Rightarrow> (Ok (), upd_entry i reset_fields clk))"

definition clockHead :: "clock \<Rightarrow> nat res" where
  "clockHead clk = (if length (clk_bPool clk) \<le> clk_Head clk then Panic ''index out of range'' else Ok (clk_Head clk))"

definition getReserved :: "clock \<Rightarrow> nat option" where
  "getReserved clk = clk_Reserved clk"

definition getCap :: "clock \<Rightarrow> nat" where
  "getCap clk = clk_capacity clk"

text \<open>\<^verbatim>\<open>SetData\<close> on the frame of an entry: the metadata, and the parent entry becomes occupied.\<close>

definition SetData :: "nat \<Rightarrow> Page \<Rightarrow> bool \<Rightarrow> clock \<Rightarrow> unit res \<times> clock" where
  "SetData i p markDirty clk =
     (let clk = upd_entry i (\<lambda>e. e\<lparr>ce_entry := SetData_frame p markDirty (ce_entry e)\<rparr>) clk in
      (Ok (), case fr_parentEntry (ce_entry (clk_bPool clk ! i)) of
         None \<Rightarrow> clk
       | Some j \<Rightarrow> upd_entry j markOccupied clk))"

definition frame_Reference :: "nat \<Rightarrow> clock \<Rightarrow> unit res \<times> clock" where
  "frame_Reference i clk = (case fr_parentEntry (ce_entry (clk_bPool clk ! i)) of
      None \<Rightarrow> (Panic ''Invalid frame, parent entry pointer not set.'', clk)
    | Some j \<Rightarrow> (Ok (), upd_entry j reference clk))"

definition on_entry :: "nat \<Rightarrow> (clockentry \<Rightarrow> 'a res \<times> clockentry) \<Rightarrow> clock \<Rightarrow> 'a res \<times> clock" where
  "on_entry i m clk = (case m (clk_bPool clk ! i) of (r, e) \<Rightarrow> (r, upd_entry i (\<lambda>_. e) clk))"

definition Unreference :: "nat \<Rightarrow> clock \<Rightarrow> unit res \<times> clock" where
  "Unreference i clk = (case fr_parentEntry (ce_entry (clk_bPool clk ! i)) of
      None \<Rightarrow> (Panic ''Invalid frame, parent entry pointer for frame %d not set.'', clk)
    | Some j \<Rightarrow> on_entry j unref clk)"

definition getEntrySegType :: "nat \<Rightarrow> clock \<Rightarrow> SegmentType res" where
  "getEntrySegType i clk = (case fr_parentEntry (ce_entry (clk_bPool clk ! i)) of
      None \<Rightarrow> Panic ''Invalid frame, parent entry pointer not set.''
    | Some j \<Rightarrow> Ok (getSegType (clk_bPool clk ! j)))"

definition new_entry :: "nat \<Rightarrow> clockentry" where
  "new_entry i = \<lparr>ce_entry = \<lparr>fr_page = \<lparr>pgeData = replicate PAGE_SIZE_BYTES 0, PageId = 0\<rparr>, fr_isInternal = False,
       fr_isDeleted = False, fr_dirty = False, fr_key = 0, fr_parentEntry = Some i, fr_mu = free_mutex\<rparr>,
     ce_ref = False, ce_acc = False, ce_reserved = False, ce_isOccupied = False, ce_markedForEviction = False,
     ce_pinCount = 0, ce_unpinCount = 0, ce_segtype = unassigned\<rparr>"

definition NewClock :: "nat \<Rightarrow> bool \<Rightarrow> clock res" where
  "NewClock itemCount reserve =
     (if itemCount < 3 then Err (BufferManagerError ''Minimum capacity is %d'')
      else
        (let clk = \<lparr>clk_Head = 0, clk_Reserved = None, clk_capacity = itemCount, clk_bPool = map new_entry [0..<itemCount]\<rparr> in
         if \<not> reserve then Ok clk
         else (case EvictWithoutClearing unassigned clk of
             (Ok None, _) \<Rightarrow> Err (BufferManagerError ''Could not reserve metadata page frame'')
           | (Ok (Some i), clk) \<Rightarrow>
               Ok (upd_entry i (\<lambda>e. e\<lparr>ce_reserved := True, ce_entry := (ce_entry e)\<lparr>fr_parentEntry := Some i\<rparr>\<rparr>)
                     (clk\<lparr>clk_Reserved := Some i\<rparr>))
           | (Err e, _) \<Rightarrow> Err e | (Panic p, _) \<Rightarrow> Panic p | (Blocked, _) \<Rightarrow> Blocked)))"

end
