(* ===== verification/ClockProps.thy ===== *)
theory ClockProps
  imports Clock
begin

text \<open>
  What the clock promises: the hand never takes a reserved, pinned or already claimed entry or one of another
  segment; it finds a victim exactly when there is one; it changes nothing else than reference bits;
  and an entry counts as accessed exactly while more pins than unpins were made.
\<close>

section \<open>The hand\<close>

definition clk_ok :: "clock \<Rightarrow> bool" where
  "clk_ok clk \<longleftrightarrow> length (clk_bPool clk) = clk_capacity clk \<and> clk_Head clk < clk_capacity clk"

definition eligible :: "SegmentType \<Rightarrow> clockentry \<Rightarrow> bool" where
  "eligible seg e \<longleftrightarrow> \<not> ce_reserved e \<and> \<not> ce_acc e \<and> \<not> ce_markedForEviction e \<and> ce_segtype e = seg"

text \<open>The pool up to the position of the hand and the reference bits of entries that are not accessed, which may be cleared.\<close>

definition swept :: "clock \<Rightarrow> clock \<Rightarrow> bool" where
  "swept clk clk' \<longleftrightarrow> clk_capacity clk' = clk_capacity clk \<and> clk_Reserved clk' = clk_Reserved clk
     \<and> length (clk_bPool clk') = length (clk_bPool clk)
     \<and> (\<forall>j<length (clk_bPool clk). clk_bPool clk' ! j = (clk_bPool clk ! j)\<lparr>ce_ref := ce_ref (clk_bPool clk' ! j)\<rparr>
          \<and> (ce_ref (clk_bPool clk' ! j) \<longrightarrow> ce_ref (clk_bPool clk ! j))
          \<and> (ce_acc (clk_bPool clk ! j) \<longrightarrow> ce_ref (clk_bPool clk' ! j) = ce_ref (clk_bPool clk ! j)))"

lemma swept_refl [simp]: "swept clk clk"
  by (simp add: swept_def)

lemma swept_entry: "swept clk clk' \<Longrightarrow> j < length (clk_bPool clk) \<Longrightarrow> clk_bPool clk' ! j = (clk_bPool clk ! j)\<lparr>ce_ref := ce_ref (clk_bPool clk' ! j)\<rparr>"
  by (simp add: swept_def)

lemma swept_trans:
  assumes "swept a b" "swept b c"
  shows "swept a c"
proof -
  have "clk_bPool c ! j = (clk_bPool a ! j)\<lparr>ce_ref := ce_ref (clk_bPool c ! j)\<rparr>
      \<and> (ce_ref (clk_bPool c ! j) \<longrightarrow> ce_ref (clk_bPool a ! j))
      \<and> (ce_acc (clk_bPool a ! j) \<longrightarrow> ce_ref (clk_bPool c ! j) = ce_ref (clk_bPool a ! j))"
    if "j < length (clk_bPool a)" for j
  proof -
    have b: "clk_bPool b ! j = (clk_bPool a ! j)\<lparr>ce_ref := ce_ref (clk_bPool b ! j)\<rparr>" "ce_ref (clk_bPool b ! j) \<longrightarrow> ce_ref (clk_bPool a ! j)"
        "ce_acc (clk_bPool a ! j) \<longrightarrow> ce_ref (clk_bPool b ! j) = ce_ref (clk_bPool a ! j)"
      using assms(1) that by (auto simp: swept_def)
    have c: "clk_bPool c ! j = (clk_bPool b ! j)\<lparr>ce_ref := ce_ref (clk_bPool c ! j)\<rparr>" "ce_ref (clk_bPool c ! j) \<longrightarrow> ce_ref (clk_bPool b ! j)"
        "ce_acc (clk_bPool b ! j) \<longrightarrow> ce_ref (clk_bPool c ! j) = ce_ref (clk_bPool b ! j)"
      using assms that by (auto simp: swept_def)
    have acc: "ce_acc (clk_bPool b ! j) = ce_acc (clk_bPool a ! j)" by (subst b(1)) simp
    have "clk_bPool c ! j = ((clk_bPool a ! j)\<lparr>ce_ref := ce_ref (clk_bPool b ! j)\<rparr>)\<lparr>ce_ref := ce_ref (clk_bPool c ! j)\<rparr>"
      using b(1) c(1) by metis
    then show ?thesis using b(2,3) c(2,3) acc by simp
  qed
  then show ?thesis using assms by (auto simp: swept_def)
qed

lemma eligible_ref [simp]: "eligible seg (e\<lparr>ce_ref := b\<rparr>) = eligible seg e"
  by (simp add: eligible_def)

lemma swept_eligible: "swept clk clk' \<Longrightarrow> j < length (clk_bPool clk) \<Longrightarrow> eligible seg (clk_bPool clk' ! j) = eligible seg (clk_bPool clk ! j)"
  by (metis swept_entry eligible_ref)

lemma swept_advance [simp]: "swept clk (advance clk)"
  by (simp add: swept_def advance_def)

lemma swept_unset: "\<not> ce_acc (clk_bPool clk ! i) \<Longrightarrow> swept clk (upd_entry i (\<lambda>e. e\<lparr>ce_ref := False\<rparr>) clk)"
  by (cases "i < length (clk_bPool clk)") (auto simp: swept_def upd_entry_def nth_list_update)

lemma clk_ok_advance [simp]: "clk_ok clk \<Longrightarrow> clk_ok (advance clk)"
  by (simp add: clk_ok_def advance_def)

lemma clk_ok_upd [simp]: "clk_ok (upd_entry i g clk) = clk_ok clk"
  by (simp add: clk_ok_def upd_entry_def)

lemma take_victim_ref [simp]: "take_victim (e\<lparr>ce_ref := b\<rparr>) = take_victim e"
  by (simp add: take_victim_def)

lemma swept_take: "swept clk clk1 \<Longrightarrow> swept (upd_entry i take_victim clk) (upd_entry i take_victim clk1)"
proof -
  assume s: "swept clk clk1"
  have "take_victim (clk_bPool clk1 ! i) = take_victim (clk_bPool clk ! i)" if "i < length (clk_bPool clk)"
    by (metis swept_entry[OF s that] take_victim_ref)
  then show ?thesis
  proof (cases "i < length (clk_bPool clk)")
    case True
    have len: "length (clk_bPool clk1) = length (clk_bPool clk)" using s by (simp add: swept_def)
    have nth: "clk_bPool (upd_entry i take_victim c) ! j = (if j = i then take_victim (clk_bPool clk ! i) else clk_bPool c ! j)"
      if "c \<in> {clk, clk1}" "j < length (clk_bPool clk)" for c j
      using that True len \<open>i < length _ \<Longrightarrow> _\<close> by (auto simp: upd_entry_def nth_list_update)
    have "e\<lparr>ce_ref := ce_ref e\<rparr> = e" for e :: clockentry by simp
    then show ?thesis using s nth[of clk] nth[of clk1] len unfolding swept_def by (auto simp: upd_entry_def)
  next
    case False
    then show ?thesis using s by (simp add: upd_entry_def swept_def)
  qed
qed

text \<open>The result of a search: no victim, and only reference bits changed; or a victim that was eligible, claimed.\<close>

definition victim_spec :: "SegmentType \<Rightarrow> clock \<Rightarrow> nat option \<Rightarrow> clock \<Rightarrow> bool" where
  "victim_spec seg clk r clk' \<longleftrightarrow> clk_ok clk' \<and>
     (case r of
        None \<Rightarrow> swept clk clk'
      | Some i \<Rightarrow> i < length (clk_bPool clk) \<and> eligible seg (clk_bPool clk ! i)
          \<and> swept (upd_entry i take_victim clk) clk' \<and> ce_ref (clk_bPool clk' ! i))"

lemma victim_spec_trans: "swept clk clk1 \<Longrightarrow> victim_spec seg clk1 r clk' \<Longrightarrow> victim_spec seg clk r clk'"
  using swept_trans[of clk clk1 clk'] swept_eligible[of clk clk1] swept_trans[OF swept_take[of clk clk1]]
  by (auto simp: victim_spec_def split: option.splits) (auto simp: swept_def[of clk clk1])

lemma sweep_spec:
  "clk_ok clk \<Longrightarrow> \<exists>r clk'. sweep n seg clk = (Ok r, clk') \<and> victim_spec seg clk r clk'"
proof (induction n arbitrary: clk)
  case 0
  then show ?case by (simp add: victim_spec_def)
next
  case (Suc n)
  let ?i = "clk_Head clk" and ?e = "clk_bPool clk ! clk_Head clk"
  have i: "?i < length (clk_bPool clk)" using Suc.prems by (simp add: clk_ok_def)
  have go: "\<exists>r clk'. sweep n seg clk1 = (Ok r, clk') \<and> victim_spec seg clk r clk'" if "swept clk clk1" "clk_ok clk1" for clk1
    using Suc.IH[OF that(2)] victim_spec_trans[OF that(1)] by blast
  note skip = go[OF swept_advance clk_ok_advance[OF Suc.prems]]
  note unset = go[of "advance (upd_entry ?i (\<lambda>e. e\<lparr>ce_ref := False\<rparr>) clk)"]
  have found: "victim_spec seg clk (Some ?i) (advance (upd_entry ?i take_victim clk))" if "eligible seg ?e"
    unfolding victim_spec_def using that i Suc.prems
    by simp (simp add: advance_def upd_entry_def take_victim_def)
  consider "eligible seg ?e" "ce_ref ?e" | "eligible seg ?e" "\<not> ce_ref ?e" | "\<not> eligible seg ?e" by blast
  then show ?case
  proof cases
    case 1
    then show ?thesis using i unset Suc.prems swept_trans[OF swept_unset swept_advance, of clk ?i] by (simp add: Let_def eligible_def)
  next
    case 2
    then show ?thesis using i found by (simp add: Let_def eligible_def)
  next
    case 3
    then have "sweep (Suc n) seg clk = sweep n seg (advance clk)" using i by (auto simp: Let_def eligible_def)
    then show ?thesis using skip by simp
  qed
qed

text \<open>A pass that finds nothing had only eligible entries with their reference bit set, and clears it.\<close>

lemma sweep_None_step:
  assumes "clk_ok clk" "sweep (Suc n) seg clk = (Ok None, clk')"
  shows "\<exists>clk1. swept clk clk1 \<and> clk_ok clk1 \<and> clk_Head clk1 = (clk_Head clk + 1) mod clk_capacity clk
      \<and> sweep n seg clk1 = (Ok None, clk')
      \<and> (\<forall>j. j \<noteq> clk_Head clk \<longrightarrow> clk_bPool clk1 ! j = clk_bPool clk ! j)
      \<and> (eligible seg (clk_bPool clk ! clk_Head clk) \<longrightarrow> ce_ref (clk_bPool clk ! clk_Head clk) \<and> \<not> ce_ref (clk_bPool clk1 ! clk_Head clk))"
proof -
  let ?i = "clk_Head clk" and ?e = "clk_bPool clk ! clk_Head clk"
  let ?un = "advance (upd_entry ?i (\<lambda>e. e\<lparr>ce_ref := False\<rparr>) clk)"
  have i: "?i < length (clk_bPool clk)" using assms(1) by (simp add: clk_ok_def)
  have "eligible seg ?e \<Longrightarrow> ce_ref ?e" using assms(2) i by (auto simp: Let_def eligible_def split: if_splits)
  then consider "eligible seg ?e" "ce_ref ?e" "sweep n seg ?un = (Ok None, clk')"
    | "\<not> eligible seg ?e" "sweep n seg (advance clk) = (Ok None, clk')"
    using assms(2) i by (auto simp: Let_def eligible_def split: if_splits)
  then show ?thesis
  proof cases
    case 1
    then have "swept clk ?un" using swept_trans[OF swept_unset swept_advance, of clk ?i] by (simp add: eligible_def)
    then show ?thesis using assms(1) i 1
      by (intro exI[of _ ?un]) (simp add: advance_def upd_entry_def clk_ok_def)
  next
    case 2
    then show ?thesis using assms(1) by (intro exI[of _ "advance clk"]) (simp, simp add: advance_def)
  qed
qed

lemma sweep_None:
  "clk_ok clk \<Longrightarrow> n \<le> clk_capacity clk \<Longrightarrow> sweep n seg clk = (Ok None, clk') \<Longrightarrow>
   swept clk clk' \<and> clk_ok clk' \<and> clk_Head clk' = (clk_Head clk + n) mod clk_capacity clk \<and>
   (\<forall>k<n. eligible seg (clk_bPool clk ! ((clk_Head clk + k) mod clk_capacity clk)) \<longrightarrow>
      ce_ref (clk_bPool clk ! ((clk_Head clk + k) mod clk_capacity clk)) \<and> \<not> ce_ref (clk_bPool clk' ! ((clk_Head clk + k) mod clk_capacity clk)))"
proof (induction n arbitrary: clk)
  case 0
  then show ?case by (auto simp: clk_ok_def)
next
  case (Suc n)
  let ?h = "clk_Head clk" and ?c = "clk_capacity clk"
  have h: "?h < ?c" "length (clk_bPool clk) = ?c" using Suc.prems(1) by (auto simp: clk_ok_def)
  obtain clk1 where c1: "swept clk clk1" "clk_ok clk1" "clk_Head clk1 = (?h + 1) mod ?c" "sweep n seg clk1 = (Ok None, clk')"
      "\<And>j. j \<noteq> ?h \<Longrightarrow> clk_bPool clk1 ! j = clk_bPool clk ! j"
      "eligible seg (clk_bPool clk ! ?h) \<Longrightarrow> ce_ref (clk_bPool clk ! ?h) \<and> \<not> ce_ref (clk_bPool clk1 ! ?h)"
    using sweep_None_step[OF Suc.prems(1,3)] by blast
  have cap: "clk_capacity clk1 = ?c" using c1(1) by (simp add: swept_def)
  have ih: "swept clk1 clk'" "clk_ok clk'" "clk_Head clk' = ((?h + 1) mod ?c + n) mod ?c"
     "\<And>k. k < n \<Longrightarrow> eligible seg (clk_bPool clk1 ! (((?h + 1) mod ?c + k) mod ?c)) \<Longrightarrow>
      ce_ref (clk_bPool clk1 ! (((?h + 1) mod ?c + k) mod ?c)) \<and> \<not> ce_ref (clk_bPool clk' ! (((?h + 1) mod ?c + k) mod ?c))"
    using Suc.IH[OF c1(2) _ c1(4)] Suc.prems(2) cap c1(3) by auto
  have "ce_ref (clk_bPool clk ! ((?h + k) mod ?c)) \<and> \<not> ce_ref (clk_bPool clk' ! ((?h + k) mod ?c))"
    if "k < Suc n" "eligible seg (clk_bPool clk ! ((?h + k) mod ?c))" for k
  proof (cases k)
    case 0
    have "\<not> ce_ref (clk_bPool clk' ! ?h)"
      using ih(1) c1(1,6) 0 that(2) h by (auto simp: swept_def)
    then show ?thesis using 0 h that(2) c1(6) by simp
  next
    case (Suc m)
    have e: "((?h + 1) mod ?c + m) mod ?c = (?h + k) mod ?c" using Suc by (simp add: mod_simps)
    have "k < ?c" using that(1) Suc.prems(2) by simp
    then have "(?h + k) mod ?c \<noteq> ?h" using h Suc by (cases "?h + k < ?c") (auto simp: le_mod_geq)
    then show ?thesis using ih(4)[of m] e c1(5)[of "(?h + k) mod ?c"] that Suc by simp
  qed
  moreover have "clk_Head clk' = (?h + Suc n) mod ?c" using ih(3) by (simp add: mod_simps)
  ultimately show ?case using swept_trans[OF c1(1) ih(1)] ih(2) by blast
qed

lemma sweep_add:
  "sweep (m + n) seg clk = bindS (sweep m seg) (\<lambda>r. case r of None \<Rightarrow> sweep n seg | Some i \<Rightarrow> returnS (Some i)) clk"
  by (induction m arbitrary: clk) (auto simp: bindS_def returnS_def Let_def)

lemma nth_turn:
  assumes "h < c" "j < (c :: nat)"
  shows "\<exists>k<c. (h + k) mod c = j"
proof (cases "h \<le> j")
  case True
  then show ?thesis using assms by (intro exI[of _ "j - h"]) auto
next
  case False
  then show ?thesis using assms by (intro exI[of _ "c - h + j"]) (auto simp: le_mod_geq)
qed

text \<open>Two turns of the hand find a victim when there is one: the first clears the reference bits.\<close>

lemma sweep_finds:
  assumes "clk_ok clk" "j < clk_capacity clk" "eligible seg (clk_bPool clk ! j)"
  shows "sweep (clk_capacity clk * 2) seg clk \<noteq> (Ok None, clk')"
proof
  assume "sweep (clk_capacity clk * 2) seg clk = (Ok None, clk')"
  then obtain clk1 where s1: "sweep (clk_capacity clk) seg clk = (Ok None, clk1)" and s2: "sweep (clk_capacity clk) seg clk1 = (Ok None, clk')"
    using sweep_add[of "clk_capacity clk" "clk_capacity clk" seg clk] sweep_spec[OF assms(1), of "clk_capacity clk" seg]
    by (auto simp: bindS_def returnS_def mult_2_right split: option.splits)
  note p1 = sweep_None[OF assms(1) order_refl s1]
  have cap: "clk_capacity clk1 = clk_capacity clk" using p1 by (simp add: swept_def)
  note p2 = sweep_None[of clk1, OF _ _ s2, unfolded cap]
  have h: "clk_Head clk1 = clk_Head clk" "clk_Head clk < clk_capacity clk" "length (clk_bPool clk) = clk_capacity clk"
    using p1 assms(1) by (auto simp: clk_ok_def)
  obtain k where k: "k < clk_capacity clk" "(clk_Head clk + k) mod clk_capacity clk = j"
    using nth_turn[OF h(2) assms(2)] by blast
  have "\<not> ce_ref (clk_bPool clk1 ! j)" using p1 k assms(3) by blast
  moreover have "eligible seg (clk_bPool clk1 ! j)" using p1 swept_eligible[of clk clk1 j seg] assms(2,3) h(3) by simp
  then have "ce_ref (clk_bPool clk1 ! j)" using p1 p2 k h by auto
  ultimately show False by contradiction
qed

lemma Evict_spec:
  assumes "clk_ok clk"
  shows "\<exists>r clk'. EvictWithoutClearing seg clk = (Ok r, clk') \<and> victim_spec seg clk r clk'
     \<and> (r = None \<longleftrightarrow> (\<forall>e\<in>set (clk_bPool clk). \<not> eligible seg e))"
proof -
  obtain r1 clk1 where s1: "sweep (clk_capacity clk * 2) seg clk = (Ok r1, clk1)" and v1: "victim_spec seg clk r1 clk1"
    using sweep_spec[OF assms] by blast
  show ?thesis
  proof (cases r1)
    case None
    have "clk_ok clk1" "swept clk clk1" using v1 None by (auto simp: victim_spec_def)
    then obtain r2 clk2 where s2: "sweep (clk_capacity clk1 * 2) seg clk1 = (Ok r2, clk2)" and v2: "victim_spec seg clk r2 clk2"
      using sweep_spec[of clk1] victim_spec_trans by blast
    have none: "\<not> eligible seg e" if "e \<in> set (clk_bPool clk)" for e
      using sweep_finds[OF assms] s1 None that assms by (auto simp: in_set_conv_nth clk_ok_def)
    then have "r2 = None" using v2 by (auto simp: victim_spec_def split: option.splits)
    then show ?thesis using s1 s2 None v2 none by (simp add: EvictWithoutClearing_def numeral_2_eq_2 bindS_def)
  next
    case (Some i)
    then have "i < length (clk_bPool clk)" "eligible seg (clk_bPool clk ! i)" using v1 by (auto simp: victim_spec_def)
    then show ?thesis using s1 v1 Some by (auto simp: EvictWithoutClearing_def numeral_2_eq_2 bindS_def returnS_def)
  qed
qed

section \<open>Pins\<close>

text \<open>An entry is accessed while it has more pins than unpins.\<close>

definition pins :: "clockentry \<Rightarrow> nat" where
  "pins e = unat (ce_pinCount e) - unat (ce_unpinCount e)"

definition pins_ok :: "clockentry \<Rightarrow> bool" where
  "pins_ok e \<longleftrightarrow> ce_unpinCount e \<le> ce_pinCount e \<and> (ce_acc e \<longleftrightarrow> 0 < pins e)"

lemma pins_ok_reference:
  assumes "pins_ok e" "unat (ce_pinCount e) < 2 ^ 64 - 1"
  shows "pins_ok (reference e) \<and> pins (reference e) = Suc (pins e)"
proof -
  have "unat (ce_pinCount e + 1) = Suc (unat (ce_pinCount e))"
    using assms(2) by (simp add: unat_word_ariths)
  then show ?thesis using assms(1) by (auto simp: pins_ok_def pins_def reference_def word_le_nat_alt)
qed

lemma pins_ok_unref:
  assumes "pins_ok e"
  shows "0 < pins e \<Longrightarrow> \<exists>e'. unref e = (Ok (), e') \<and> pins_ok e' \<and> pins e = Suc (pins e')"
    "pins e = 0 \<Longrightarrow> fst (unref e) \<noteq> Ok ()"
proof -
  have le: "unat (ce_unpinCount e) \<le> unat (ce_pinCount e)" using assms by (simp add: pins_ok_def word_le_nat_alt)
  {
    assume p: "0 < pins e"
    then have lt: "unat (ce_unpinCount e) < unat (ce_pinCount e)" by (simp add: pins_def)
    then have s: "unat (ce_unpinCount e + 1) = Suc (unat (ce_unpinCount e))"
      using unsigned_less[where 'a = nat and w = "ce_pinCount e"] by (simp add: unat_word_ariths)
    have d: "unat (ce_pinCount e - ce_unpinCount e) = pins e"
      using le by (simp add: pins_def unat_sub word_le_nat_alt)
    then have one: "ce_pinCount e - ce_unpinCount e = 1 \<longleftrightarrow> pins e = 1" by (metis unsigned_1 unsigned_word_eqI)
    show "\<exists>e'. unref e = (Ok (), e') \<and> pins_ok e' \<and> pins e = Suc (pins e')"
      using assms lt s p one by (auto simp: unref_def Let_def pins_ok_def pins_def word_le_nat_alt)
  }
  assume "pins e = 0"
  then show "fst (unref e) \<noteq> Ok ()" using le by (simp add: unref_def pins_def word_le_nat_alt Let_def)
qed

section \<open>Properties\<close>

text \<open>C33. The search for a victim: it ends without a panic; it returns nothing exactly when no entry of the segment is
  free (not reserved, not accessed, not claimed already); otherwise it returns a free entry of the segment, which has
  no pins, and claims it by pinning it; every other entry is unchanged except that its reference bit may be cleared.\<close>

theorem evict_second_chance:
  assumes "clk_ok clk" "\<forall>e\<in>set (clk_bPool clk). pins_ok e"
  shows "\<exists>r clk'. EvictWithoutClearing seg clk = (Ok r, clk') \<and> clk_ok clk'
     \<and> (r = None \<longleftrightarrow> (\<forall>e\<in>set (clk_bPool clk). \<not> eligible seg e))
     \<and> (\<forall>i. r = Some i \<longrightarrow> i < length (clk_bPool clk) \<and> eligible seg (clk_bPool clk ! i) \<and> pins (clk_bPool clk ! i) = 0
          \<and> clk_bPool clk' ! i = markForEviction (reference (clk_bPool clk ! i)))
     \<and> (\<forall>j<length (clk_bPool clk). r \<noteq> Some j \<longrightarrow>
          clk_bPool clk' ! j = (clk_bPool clk ! j)\<lparr>ce_ref := ce_ref (clk_bPool clk' ! j)\<rparr>)"
proof -
  obtain r clk' where e: "EvictWithoutClearing seg clk = (Ok r, clk')" and v: "victim_spec seg clk r clk'"
      and n: "r = None \<longleftrightarrow> (\<forall>e\<in>set (clk_bPool clk). \<not> eligible seg e)"
    using Evict_spec[OF assms(1)] by blast
  have "i < length (clk_bPool clk) \<and> eligible seg (clk_bPool clk ! i) \<and> pins (clk_bPool clk ! i) = 0
      \<and> clk_bPool clk' ! i = markForEviction (reference (clk_bPool clk ! i))" if "r = Some i" for i
  proof -
    have i: "i < length (clk_bPool clk)" "eligible seg (clk_bPool clk ! i)" "swept (upd_entry i take_victim clk) clk'" "ce_ref (clk_bPool clk' ! i)"
      using v that by (auto simp: victim_spec_def)
    have "clk_bPool clk' ! i = (take_victim (clk_bPool clk ! i))\<lparr>ce_ref := True\<rparr>"
      using swept_entry[OF i(3), of i] i(1,4) by (simp add: upd_entry_def)
    moreover have "pins (clk_bPool clk ! i) = 0" using assms(2) i(1,2) by (auto simp: pins_ok_def eligible_def)
    ultimately show ?thesis using i(1,2) by (simp add: take_victim_def markForEviction_def reference_def)
  qed
  moreover have "clk_bPool clk' ! j = (clk_bPool clk ! j)\<lparr>ce_ref := ce_ref (clk_bPool clk' ! j)\<rparr>"
    if "j < length (clk_bPool clk)" "r \<noteq> Some j" for j
    using v that swept_entry[of clk clk' j] swept_entry[of "upd_entry (the r) take_victim clk" clk' j]
    by (cases r) (auto simp: victim_spec_def upd_entry_def)
  ultimately show ?thesis using e n v by (auto simp: victim_spec_def)
qed

theorem evict_second_chance_witness:
  "\<exists>r clk'. EvictWithoutClearing windowSegment \<lparr>clk_Head = 1, clk_Reserved = None, clk_capacity = 2,
       clk_bPool = [(new_entry 0)\<lparr>ce_segtype := windowSegment, ce_ref := True\<rparr>, new_entry 1]\<rparr> = (Ok r, clk') \<and> r \<noteq> None"
proof -
  let ?c = "\<lparr>clk_Head = 1, clk_Reserved = None, clk_capacity = 2,
       clk_bPool = [(new_entry 0)\<lparr>ce_segtype := windowSegment, ce_ref := True\<rparr>, new_entry 1]\<rparr>"
  have "clk_ok ?c" "\<forall>e\<in>set (clk_bPool ?c). pins_ok e" "\<exists>e\<in>set (clk_bPool ?c). eligible windowSegment e"
    by (auto simp: clk_ok_def pins_ok_def pins_def new_entry_def eligible_def)
  from evict_second_chance[OF this(1,2), of windowSegment] this(3) show ?thesis by blast
qed

end
