(* ===== verification/TinyLfu.thy ===== *)
theory TinyLfu
  imports Helpers
begin

text \<open>
  The frequency sketch of \<^verbatim>\<open>internal/tinylfu\<close>: the doorkeeper (a Bloom filter, \<^verbatim>\<open>doorkeeper.go\<close>), the count-min
  sketch (\<^verbatim>\<open>count-min-sketch.go\<close>), the double hashing both use (\<^verbatim>\<open>hashfuncs.go\<close>) and their combination
  (\<^verbatim>\<open>tinylfu.go\<close>). The 64-bit hash is the package \<^verbatim>\<open>cespare/xxhash\<close>: a function \<open>h\<close> from bytes to 64-bit words is an
  argument of every operation. Counters and sizes are 64-bit words. The mutexes are held inside
  single methods, around straight-line code, and are left out. The byte that \<^verbatim>\<open>append(data, 0x01)\<close> may write into spare capacity of
  the caller's slice is beyond its length and is left out too.
\<close>

section \<open>Hashing\<close>

type_synonym hasher = "bytes \<Rightarrow> u64"

text \<open>\<open>k\<close> is an \<^verbatim>\<open>int\<close>: the conversion of a 64-bit word is signed, and a negative length is a panic.\<close>

definition DoubleHashIndices :: "hasher \<Rightarrow> bytes \<Rightarrow> int \<Rightarrow> u64 \<Rightarrow> u64 list res" where
  "DoubleHashIndices h data k m =
     (let h1 = h data;
          h2 = h (data @ [0x01]) in
      if k < 0 then Panic ''makeslice: len out of range''
      else
        (let h2 = (if h2 mod 2 = 0 then h2 + 1 else h2) in
         if 0 < k \<and> m = 0 then Panic ''integer divide by zero''
         else Ok (map (\<lambda>i. (h1 + word_of_nat i * h2) mod m) [0..<nat k])))"

section \<open>The doorkeeper\<close>

record Bloom =
  bl_m :: u64
  bl_k :: u64
  bl_bitArray :: bytes

text \<open>The byte of a position (\<^verbatim>\<open>pos / 8\<close> truncates towards zero; \<^verbatim>\<open>math.Floor\<close> of it changes nothing) and its mask,
  \<^verbatim>\<open>1 << byte(8 * (l + 1) - (pos + 1))\<close>: a shift by 8 or more leaves no bit.\<close>

definition byte_pos :: "int \<Rightarrow> int" where
  "byte_pos pos = (if pos < 0 then - ((- pos) div 8) else pos div 8)"

definition bit_mask :: "int \<Rightarrow> u8" where
  "bit_mask pos = push_bit (nat ((8 * (byte_pos pos + 1) - (pos + 1)) mod 256)) 1"

fun set_masks :: "nat \<Rightarrow> u64 list \<Rightarrow> bytes \<Rightarrow> bytes res" where
  "set_masks n [] maskArr = Ok maskArr"
| "set_masks n (p # ps) maskArr =
     (let l = nat (byte_pos (uint p)) in
      if l \<ge> n then Err (TinyLFUError ''Invalid index'')
      else if l \<ge> length maskArr then Panic ''index out of range''
      else set_masks n ps (maskArr[l := maskArr ! l OR bit_mask (uint p)]))"

definition setBit :: "u64 list \<Rightarrow> Bloom \<Rightarrow> unit res \<times> Bloom" where
  "setBit pos b =
     (let n = unat (bl_m b div 8) in
      case set_masks (length (bl_bitArray b)) pos (replicate n 0) of
        Ok maskArr \<Rightarrow>
          (if length (bl_bitArray b) < n
           then (Panic ''index out of range'', b\<lparr>bl_bitArray := map2 (OR) (bl_bitArray b) maskArr\<rparr>)
           else (Ok (), b\<lparr>bl_bitArray := map2 (OR) (take n (bl_bitArray b)) maskArr @ drop n (bl_bitArray b)\<rparr>))
      | Err e \<Rightarrow> (Err e, b) | Panic p \<Rightarrow> (Panic p, b) | Blocked \<Rightarrow> (Blocked, b))"

definition unsetBit :: "int \<Rightarrow> Bloom \<Rightarrow> unit res \<times> Bloom" where
  "unsetBit pos b =
     (let l = byte_pos pos in
      if l \<ge> int (length (bl_bitArray b)) then (Err (TinyLFUError ''Invalid index''), b)
      else if l < 0 then (Panic ''index out of range'', b)
      else (Ok (), b\<lparr>bl_bitArray := (bl_bitArray b)[nat l := bl_bitArray b ! nat l AND NOT (bit_mask pos)]\<rparr>))"

definition isSet :: "int \<Rightarrow> Bloom \<Rightarrow> bool res" where
  "isSet pos b =
     (let l = byte_pos pos in
      if l \<ge> int (length (bl_bitArray b)) then Err (TinyLFUError ''Invalid index'')
      else if l < 0 then Panic ''index out of range''
      else Ok (0 < bl_bitArray b ! nat l AND bit_mask pos))"

definition bloom_Add :: "hasher \<Rightarrow> bytes \<Rightarrow> Bloom \<Rightarrow> unit res \<times> Bloom" where
  "bloom_Add h data b =
     bindS (liftR (DoubleHashIndices h data (sint (bl_k b)) (bl_m b))) setBit b"

text \<open>The loop of \<^verbatim>\<open>Check\<close>: every position is tested; an error is a panic.\<close>

fun check_bits :: "u64 list \<Rightarrow> Bloom \<Rightarrow> bool \<Rightarrow> bool res" where
  "check_bits [] b exists = Ok exists"
| "check_bits (v # vs) b exists = (case isSet (sint v) b of
      Ok isset \<Rightarrow> check_bits vs b (if \<not> isset then False else exists)
    | _ \<Rightarrow> Panic ''err'')"

definition bloom_Check :: "hasher \<Rightarrow> bytes \<Rightarrow> Bloom \<Rightarrow> bool res" where
  "bloom_Check h data b =
     bindR (DoubleHashIndices h data (sint (bl_k b)) (bl_m b)) (\<lambda>indices. check_bits indices b True)"

definition bloom_Clear :: "Bloom \<Rightarrow> Bloom" where
  "bloom_Clear b = b\<lparr>bl_bitArray := map (\<lambda>x. x AND 0) (bl_bitArray b)\<rparr>"

definition NewDoorkeeper :: "u64 \<Rightarrow> u64 \<Rightarrow> hasher option \<Rightarrow> Bloom res" where
  "NewDoorkeeper m k h = (case h of
      None \<Rightarrow> Err (TinyLFUError ''invalid hasher provided'')
    | Some _ \<Rightarrow>
        if k = 0 then Err (TinyLFUError ''At least one hash function required. Hash function count is zero'')
        else if m = 0 then Err (TinyLFUError ''size of bit array cannot be zero'')
        else if m mod 8 \<noteq> 0 then Err (TinyLFUError ''Size of bit array must be a multiple of 8'')
        else Ok \<lparr>bl_m = m, bl_k = k, bl_bitArray = replicate (unat ((m + 7) div 8)) 0\<rparr>)"

section \<open>The count-min sketch\<close>

record CMS =
  cms_k :: u64
  cms_width :: u64
  cms_arr :: "u64 list list"
  cms_op_counter :: u64

text \<open>The float64 formulas for width and depth are arguments, as are the results of the tests on the rates.\<close>

definition NewCMS :: "bool \<Rightarrow> bool \<Rightarrow> hasher option \<Rightarrow> u64 \<Rightarrow> u64 \<Rightarrow> CMS res" where
  "NewCMS ratePos probPos h w d =
     (if \<not> ratePos then Err (CountMinSketchError ''Error rate cannot be zero.'')
      else if \<not> probPos then Err (CountMinSketchError ''Error rate cannot be zero.'')
      else if h = None then Err (CountMinSketchError ''hasher is required'')
      else Ok \<lparr>cms_k = d, cms_width = w, cms_arr = replicate (unat d) (replicate (unat w) 0), cms_op_counter = 0\<rparr>)"

fun inc_rows :: "u64 list \<Rightarrow> u64 list list \<Rightarrow> u64 list list res" where
  "inc_rows [] arr = Ok arr"
| "inc_rows (v # vs) [] = Panic ''index out of range''"
| "inc_rows (v # vs) (row # arr) =
     (if unat v \<ge> length row then Panic ''index out of range''
      else bindR (inc_rows vs arr) (\<lambda>arr'. Ok (row[unat v := row ! unat v + 1] # arr')))"

definition Increment :: "hasher \<Rightarrow> bytes \<Rightarrow> CMS \<Rightarrow> u64 res \<times> CMS" where
  "Increment h key c =
     bindS (liftR (DoubleHashIndices h key (sint (cms_k c)) (cms_width c))) (\<lambda>indices.
     bindS (liftR (inc_rows indices (cms_arr c))) (\<lambda>arr c.
       (Ok (cms_op_counter c + 1), c\<lparr>cms_arr := arr, cms_op_counter := cms_op_counter c + 1\<rparr>))) c"

text \<open>The smallest cell; \<open>None\<close> is the nil pointer before the first row.\<close>

fun min_rows :: "u64 list \<Rightarrow> u64 list list \<Rightarrow> u64 option \<Rightarrow> u64 res" where
  "min_rows [] arr cnt = (case cnt of None \<Rightarrow> Panic ''nil pointer dereference'' | Some c \<Rightarrow> Ok c)"
| "min_rows (v # vs) [] cnt = Panic ''index out of range''"
| "min_rows (v # vs) (row # arr) cnt =
     (if unat v \<ge> length row then Panic ''index out of range''
      else (let val = row ! unat v in
            min_rows vs arr (case cnt of None \<Rightarrow> Some val | Some c \<Rightarrow> Some (if c > val then val else c))))"

definition GetCount :: "hasher \<Rightarrow> bytes \<Rightarrow> CMS \<Rightarrow> int res" where
  "GetCount h key c =
     bindR (DoubleHashIndices h key (sint (cms_k c)) (cms_width c)) (\<lambda>indices.
     bindR (min_rows indices (cms_arr c) None) (\<lambda>cnt. Ok (sint cnt)))"

text \<open>One goroutine per row, waited for.\<close>

definition cms_reset :: "CMS \<Rightarrow> CMS" where
  "cms_reset c = c\<lparr>cms_arr := map (map (\<lambda>k. if k > 0 then k div 2 else k)) (cms_arr c), cms_op_counter := 0\<rparr>"

section \<open>TinyLFU\<close>

record TinyLFU =
  t_Doorkeeper :: Bloom
  t_MainStruct :: CMS

abbreviation SAMPLE_SIZE :: u64 where "SAMPLE_SIZE \<equiv> 800000"

definition on_door :: "(Bloom \<Rightarrow> 'a res \<times> Bloom) \<Rightarrow> TinyLFU \<Rightarrow> 'a res \<times> TinyLFU" where
  "on_door m t = (case m (t_Doorkeeper t) of (r, b) \<Rightarrow> (r, t\<lparr>t_Doorkeeper := b\<rparr>))"

definition on_main :: "(CMS \<Rightarrow> 'a res \<times> CMS) \<Rightarrow> TinyLFU \<Rightarrow> 'a res \<times> TinyLFU" where
  "on_main m t = (case m (t_MainStruct t) of (r, c) \<Rightarrow> (r, t\<lparr>t_MainStruct := c\<rparr>))"

text \<open>The error of \<^verbatim>\<open>Doorkeeper.Add\<close> is dropped.\<close>

definition IncrementItem :: "hasher \<Rightarrow> bytes \<Rightarrow> TinyLFU \<Rightarrow> unit res \<times> TinyLFU" where
  "IncrementItem h data t =
     (if length data = 0 then (Err (TinyLFUError ''Invalid/empty data bytes provided''), t)
      else bindS (liftR (bloom_Check h data (t_Doorkeeper t))) (\<lambda>mayExist.
        if \<not> mayExist
        then (\<lambda>t. case on_door (bloom_Add h data) t of
                 (Ok _, t) \<Rightarrow> (Ok (), t) | (Err _, t) \<Rightarrow> (Ok (), t)
               | (Panic p, t) \<Rightarrow> (Panic p, t) | (Blocked, t) \<Rightarrow> (Blocked, t))
        else bindS (on_main (Increment h data)) (\<lambda>opCount t.
          if opCount \<ge> SAMPLE_SIZE
          then (Ok (), t\<lparr>t_MainStruct := cms_reset (t_MainStruct t), t_Doorkeeper := bloom_Clear (t_Doorkeeper t)\<rparr>)
          else (Ok (), t))) t)"

definition CheckItemCount :: "hasher \<Rightarrow> bytes \<Rightarrow> TinyLFU \<Rightarrow> int res" where
  "CheckItemCount h data t = GetCount h data (t_MainStruct t)"

definition NewTinyLFU :: "hasher \<Rightarrow> u64 \<Rightarrow> u64 \<Rightarrow> TinyLFU res" where
  "NewTinyLFU h w d =
     bindR (NewDoorkeeper 10000 20 (Some h)) (\<lambda>doorKeep.
     bindR (NewCMS True True (Some h) w d) (\<lambda>cms.
     Ok \<lparr>t_Doorkeeper = doorKeep, t_MainStruct = cms\<rparr>))"

end
