(* ===== verification/TinyLfuProps.thy ===== *)
theory TinyLfuProps
  imports TinyLfu
begin

text \<open>
  The promises of the frequency sketch: the doorkeeper never forgets an item between two clears, the
  count-min sketch never counts too little, and a reset halves every estimate.
\<close>

section \<open>Hashing\<close>

lemma indices_Ok:
  "0 \<le> k \<Longrightarrow> m \<noteq> 0 \<Longrightarrow> \<exists>vs. DoubleHashIndices h data k m = Ok vs \<and> length vs = nat k \<and> (\<forall>v\<in>set vs. v < m)"
  by (auto simp: DoubleHashIndices_def Let_def word_mod_less_divisor word_gt_0)

section \<open>The doorkeeper\<close>

lemma bit_mask_nonzero:
  assumes "0 \<le> p"
  shows "bit_mask p \<noteq> 0"
proof -
  have e: "8 * (byte_pos p + 1) - (p + 1) = 7 - p mod 8"
    using assms by (simp add: byte_pos_def algebra_simps)
  have "0 \<le> 7 - p mod 8" "7 - p mod 8 < 8" by presburger+
  then have "nat ((7 - p mod 8) mod 256) < 8" by simp
  then have "bit (bit_mask p) (nat ((7 - p mod 8) mod 256))"
    unfolding bit_mask_def e by (simp add: bit_simps)
  then show ?thesis by (metis bit_0_eq bot_apply bot_bool_def)
qed

definition bloom_ok :: "Bloom \<Rightarrow> bool" where
  "bloom_ok b \<longleftrightarrow> 0 < bl_m b \<and> bl_m b < 2 ^ 63 \<and> 8 dvd unat (bl_m b) \<and> 0 \<le> sint (bl_k b)
     \<and> length (bl_bitArray b) = unat (bl_m b) div 8"

text \<open>The bit of a position, read from the array.\<close>

definition has_bit :: "bytes \<Rightarrow> u64 \<Rightarrow> bool" where
  "has_bit arr p = (arr ! nat (byte_pos (uint p)) AND bit_mask (uint p) \<noteq> 0)"

lemma byte_pos_less: "8 dvd n \<Longrightarrow> uint p < int n \<Longrightarrow> nat (byte_pos (uint p)) < n div 8"
proof -
  assume "8 dvd n" "uint p < int n"
  then have "uint p div 8 < int n div 8" by presburger
  then show ?thesis by (simp add: byte_pos_def) (metis nat_div_distrib nat_int uint_ge_0 zdiv_int zero_le_numeral nat_numeral int_nat_eq zless_nat_eq_int_zless)
qed

lemma byte_pos_nonneg [simp]: "0 \<le> byte_pos (uint p)"
  by (simp add: byte_pos_def pos_imp_zdiv_nonneg_iff)

lemma or_absorbs: "(a :: 'a :: len word) OR (b OR c) = a \<Longrightarrow> a OR b = a \<and> a AND c = c"
  by (auto simp: bit_eq_iff bit_simps)

lemma set_masks_Ok:
  assumes "\<And>p. p \<in> set ps \<Longrightarrow> nat (byte_pos (uint p)) < n" "length arr = n"
  shows "\<exists>arr'. set_masks n ps arr = Ok arr' \<and> length arr' = n
           \<and> (\<forall>i<n. arr' ! i OR arr ! i = arr' ! i) \<and> (\<forall>p\<in>set ps. has_bit arr' p)"
  using assms
proof (induction ps arbitrary: arr)
  case (Cons p ps)
  let ?l = "nat (byte_pos (uint p))"
  let ?arr = "arr[?l := arr ! ?l OR bit_mask (uint p)]"
  have l: "?l < n" using Cons.prems by simp
  obtain arr' where a: "set_masks n ps ?arr = Ok arr'" "length arr' = n"
      "\<And>i. i < n \<Longrightarrow> arr' ! i OR ?arr ! i = arr' ! i" "\<And>q. q \<in> set ps \<Longrightarrow> has_bit arr' q"
    using Cons.IH[of ?arr] Cons.prems by auto
  have at: "arr' ! ?l OR (arr ! ?l OR bit_mask (uint p)) = arr' ! ?l"
    using a(3)[OF l] l Cons.prems(2) by simp
  have keep: "arr' ! i OR arr ! i = arr' ! i" if "i < n" for i
    using a(3)[OF that] or_absorbs[OF at] by (cases "i = ?l") auto
  have "arr' ! ?l AND bit_mask (uint p) = bit_mask (uint p)" using or_absorbs[OF at] by simp
  then have "has_bit arr' p" using bit_mask_nonzero[of "uint p"] by (simp add: has_bit_def)
  then show ?case using a keep l Cons.prems(2) by (auto simp: Let_def)
qed simp

lemma or_and_nonzero: "(a :: 'a :: len word) AND m \<noteq> 0 \<Longrightarrow> a' OR a = a' \<Longrightarrow> a' AND m \<noteq> 0"
  by (auto simp: bit_eq_iff bit_simps)

lemma or_keeps_bit: "has_bit arr p \<Longrightarrow> arr' ! nat (byte_pos (uint p)) OR arr ! nat (byte_pos (uint p)) = arr' ! nat (byte_pos (uint p)) \<Longrightarrow> has_bit arr' p"
  unfolding has_bit_def by (rule or_and_nonzero)

lemma setBit_Ok:
  assumes "bloom_ok b" "\<And>p. p \<in> set ps \<Longrightarrow> p < bl_m b"
  shows "\<exists>arr. setBit ps b = (Ok (), b\<lparr>bl_bitArray := arr\<rparr>) \<and> length arr = length (bl_bitArray b)
           \<and> (\<forall>p\<in>set ps. has_bit arr p) \<and> (\<forall>i<length arr. arr ! i OR bl_bitArray b ! i = arr ! i)"
proof -
  let ?n = "unat (bl_m b) div 8"
  have pos: "nat (byte_pos (uint p)) < ?n" if "p \<in> set ps" for p
    using assms that byte_pos_less[of "unat (bl_m b)" p] by (auto simp: bloom_ok_def word_less_def)
  obtain ms where ms: "set_masks ?n ps (replicate ?n 0) = Ok ms" "length ms = ?n" "\<And>p. p \<in> set ps \<Longrightarrow> has_bit ms p"
    using set_masks_Ok[of ps ?n "replicate ?n 0"] pos by auto
  let ?arr = "map2 (OR) (bl_bitArray b) ms"
  have len: "length (bl_bitArray b) = ?n" using assms(1) by (simp add: bloom_ok_def)
  have "setBit ps b = (Ok (), b\<lparr>bl_bitArray := ?arr\<rparr>)"
    using ms len by (simp add: setBit_def unat_div)
  moreover have "has_bit ?arr p" if "p \<in> set ps" for p
    using or_keeps_bit[OF ms(3)[OF that], of ?arr] pos[OF that] ms(2) len by (simp add: or.assoc)
  moreover have "?arr ! i OR bl_bitArray b ! i = ?arr ! i" if "i < ?n" for i
    using that ms(2) len by (simp add: or.commute or.left_commute)
  ultimately show ?thesis using ms(2) len by (intro exI[of _ ?arr]) simp
qed

lemma small_sint:
  assumes "(v :: u64) < 2 ^ 63"
  shows "sint v = uint v"
proof -
  have "uint v < 2 ^ 63" using assms by (simp add: word_less_def)
  then have "signed_take_bit 63 (uint v) = uint v" using uint_ge_0[of v] by (intro signed_take_bit_int_eq_self; linarith)
  then show ?thesis by (simp add: sint_uint)
qed

lemma check_bits_eq:
  assumes "bloom_ok b" "\<And>v. v \<in> set vs \<Longrightarrow> v < bl_m b"
  shows "check_bits vs b e = Ok (e \<and> (\<forall>v\<in>set vs. has_bit (bl_bitArray b) v))"
  using assms(2)
proof (induction vs arbitrary: e)
  case (Cons v vs)
  have "v < bl_m b" using Cons.prems by simp
  moreover have "sint v = uint v"
    using calculation assms(1) by (intro small_sint) (auto simp: bloom_ok_def)
  ultimately have "isSet (sint v) b = Ok (has_bit (bl_bitArray b) v)"
    using assms(1) byte_pos_less[of "unat (bl_m b)" v]
    by (auto simp: leD[OF byte_pos_nonneg] isSet_def bloom_ok_def has_bit_def Let_def word_less_def word_neq_0_conv nat_less_iff)
  then show ?case using Cons by auto
qed simp

text \<open>The positions of an item, and membership.\<close>

definition hash_list :: "hasher \<Rightarrow> bytes \<Rightarrow> int \<Rightarrow> u64 \<Rightarrow> u64 list" where
  "hash_list h data k m = (case DoubleHashIndices h data k m of Ok vs \<Rightarrow> vs | _ \<Rightarrow> [])"

lemma hash_list_Ok:
  assumes "0 \<le> k" "m \<noteq> 0"
  shows "DoubleHashIndices h data k m = Ok (hash_list h data k m)" "length (hash_list h data k m) = nat k"
    "v \<in> set (hash_list h data k m) \<Longrightarrow> v < m"
  using indices_Ok[OF assms, of h data] by (auto simp: hash_list_def)

definition in_door :: "hasher \<Rightarrow> bytes \<Rightarrow> Bloom \<Rightarrow> bool" where
  "in_door h data b = (\<forall>v\<in>set (hash_list h data (sint (bl_k b)) (bl_m b)). has_bit (bl_bitArray b) v)"

lemma bloom_okD: "bloom_ok b \<Longrightarrow> 0 \<le> sint (bl_k b)" "bloom_ok b \<Longrightarrow> bl_m b \<noteq> 0"
  by (auto simp: bloom_ok_def)

lemma bloom_Check_eq: "bloom_ok b \<Longrightarrow> bloom_Check h data b = Ok (in_door h data b)"
  by (simp add: bloom_Check_def in_door_def hash_list_Ok[OF bloom_okD] check_bits_eq)

lemma bloom_Add_Ok:
  assumes "bloom_ok b"
  shows "\<exists>b'. bloom_Add h data b = (Ok (), b') \<and> bloom_ok b' \<and> in_door h data b' \<and> (\<forall>e. in_door h e b \<longrightarrow> in_door h e b')"
proof -
  let ?vs = "\<lambda>e. hash_list h e (sint (bl_k b)) (bl_m b)"
  note hl = hash_list_Ok[OF bloom_okD[OF assms]]
  obtain arr where a: "setBit (?vs data) b = (Ok (), b\<lparr>bl_bitArray := arr\<rparr>)" "length arr = length (bl_bitArray b)"
      "\<And>p. p \<in> set (?vs data) \<Longrightarrow> has_bit arr p" "\<And>i. i < length arr \<Longrightarrow> arr ! i OR bl_bitArray b ! i = arr ! i"
    using setBit_Ok[OF assms, of "?vs data"] hl(3) by blast
  have "bloom_Add h data b = (Ok (), b\<lparr>bl_bitArray := arr\<rparr>)"
    using a(1) by (simp add: bloom_Add_def hl(1) bindS_def liftR_def)
  moreover have "bloom_ok (b\<lparr>bl_bitArray := arr\<rparr>)" using assms a(2) by (simp add: bloom_ok_def)
  moreover have "has_bit arr p" if "p \<in> set (?vs e)" "has_bit (bl_bitArray b) p" for e p
  proof -
    have "nat (byte_pos (uint p)) < length arr"
      using hl(3)[OF that(1)] assms a(2) byte_pos_less[of "unat (bl_m b)" p] by (simp add: bloom_ok_def word_less_def)
    then show ?thesis using or_keeps_bit[OF that(2)] a(4) by blast
  qed
  ultimately show ?thesis using a(3) by (auto simp: in_door_def)
qed

lemma bloom_Clear_ok: "bloom_ok b \<Longrightarrow> bloom_ok (bloom_Clear b)"
  by (simp add: bloom_ok_def bloom_Clear_def)

section \<open>The count-min sketch\<close>

text \<open>After a reset the counters are halved and the operation counter starts again: a counter is at most one sample
  above it.\<close>

definition cms_ok :: "CMS \<Rightarrow> bool" where
  "cms_ok c \<longleftrightarrow> 0 < sint (cms_k c) \<and> cms_width c \<noteq> 0 \<and> cms_op_counter c < 2 ^ 62 \<and> length (cms_arr c) = nat (sint (cms_k c))
     \<and> (\<forall>row\<in>set (cms_arr c). length row = unat (cms_width c) \<and> (\<forall>x\<in>set row. x \<le> SAMPLE_SIZE + cms_op_counter c))"

text \<open>The estimate: the smallest of the cells of the key, one per row.\<close>

definition cell :: "u64 list \<Rightarrow> u64 list list \<Rightarrow> nat \<Rightarrow> u64" where
  "cell vs arr i = arr ! i ! unat (vs ! i)"

definition cms_est :: "hasher \<Rightarrow> bytes \<Rightarrow> CMS \<Rightarrow> nat" where
  "cms_est h key c =
     Min ((\<lambda>i. unat (cell (hash_list h key (sint (cms_k c)) (cms_width c)) (cms_arr c) i)) ` {..<nat (sint (cms_k c))})"

lemma min_rows_Some:
  "length vs \<le> length arr \<Longrightarrow> (\<And>i. i < length vs \<Longrightarrow> unat (vs ! i) < length (arr ! i)) \<Longrightarrow>
   min_rows vs arr (Some c) = Ok (Min (insert c (cell vs arr ` {..<length vs})))"
proof (induction vs arr "Some c" arbitrary: c rule: min_rows.induct)
  case (3 v vs row arr)
  have v: "unat v < length row" using "3.prems"(2)[of 0] by simp
  have vs: "\<And>i. i < length vs \<Longrightarrow> unat (vs ! i) < length (arr ! i)" using "3.prems"(2)[of "Suc _"] by simp
  have cells: "cell (v # vs) (row # arr) ` {..<length (v # vs)} = insert (row ! unat v) (cell vs arr ` {..<length vs})"
    by (simp add: lessThan_Suc_eq_insert_0 image_image cell_def)
  have "min_rows (v # vs) (row # arr) (Some c) = min_rows vs arr (Some (min c (row ! unat v)))"
    using v by (simp add: Let_def min_def not_less[symmetric])
  also have "\<dots> = Ok (Min (insert (min c (row ! unat v)) (cell vs arr ` {..<length vs})))"
    using "3.hyps"[of "row ! unat v" "min c (row ! unat v)"] "3.prems"(1) vs v by (simp add: min_def not_less[symmetric])
  also have "Min (insert (min c (row ! unat v)) (cell vs arr ` {..<length vs}))
      = Min (insert c (cell (v # vs) (row # arr) ` {..<length (v # vs)}))"
    unfolding cells by (cases "cell vs arr ` {..<length vs} = {}") (simp_all add: min.assoc)
  finally show ?case .
qed auto

lemma min_rows_None:
  assumes "0 < length vs" "length vs \<le> length arr" "\<And>i. i < length vs \<Longrightarrow> unat (vs ! i) < length (arr ! i)"
  shows "min_rows vs arr None = Ok (Min (cell vs arr ` {..<length vs}))"
proof -
  obtain v vs' row arr' where e: "vs = v # vs'" "arr = row # arr'"
    using assms(1,2) by (cases vs; cases arr) auto
  have "unat v < length row" using assms(3)[of 0] e by simp
  then have "min_rows vs arr None = min_rows vs' arr' (Some (row ! unat v))" using e by simp
  also have "\<dots> = Ok (Min (insert (row ! unat v) (cell vs' arr' ` {..<length vs'})))"
    using assms(2) assms(3)[of "Suc _"] e by (intro min_rows_Some) auto
  finally show ?thesis
    unfolding e by (simp add: lessThan_Suc_eq_insert_0 image_image cell_def)
qed

lemma inc_rows_Ok:
  "length vs = length arr \<Longrightarrow> (\<And>i. i < length vs \<Longrightarrow> unat (vs ! i) < length (arr ! i)) \<Longrightarrow>
   inc_rows vs arr = Ok (map2 (\<lambda>v row. row[unat v := row ! unat v + 1]) vs arr)"
proof (induction vs arr rule: inc_rows.induct)
  case (3 v vs row arr)
  have "unat v < length row" using "3.prems"(2)[of 0] by simp
  moreover have "\<And>i. i < length vs \<Longrightarrow> unat (vs ! i) < length (arr ! i)" using "3.prems"(2)[of "Suc _"] by simp
  ultimately show ?case using "3.IH" "3.prems"(1) by simp
qed auto

lemma unat_Min: "finite A \<Longrightarrow> A \<noteq> {} \<Longrightarrow> unat (Min A) = Min (unat ` A)"
  by (rule mono_Min_commute) (auto intro: monoI simp: word_le_nat_alt)

lemma cms_ok_row: "cms_ok c \<Longrightarrow> i < nat (sint (cms_k c)) \<Longrightarrow> length (cms_arr c ! i) = unat (cms_width c)"
  by (simp add: cms_ok_def)

lemma cms_ok_cell:
  "cms_ok c \<Longrightarrow> i < nat (sint (cms_k c)) \<Longrightarrow> j < unat (cms_width c) \<Longrightarrow> cms_arr c ! i ! j \<le> SAMPLE_SIZE + cms_op_counter c"
  by (metis cms_ok_def nth_mem)

lemma sample_room: "cms_ok c \<Longrightarrow> SAMPLE_SIZE + cms_op_counter c < 2 ^ 63"
  by (auto simp: cms_ok_def word_less_nat_alt unat_word_ariths)

lemma cms_hash:
  assumes "cms_ok c"
  shows "DoubleHashIndices h key (sint (cms_k c)) (cms_width c) = Ok (hash_list h key (sint (cms_k c)) (cms_width c))"
    "length (hash_list h key (sint (cms_k c)) (cms_width c)) = nat (sint (cms_k c))"
    "i < nat (sint (cms_k c)) \<Longrightarrow> unat (hash_list h key (sint (cms_k c)) (cms_width c) ! i) < unat (cms_width c)"
  using assms hash_list_Ok[where k = "sint (cms_k c)" and m = "cms_width c" and h = h and data = key]
  by (auto simp: cms_ok_def word_less_nat_alt)

lemma cms_range: "cms_ok c \<Longrightarrow> {..<nat (sint (cms_k c))} \<noteq> {}"
  by (simp add: cms_ok_def lessThan_empty_iff)

lemma GetCount_eq:
  assumes "cms_ok c"
  shows "GetCount h key c = Ok (int (cms_est h key c))"
proof -
  let ?vs = "hash_list h key (sint (cms_k c)) (cms_width c)"
  let ?cells = "cell ?vs (cms_arr c) ` {..<nat (sint (cms_k c))}"
  have "Min ?cells \<in> ?cells" using cms_range[OF assms] by (intro Min_in) auto
  then have "Min ?cells \<le> SAMPLE_SIZE + cms_op_counter c"
    using assms cms_ok_cell cms_hash(3) by (auto simp: cell_def)
  then have "Min ?cells < 2 ^ 63" using sample_room[OF assms] by (rule order.strict_trans1)
  moreover have "min_rows ?vs (cms_arr c) None = Ok (Min ?cells)"
    using min_rows_None[of ?vs "cms_arr c"] cms_hash(2,3)[OF assms] cms_ok_row[OF assms] cms_range[OF assms] assms
    by (simp add: cms_ok_def)
  ultimately have "GetCount h key c = Ok (uint (Min ?cells))"
    by (simp add: GetCount_def cms_hash(1)[OF assms] small_sint)
  also have "uint (Min ?cells) = int (unat (Min ?cells))" by simp
  also have "unat (Min ?cells) = cms_est h key c"
    using cms_range[OF assms] by (simp add: unat_Min image_image cms_est_def)
  finally show ?thesis .
qed

lemma Min_image_mono:
  fixes f g :: "'a \<Rightarrow> nat"
  assumes "finite A" "A \<noteq> {}" "\<And>i. i \<in> A \<Longrightarrow> f i \<le> g i"
  shows "Min (f ` A) \<le> Min (g ` A)"
  using assms by (simp add: Min_ge_iff) (meson Min_le_iff finite_imageI image_eqI image_is_empty order_refl)

lemma Min_image_Suc: "finite A \<Longrightarrow> A \<noteq> {} \<Longrightarrow> Min ((\<lambda>i. Suc (f i)) ` A) = Suc (Min (f ` A))"
  by (metis (no_types) image_image mono_Min_commute mono_Suc finite_imageI image_is_empty)

text \<open>One \<^verbatim>\<open>Increment\<close>: every cell of the key grows by one, no other cell changes.\<close>

definition bumped :: "u64 list \<Rightarrow> u64 list list \<Rightarrow> u64 list list" where
  "bumped vs arr = map2 (\<lambda>v row. row[unat v := row ! unat v + 1]) vs arr"

lemma Increment_eq:
  assumes "cms_ok c"
  shows "Increment h key c = (Ok (cms_op_counter c + 1),
     c\<lparr>cms_arr := bumped (hash_list h key (sint (cms_k c)) (cms_width c)) (cms_arr c), cms_op_counter := cms_op_counter c + 1\<rparr>)"
  using assms inc_rows_Ok[of "hash_list h key (sint (cms_k c)) (cms_width c)" "cms_arr c"] cms_hash[OF assms] cms_ok_row[OF assms]
  by (simp add: Increment_def bumped_def bindS_def liftR_def cms_ok_def)

lemma word_Suc: "(x :: u64) \<le> y \<Longrightarrow> y < 2 ^ 63 \<Longrightarrow> unat (x + 1) = Suc (unat x)"
  by (simp add: word_le_nat_alt word_less_nat_alt unat_word_ariths)

lemma cell_bumped:
  assumes "cms_ok c" "i < nat (sint (cms_k c))" "j < unat (cms_width c)"
  shows "unat (bumped (hash_list h key (sint (cms_k c)) (cms_width c)) (cms_arr c) ! i ! j)
     = (if j = unat (hash_list h key (sint (cms_k c)) (cms_width c) ! i) then Suc (unat (cms_arr c ! i ! j)) else unat (cms_arr c ! i ! j))"
proof -
  have "unat (cms_arr c ! i ! j + 1) = Suc (unat (cms_arr c ! i ! j))"
    using cms_ok_cell[OF assms] sample_room[OF assms(1)] by (rule word_Suc)
  then show ?thesis
    using assms cms_ok_row[OF assms(1,2)] cms_hash(2)[OF assms(1), of h key] by (auto simp: bumped_def cms_ok_def)
qed

lemma Increment_ok:
  assumes "cms_ok c" "cms_op_counter c < 2 ^ 62 - 1"
  shows "cms_ok (snd (Increment h key c))"
proof -
  let ?arr = "bumped (hash_list h key (sint (cms_k c)) (cms_width c)) (cms_arr c)"
  have k: "0 < sint (cms_k c)" "cms_width c \<noteq> 0" "length (cms_arr c) = nat (sint (cms_k c))"
    using assms(1) by (auto simp: cms_ok_def)
  have op: "unat (cms_op_counter c + 1) = Suc (unat (cms_op_counter c))"
    using assms(2) by (simp add: word_less_nat_alt unat_word_ariths)
  have sop: "unat (SAMPLE_SIZE + (cms_op_counter c + 1)) = Suc (unat (SAMPLE_SIZE + cms_op_counter c))"
    using assms(2) by (simp add: word_less_nat_alt unat_word_ariths)
  have len: "length ?arr = nat (sint (cms_k c))" "\<And>i. i < nat (sint (cms_k c)) \<Longrightarrow> length (?arr ! i) = unat (cms_width c)"
    using k cms_hash(2)[OF assms(1), of h key] cms_ok_row[OF assms(1)] by (auto simp: bumped_def)
  have "?arr ! i ! j \<le> SAMPLE_SIZE + (cms_op_counter c + 1)" if "i < nat (sint (cms_k c))" "j < unat (cms_width c)" for i j
    using cms_ok_cell[OF assms(1) that] cell_bumped[OF assms(1) that, of h key] sop
    by (auto simp: word_le_nat_alt split: if_splits)
  moreover have "cms_op_counter c + 1 < 2 ^ 62" using assms(2) op by (simp add: word_less_nat_alt)
  ultimately show ?thesis using len k by (auto simp: Increment_eq[OF assms(1)] cms_ok_def in_set_conv_nth)
qed

lemma Increment_est:
  assumes "cms_ok c"
  shows "cms_est h key (snd (Increment h key c)) = Suc (cms_est h key c)"
    "cms_est h e c \<le> cms_est h e (snd (Increment h key c))"
    "cms_est h e (snd (Increment h key c)) \<le> Suc (cms_est h e c)"
proof -
  let ?hl = "\<lambda>e. hash_list h e (sint (cms_k c)) (cms_width c)" and ?I = "{..<nat (sint (cms_k c))}"
  have est: "cms_est h e (snd (Increment h key c)) = Min ((\<lambda>i. unat (cell (?hl e) (bumped (?hl key) (cms_arr c)) i)) ` ?I)" for e
    by (simp add: Increment_eq[OF assms] cms_est_def)
  have cells: "unat (cell (?hl e) (bumped (?hl key) (cms_arr c)) i)
      = (if unat (?hl e ! i) = unat (?hl key ! i) then Suc (unat (cell (?hl e) (cms_arr c) i)) else unat (cell (?hl e) (cms_arr c) i))"
    if "i \<in> ?I" for e i
    using cell_bumped[OF assms _ cms_hash(3)[OF assms]] that by (simp add: cell_def)
  note I = finite_lessThan cms_range[OF assms]
  have "(\<lambda>i. unat (cell (?hl key) (bumped (?hl key) (cms_arr c)) i)) ` ?I = (\<lambda>i. Suc (unat (cell (?hl key) (cms_arr c) i))) ` ?I"
    using cells by (intro image_cong) auto
  then show "cms_est h key (snd (Increment h key c)) = Suc (cms_est h key c)"
    unfolding est by (simp add: Min_image_Suc[OF I] cms_est_def)
  show "cms_est h e c \<le> cms_est h e (snd (Increment h key c))"
    unfolding est unfolding cms_est_def using cells by (intro Min_image_mono[OF I]) simp
  have "cms_est h e (snd (Increment h key c)) \<le> Min ((\<lambda>i. Suc (unat (cell (?hl e) (cms_arr c) i))) ` ?I)"
    unfolding est using cells by (intro Min_image_mono[OF I]) simp
  then show "cms_est h e (snd (Increment h key c)) \<le> Suc (cms_est h e c)"
    by (simp add: Min_image_Suc[OF I] cms_est_def)
qed

section \<open>What a frequency sketch promises\<close>

text \<open>Recording an item raises its estimate by one, lowers no estimate, and raises none by more than one; \<open>room\<close> is
  how many more recordings the sketch takes before its counters saturate or are aged.\<close>

locale frequency_sketch =
  fixes ok :: "'s \<Rightarrow> bool"
    and room :: "'s \<Rightarrow> nat"
    and item :: "'k \<Rightarrow> bool"
    and record_item :: "'k \<Rightarrow> 's \<Rightarrow> 's"
    and estimate :: "'k \<Rightarrow> 's \<Rightarrow> nat"
  assumes record_ok: "ok s \<Longrightarrow> item k \<Longrightarrow> 0 < room s \<Longrightarrow> ok (record_item k s) \<and> room s \<le> Suc (room (record_item k s))"
    and record_same: "ok s \<Longrightarrow> item k \<Longrightarrow> 0 < room s \<Longrightarrow> Suc (estimate k s) \<le> estimate k (record_item k s)"
    and record_other: "ok s \<Longrightarrow> item k \<Longrightarrow> 0 < room s \<Longrightarrow> estimate e s \<le> estimate e (record_item k s)
          \<and> estimate e (record_item k s) \<le> Suc (estimate e s)"
begin

lemma run_ok: "ok s \<Longrightarrow> \<forall>k\<in>set ks. item k \<Longrightarrow> length ks \<le> room s \<Longrightarrow> ok (fold record_item ks s)"
proof (induction ks arbitrary: s)
  case (Cons k ks)
  then show ?case using record_ok[of s k] by simp
qed simp

lemma run_estimate:
  "ok s \<Longrightarrow> \<forall>k\<in>set ks. item k \<Longrightarrow> length ks \<le> room s \<Longrightarrow>
   estimate e s + count_list ks e \<le> estimate e (fold record_item ks s)
   \<and> estimate e (fold record_item ks s) \<le> estimate e s + length ks"
proof (induction ks arbitrary: s)
  case (Cons k ks)
  have s: "ok s" "item k" "0 < room s" using Cons.prems by auto
  have "length ks \<le> room (record_item k s)" "ok (record_item k s)" using Cons.prems record_ok[OF s] by auto
  then have "estimate e (record_item k s) + count_list ks e \<le> estimate e (fold record_item (k # ks) s)
      \<and> estimate e (fold record_item (k # ks) s) \<le> estimate e (record_item k s) + length ks"
    using Cons.IH[of "record_item k s"] Cons.prems by simp
  then show ?case using record_same[OF s] record_other[OF s, of e] by (cases "k = e") auto
qed simp

end

definition cms_room :: "CMS \<Rightarrow> nat" where
  "cms_room c = 2 ^ 62 - 1 - unat (cms_op_counter c)"

lemma cms_room_pos: "0 < cms_room c \<longleftrightarrow> cms_op_counter c < 2 ^ 62 - 1"
  by (auto simp: cms_room_def word_less_nat_alt)

interpretation cms: frequency_sketch cms_ok cms_room "\<lambda>_. True" "\<lambda>key c. snd (Increment h key c)" "cms_est h" for h
proof unfold_locales
  fix c key e
  assume c: "cms_ok c" "0 < cms_room c"
  have "cms_room c \<le> Suc (cms_room (snd (Increment h key c)))"
    using c by (simp add: Increment_eq cms_room_pos) (simp add: cms_room_def word_less_nat_alt unat_word_ariths)
  then show "cms_ok (snd (Increment h key c)) \<and> cms_room c \<le> Suc (cms_room (snd (Increment h key c)))"
    using Increment_ok c by (simp add: cms_room_pos)
qed (auto simp: Increment_est)

section \<open>Ageing\<close>

lemma word_half: "(if x > 0 then x div 2 else x) = (x :: u64) div 2"
  by (auto simp: word_gt_0)

lemma half_cell:
  assumes "cms_ok c" "i < nat (sint (cms_k c))" "j < unat (cms_width c)"
  shows "unat (cms_arr (cms_reset c) ! i ! j) = unat (cms_arr c ! i ! j) div 2"
  using assms cms_ok_row[OF assms(1,2)] by (simp add: cms_reset_def word_half cms_ok_def unat_div)

lemma cms_reset_ok:
  assumes "cms_ok c" "cms_op_counter c \<le> SAMPLE_SIZE"
  shows "cms_ok (cms_reset c)"
proof -
  have "x div 2 \<le> SAMPLE_SIZE" if "row \<in> set (cms_arr c)" "x \<in> set row" for row x
  proof -
    have "unat x \<le> unat (SAMPLE_SIZE + cms_op_counter c)" using assms(1) that by (simp add: cms_ok_def word_le_nat_alt)
    also have "\<dots> \<le> 1600000" using assms(2) by (simp add: word_le_nat_alt unat_word_ariths)
    finally show ?thesis by (simp add: word_le_nat_alt unat_div)
  qed
  then show ?thesis using assms(1) by (auto simp: cms_ok_def cms_reset_def word_half)
qed

lemma Min_image_half: "finite A \<Longrightarrow> A \<noteq> {} \<Longrightarrow> Min ((\<lambda>i. f i div 2) ` A) = Min (f ` A) div (2 :: nat)"
  using mono_Min_commute[of "\<lambda>n :: nat. n div 2" "f ` A"] by (simp add: monoI div_le_mono image_image)

lemma cms_reset_est:
  assumes "cms_ok c"
  shows "cms_est h e (cms_reset c) = cms_est h e c div 2"
proof -
  let ?hl = "hash_list h e (sint (cms_k c)) (cms_width c)" and ?I = "{..<nat (sint (cms_k c))}"
  have "(\<lambda>i. unat (cell ?hl (cms_arr (cms_reset c)) i)) ` ?I = (\<lambda>i. unat (cell ?hl (cms_arr c) i) div 2) ` ?I"
    using half_cell[OF assms _ cms_hash(3)[OF assms]] by (intro image_cong) (auto simp: cell_def)
  then show ?thesis
    using Min_image_half[OF finite_lessThan cms_range[OF assms]] by (simp add: cms_est_def) (simp add: cms_reset_def)
qed

section \<open>TinyLFU\<close>

definition lfu_ok :: "TinyLFU \<Rightarrow> bool" where
  "lfu_ok t \<longleftrightarrow> bloom_ok (t_Doorkeeper t) \<and> cms_ok (t_MainStruct t) \<and> cms_op_counter (t_MainStruct t) < SAMPLE_SIZE"

definition lfu_est :: "hasher \<Rightarrow> bytes \<Rightarrow> TinyLFU \<Rightarrow> nat" where
  "lfu_est h e t = cms_est h e (t_MainStruct t) + (if in_door h e (t_Doorkeeper t) then 1 else 0)"

definition lfu_room :: "TinyLFU \<Rightarrow> nat" where
  "lfu_room t = 799999 - unat (cms_op_counter (t_MainStruct t))"

lemma IncrementItem_first:
  assumes "lfu_ok t" "data \<noteq> []" "\<not> in_door h data (t_Doorkeeper t)"
  shows "\<exists>b. IncrementItem h data t = (Ok (), t\<lparr>t_Doorkeeper := b\<rparr>) \<and> bloom_ok b \<and> in_door h data b
     \<and> (\<forall>e. in_door h e (t_Doorkeeper t) \<longrightarrow> in_door h e b)"
  using assms bloom_Add_Ok[of "t_Doorkeeper t" h data]
  by (auto simp: IncrementItem_def lfu_ok_def bloom_Check_eq bindS_def liftR_def on_door_def)

lemma IncrementItem_again:
  assumes "lfu_ok t" "data \<noteq> []" "in_door h data (t_Doorkeeper t)"
  shows "IncrementItem h data t =
    (let c = snd (Increment h data (t_MainStruct t)) in
     (Ok (), if SAMPLE_SIZE \<le> cms_op_counter c
             then t\<lparr>t_MainStruct := cms_reset c, t_Doorkeeper := bloom_Clear (t_Doorkeeper t)\<rparr> else t\<lparr>t_MainStruct := c\<rparr>))"
  using assms by (simp add: IncrementItem_def lfu_ok_def bloom_Check_eq bindS_def liftR_def on_main_def Increment_eq Let_def)

lemma op_counter_Suc: "lfu_ok t \<Longrightarrow> unat (cms_op_counter (snd (Increment h data (t_MainStruct t)))) = Suc (unat (cms_op_counter (t_MainStruct t)))"
  by (simp add: lfu_ok_def Increment_eq word_less_nat_alt unat_word_ariths)

lemma IncrementItem_ok:
  assumes "lfu_ok t" "data \<noteq> []"
  shows "fst (IncrementItem h data t) = Ok () \<and> lfu_ok (snd (IncrementItem h data t))"
proof (cases "in_door h data (t_Doorkeeper t)")
  case True
  let ?c = "snd (Increment h data (t_MainStruct t))"
  have c: "cms_ok ?c" using assms(1) by (intro Increment_ok) (auto simp: lfu_ok_def word_less_nat_alt)
  have "cms_op_counter ?c \<le> SAMPLE_SIZE" "cms_op_counter (cms_reset ?c) < SAMPLE_SIZE"
    using op_counter_Suc[OF assms(1)] assms(1) by (auto simp: word_le_nat_alt lfu_ok_def word_less_nat_alt cms_reset_def)
  then show ?thesis
    using IncrementItem_again[OF assms True] c assms(1) cms_reset_ok[OF c] bloom_Clear_ok
    by (auto simp: Let_def lfu_ok_def not_le)
next
  case False
  then show ?thesis using IncrementItem_first[OF assms False] assms(1) by (auto simp: lfu_ok_def)
qed

lemma IncrementItem_est:
  assumes "lfu_ok t" "data \<noteq> []" "0 < lfu_room t"
  shows "lfu_room t \<le> Suc (lfu_room (snd (IncrementItem h data t)))"
    "Suc (lfu_est h data t) \<le> lfu_est h data (snd (IncrementItem h data t))"
    "lfu_est h e t \<le> lfu_est h e (snd (IncrementItem h data t)) \<and> lfu_est h e (snd (IncrementItem h data t)) \<le> Suc (lfu_est h e t)"
proof -
  let ?c = "snd (Increment h data (t_MainStruct t))" and ?t = "snd (IncrementItem h data t)"
  have c: "cms_ok (t_MainStruct t)" using assms(1) by (simp add: lfu_ok_def)
  have main: "?t = t\<lparr>t_MainStruct := ?c\<rparr>" if "in_door h data (t_Doorkeeper t)"
    using IncrementItem_again[OF assms(1,2) that] op_counter_Suc[OF assms(1), of h data] assms(3)
    by (simp add: Let_def lfu_room_def word_le_nat_alt)
  have door: "\<exists>b. ?t = t\<lparr>t_Doorkeeper := b\<rparr> \<and> in_door h data b \<and> (\<forall>e. in_door h e (t_Doorkeeper t) \<longrightarrow> in_door h e b)"
    if "\<not> in_door h data (t_Doorkeeper t)"
    using IncrementItem_first[OF assms(1,2) that] by auto
  note facts = main door op_counter_Suc[OF assms(1), of h data] Increment_est[OF c]
  show "lfu_room t \<le> Suc (lfu_room ?t)"
    using facts by (cases "in_door h data (t_Doorkeeper t)") (auto simp: lfu_room_def)
  show "Suc (lfu_est h data t) \<le> lfu_est h data ?t"
    using facts by (cases "in_door h data (t_Doorkeeper t)") (auto simp: lfu_est_def)
  show "lfu_est h e t \<le> lfu_est h e ?t \<and> lfu_est h e ?t \<le> Suc (lfu_est h e t)"
    using facts by (cases "in_door h data (t_Doorkeeper t)") (auto simp: lfu_est_def)
qed

interpretation lfu: frequency_sketch lfu_ok lfu_room "\<lambda>k. k \<noteq> []" "\<lambda>k t. snd (IncrementItem h k t)" "lfu_est h" for h
  by unfold_locales (auto simp: IncrementItem_ok IncrementItem_est)

text \<open>The items of a workload, one call of \<^verbatim>\<open>IncrementItem\<close> each.\<close>

fun record_all :: "hasher \<Rightarrow> bytes list \<Rightarrow> TinyLFU \<Rightarrow> unit res \<times> TinyLFU" where
  "record_all h [] = returnS ()"
| "record_all h (k # ks) = bindS (IncrementItem h k) (\<lambda>_. record_all h ks)"

lemma record_all_eq:
  "lfu_ok t \<Longrightarrow> \<forall>k\<in>set ks. k \<noteq> [] \<Longrightarrow>
   record_all h ks t = (Ok (), fold (\<lambda>k t. snd (IncrementItem h k t)) ks t) \<and> lfu_ok (fold (\<lambda>k t. snd (IncrementItem h k t)) ks t)"
proof (induction ks arbitrary: t)
  case (Cons k ks)
  then show ?case using IncrementItem_ok[of t k h] by (cases "IncrementItem h k t") (auto simp: bindS_def)
qed (simp add: returnS_def)

lemma NewTinyLFU_ok:
  assumes "NewTinyLFU h w d = Ok t" "w \<noteq> 0" "0 < sint d"
  shows "lfu_ok t" "lfu_room t = 799999" "lfu_est h e t = 0"
proof -
  have t: "t = \<lparr>t_Doorkeeper = \<lparr>bl_m = 10000, bl_k = 20, bl_bitArray = replicate 1250 0\<rparr>,
      t_MainStruct = \<lparr>cms_k = d, cms_width = w, cms_arr = replicate (unat d) (replicate (unat w) 0), cms_op_counter = 0\<rparr>\<rparr>"
    using assms(1) by (simp add: NewTinyLFU_def NewDoorkeeper_def NewCMS_def)
  have d: "unat d = nat (sint d)"
    using assms(3) sint_less[of d] uint_sint[of d] by (simp add: take_bit_int_eq_self flip: nat_uint_eq)
  have cms: "cms_ok (t_MainStruct t)" using assms(2,3) d by (simp add: t cms_ok_def)
  have door: "bloom_ok (t_Doorkeeper t)" by (simp add: t bloom_ok_def)
  show "lfu_ok t" using cms door by (simp add: lfu_ok_def) (simp add: t)
  show "lfu_room t = 799999" by (simp add: lfu_room_def t)
  let ?vs = "hash_list h e 20 10000"
  have "length ?vs = 20" "\<And>v. v \<in> set ?vs \<Longrightarrow> nat (byte_pos (uint v)) < 1250"
    using hash_list_Ok(2,3)[where k = 20 and m = 10000 and h = h and data = e] byte_pos_less[of 10000] by (auto simp: word_less_def)
  then have "hd ?vs \<in> set ?vs \<and> \<not> has_bit (replicate 1250 0) (hd ?vs)"
    by (cases ?vs) (auto simp: has_bit_def)
  then have "\<not> in_door h e (t_Doorkeeper t)" by (auto simp: in_door_def t)
  moreover have "cms_est h e (t_MainStruct t) = 0"
  proof -
    have "unat (cell (hash_list h e (sint d) w) (cms_arr (t_MainStruct t)) i) = 0" if "i < nat (sint d)" for i
      using that cms_hash(3)[OF cms, of i h e] d by (simp add: t cell_def)
    then have "(\<lambda>i. unat (cell (hash_list h e (sint d) w) (cms_arr (t_MainStruct t)) i)) ` {..<nat (sint d)} = {0}"
      using assms(3) zero_less_nat_eq[of "sint d"] by (auto simp: image_iff simp del: zero_less_nat_eq)
    then show ?thesis by (simp add: cms_est_def) (simp add: t)
  qed
  ultimately show "lfu_est h e t = 0" by (simp add: lfu_est_def)
qed

section \<open>Properties\<close>

text \<open>The doorkeeper has no false negatives: on a well-formed filter \<^verbatim>\<open>Add\<close> returns nil, \<^verbatim>\<open>Check\<close> then reports the item, and
  every item that was reported before is still reported; the filter stays well-formed.\<close>

theorem doorkeeper_remembers:
  assumes "bloom_ok b"
  shows "\<exists>b'. bloom_Add h data b = (Ok (), b') \<and> bloom_ok b' \<and> bloom_Check h data b' = Ok True
     \<and> (\<forall>e. bloom_Check h e b = Ok True \<longrightarrow> bloom_Check h e b' = Ok True)"
  using bloom_Add_Ok[OF assms, of h data] assms by (auto simp: bloom_Check_eq)

theorem doorkeeper_remembers_witness:
  "\<exists>b'. bloom_Add (\<lambda>xs. of_nat (length xs)) [1, 2] \<lparr>bl_m = 16, bl_k = 2, bl_bitArray = [0, 0]\<rparr> = (Ok (), b')
     \<and> bloom_Check (\<lambda>xs. of_nat (length xs)) [1, 2] b' = Ok True"
proof -
  have "bloom_ok \<lparr>bl_m = 16, bl_k = 2, bl_bitArray = [0, 0]\<rparr>" by (simp add: bloom_ok_def)
  from doorkeeper_remembers[OF this, of "\<lambda>xs. of_nat (length xs)" "[1, 2]"] show ?thesis by blast
qed

text \<open>C32. The count-min sketch never counts too little, and never more than the number of recordings: after any run of
  \<^verbatim>\<open>Increment\<close> that fits the counters, \<^verbatim>\<open>GetCount\<close> returns at least the earlier estimate plus the occurrences of the key, and at
  most the earlier estimate plus the length of the run, whatever the hash function does.\<close>

theorem cms_never_undercounts:
  assumes "cms_ok c" "length keys \<le> cms_room c" "GetCount h key c = Ok n"
  shows "\<exists>n'. GetCount h key (fold (\<lambda>k c. snd (Increment h k c)) keys c) = Ok n'
     \<and> n + int (count_list keys key) \<le> n' \<and> n' \<le> n + int (length keys)"
  using cms.run_estimate[where s = c and ks = keys and h = h and e = key]
    cms.run_ok[where s = c and ks = keys and h = h] GetCount_eq assms
  by auto

text \<open>A sketch of two rows of four cells.\<close>

definition small_cms :: CMS where
  "small_cms = \<lparr>cms_k = 2, cms_width = 4, cms_arr = [[0, 0, 0, 0], [0, 0, 0, 0]], cms_op_counter = 0\<rparr>"

lemma small_cms_ok: "cms_ok small_cms"
  by (simp add: small_cms_def cms_ok_def)

theorem cms_never_undercounts_witness:
  "\<exists>n'. GetCount (\<lambda>xs. of_nat (length xs)) [7] (fold (\<lambda>k c. snd (Increment (\<lambda>xs. of_nat (length xs)) k c)) [[7], [7, 8], [7]] small_cms) = Ok n'
     \<and> 2 \<le> n' \<and> n' \<le> 3"
proof -
  have "GetCount (\<lambda>xs. of_nat (length xs)) [7] small_cms = Ok 0"
    by (simp add: small_cms_def GetCount_def DoubleHashIndices_def upt_rec)
  moreover have "length [[7 :: u8], [7, 8], [7]] \<le> cms_room small_cms" by (simp add: small_cms_def cms_room_def)
  ultimately show ?thesis using cms_never_undercounts[OF small_cms_ok] by fastforce
qed

text \<open>Ageing: \<^verbatim>\<open>reset\<close> halves the estimate of every key and leaves a well-formed sketch with its operation counter at
  zero.\<close>

theorem cms_reset_halves:
  assumes "cms_ok c" "cms_op_counter c \<le> SAMPLE_SIZE" "GetCount h key c = Ok n"
  shows "cms_ok (cms_reset c) \<and> cms_op_counter (cms_reset c) = 0 \<and> GetCount h key (cms_reset c) = Ok (n div 2)"
  using assms cms_reset_ok[OF assms(1,2)] cms_reset_est[OF assms(1), of h key]
  by (auto simp: GetCount_eq zdiv_int cms_reset_def)

theorem cms_reset_halves_witness:
  "GetCount (\<lambda>xs. of_nat (length xs)) [7] (cms_reset (small_cms\<lparr>cms_arr := [[5, 5, 5, 5], [9, 9, 9, 9]]\<rparr>)) = Ok 2"
proof -
  let ?c = "small_cms\<lparr>cms_arr := [[5, 5, 5, 5], [9, 9, 9, 9]]\<rparr>"
  have "cms_ok ?c" by (simp add: small_cms_def cms_ok_def)
  moreover have "GetCount (\<lambda>xs. of_nat (length xs)) [7] ?c = Ok 5"
    by (simp add: small_cms_def GetCount_def DoubleHashIndices_def upt_rec)
  ultimately show ?thesis using cms_reset_halves[of ?c "\<lambda>xs. of_nat (length xs)" "[7]" 5] by (simp add: small_cms_def)
qed

text \<open>C31. The sketch under any workload: from a fresh \<^verbatim>\<open>TinyLFU\<close>, any sequence of non-empty items is recorded without an error or
  a panic, across every ageing; and before the first ageing (fewer than \<^verbatim>\<open>SAMPLE_SIZE\<close> items) \<^verbatim>\<open>CheckItemCount\<close> of an item is at
  least its occurrences less the one that the doorkeeper holds, and at most the number of items.\<close>

theorem tinylfu_counts:
  assumes "NewTinyLFU h w d = Ok t" "w \<noteq> 0" "0 < sint d" "\<forall>k\<in>set items. k \<noteq> []"
  shows "\<exists>t'. record_all h items t = (Ok (), t') \<and> lfu_ok t' \<and>
     (\<exists>n. CheckItemCount h e t' = Ok n \<and>
        (length items < 800000 \<longrightarrow> int (count_list items e) \<le> n + 1 \<and> n \<le> int (length items)))"
proof -
  note new = NewTinyLFU_ok[OF assms(1-3)]
  let ?t = "fold (\<lambda>k t. snd (IncrementItem h k t)) items t"
  have run: "record_all h items t = (Ok (), ?t)" "lfu_ok ?t" using record_all_eq[OF new(1) assms(4)] by auto
  then have n: "CheckItemCount h e ?t = Ok (int (cms_est h e (t_MainStruct ?t)))"
    by (simp add: CheckItemCount_def GetCount_eq lfu_ok_def)
  have "count_list items e \<le> Suc (cms_est h e (t_MainStruct ?t)) \<and> cms_est h e (t_MainStruct ?t) \<le> length items"
    if "length items < 800000"
    using lfu.run_estimate[where s = t and ks = items and h = h and e = e] new assms(4) that
    by (auto simp: lfu_est_def split: if_splits)
  then show ?thesis using run n by auto
qed

theorem tinylfu_counts_witness:
  "\<exists>t t'. NewTinyLFU (\<lambda>xs. 0) 4 2 = Ok t \<and> record_all (\<lambda>xs. 0) [[1], [2], [1]] t = (Ok (), t') \<and>
     (\<exists>n. CheckItemCount (\<lambda>xs. 0) [1] t' = Ok n \<and> 2 \<le> n + 1 \<and> n \<le> 3)"
proof -
  obtain t where t: "NewTinyLFU (\<lambda>xs. 0) 4 2 = Ok t"
    by (simp add: NewTinyLFU_def NewDoorkeeper_def NewCMS_def)
  show ?thesis using tinylfu_counts[OF t, of "[[1], [2], [1]]" "[1]"] t by fastforce
qed

end
