(* ===== verification/Disk.thy ===== *)
theory Disk
  imports Helpers OsFile Fifo
begin

text \<open>
  The disk manager, \<^verbatim>\<open>pkg/diskmanager/diskmanager.go\<close>. A request names a buffer by its address in a store
  of buffers, since a read fills the caller's buffer and the write of a dead page clears it. The queues
  are a store too: the manager's map has the number of a queue for a file offset, and two callers that find none can both
  make one.

  The routines of the state are the callers and the goroutines, each at a point of its code. A caller that \<^verbatim>\<open>WriteReq\<close> or \<^verbatim>\<open>ReadReq\<close>
  has accepted goes through \<open>Load\<close>, \<open>Store\<close> (if there was no queue) and \<open>Add\<close>, and then waits on its channel (\<open>Await\<close>), as the worker
  of the pager does. A goroutine of a queue is at \<open>Start\<close> before it has set \<^verbatim>\<open>running\<close>, at \<open>Loop\<close> at the head of its loop, at \<open>Exec\<close> with
  a request it took, and at \<open>Send\<close> with an answer it has to send. The channels are unbuffered: a sender waits until a caller
  receives. Every access to the map and every section under a mutex is one step; so is the file access of a request.
  (\<^verbatim>\<open>addJob\<close> starts the goroutine after it has released the mutex; as a goroutine may take its first step at any later
  time, starting it with the section allows the same runs.) The manager's own mutex is taken around single file calls only
  and released on every path, so it orders nothing further and is left out.
\<close>

section \<open>State\<close>

type_synonym addr = nat
type_synonym chan = nat

record ioReq =
  io_buff :: addr
  io_size :: int
  io_errChan :: chan
  io_off :: u64
  io_flag :: u8
  io_flush :: bool

record JobQueue =
  q_pageId :: u32
  q_jobs :: "ioReq list"
  q_running :: bool

type_synonym queue = nat

datatype routine =
    Load u32 ioReq | Store u32 ioReq | Add queue ioReq | Await chan
  | Start queue | Loop queue | Exec queue ioReq | Send queue chan "gerror option"

text \<open>\<open>d_sent\<close> has the answers that callers have received.\<close>

record DiskManager =
  d_Queues :: "u32 \<rightharpoonup> queue"
  d_qs :: "JobQueue list"
  d_fd :: osfile
  d_bufs :: "addr \<rightharpoonup> bytes"
  d_go :: "routine list"
  d_sent :: "(chan \<times> gerror option) list"

section \<open>Single requests\<close>

text \<open>\<^verbatim>\<open>ReadAt\<close> at the end of the file: the bytes it got replace the front of the buffer, and \<^verbatim>\<open>io.EOF\<close> is
  not an error.\<close>

definition loadPage :: "u32 \<Rightarrow> addr \<Rightarrow> DiskManager \<Rightarrow> gerror option \<times> DiskManager" where
  "loadPage off buff d = (case d_bufs d buff of
      None \<Rightarrow> (Some (DiskManagerError ''Invalid buffer provided''), d)
    | Some b \<Rightarrow>
        (let (data, err) = ReadAt (d_fd d) (length b) (unat off);
             d' = d\<lparr>d_bufs := (d_bufs d)(buff \<mapsto> data @ drop (length data) b)\<rparr> in
         case err of
           None \<Rightarrow> (None, d')
         | Some e \<Rightarrow> (if e \<noteq> EOF then Some e else None, d')))"

text \<open>The chunks of 64 bytes that a dead page is cleared by.\<close>

definition zero_chunks :: "nat \<Rightarrow> bytes \<Rightarrow> bytes" where
  "zero_chunks sz b = (let n = (sz div 64) * 64 in replicate n 0 @ drop n b)"

definition flushPage :: "addr \<Rightarrow> u32 \<Rightarrow> u32 \<Rightarrow> bool \<Rightarrow> bool \<Rightarrow> DiskManager \<Rightarrow> gerror option res \<times> DiskManager" where
  "flushPage pData sz offset isDead flush d = (case d_bufs d pData of
      None \<Rightarrow> (Panic ''nil pointer dereference'', d)
    | Some b \<Rightarrow>
        if isDead then
          (if length b < (unat sz div 64) * 64 then (Panic ''slice bounds out of range'', d)
           else
             (let b' = zero_chunks (unat sz) b;
                  d = d\<lparr>d_bufs := (d_bufs d)(pData \<mapsto> b')\<rparr> in
              case WriteAt b' (unat offset) (d_fd d) of
                (Ok _, f) \<Rightarrow> (Ok None, d\<lparr>d_fd := f\<rparr>)
              | (Err e, f) \<Rightarrow> (Ok (Some e), d\<lparr>d_fd := f\<rparr>)
              | (_, f) \<Rightarrow> (Ok None, d\<lparr>d_fd := f\<rparr>)))
        else
          (case WriteAt b (unat offset) (d_fd d) of
             (Err e, f) \<Rightarrow> (Ok (Some e), d\<lparr>d_fd := f\<rparr>)
           | (_, f) \<Rightarrow>
               if flush then
                 (case FSync f of
                    (Err e, f) \<Rightarrow> (Ok (Some e), d\<lparr>d_fd := f\<rparr>)
                  | (_, f) \<Rightarrow> (Ok None, d\<lparr>d_fd := f\<rparr>))
               else (Ok None, d\<lparr>d_fd := f\<rparr>)))"

text \<open>\<^verbatim>\<open>execute\<close> up to the send: the answer for the channel of the request.\<close>

definition execute :: "ioReq \<Rightarrow> DiskManager \<Rightarrow> gerror option res \<times> DiskManager" where
  "execute r d =
     (if BitIsSet (io_flag r) 7 then
        (case loadPage (ucast (io_off r)) (io_buff r) d of (err, d) \<Rightarrow> (Ok err, d))
      else flushPage (io_buff r) (word_of_int (io_size r)) (ucast (io_off r)) (BitIsSet (io_flag r) 6) (io_flush r) d)"

section \<open>Queues\<close>

definition newJobQueue :: "u32 \<Rightarrow> JobQueue" where
  "newJobQueue pageId = \<lparr>q_pageId = pageId, q_jobs = [], q_running = False\<rparr>"

definition push_job :: "ioReq \<Rightarrow> JobQueue \<Rightarrow> JobQueue" where
  "push_job job q = q\<lparr>q_jobs := q_jobs q @ [job]\<rparr>"

definition take_job :: "JobQueue \<Rightarrow> ioReq option \<times> JobQueue" where
  "take_job q = (case q_jobs q of
      [] \<Rightarrow> (None, q\<lparr>q_running := False\<rparr>)
    | job # jobs \<Rightarrow> (Some job, q\<lparr>q_jobs := jobs\<rparr>))"

text \<open>A routine is replaced by those it becomes.\<close>

definition set_go :: "nat \<Rightarrow> routine list \<Rightarrow> DiskManager \<Rightarrow> DiskManager" where
  "set_go i rs d = d\<lparr>d_go := take i (d_go d) @ rs @ drop (Suc i) (d_go d)\<rparr>"

text \<open>\<^verbatim>\<open>addJob\<close> by the caller \<open>i\<close>: a goroutine is started when the queue is not running. The caller then waits for its answer.\<close>

definition addJob :: "nat \<Rightarrow> queue \<Rightarrow> ioReq \<Rightarrow> DiskManager \<Rightarrow> DiskManager" where
  "addJob i p job d =
     (let q = d_qs d ! p in
      set_go i (Await (io_errChan job) # (if q_running q then [] else [Start p])) (d\<lparr>d_qs := (d_qs d)[p := push_job job q]\<rparr>))"

text \<open>\<^verbatim>\<open>Queues.Load\<close>, and \<^verbatim>\<open>newJobQueue\<close> with \<^verbatim>\<open>Queues.Store\<close>.\<close>

definition load_queue :: "nat \<Rightarrow> u32 \<Rightarrow> ioReq \<Rightarrow> DiskManager \<Rightarrow> DiskManager" where
  "load_queue i off job d = (case d_Queues d off of
      None \<Rightarrow> set_go i [Store off job] d
    | Some p \<Rightarrow> set_go i [Add p job] d)"

definition store_queue :: "nat \<Rightarrow> u32 \<Rightarrow> ioReq \<Rightarrow> DiskManager \<Rightarrow> DiskManager" where
  "store_queue i off job d =
     (let p = length (d_qs d) in
      set_go i [Add p job] (d\<lparr>d_qs := d_qs d @ [newJobQueue off], d_Queues := (d_Queues d)(off \<mapsto> p)\<rparr>))"

text \<open>An accepted request: its caller goes on with \<^verbatim>\<open>Queues.Load\<close>.\<close>

definition post :: "u32 \<Rightarrow> ioReq \<Rightarrow> DiskManager \<Rightarrow> DiskManager" where
  "post off job d = d\<lparr>d_go := d_go d @ [Load off job]\<rparr>"

text \<open>A nil buffer or channel is \<^const>\<open>None\<close>.\<close>

definition WriteReq :: "u32 \<Rightarrow> addr option \<Rightarrow> int \<Rightarrow> bool \<Rightarrow> chan option \<Rightarrow> bool \<Rightarrow> DiskManager \<Rightarrow> unit res \<times> DiskManager" where
  "WriteReq off buff sz isDead errChan flush d = (case buff of
      None \<Rightarrow> (Err (DiskManagerError ''invalid buffer pointer provided.''), d)
    | Some b \<Rightarrow> (case errChan of
        None \<Rightarrow> (Err (DiskManagerError ''invalid error channel provided.''), d)
      | Some c \<Rightarrow>
          (let flag = (if isDead then SetFlag 0 [6] else 0) in
           (Ok (), post off \<lparr>io_buff = b, io_size = sz, io_errChan = c, io_off = ucast off,
                             io_flag = flag, io_flush = flush\<rparr> d))))"

definition ReadReq :: "addr option \<Rightarrow> u32 \<Rightarrow> chan option \<Rightarrow> DiskManager \<Rightarrow> unit res \<times> DiskManager" where
  "ReadReq buff off readErr d = (case buff of
      None \<Rightarrow> (Err (DiskManagerError ''invalid buffer pointer provided.''), d)
    | Some b \<Rightarrow> (case readErr of
        None \<Rightarrow> (Err (DiskManagerError ''invalid error channel provided.''), d)
      | Some c \<Rightarrow>
          (Ok (), post off \<lparr>io_buff = b, io_size = 0, io_errChan = c, io_off = ucast off,
                            io_flag = 0x80, io_flush = False\<rparr> d)))"

section \<open>Steps\<close>

text \<open>The send of the goroutine \<open>i\<close>: together with a caller that waits on the channel, or not at all.\<close>

definition send :: "nat \<Rightarrow> queue \<Rightarrow> chan \<Rightarrow> gerror option \<Rightarrow> DiskManager \<Rightarrow> unit res \<times> DiskManager" where
  "send i p c e d =
     (if Await c \<in> set (d_go d)
      then (Ok (), d\<lparr>d_go := remove1 (Await c) (d_go (set_go i [Loop p] d)), d_sent := d_sent d @ [(c, e)]\<rparr>)
      else (Blocked, d))"

text \<open>One step of the routine at position \<open>i\<close>. A panic of \<^verbatim>\<open>execute\<close> ends the program; a caller that waits is moved by the sender.\<close>

definition go_step :: "nat \<Rightarrow> DiskManager \<Rightarrow> unit res \<times> DiskManager" where
  "go_step i d = (case d_go d ! i of
      Load off job \<Rightarrow> (Ok (), load_queue i off job d)
    | Store off job \<Rightarrow> (Ok (), store_queue i off job d)
    | Add p job \<Rightarrow> (Ok (), addJob i p job d)
    | Await c \<Rightarrow> (Blocked, d)
    | Start p \<Rightarrow> (Ok (), set_go i [Loop p] (d\<lparr>d_qs := (d_qs d)[p := (d_qs d ! p)\<lparr>q_running := True\<rparr>]\<rparr>))
    | Loop p \<Rightarrow> (case take_job (d_qs d ! p) of
          (None, q) \<Rightarrow> (Ok (), set_go i [] (d\<lparr>d_qs := (d_qs d)[p := q]\<rparr>))
        | (Some job, q) \<Rightarrow> (Ok (), set_go i [Exec p job] (d\<lparr>d_qs := (d_qs d)[p := q]\<rparr>)))
    | Exec p job \<Rightarrow> bindS (execute job) (\<lambda>err d. (Ok (), set_go i [Send p (io_errChan job) err] d)) d
    | Send p c err \<Rightarrow> send i p c err d)"

text \<open>A request without interference: the newest routine steps until all have ended.\<close>

fun run_last :: "nat \<Rightarrow> DiskManager \<Rightarrow> unit res \<times> DiskManager" where
  "run_last 0 d = (Blocked, d)"
| "run_last (Suc fuel) d =
     (if d_go d = [] then (Ok (), d) else bindS (go_step (length (d_go d) - 1)) (\<lambda>_. run_last fuel) d)"

section \<open>The rest of the interface\<close>

definition ForceFlush :: "DiskManager \<Rightarrow> unit res \<times> DiskManager" where
  "ForceFlush d = (case FSync (d_fd d) of
      (Err e, f) \<Rightarrow> (Panic ''Unable to flush to disk: %s'', d\<lparr>d_fd := f\<rparr>)
    | (r, f) \<Rightarrow> (r, d\<lparr>d_fd := f\<rparr>))"

definition disk_Close :: "DiskManager \<Rightarrow> unit res \<times> DiskManager" where
  "disk_Close d = (case FClose (d_fd d) of
      (Err e, f) \<Rightarrow> (Panic ''err'', d\<lparr>d_fd := f\<rparr>)
    | (r, f) \<Rightarrow> (r, d\<lparr>d_fd := f\<rparr>))"

text \<open>The file is the argument: \<^verbatim>\<open>os.OpenFile\<close> of the configured path, an error of which ends the program.\<close>

definition NewDiskManager :: "string \<Rightarrow> osfile res \<Rightarrow> DiskManager res" where
  "NewDiskManager dataFile opened =
     (if length dataFile = 0 then Err (DiskManagerError ''data file path not provided'')
      else (case opened of
          Ok fd \<Rightarrow> Ok \<lparr>d_Queues = Map.empty, d_qs = [], d_fd = fd, d_bufs = Map.empty, d_go = [], d_sent = []\<rparr>
        | _ \<Rightarrow> Panic ''log.Fatal''))"

end
