(* ===== verification/DiskSteps.thy ===== *)
theory DiskSteps
  imports Disk "HOL-Library.Multiset"
begin

text \<open>
  The disk manager as a transition system: callers post requests, and callers and goroutines step in any order. No
  request is lost or answered twice, the routines always finish, a queue with jobs always has a
  goroutine that serves it, and a goroutine with an answer always finds the caller that waits for it.
  What the queues do not give is the order of two requests for one page: two goroutines can serve one queue, and one
  page can have two queues.
\<close>

section \<open>The queue\<close>

interpretation job_queue: fifo_queue "\<lambda>_. True" q_jobs push_job take_job
  by unfold_locales (auto simp: push_job_def take_job_def split: list.splits)

section \<open>Runs\<close>

text \<open>A step with a label: the channel of a request that was accepted, or none for a routine.\<close>

inductive disk_step :: "DiskManager \<Rightarrow> chan option \<Rightarrow> DiskManager \<Rightarrow> bool" where
  wr: "WriteReq off (Some b) sz isDead (Some c) flush d = (Ok (), d') \<Longrightarrow> disk_step d (Some c) d'"
| rd: "ReadReq (Some b) off (Some c) d = (Ok (), d') \<Longrightarrow> disk_step d (Some c) d'"
| go: "i < length (d_go d) \<Longrightarrow> go_step i d = (Ok (), d') \<Longrightarrow> disk_step d None d'"

inductive disk_run :: "DiskManager \<Rightarrow> chan list \<Rightarrow> DiskManager \<Rightarrow> bool" where
  nil: "disk_run d [] d"
| snoc: "disk_run d cs d1 \<Longrightarrow> disk_step d1 l d2 \<Longrightarrow> disk_run d (cs @ (case l of None \<Rightarrow> [] | Some c \<Rightarrow> [c])) d2"

inductive go_run :: "nat \<Rightarrow> DiskManager \<Rightarrow> DiskManager \<Rightarrow> bool" where
  none: "go_run 0 d d"
| step: "i < length (d_go d) \<Longrightarrow> go_step i d = (Ok (), d1) \<Longrightarrow> go_run n d1 d2 \<Longrightarrow> go_run (Suc n) d d2"

inductive_cases disk_stepE: "disk_step d l d'"

section \<open>What is pending\<close>

definition items :: "('r \<Rightarrow> 'a list) \<Rightarrow> 'r list \<Rightarrow> 'a multiset" where
  "items f rs = mset (concat (map f rs))"

lemma items_simps [simp]: "items f [] = {#}" "items f (r # rs) = mset (f r) + items f rs" "items f (rs @ rs') = items f rs + items f rs'"
  by (simp_all add: items_def)

lemma items_replace:
  "i < length g \<Longrightarrow> items f (take i g @ rs @ drop (Suc i) g) + mset (f (g ! i)) = items f g + items f rs"
  by (subst (4) id_take_nth_drop [of i g]) simp_all

lemma items_remove1: "r \<in> set g \<Longrightarrow> items f (remove1 r g) + mset (f r) = items f g"
  by (induction g) auto

text \<open>The requests of callers that have not added them yet, those of goroutines, the channels with an answer to send, and the channels callers wait on.\<close>

fun pre_of :: "routine \<Rightarrow> ioReq list" where
  "pre_of (Load _ j) = [j]"
| "pre_of (Store _ j) = [j]"
| "pre_of (Add _ j) = [j]"
| "pre_of _ = []"

fun exec_of :: "routine \<Rightarrow> ioReq list" where
  "exec_of (Exec _ j) = [j]"
| "exec_of _ = []"

fun send_of :: "routine \<Rightarrow> chan list" where
  "send_of (Send _ c _) = [c]"
| "send_of _ = []"

fun wait_of :: "routine \<Rightarrow> chan list" where
  "wait_of (Await c) = [c]"
| "wait_of _ = []"

definition queued :: "DiskManager \<Rightarrow> ioReq multiset" where
  "queued d = items q_jobs (d_qs d)"

definition added :: "DiskManager \<Rightarrow> ioReq multiset" where
  "added d = queued d + items exec_of (d_go d)"

definition pending :: "DiskManager \<Rightarrow> ioReq multiset" where
  "pending d = items pre_of (d_go d) + added d"

definition answered :: "DiskManager \<Rightarrow> chan multiset" where
  "answered d = mset (map fst (d_sent d))"

definition owed :: "DiskManager \<Rightarrow> chan multiset" where
  "owed d = image_mset io_errChan (pending d) + items send_of (d_go d) + answered d"

text \<open>The callers that wait are those whose answer is still to come.\<close>

definition heard :: "DiskManager \<Rightarrow> bool" where
  "heard d \<longleftrightarrow> items wait_of (d_go d) = image_mset io_errChan (added d) + items send_of (d_go d)"

lemma queued_upd:
  "p < length (d_qs d) \<Longrightarrow> queued (d\<lparr>d_qs := (d_qs d)[p := q]\<rparr>) + mset (q_jobs (d_qs d ! p)) = queued d + mset (q_jobs q)"
  using items_replace [of p "d_qs d" q_jobs "[q]"] by (simp add: queued_def upd_conv_take_nth_drop)

lemma queued_more [simp]: "queued (set_go i rs d) = queued d" "queued (d\<lparr>d_go := g\<rparr>) = queued d" "queued (d\<lparr>d_sent := s\<rparr>) = queued d"
  "queued (d\<lparr>d_Queues := Q\<rparr>) = queued d"
  by (simp_all add: queued_def set_go_def)

lemma items_set_go:
  "i < length (d_go d) \<Longrightarrow> items f (d_go (set_go i rs d)) + mset (f (d_go d ! i)) = items f (d_go d) + items f rs"
  using items_replace [of i "d_go d" f rs] by (simp add: set_go_def)

lemma set_go_more [simp]: "d_qs (set_go i rs d) = d_qs d" "d_Queues (set_go i rs d) = d_Queues d" "d_sent (set_go i rs d) = d_sent d"
  "d_bufs (set_go i rs d) = d_bufs d"
  by (simp_all add: set_go_def)

text \<open>The cases of a step.\<close>

lemma go_stepE:
  assumes "go_step i d = (Ok (), d')"
  obtains (Load) off j r where "d_go d ! i = Load off j" "d' = set_go i [r] d" "r = Store off j \<or> (\<exists>p. r = Add p j \<and> d_Queues d off = Some p)"
    | (Store) off j where "d_go d ! i = Store off j"
      "d' = set_go i [Add (length (d_qs d)) j] (d\<lparr>d_qs := d_qs d @ [newJobQueue off], d_Queues := (d_Queues d)(off \<mapsto> length (d_qs d))\<rparr>)"
    | (Add) p j where "d_go d ! i = Add p j"
      "d' = set_go i (Await (io_errChan j) # (if q_running (d_qs d ! p) then [] else [Start p])) (d\<lparr>d_qs := (d_qs d)[p := push_job j (d_qs d ! p)]\<rparr>)"
    | (Start) p where "d_go d ! i = Start p"
      "d' = set_go i [Loop p] (d\<lparr>d_qs := (d_qs d)[p := (d_qs d ! p)\<lparr>q_running := True\<rparr>]\<rparr>)"
    | (Done) p where "d_go d ! i = Loop p" "q_jobs (d_qs d ! p) = []"
      "d' = set_go i [] (d\<lparr>d_qs := (d_qs d)[p := (d_qs d ! p)\<lparr>q_running := False\<rparr>]\<rparr>)"
    | (Take) p j js where "d_go d ! i = Loop p" "q_jobs (d_qs d ! p) = j # js"
      "d' = set_go i [Exec p j] (d\<lparr>d_qs := (d_qs d)[p := (d_qs d ! p)\<lparr>q_jobs := js\<rparr>]\<rparr>)"
    | (Exec) p j d1 e where "d_go d ! i = Exec p j" "execute j d = (Ok e, d1)" "d' = set_go i [Send p (io_errChan j) e] d1"
    | (Send) p c e where "d_go d ! i = Send p c e" "Await c \<in> set (d_go d)"
      "d' = d\<lparr>d_go := remove1 (Await c) (d_go (set_go i [Loop p] d)), d_sent := d_sent d @ [(c, e)]\<rparr>"
  using assms
  by (cases "d_go d ! i")
     (auto simp: go_step_def load_queue_def store_queue_def addJob_def send_def take_job_def bindS_def Let_def
       split: option.splits list.splits prod.splits res.splits if_splits)

text \<open>Executing a request touches the file and the buffers, nothing else; the buffers keep their lengths.\<close>

lemma loadPage_frame:
  "loadPage off b d = (e, d') \<Longrightarrow> d_Queues d' = d_Queues d \<and> d_qs d' = d_qs d \<and> d_go d' = d_go d \<and> d_sent d' = d_sent d
     \<and> (\<forall>a. map_option length (d_bufs d' a) = map_option length (d_bufs d a))"
  by (auto simp: loadPage_def ReadAt_def Let_def min_def split: option.splits if_splits prod.splits)

lemma flushPage_frame:
  "flushPage b sz off dead fl d = (r, d') \<Longrightarrow> d_Queues d' = d_Queues d \<and> d_qs d' = d_qs d \<and> d_go d' = d_go d \<and> d_sent d' = d_sent d
     \<and> (\<forall>a. map_option length (d_bufs d' a) = map_option length (d_bufs d a))"
  by (auto simp: flushPage_def zero_chunks_def Let_def split: option.splits if_splits prod.splits res.splits)

lemma execute_frame:
  assumes "execute r d = (Ok e, d')"
  shows "d_Queues d' = d_Queues d" "d_qs d' = d_qs d" "d_go d' = d_go d" "d_sent d' = d_sent d"
    "map_option length (d_bufs d' a) = map_option length (d_bufs d a)"
  using assms loadPage_frame flushPage_frame by (auto simp: execute_def split: if_splits prod.splits)

section \<open>The goroutines of a queue\<close>

fun serves :: "routine \<Rightarrow> queue option" where
  "serves (Start p) = Some p"
| "serves (Loop p) = Some p"
| "serves (Exec p _) = Some p"
| "serves (Send p _ _) = Some p"
| "serves _ = None"

fun uses :: "routine \<Rightarrow> queue option" where
  "uses (Add p _) = Some p"
| "uses r = serves r"

definition served :: "routine set \<Rightarrow> queue \<Rightarrow> JobQueue \<Rightarrow> bool" where
  "served G p q \<longleftrightarrow> (q_jobs q \<noteq> [] \<longrightarrow> (\<exists>r\<in>G. serves r = Some p)) \<and> (q_running q \<longrightarrow> (\<exists>r\<in>G. serves r = Some p \<and> r \<noteq> Start p))"

definition queues_ok :: "DiskManager \<Rightarrow> bool" where
  "queues_ok d \<longleftrightarrow> (\<forall>off p. d_Queues d off = Some p \<longrightarrow> p < length (d_qs d)) \<and> (\<forall>r\<in>set (d_go d). \<forall>p. uses r = Some p \<longrightarrow> p < length (d_qs d))"

definition awake :: "DiskManager \<Rightarrow> bool" where
  "awake d \<longleftrightarrow> queues_ok d \<and> (\<forall>p<length (d_qs d). served (set (d_go d)) p (d_qs d ! p))"

lemma served_keep: "served G p q \<Longrightarrow> (\<And>r. r \<in> G \<Longrightarrow> serves r = Some p \<Longrightarrow> r \<in> G') \<Longrightarrow> served G' p q"
  unfolding served_def by meson

lemma served_by: "r \<in> G \<Longrightarrow> serves r = Some p \<Longrightarrow> r \<noteq> Start p \<Longrightarrow> served G p q"
  unfolding served_def by blast

lemma set_set_go:
  "i < length (d_go d) \<Longrightarrow> set (d_go d) \<subseteq> insert (d_go d ! i) (set (d_go (set_go i rs d)))"
  "i < length (d_go d) \<Longrightarrow> set (d_go (set_go i rs d)) \<subseteq> set (d_go d) \<union> set rs"
  "i < length (d_go d) \<Longrightarrow> set rs \<subseteq> set (d_go (set_go i rs d))"
  unfolding set_go_def
  by (subst id_take_nth_drop [of i "d_go d"], simp, force) (auto dest: in_set_takeD in_set_dropD)

text \<open>What a step of the routine \<open>i\<close> that becomes \<open>rs\<close> has to keep.\<close>

lemma awake_set_go:
  assumes aw: "awake d" and i: "i < length (d_go d)" and go: "d_go d1 = d_go d"
    and len: "length (d_qs d) \<le> length (d_qs d1)" and maps: "\<And>off p. d_Queues d1 off = Some p \<Longrightarrow> p < length (d_qs d1)"
    and rs: "\<And>r p. r \<in> set rs \<Longrightarrow> uses r = Some p \<Longrightarrow> p < length (d_qs d1)"
    and other: "\<And>p. p < length (d_qs d1) \<Longrightarrow> serves (d_go d ! i) \<noteq> Some p \<Longrightarrow>
       p < length (d_qs d) \<and> d_qs d1 ! p = d_qs d ! p \<or> served (set (d_go d)) p (d_qs d1 ! p) \<or> served (set rs) p (d_qs d1 ! p)"
    and own: "\<And>p. serves (d_go d ! i) = Some p \<Longrightarrow> served (set rs) p (d_qs d1 ! p)"
  shows "awake (set_go i rs d1)"
proof -
  let ?G = "set (d_go (set_go i rs d1))"
  have i1: "i < length (d_go d1)" using i go by simp
  have sub: "set (d_go d) \<subseteq> insert (d_go d ! i) ?G" "?G \<subseteq> set (d_go d) \<union> set rs" "set rs \<subseteq> ?G"
    using set_set_go [OF i1, of rs] go by simp_all
  have "served ?G p (d_qs d1 ! p)" if p: "p < length (d_qs d1)" for p
  proof (cases "serves (d_go d ! i) = Some p")
    case True
    from own [OF this] show ?thesis by (rule served_keep) (use sub in auto)
  next
    case False
    have "served (set (d_go d)) p (d_qs d1 ! p) \<or> served (set rs) p (d_qs d1 ! p)"
      using other [OF p False] aw unfolding awake_def by auto
    then show ?thesis
    proof
      assume "served (set (d_go d)) p (d_qs d1 ! p)"
      then show ?thesis by (rule served_keep) (use sub False in auto)
    next
      assume "served (set rs) p (d_qs d1 ! p)"
      then show ?thesis by (rule served_keep) (use sub in auto)
    qed
  qed
  moreover have "p < length (d_qs d1)" if "r \<in> ?G" "uses r = Some p" for r p
    using that sub(2) rs aw len unfolding awake_def queues_ok_def by fastforce
  ultimately show ?thesis using maps unfolding awake_def queues_ok_def by simp
qed

lemma awake_go:
  assumes aw: "awake d" and i: "i < length (d_go d)" and s: "go_step i d = (Ok (), d')"
  shows "awake d'"
proof -
  have ptr: "p < length (d_qs d)" if "uses (d_go d ! i) = Some p" for p
    using aw nth_mem [OF i] that unfolding awake_def queues_ok_def by blast
  have m: "p < length (d_qs d)" if "d_Queues d off = Some p" for off p
    using aw that unfolding awake_def queues_ok_def by blast
  have sv: "served (set (d_go d)) p (d_qs d ! p)" if "p < length (d_qs d)" for p
    using aw that unfolding awake_def by blast
  from s show ?thesis
  proof (cases rule: go_stepE)
    case (Load off j r)
    then show ?thesis using m by (auto intro!: awake_set_go [OF aw i])
  next
    case (Store off j)
    then show ?thesis using m unfolding Store(2)
      by (intro awake_set_go [OF aw i])
         (auto simp: nth_append less_Suc_eq newJobQueue_def served_def split: if_splits intro: less_SucI)
  next
    case (Add p j)
    have p: "p < length (d_qs d)" using ptr Add(1) by simp
    have "served (set (d_go d)) p (push_job j (d_qs d ! p))" if "q_running (d_qs d ! p)"
      using sv [OF p] that unfolding served_def push_job_def by auto
    moreover have "served {Await (io_errChan j), Start p} p (push_job j (d_qs d ! p))" if "\<not> q_running (d_qs d ! p)"
      using that unfolding served_def push_job_def by simp
    ultimately show ?thesis using m p Add(1) unfolding Add(2)
      by (intro awake_set_go [OF aw i]) (auto simp: nth_list_update split: if_splits)
  next
    case (Start p)
    have p: "p < length (d_qs d)" using ptr Start(1) by simp
    show ?thesis using m p Start(1) unfolding Start(2)
      by (intro awake_set_go [OF aw i]) (auto simp: nth_list_update intro!: served_by [of "Loop p"])
  next
    case (Done p)
    have p: "p < length (d_qs d)" using ptr Done(1) by simp
    show ?thesis using m p Done(1,2) unfolding Done(3)
      by (intro awake_set_go [OF aw i]) (auto simp: nth_list_update served_def)
  next
    case (Take p j js)
    have p: "p < length (d_qs d)" using ptr Take(1) by simp
    show ?thesis using m p Take(1) unfolding Take(3)
      by (intro awake_set_go [OF aw i]) (auto simp: nth_list_update intro!: served_by [of "Exec p j"])
  next
    case (Exec p j d1 e)
    note f = execute_frame [OF Exec(2)]
    show ?thesis using m ptr Exec(1) f unfolding Exec(3)
      by (intro awake_set_go [OF aw i]) (auto intro!: served_by [of "Send p (io_errChan j) e"])
  next
    case (Send p c e)
    have a: "awake (set_go i [Loop p] d)"
      using m ptr Send(1) by (intro awake_set_go [OF aw i]) (auto intro!: served_by [of "Loop p"])
    have keep: "r \<in> set (remove1 (Await c) g)" if "r \<in> set g" "serves r = Some q" for r q g
      using that by (metis in_set_remove1 option.distinct(1) serves.simps(8))
    have "set (remove1 (Await c) g) \<subseteq> set g" for g by (rule set_remove1_subset)
    with a keep show ?thesis unfolding Send(3) awake_def queues_ok_def by (auto intro: served_keep)
  qed
qed

lemma awake_post: "awake d \<Longrightarrow> awake (post off j d)"
  by (auto simp: awake_def queues_ok_def post_def served_def)

section \<open>Nothing is lost\<close>

text \<open>What a step does to the pending requests, the callers that wait and the answers.\<close>

lemma go_effect:
  assumes aw: "awake d" and i: "i < length (d_go d)" and s: "go_step i d = (Ok (), d')"
  obtains (Same) "items pre_of (d_go d') = items pre_of (d_go d)" "added d' = added d" "items wait_of (d_go d') = items wait_of (d_go d)"
      "items send_of (d_go d') = items send_of (d_go d)" "d_sent d' = d_sent d"
    | (Added) j where "items pre_of (d_go d) = add_mset j (items pre_of (d_go d'))" "added d' = add_mset j (added d)"
      "items wait_of (d_go d') = add_mset (io_errChan j) (items wait_of (d_go d))" "items send_of (d_go d') = items send_of (d_go d)"
      "d_sent d' = d_sent d"
    | (Executed) j where "items pre_of (d_go d') = items pre_of (d_go d)" "added d = add_mset j (added d')" "items wait_of (d_go d') = items wait_of (d_go d)"
      "items send_of (d_go d') = add_mset (io_errChan j) (items send_of (d_go d))" "d_sent d' = d_sent d"
    | (Sent) c e where "items pre_of (d_go d') = items pre_of (d_go d)" "added d' = added d" "items wait_of (d_go d) = add_mset c (items wait_of (d_go d'))"
      "items send_of (d_go d) = add_mset c (items send_of (d_go d'))" "d_sent d' = d_sent d @ [(c, e)]"
proof -
  have ptr: "p < length (d_qs d)" if "uses (d_go d ! i) = Some p" for p
    using aw nth_mem [OF i] that unfolding awake_def queues_ok_def by blast
  have h: "items f (d_go (set_go i rs d1)) + mset (f (d_go d ! i)) = items f (d_go d) + items f rs" if "d_go d1 = d_go d" for f :: "routine \<Rightarrow> 'x list" and rs d1
    using items_set_go [of i d1 f rs] that i by simp
  from s show ?thesis
  proof (cases rule: go_stepE)
    case (Load off j r)
    then show ?thesis using h [of d pre_of "[r]"] h [of d wait_of "[r]"] h [of d send_of "[r]"] h [of d exec_of "[r]"]
      by (intro Same) (auto simp: added_def)
  next
    case (Store off j)
    let ?d = "d\<lparr>d_qs := d_qs d @ [newJobQueue off], d_Queues := (d_Queues d)(off \<mapsto> length (d_qs d))\<rparr>" let ?r = "[Add (length (d_qs d)) j]"
    have "queued ?d = queued d" by (simp add: queued_def newJobQueue_def)
    then show ?thesis using Store h [of ?d pre_of ?r] h [of ?d wait_of ?r] h [of ?d send_of ?r] h [of ?d exec_of ?r]
      by (intro Same) (simp_all add: added_def)
  next
    case (Add p j)
    let ?d = "d\<lparr>d_qs := (d_qs d)[p := push_job j (d_qs d ! p)]\<rparr>" let ?r = "Await (io_errChan j) # (if q_running (d_qs d ! p) then [] else [Start p])"
    have "queued ?d = add_mset j (queued d)"
      using queued_upd [of p d "push_job j (d_qs d ! p)"] ptr Add(1) by (simp add: push_job_def)
    then show ?thesis using Add h [of ?d pre_of ?r] h [of ?d wait_of ?r] h [of ?d send_of ?r] h [of ?d exec_of ?r]
      by (intro Added [of j]) (auto simp: added_def)
  next
    case (Start p)
    let ?d = "d\<lparr>d_qs := (d_qs d)[p := (d_qs d ! p)\<lparr>q_running := True\<rparr>]\<rparr>"
    have "queued ?d = queued d" using queued_upd [of p d "(d_qs d ! p)\<lparr>q_running := True\<rparr>"] ptr Start(1) by simp
    then show ?thesis using Start h [of ?d pre_of "[Loop p]"] h [of ?d wait_of "[Loop p]"] h [of ?d send_of "[Loop p]"] h [of ?d exec_of "[Loop p]"]
      by (intro Same) (simp_all add: added_def)
  next
    case (Done p)
    let ?d = "d\<lparr>d_qs := (d_qs d)[p := (d_qs d ! p)\<lparr>q_running := False\<rparr>]\<rparr>"
    have "queued ?d = queued d" using queued_upd [of p d "(d_qs d ! p)\<lparr>q_running := False\<rparr>"] ptr Done(1) by simp
    then show ?thesis using Done h [of ?d pre_of "[]"] h [of ?d wait_of "[]"] h [of ?d send_of "[]"] h [of ?d exec_of "[]"]
      by (intro Same) (simp_all add: added_def)
  next
    case (Take p j js)
    let ?d = "d\<lparr>d_qs := (d_qs d)[p := (d_qs d ! p)\<lparr>q_jobs := js\<rparr>]\<rparr>"
    have "queued d = add_mset j (queued ?d)" using queued_upd [of p d "(d_qs d ! p)\<lparr>q_jobs := js\<rparr>"] ptr Take(1,2) by simp
    then show ?thesis using Take h [of ?d pre_of "[Exec p j]"] h [of ?d wait_of "[Exec p j]"] h [of ?d send_of "[Exec p j]"] h [of ?d exec_of "[Exec p j]"]
      by (intro Same) (simp_all add: added_def)
  next
    case (Exec p j d1 e)
    note f = execute_frame [OF Exec(2)] let ?r = "[Send p (io_errChan j) e]"
    have "queued d1 = queued d" using f(2) by (simp add: queued_def)
    then show ?thesis using Exec f(4) h [of d1 pre_of ?r] h [of d1 wait_of ?r] h [of d1 send_of ?r] h [of d1 exec_of ?r] f(3)
      by (intro Executed [of j]) (simp_all add: added_def)
  next
    case (Send p c e)
    let ?g = "d_go (set_go i [Loop p] d)"
    have "Await c \<in> set ?g" using set_set_go(1) [OF i, of "[Loop p]"] Send(1,2) by auto
    then have r: "items f (remove1 (Await c) ?g) + mset (f (Await c)) = items f ?g" for f :: "routine \<Rightarrow> 'y list" by (rule items_remove1)
    show ?thesis using Send h [of d pre_of "[Loop p]"] h [of d wait_of "[Loop p]"] h [of d send_of "[Loop p]"] h [of d exec_of "[Loop p]"]
        items_remove1 [OF \<open>Await c \<in> set ?g\<close>, of pre_of] items_remove1 [OF \<open>Await c \<in> set ?g\<close>, of wait_of]
        items_remove1 [OF \<open>Await c \<in> set ?g\<close>, of send_of] items_remove1 [OF \<open>Await c \<in> set ?g\<close>, of exec_of]
      by (intro Sent [of c e]) (simp_all add: added_def)
  qed
qed

lemma owed_go: "awake d \<Longrightarrow> i < length (d_go d) \<Longrightarrow> go_step i d = (Ok (), d') \<Longrightarrow> owed d' = owed d"
  by (erule (2) go_effect) (simp_all add: owed_def pending_def answered_def)

lemma heard_go: "awake d \<Longrightarrow> i < length (d_go d) \<Longrightarrow> go_step i d = (Ok (), d') \<Longrightarrow> heard d \<Longrightarrow> heard d'"
  by (erule (2) go_effect) (simp_all add: heard_def)

lemma pending_go: "awake d \<Longrightarrow> i < length (d_go d) \<Longrightarrow> go_step i d = (Ok (), d') \<Longrightarrow> pending d' \<subseteq># pending d"
  by (erule (2) go_effect) (simp_all add: pending_def)

lemma post_effect: "owed (post off j d) = add_mset (io_errChan j) (owed d)" "heard d \<Longrightarrow> heard (post off j d)"
  by (simp_all add: owed_def pending_def answered_def added_def heard_def post_def)

lemma run_keeps:
  assumes "disk_run d cs d'" "awake d" "heard d"
  shows "awake d' \<and> heard d' \<and> owed d' = owed d + mset cs"
  using assms
proof (induction rule: disk_run.induct)
  case (snoc d cs d1 l d2)
  then have I: "awake d1" "heard d1" "owed d1 = owed d + mset cs" by auto
  from snoc.hyps(2) I show ?case
    by (cases rule: disk_step.cases)
       (auto simp: WriteReq_def ReadReq_def Let_def awake_post post_effect owed_go heard_go awake_go)
qed simp

lemma idle_pending:
  assumes "awake d" "d_go d = []"
  shows "pending d = {#}"
proof -
  have "q_jobs q = []" if q: "q \<in> set (d_qs d)" for q
  proof -
    obtain p where "p < length (d_qs d)" "d_qs d ! p = q" using q by (auto simp: in_set_conv_nth)
    then show ?thesis using assms by (auto simp: awake_def served_def)
  qed
  then have "queued d = {#}" by (simp add: queued_def items_def)
  then show ?thesis using assms(2) by (simp add: pending_def added_def)
qed

section \<open>The routines finish\<close>

fun weight :: "routine \<Rightarrow> nat" where
  "weight (Load _ _) = 8"
| "weight (Store _ _) = 7"
| "weight (Add _ _) = 6"
| "weight (Await _) = 0"
| "weight (Start _) = 2"
| "weight (Loop _) = 1"
| "weight (Exec _ _) = 3"
| "weight (Send _ _ _) = 2"

definition work :: "DiskManager \<Rightarrow> nat" where
  "work d = 3 * size (queued d) + sum_list (map weight (d_go d))"

lemma weight_set_go:
  assumes "i < length (d_go d)"
  shows "sum_list (map weight (d_go (set_go i rs d))) + weight (d_go d ! i) = sum_list (map weight (d_go d)) + sum_list (map weight rs)"
  unfolding set_go_def by (subst (3) id_take_nth_drop [OF assms]) simp

lemma weight_remove1: "sum_list (map weight (remove1 (Await c) g)) = sum_list (map weight g)"
  by (induction g) auto

lemma go_step_work:
  assumes aw: "awake d" and i: "i < length (d_go d)" and s: "go_step i d = (Ok (), d')"
  shows "work d' < work d"
proof -
  have ptr: "p < length (d_qs d)" if "uses (d_go d ! i) = Some p" for p
    using aw nth_mem [OF i] that unfolding awake_def queues_ok_def by blast
  have h: "sum_list (map weight (d_go (set_go i rs d1))) + weight (d_go d ! i)
      = sum_list (map weight (d_go d)) + sum_list (map weight rs)" if "d_go d1 = d_go d" for rs d1
    using weight_set_go [of i d1 rs] that i by simp
  have q: "size (queued (d\<lparr>d_qs := (d_qs d)[p := q]\<rparr>)) + length (q_jobs (d_qs d ! p)) = size (queued d) + length (q_jobs q)"
    if "uses (d_go d ! i) = Some p" for p q
    using arg_cong [OF queued_upd [OF ptr [OF that], of q], of size] by simp
  from s show ?thesis
  proof (cases rule: go_stepE)
    case (Load off j r)
    then show ?thesis using h [of d "[r]"] by (auto simp: work_def)
  next
    case (Store off j)
    let ?d = "d\<lparr>d_qs := d_qs d @ [newJobQueue off], d_Queues := (d_Queues d)(off \<mapsto> length (d_qs d))\<rparr>"
    have "queued ?d = queued d" by (simp add: queued_def newJobQueue_def)
    then show ?thesis using Store h [of ?d "[Add (length (d_qs d)) j]"] by (simp add: work_def)
  next
    case (Add p j)
    let ?q = "push_job j (d_qs d ! p)" let ?r = "Await (io_errChan j) # (if q_running (d_qs d ! p) then [] else [Start p])"
    show ?thesis using Add q [of p ?q] h [of "d\<lparr>d_qs := (d_qs d)[p := ?q]\<rparr>" ?r] by (auto simp: work_def push_job_def)
  next
    case (Start p)
    let ?q = "(d_qs d ! p)\<lparr>q_running := True\<rparr>"
    show ?thesis using Start q [of p ?q] h [of "d\<lparr>d_qs := (d_qs d)[p := ?q]\<rparr>" "[Loop p]"] by (simp add: work_def)
  next
    case (Done p)
    let ?q = "(d_qs d ! p)\<lparr>q_running := False\<rparr>"
    show ?thesis using Done q [of p ?q] h [of "d\<lparr>d_qs := (d_qs d)[p := ?q]\<rparr>" "[]"] by (simp add: work_def)
  next
    case (Take p j js)
    let ?q = "(d_qs d ! p)\<lparr>q_jobs := js\<rparr>"
    show ?thesis using Take q [of p ?q] h [of "d\<lparr>d_qs := (d_qs d)[p := ?q]\<rparr>" "[Exec p j]"] by (simp add: work_def)
  next
    case (Exec p j d1 e)
    have "queued d1 = queued d" using execute_frame(2) [OF Exec(2)] by (simp add: queued_def)
    then show ?thesis using Exec h [OF execute_frame(3) [OF Exec(2)], of "[Send p (io_errChan j) e]"] by (simp add: work_def)
  next
    case (Send p c e)
    then show ?thesis using h [of d "[Loop p]"] by (simp add: work_def weight_remove1)
  qed
qed

text \<open>A request whose buffer is there and long enough to be cleared never panics.\<close>

definition bufs_ok :: "DiskManager \<Rightarrow> bool" where
  "bufs_ok d \<longleftrightarrow> (\<forall>r \<in># pending d. \<exists>b. d_bufs d (io_buff r) = Some b
     \<and> (unat (word_of_int (io_size r) :: u32) div 64) * 64 \<le> length b)"

lemma execute_Ok:
  assumes "d_bufs d (io_buff r) = Some b" "(unat (word_of_int (io_size r) :: u32) div 64) * 64 \<le> length b"
  shows "\<exists>e d'. execute r d = (Ok e, d')"
proof -
  have "\<exists>e d'. flushPage (io_buff r) (word_of_int (io_size r)) off dead fl d = (Ok e, d')" for off dead fl
    using assms by (auto simp: flushPage_def WriteAt_def FSync_def Let_def split: option.splits)
  then show ?thesis by (auto simp: execute_def split: prod.splits)
qed

text \<open>Only a caller that waits has to be moved by another routine.\<close>

lemma go_progress:
  assumes "heard d" "bufs_ok d" "i < length (d_go d)" "\<And>c. d_go d ! i \<noteq> Await c"
  shows "\<exists>d'. go_step i d = (Ok (), d')"
proof -
  have mem: "d_go d ! i \<in> set (d_go d)" using assms(3) by simp
  show ?thesis
  proof (cases "d_go d ! i")
    case (Exec p j)
    then have "j \<in># pending d" using mem by (force simp: pending_def added_def items_def)
    then obtain e d1 where "execute j d = (Ok e, d1)" using assms(2) execute_Ok unfolding bufs_ok_def by blast
    then show ?thesis using Exec by (simp add: go_step_def bindS_def)
  next
    case (Send p c e)
    then have "c \<in># items send_of (d_go d)" using mem by (force simp: items_def)
    then have "c \<in># items wait_of (d_go d)" using assms(1) by (simp add: heard_def)
    then obtain r where "r \<in> set (d_go d)" "c \<in> set (wait_of r)" by (auto simp: items_def)
    then have "r = Await c" by (cases r rule: routine.exhaust) auto
    then have "Await c \<in> set (d_go d)" using \<open>r \<in> set (d_go d)\<close> by simp
    then show ?thesis using Send by (simp add: go_step_def send_def)
  qed (use assms(4) in \<open>auto simp: go_step_def take_job_def split: list.splits\<close>)
qed

lemma some_moves:
  assumes "awake d" "heard d" "d_go d \<noteq> []"
  shows "\<exists>i<length (d_go d). \<forall>c. d_go d ! i \<noteq> Await c"
proof (rule ccontr)
  assume "\<not> ?thesis"
  then have all: "\<exists>c. r = Await c" if "r \<in> set (d_go d)" for r using that by (metis in_set_conv_nth)
  have "q_jobs q = []" if q: "q \<in> set (d_qs d)" for q
  proof -
    obtain p where "p < length (d_qs d)" "d_qs d ! p = q" using q by (auto simp: in_set_conv_nth)
    then show ?thesis using assms(1) all by (force simp: awake_def served_def)
  qed
  then have "queued d = {#}" by (simp add: queued_def items_def)
  moreover have "items exec_of (d_go d) = {#}" "items send_of (d_go d) = {#}" using all by (force simp: items_def)+
  ultimately have "items wait_of (d_go d) = {#}" using assms(2) by (simp add: heard_def added_def)
  moreover obtain c where "Await c \<in> set (d_go d)" using assms(3) all by (metis last_in_set)
  ultimately show False by (force simp: items_def)
qed

lemma bufs_ok_go:
  assumes aw: "awake d" and i: "i < length (d_go d)" "go_step i d = (Ok (), d')" and ok: "bufs_ok d"
  shows "bufs_ok d'"
  unfolding bufs_ok_def
proof
  fix r
  have len: "map_option length (d_bufs d' a) = map_option length (d_bufs d a)" for a
    using i(2) by (cases rule: go_stepE) (use execute_frame(5) in auto)
  assume "r \<in># pending d'"
  then have "r \<in># pending d" using pending_go [OF aw i] by (rule mset_subset_eqD [rotated])
  with ok obtain b where b: "d_bufs d (io_buff r) = Some b" "(unat (word_of_int (io_size r) :: u32) div 64) * 64 \<le> length b"
    unfolding bufs_ok_def by blast
  then obtain b' where "d_bufs d' (io_buff r) = Some b'" "length b' = length b"
    using len [of "io_buff r"] by (cases "d_bufs d' (io_buff r)") auto
  with b(2) show "\<exists>b. d_bufs d' (io_buff r) = Some b \<and> (unat (word_of_int (io_size r) :: u32) div 64) * 64 \<le> length b" by simp
qed

lemma go_run_keeps:
  "go_run n d d' \<Longrightarrow> awake d \<Longrightarrow> heard d \<Longrightarrow> bufs_ok d \<Longrightarrow> awake d' \<and> heard d' \<and> bufs_ok d' \<and> owed d' = owed d \<and> n + work d' \<le> work d"
proof (induction rule: go_run.induct)
  case (step i d d1 n d2)
  then have "awake d1" "heard d1" "bufs_ok d1" "owed d1 = owed d" "work d1 < work d"
    using awake_go heard_go bufs_ok_go owed_go go_step_work by blast+
  with step.IH show ?case by simp
qed simp

lemma drain: "awake d \<Longrightarrow> heard d \<Longrightarrow> bufs_ok d \<Longrightarrow> \<exists>n d'. go_run n d d' \<and> d_go d' = []"
proof (induction "work d" arbitrary: d rule: less_induct)
  case less
  show ?case
  proof (cases "d_go d = []")
    case True
    then show ?thesis using go_run.none by blast
  next
    case False
    then obtain i where i: "i < length (d_go d)" "\<forall>c. d_go d ! i \<noteq> Await c" using some_moves less.prems by blast
    obtain d1 where d1: "go_step i d = (Ok (), d1)" using go_progress [OF less.prems(2,3) i(1)] i(2) by blast
    have "work d1 < work d" "awake d1" "heard d1" "bufs_ok d1"
      using go_step_work awake_go heard_go bufs_ok_go less.prems i(1) d1 by blast+
    then obtain n d' where "go_run n d1 d'" "d_go d' = []" using less.hyps by blast
    then show ?thesis using go_run.step [OF i(1) d1] by blast
  qed
qed

definition idle :: "DiskManager \<Rightarrow> bool" where
  "idle d \<longleftrightarrow> d_go d = [] \<and> (\<forall>off p. d_Queues d off = Some p \<longrightarrow> p < length (d_qs d)) \<and> (\<forall>q\<in>set (d_qs d). q_jobs q = [] \<and> \<not> q_running q)"

lemma idle_awake: "idle d \<Longrightarrow> awake d"
  by (auto simp: idle_def awake_def queues_ok_def served_def)

lemma idle_heard: "idle d \<Longrightarrow> heard d"
  using idle_pending [OF idle_awake] by (simp add: heard_def pending_def idle_def)

lemma idle_owed: "idle d \<Longrightarrow> owed d = answered d"
  using idle_pending [OF idle_awake] by (simp add: owed_def idle_def)

end
