(* ===== verification/DiskProps.thy ===== *)
theory DiskProps
  imports DiskSteps
begin

text \<open>
  The properties of the disk manager. \<open>run_request\<close> is what a client that waits for its answer sees when
  nobody else uses the page: the request is executed and the manager is idle again.
\<close>

section \<open>One request at a time\<close>

lemma execute_queues:
  "execute r (d\<lparr>d_Queues := Q, d_qs := qs, d_go := g\<rparr>)
     = (fst (execute r d), snd (execute r d)\<lparr>d_Queues := Q, d_qs := qs, d_go := g\<rparr>)"
  by (simp add: execute_def loadPage_def flushPage_def Let_def split: option.splits prod.splits res.splits if_splits)

text \<open>After at most three steps the request is in a queue, with a goroutine for it.\<close>

lemma post_idle:
  assumes "idle d"
  shows "\<exists>n Q qs p. n \<le> 3 \<and> p < length qs \<and> q_jobs (qs ! p) = [r] \<and> (\<forall>off p. Q off = Some p \<longrightarrow> p < length qs)
     \<and> (\<forall>q\<in>set (qs[p := (qs ! p)\<lparr>q_jobs := []\<rparr>]). q_jobs q = [] \<and> \<not> q_running q)
     \<and> (\<forall>k. run_last (n + k) (post off r d) = run_last k (d\<lparr>d_Queues := Q, d_qs := qs, d_go := [Await (io_errChan r), Start p]\<rparr>))"
proof (cases "d_Queues d off")
  case None
  let ?p = "length (d_qs d)" let ?qs = "d_qs d @ [push_job r (newJobQueue off)]"
  have "run_last (3 + k) (post off r d)
      = run_last k (d\<lparr>d_Queues := (d_Queues d)(off \<mapsto> ?p), d_qs := ?qs, d_go := [Await (io_errChan r), Start ?p]\<rparr>)" for k
    using None assms
    by (simp add: numeral_eq_Suc post_def go_step_def load_queue_def store_queue_def addJob_def set_go_def bindS_def idle_def newJobQueue_def Let_def)
  then show ?thesis using assms
    by (intro exI [of _ 3] exI [of _ "(d_Queues d)(off \<mapsto> ?p)"] exI [of _ ?qs] exI [of _ ?p])
       (auto simp: idle_def push_job_def newJobQueue_def less_SucI)
next
  case (Some p)
  let ?qs = "(d_qs d)[p := push_job r (d_qs d ! p)]"
  have p: "p < length (d_qs d)" "q_jobs (d_qs d ! p) = []" "\<not> q_running (d_qs d ! p)" using Some assms by (auto simp: idle_def)
  have "run_last (2 + k) (post off r d)
      = run_last k (d\<lparr>d_Queues := d_Queues d, d_qs := ?qs, d_go := [Await (io_errChan r), Start p]\<rparr>)" for k
    using Some assms p
    by (simp add: numeral_eq_Suc post_def go_step_def load_queue_def addJob_def set_go_def bindS_def idle_def Let_def)
  moreover have "\<forall>q\<in>set (?qs[p := (?qs ! p)\<lparr>q_jobs := []\<rparr>]). q_jobs q = [] \<and> \<not> q_running q"
    using assms p by (auto simp: idle_def push_job_def dest!: set_update_subset_insert [THEN subsetD])
  ultimately show ?thesis using assms p
    by (intro exI [of _ 2] exI [of _ "d_Queues d"] exI [of _ ?qs] exI [of _ p]) (auto simp: idle_def push_job_def)
qed

lemma run_last_done: "d_go d = [] \<Longrightarrow> run_last (Suc k) d = (Ok (), d)"
  by simp

lemma run_request:
  assumes "idle d" "execute r d = (Ok e, d')"
  shows "\<exists>Q qs. run_last 9 (post off r d) = (Ok (), d'\<lparr>d_Queues := Q, d_qs := qs, d_sent := d_sent d @ [(io_errChan r, e)]\<rparr>)
     \<and> idle (d'\<lparr>d_Queues := Q, d_qs := qs, d_sent := d_sent d @ [(io_errChan r, e)]\<rparr>)"
proof -
  obtain n Q qs p where n: "n \<le> 3" "p < length qs" "q_jobs (qs ! p) = [r]" "\<forall>off p. Q off = Some p \<longrightarrow> p < length qs"
    "\<forall>q\<in>set (qs[p := (qs ! p)\<lparr>q_jobs := []\<rparr>]). q_jobs q = [] \<and> \<not> q_running q"
    "\<And>k. run_last (n + k) (post off r d) = run_last k (d\<lparr>d_Queues := Q, d_qs := qs, d_go := [Await (io_errChan r), Start p]\<rparr>)"
    using post_idle [OF assms(1), of r off] by blast
  note f = execute_frame [OF assms(2)]
  have g: "d_go d' = []" using assms(1) f(3) by (simp add: idle_def)
  have run: "\<not> q_running (qs ! p)" using n(2,5) by (metis (no_types, lifting) JobQueue.select_convs(3) JobQueue.surjective JobQueue.update_convs(2) length_list_update nth_list_update_eq nth_mem)
  let ?qs = "qs[p := (qs ! p)\<lparr>q_jobs := []\<rparr>]"
  let ?d = "d'\<lparr>d_Queues := Q, d_qs := ?qs, d_sent := d_sent d @ [(io_errChan r, e)]\<rparr>"
  have same: "(qs ! p)\<lparr>q_jobs := [], q_running := False\<rparr> = (qs ! p)\<lparr>q_jobs := []\<rparr>" using run by (cases "qs ! p") simp
  have nogo: "d'\<lparr>d_Queues := Q, d_sent := S, d_qs := X, d_go := []\<rparr> = d'\<lparr>d_Queues := Q, d_qs := X, d_sent := S\<rparr>" for S X using g by (cases d') simp
  have five: "run_last (Suc (5 + k)) (d\<lparr>d_Queues := Q, d_qs := qs, d_go := [Await (io_errChan r), Start p]\<rparr>) = run_last (Suc k) ?d" for k
    using assms(2) g n(2,3) f(4) same
    by (simp add: numeral_eq_Suc go_step_def send_def set_go_def take_job_def bindS_def execute_queues nogo)
  have "9 = n + Suc (5 + (3 - n))" using n(1) by simp
  then have "run_last 9 (post off r d) = run_last (Suc (3 - n)) ?d" using n(6) [of "Suc (5 + (3 - n))"] five [of "3 - n"] by (simp only:)
  then have "run_last 9 (post off r d) = (Ok (), ?d)" using g by simp
  moreover have "idle ?d" using g n(2,4,5) by (auto simp: idle_def)
  ultimately show ?thesis by blast
qed

section \<open>Schedules\<close>

fun run_sched :: "nat list \<Rightarrow> DiskManager \<Rightarrow> DiskManager option" where
  "run_sched [] d = Some d"
| "run_sched (i # is) d = (if i < length (d_go d)
     then (case go_step i d of (Ok _, d') \<Rightarrow> run_sched is d' | _ \<Rightarrow> None) else None)"

lemma run_sched_run: "disk_run d0 cs d \<Longrightarrow> run_sched is d = Some d' \<Longrightarrow> disk_run d0 cs d'"
proof (induction "is" d rule: run_sched.induct)
  case (2 i "is" d)
  then obtain d1 where d1: "i < length (d_go d)" "go_step i d = (Ok (), d1)" "run_sched is d1 = Some d'"
    by (auto split: if_splits prod.splits res.splits)
  have "disk_run d0 (cs @ (case None of None \<Rightarrow> [] | Some c \<Rightarrow> [c])) d1"
    using 2(2) disk_step.go [OF d1(1,2)] by (rule disk_run.snoc)
  with 2(1) [OF d1(1) d1(2) [symmetric]] d1(3) show ?case by simp
qed simp

lemma go_run_run: "go_run n d d' \<Longrightarrow> disk_run d0 cs d \<Longrightarrow> disk_run d0 cs d'"
proof (induction rule: go_run.induct)
  case (step i d d1 n d2)
  have "disk_run d0 (cs @ (case None of None \<Rightarrow> [] | Some c \<Rightarrow> [c])) d1"
    using step.prems disk_step.go [OF step.hyps(1,2)] by (rule disk_run.snoc)
  with step.IH show ?case by simp
qed

text \<open>A file of one byte and two buffers.\<close>

definition disk2 :: DiskManager where
  "disk2 = \<lparr>d_Queues = Map.empty, d_qs = [], d_fd = empty_file\<lparr>f_data := [0]\<rparr>, d_bufs = [0 \<mapsto> [1], 1 \<mapsto> [2]], d_go = [], d_sent = []\<rparr>"

definition posted :: DiskManager where
  "posted = snd (WriteReq 0 (Some 1) 1 False (Some 1) False (snd (WriteReq 0 (Some 0) 1 False (Some 0) False disk2)))"

lemma posted_run: "disk_run disk2 [0, 1] posted"
proof -
  let ?d = "snd (WriteReq 0 (Some 0) 1 False (Some 0) False disk2)"
  have "disk_run disk2 ([] @ (case Some 0 of None \<Rightarrow> [] | Some c \<Rightarrow> [c])) ?d"
    by (rule disk_run.snoc [OF disk_run.nil], rule disk_step.wr [of 0 0 1 False 0 False]) (simp add: WriteReq_def Let_def)
  moreover have "disk_step ?d (Some 1) posted"
    by (rule disk_step.wr [of 0 1 1 False 1 False]) (simp add: posted_def WriteReq_def Let_def)
  ultimately show ?thesis using disk_run.snoc [of disk2 "[0]" ?d "Some 1" posted] by simp
qed

lemma disk2_idle: "idle disk2"
  by (simp add: idle_def disk2_def)

lemma posted_bufs_ok: "bufs_ok posted"
  by (auto simp: bufs_ok_def pending_def added_def queued_def posted_def disk2_def WriteReq_def post_def Let_def)

section \<open>Properties\<close>

text \<open>C10. No request is lost and none is answered twice: from an idle manager, in any interleaving of the steps of the
  callers (looking for the queue of the offset, making one, adding the request, waiting) and of the goroutines, also when callers make two queues
  for one offset, the answers received are never more than one per accepted request, and exactly one once all routines have ended.\<close>

theorem disk_answers_once:
  assumes "idle d0" "disk_run d0 cs d"
  shows "answered d \<subseteq># answered d0 + mset cs \<and> (d_go d = [] \<longrightarrow> answered d = answered d0 + mset cs)"
proof -
  have "awake d" "owed d = answered d0 + mset cs"
    using run_keeps [OF assms(2) idle_awake [OF assms(1)] idle_heard [OF assms(1)]] idle_owed [OF assms(1)] by simp_all
  moreover have "answered d \<subseteq># owed d" by (simp add: owed_def)
  ultimately show ?thesis using idle_pending [of d] by (auto simp: owed_def)
qed

theorem disk_answers_once_witness:
  "\<exists>d. disk_run disk2 [0, 1] d \<and> d_go d = [] \<and> answered d = {#0, 1#}"
proof -
  have k: "awake posted" "heard posted" using run_keeps [OF posted_run idle_awake [OF disk2_idle] idle_heard [OF disk2_idle]] by simp_all
  obtain n d where d: "go_run n posted d" "d_go d = []" using drain [OF k posted_bufs_ok] by blast
  have "disk_run disk2 [0, 1] d" by (rule go_run_run [OF d(1) posted_run])
  with d(2) disk_answers_once [OF disk2_idle] show ?thesis by (fastforce simp: answered_def disk2_def)
qed

text \<open>C11. The routines finish: in any state reached from an idle manager whose pending requests have buffers that are there and
  long enough to be cleared, no schedule of the routines is longer than the work that is left; along any of them every goroutine can
  take its step (the channels are unbuffered, but a caller that waits for its answer is always there) and so can every caller
  that is not waiting; a schedule that has not finished can go on, and there is one that finishes, with every request
  answered.\<close>

theorem disk_drains:
  assumes "idle d0" "disk_run d0 cs d" "bufs_ok d"
  shows "(\<forall>n d'. go_run n d d' \<longrightarrow> n \<le> work d
        \<and> (\<forall>i<length (d_go d'). (\<exists>c. d_go d' ! i = Await c) \<or> (\<exists>d''. go_step i d' = (Ok (), d'')))
        \<and> (d_go d' \<noteq> [] \<longrightarrow> (\<exists>i<length (d_go d'). \<exists>d''. go_step i d' = (Ok (), d''))))
     \<and> (\<exists>n d'. go_run n d d' \<and> d_go d' = [] \<and> answered d' = answered d0 + mset cs)"
proof (intro conjI allI impI)
  have k: "awake d" "heard d" "owed d = answered d0 + mset cs"
    using run_keeps [OF assms(2) idle_awake [OF assms(1)] idle_heard [OF assms(1)]] idle_owed [OF assms(1)] by simp_all
  {
    fix n d'
    assume r: "go_run n d d'"
    have r': "awake d'" "heard d'" "bufs_ok d'" "n + work d' \<le> work d" using go_run_keeps [OF r k(1,2) assms(3)] by simp_all
    show "n \<le> work d" using r'(4) by simp
    show "(\<exists>c. d_go d' ! i = Await c) \<or> (\<exists>d''. go_step i d' = (Ok (), d''))" if "i < length (d_go d')" for i
      using go_progress [OF r'(2,3) that] by blast
    show "\<exists>i<length (d_go d'). \<exists>d''. go_step i d' = (Ok (), d'')" if "d_go d' \<noteq> []"
      using some_moves [OF r'(1,2) that] go_progress [OF r'(2,3)] by blast
  }
  obtain n d' where r: "go_run n d d'" "d_go d' = []" using drain [OF k(1,2) assms(3)] by blast
  then have "awake d'" "owed d' = owed d" using go_run_keeps [OF r(1) k(1,2) assms(3)] by simp_all
  then have "answered d' = owed d" using idle_pending [of d'] r(2) by (simp add: owed_def)
  with r k(3) show "\<exists>n d'. go_run n d d' \<and> d_go d' = [] \<and> answered d' = answered d0 + mset cs" by auto
qed

theorem disk_drains_witness:
  "\<exists>n d. go_run n posted d \<and> d_go d = [] \<and> answered d = {#0, 1#}"
  using disk_drains [OF disk2_idle posted_run posted_bufs_ok] by (simp add: answered_def disk2_def)

text \<open>C30. Two writes of one page can reach the file in the wrong order: both are posted and added to the queue, in order, before
  the goroutine of the first has set \<^verbatim>\<open>running\<close>, so a second goroutine serves the queue too; each
  takes one request, and the older one is written last. Both are answered without an error.\<close>

theorem disk_writes_reorder:
  "\<exists>d. disk_run disk2 [0, 1] d \<and> d_go d = [] \<and> f_data (d_fd d) = [1] \<and> d_bufs d 1 = Some [2]
     \<and> d_sent d = [(1, None), (0, None)]"
proof -
  have "\<exists>d. run_sched [0, 0, 0, 2, 2, 1, 3, 1, 3, 3, 3, 1, 1, 1, 0] posted = Some d \<and> d_go d = [] \<and> f_data (d_fd d) = [1]
     \<and> d_bufs d 1 = Some [2] \<and> d_sent d = [(1, None), (0, None)]"
    by (simp add: posted_def disk2_def WriteReq_def post_def load_queue_def store_queue_def addJob_def push_job_def newJobQueue_def go_step_def take_job_def
        set_go_def bindS_def execute_def flushPage_def send_def BitIsSet_def WriteAt_def write_at_def empty_file_def Let_def)
  with run_sched_run [OF posted_run] show ?thesis by blast
qed

end
