(* ===== verification/FreeList.thy ===== *)
theory FreeList
  imports OsFile
begin

text \<open>
  The free list of page ids, \<^verbatim>\<open>pkg/pager/freelist.go\<close>: the ids in memory and their file of 4096-byte
  pages. Ids and the \<^verbatim>\<open>int32\<close> count are 32-bit words; a signed comparison is \<open><s\<close>. Each method holds
  the list's mutex from start to end, so the mutex is not part of the state.
\<close>

section \<open>Definitions\<close>

abbreviation FREE_LIST_PAGE_SIZE :: nat where "FREE_LIST_PAGE_SIZE \<equiv> 4096"
abbreviation FREE_LIST_ENTRY_SIZE :: nat where "FREE_LIST_ENTRY_SIZE \<equiv> 4"
abbreviation ITEMS_PER_PAGE :: nat where "ITEMS_PER_PAGE \<equiv> 1024"

record FreeList =
  fl_count :: u32
  fl_freePages :: "u32 list"
  fl_dirty :: bool
  fl_fd :: osfile

definition pop :: "FreeList \<Rightarrow> u32 res \<times> FreeList" where
  "pop fl =
     (if \<not> 0 <s fl_count fl then (Ok (-1), fl)
      else (case index (fl_freePages fl) (sint (fl_count fl) - 1) of
          Ok p \<Rightarrow> (Ok p, fl\<lparr>fl_freePages := take (nat (sint (fl_count fl)) - 1) (fl_freePages fl)
                                       @ drop (nat (sint (fl_count fl))) (fl_freePages fl),
                            fl_count := fl_count fl - 1, fl_dirty := True\<rparr>)
        | Err e \<Rightarrow> (Err e, fl) | Panic e \<Rightarrow> (Panic e, fl) | Blocked \<Rightarrow> (Blocked, fl)))"

definition add :: "u32 \<Rightarrow> FreeList \<Rightarrow> bool \<times> FreeList" where
  "add p fl = (True, fl\<lparr>fl_freePages := p # fl_freePages fl, fl_count := fl_count fl + 1, fl_dirty := True\<rparr>)"

text \<open>\<^verbatim>\<open>math.Ceil(float64(a) / float64(4096))\<close> of a number that is not negative.\<close>

definition ceil_pages :: "nat \<Rightarrow> nat" where
  "ceil_pages n = (n + FREE_LIST_PAGE_SIZE - 1) div FREE_LIST_PAGE_SIZE"

text \<open>The inner loop: item \<open>idx\<close> goes to bytes \<open>4 * idx\<close> and on of the page.\<close>

fun fill_page :: "nat \<Rightarrow> u32 list \<Rightarrow> bytes \<Rightarrow> bytes res" where
  "fill_page idx [] byteArr = Ok byteArr"
| "fill_page idx (p # ps) byteArr =
     (if length byteArr < idx * FREE_LIST_ENTRY_SIZE + 4 then Panic ''slice bounds out of range''
      else fill_page (Suc idx) ps (put_at (idx * FREE_LIST_ENTRY_SIZE) (le32 p) byteArr))"

definition page_items :: "u32 \<Rightarrow> u32 list \<Rightarrow> nat \<Rightarrow> u32 list res" where
  "page_items count freePages i =
     (if word_of_nat ((i + 1) * ITEMS_PER_PAGE) \<le>s count
      then (if length freePages < i * ITEMS_PER_PAGE + ITEMS_PER_PAGE then Panic ''slice bounds out of range''
            else Ok (slice (i * ITEMS_PER_PAGE) (i * ITEMS_PER_PAGE + ITEMS_PER_PAGE) freePages))
      else if length freePages < i * ITEMS_PER_PAGE then Panic ''slice bounds out of range''
      else Ok (drop (i * ITEMS_PER_PAGE) freePages))"

text \<open>The loop over the pages; the result is the number of bytes written.\<close>

fun write_pages :: "u32 \<Rightarrow> u32 list \<Rightarrow> nat list \<Rightarrow> osfile \<Rightarrow> nat res \<times> osfile" where
  "write_pages count freePages [] fd = (Ok 0, fd)"
| "write_pages count freePages (i # is) fd =
     bindS (liftR (page_items count freePages i)) (\<lambda>itemList.
     bindS (liftR (fill_page 0 itemList (replicate FREE_LIST_PAGE_SIZE 0))) (\<lambda>byteArr.
     bindS (orPanic (WriteAt byteArr (i * FREE_LIST_PAGE_SIZE))) (\<lambda>n.
     bindS (write_pages count freePages is) (\<lambda>written.
     returnS (n + written))))) fd"

definition flushFreeList :: "FreeList \<Rightarrow> nat res \<times> FreeList" where
  "flushFreeList fl =
     (if \<not> fl_dirty fl then (Ok 0, fl)
      else
        (let numOfPages = ceil_pages (nat (sint (fl_count fl)));
             (r, fd) = (if fl_count fl \<le>s 0
               then bindS (orPanic (Truncate 0)) (\<lambda>_. bindS (orPanic FSync) (\<lambda>_. returnS 0)) (fl_fd fl)
               else bindS (write_pages (fl_count fl) (fl_freePages fl) [0..<numOfPages]) (\<lambda>written.
                    bindS (orPanic (Truncate (numOfPages * FREE_LIST_PAGE_SIZE))) (\<lambda>_.
                    bindS (orPanic FSync) (\<lambda>_. returnS written))) (fl_fd fl)) in
         case r of
           Ok written \<Rightarrow> (Ok written, fl\<lparr>fl_fd := fd, fl_dirty := False\<rparr>)
         | _ \<Rightarrow> (r, fl\<lparr>fl_fd := fd\<rparr>)))"

text \<open>The items of one page up to the first zero, and whether a zero was met.\<close>

fun read_items :: "nat \<Rightarrow> nat \<Rightarrow> bytes \<Rightarrow> u32 list \<times> bool" where
  "read_items j 0 byteArr = ([], False)"
| "read_items j (Suc n) byteArr =
     (let item = of_le32 (slice (j * FREE_LIST_ENTRY_SIZE) (j * FREE_LIST_ENTRY_SIZE + FREE_LIST_ENTRY_SIZE) byteArr) in
      if item = 0 then ([], True)
      else (let (r, stop) = read_items (Suc j) n byteArr in (item # r, stop)))"

fun read_pages :: "nat list \<Rightarrow> osfile \<Rightarrow> u32 list res" where
  "read_pages [] fd = Ok []"
| "read_pages (i # is) fd =
     (case ReadAt fd FREE_LIST_PAGE_SIZE (i * FREE_LIST_PAGE_SIZE) of
        (byteArr, Some e) \<Rightarrow> Panic ''Unable to read free list: %v''
      | (byteArr, None) \<Rightarrow>
          (let (r, stop) = read_items 0 ITEMS_PER_PAGE byteArr in
           if stop then Ok r else bindR (read_pages is fd) (\<lambda>rs. Ok (r @ rs))))"

definition loadFreeList :: "FreeList \<Rightarrow> unit res \<times> FreeList" where
  "loadFreeList fl = (case f_err (fl_fd fl) of
      Some e \<Rightarrow> (Panic ''err'', fl)
    | None \<Rightarrow>
        (case read_pages [0..<ceil_pages (length (f_data (fl_fd fl)))] (fl_fd fl) of
           Ok items \<Rightarrow>
             (let ps = fl_freePages fl @ items in
              (Ok (), fl\<lparr>fl_freePages := ps, fl_count := word_of_nat (length ps)\<rparr>))
         | Panic p \<Rightarrow> (Panic p, fl) | Err e \<Rightarrow> (Err e, fl) | Blocked \<Rightarrow> (Blocked, fl)))"

definition fl_close :: "FreeList \<Rightarrow> unit res \<times> FreeList" where
  "fl_close fl = (case FClose (fl_fd fl) of
      (Ok _, fd) \<Rightarrow> (Ok (), fl\<lparr>fl_fd := fd\<rparr>)
    | (_, fd) \<Rightarrow> (Panic ''Unable to close free list file descriptor: %v'', fl\<lparr>fl_fd := fd\<rparr>))"

text \<open>\<open>opened\<close> is what \<^verbatim>\<open>os.OpenFile\<close> of the path with \<^verbatim>\<open>_fl\<close> appended returns.\<close>

definition NewFreeList :: "string \<Rightarrow> osfile res \<Rightarrow> FreeList res" where
  "NewFreeList flPath opened =
     (if length flPath = 0 then Err (FreelistError ''No filepath for freelist provided'')
      else (case opened of
          Ok fd \<Rightarrow> Ok \<lparr>fl_count = 0, fl_freePages = [], fl_dirty = False, fl_fd = fd\<rparr>
        | _ \<Rightarrow> Panic ''Unable to open free list file: %v''))"

section \<open>The list in memory\<close>

definition fl_ok :: "FreeList \<Rightarrow> bool" where
  "fl_ok fl \<longleftrightarrow> fl_count fl = word_of_nat (length (fl_freePages fl)) \<and> length (fl_freePages fl) < 2 ^ 31"

lemma sint_count: "n < 2 ^ 31 \<Longrightarrow> sint (word_of_nat n :: u32) = int n"
proof -
  assume n: "n < 2 ^ 31"
  have "sint (word_of_nat n :: u32) = signed_take_bit 31 (int n)" by (simp add: signed_of_nat)
  also have "\<dots> = int n" using n by (intro signed_take_bit_int_eq_self) auto
  finally show ?thesis .
qed

lemma count_sless: "n < 2 ^ 31 \<Longrightarrow> 0 <s (word_of_nat n :: u32) \<longleftrightarrow> 0 < n"
  by (simp add: word_sless_alt sint_count)

text \<open>What was added first is handed out first.\<close>

lemma pop_snoc:
  "fl_ok fl \<Longrightarrow> fl_freePages fl = ps @ [p] \<Longrightarrow>
   pop fl = (Ok p, fl\<lparr>fl_freePages := ps, fl_count := fl_count fl - 1, fl_dirty := True\<rparr>)"
  using sint_count [of "Suc (length ps)"] count_sless [of "Suc (length ps)"] index_Ok [of "length ps" "ps @ [p]"]
  by (simp add: pop_def fl_ok_def)

lemma pop_empty: "fl_ok fl \<Longrightarrow> fl_freePages fl = [] \<Longrightarrow> pop fl = (Ok (-1), fl)"
  by (simp add: pop_def fl_ok_def)

lemma pop_ok: "fl_ok fl \<Longrightarrow> fl_ok (snd (pop fl))"
  by (cases "fl_freePages fl" rule: rev_cases) (auto simp: pop_empty pop_snoc, auto simp: fl_ok_def)

lemma add_ok: "fl_ok fl \<Longrightarrow> Suc (length (fl_freePages fl)) < 2 ^ 31 \<Longrightarrow> fl_ok (snd (add p fl))"
  by (simp add: fl_ok_def add_def add.commute)

section \<open>The file\<close>

definition enc_items :: "u32 list \<Rightarrow> bytes" where
  "enc_items ps = concat (map le32 ps)"

lemma length_enc_items [simp]: "length (enc_items ps) = 4 * length ps"
  by (induction ps) (auto simp: enc_items_def)

lemma enc_items_Cons [simp]: "enc_items (p # ps) = le32 p @ enc_items ps" "enc_items [] = []"
  by (simp_all add: enc_items_def)

lemma fill_page_enc:
  "length a = 4 * idx \<Longrightarrow> 4 * length ps \<le> n \<Longrightarrow>
   fill_page idx ps (a @ replicate n 0) = Ok (a @ enc_items ps @ replicate (n - 4 * length ps) 0)"
proof (induction ps arbitrary: idx a n)
  case (Cons p ps)
  have "put_at (idx * 4) (le32 p) (a @ replicate n 0) = (a @ le32 p) @ replicate (n - 4) 0"
    using Cons.prems by (simp add: put_at_def)
  with Cons.IH [of "a @ le32 p" "Suc idx" "n - 4"] Cons.prems show ?case by simp
qed simp

lemma read_items_enc:
  "length a = 4 * j \<Longrightarrow> 0 \<notin> set ps \<Longrightarrow>
   read_items j (length ps) (a @ enc_items ps @ r) = (ps, False)"
proof (induction ps arbitrary: j a)
  case (Cons p ps)
  have "slice (j * 4) (j * 4 + 4) (a @ enc_items (p # ps) @ r) = le32 p" using Cons.prems by (simp add: slice_def)
  with Cons.IH [of "a @ le32 p" "Suc j"] Cons.prems show ?case by simp
qed simp

lemma read_items_stop:
  "length a = 4 * j \<Longrightarrow> 0 \<notin> set ps \<Longrightarrow> 4 \<le> k \<Longrightarrow> length ps < n \<Longrightarrow>
   read_items j n (a @ enc_items ps @ replicate k 0) = (ps, True)"
proof (induction ps arbitrary: j a n)
  case Nil
  then obtain n' where "n = Suc n'" by (cases n) auto
  moreover have "of_le32 (slice (j * 4) (j * 4 + 4) (a @ replicate k 0)) = 0"
    using Nil by (simp add: slice_def min_def numeral_eq_Suc)
  ultimately show ?case by simp
next
  case (Cons p ps)
  then obtain n' where n: "n = Suc n'" "length ps < n'" by (cases n) auto
  have "slice (j * 4) (j * 4 + 4) (a @ enc_items (p # ps) @ replicate k 0) = le32 p" using Cons.prems by (simp add: slice_def)
  with Cons.IH [of "a @ le32 p" "Suc j" n'] Cons.prems n show ?case by simp
qed

text \<open>The ids of page \<open>i\<close> and its bytes.\<close>

definition chunk :: "u32 list \<Rightarrow> nat \<Rightarrow> u32 list" where
  "chunk ps i = take 1024 (drop (i * 1024) ps)"

definition page_bytes :: "u32 list \<Rightarrow> nat \<Rightarrow> bytes" where
  "page_bytes ps i = enc_items (chunk ps i) @ replicate (4096 - 4 * length (chunk ps i)) 0"

lemma length_chunk: "length (chunk ps i) \<le> 1024"
  by (simp add: chunk_def)

lemma length_page_bytes [simp]: "length (page_bytes ps i) = 4096"
  using length_chunk [of ps i] by (simp add: page_bytes_def)

lemma concat_chunks: "concat (map (chunk ps) [0..<k]) = take (1024 * k) ps"
proof (induction k)
  case (Suc k)
  have "take (1024 * Suc k) ps = take (1024 * k) ps @ take 1024 (drop (1024 * k) ps)"
    using take_add [of "1024 * k" 1024 ps] by (simp add: add.commute)
  with Suc show ?case by (simp add: chunk_def mult.commute)
qed simp

lemma concat_pages_length: "length (concat (map (page_bytes ps) xs)) = 4096 * length xs"
  by (induction xs) auto

lemma concat_pages_nth:
  assumes "i < k"
  shows "take 4096 (drop (i * 4096) (concat (map (page_bytes ps) [0..<k]))) = page_bytes ps i"
proof -
  have "[0..<k] = [0..<i] @ i # [Suc i..<k]"
    using assms upt_add_eq_append [of 0 i "k - i"] by (simp add: upt_conv_Cons)
  then have "concat (map (page_bytes ps) [0..<k]) =
      concat (map (page_bytes ps) [0..<i]) @ page_bytes ps i @ concat (map (page_bytes ps) [Suc i..<k])"
    by (simp only: map_append concat_append list.map concat.simps)
  then show ?thesis using concat_pages_length [of ps "[0..<i]"] by (simp add: mult.commute)
qed

lemma page_items_chunk:
  assumes n: "length ps < 2 ^ 31" and i: "i < ceil_pages (length ps)"
  shows "page_items (word_of_nat (length ps)) ps i = Ok (chunk ps i)"
proof -
  have i4: "i * 4096 < length ps" using i by (simp add: ceil_pages_def)
  then have i31: "(i + 1) * 1024 < 2 ^ 31" using n by simp
  show ?thesis
  proof (cases "(i + 1) * 1024 \<le> length ps")
    case True
    then show ?thesis using i31 n sint_count [of "(i + 1) * 1024"] sint_count [of "length ps"]
      by (simp add: page_items_def word_sle_eq chunk_def slice_def)
  next
    case False
    then show ?thesis using i4 i31 n sint_count [of "(i + 1) * 1024"] sint_count [of "length ps"]
      by (simp add: page_items_def word_sle_eq chunk_def)
  qed
qed

lemma write_page:
  assumes "length ps < 2 ^ 31" "i < ceil_pages (length ps)" "f_err fd = None"
  shows "write_pages (word_of_nat (length ps)) ps (i # is) fd
     = bindS (write_pages (word_of_nat (length ps)) ps is) (\<lambda>w. returnS (4096 + w))
         (fd\<lparr>f_data := write_at (i * 4096) (page_bytes ps i) (f_data fd)\<rparr>)"
proof -
  have f: "fill_page 0 (chunk ps i) (replicate 4096 0) = Ok (page_bytes ps i)"
    using fill_page_enc [of "[]" 0 "chunk ps i" 4096] length_chunk [of ps i] by (simp add: page_bytes_def)
  show ?thesis
    unfolding write_pages.simps page_items_chunk [OF assms(1,2)] bindS_liftR_Ok f
    using assms(3) by (simp add: bindS_Ok [OF orPanic_Ok [OF WriteAt_ok]])
qed

lemma write_pages_data:
  assumes "length ps < 2 ^ 31" "a \<le> k" "k \<le> ceil_pages (length ps)" "f_err fd = None" "a * 4096 \<le> length (f_data fd)"
  shows "\<exists>fd'. write_pages (word_of_nat (length ps)) ps [a..<k] fd = (Ok (4096 * (k - a)), fd') \<and> f_err fd' = None
     \<and> take (k * 4096) (f_data fd') = take (a * 4096) (f_data fd) @ concat (map (page_bytes ps) [a..<k])
     \<and> k * 4096 \<le> length (f_data fd')"
  using assms(2-5)
proof (induction "k - a" arbitrary: a fd)
  case (Suc d)
  then have a: "a < k" "d = k - Suc a" by auto
  let ?fd = "fd\<lparr>f_data := write_at (a * 4096) (page_bytes ps a) (f_data fd)\<rparr>"
  have tk: "take (Suc a * 4096) (f_data ?fd) = take (a * 4096) (f_data fd) @ page_bytes ps a"
    using Suc.prems(4) by (simp add: write_at_def)
  obtain fd' where fd': "write_pages (word_of_nat (length ps)) ps [Suc a..<k] ?fd = (Ok (4096 * (k - Suc a)), fd')" "f_err fd' = None"
    "take (k * 4096) (f_data fd') = take (Suc a * 4096) (f_data ?fd) @ concat (map (page_bytes ps) [Suc a..<k])"
    "k * 4096 \<le> length (f_data fd')"
  proof -
    have "Suc a * 4096 \<le> length (f_data ?fd)" by simp
    with Suc.hyps(1) [OF a(2), of ?fd] a(1) Suc.prems that show ?thesis by auto
  qed
  have "write_pages (word_of_nat (length ps)) ps (a # [Suc a..<k]) fd = (Ok (4096 + 4096 * (k - Suc a)), fd')"
    using write_page [OF assms(1), of a fd "[Suc a..<k]"] a(1) Suc.prems fd'(1) by (simp add: bindS_def returnS_def)
  with fd' tk a(1) show ?case by (simp add: upt_conv_Cons Suc_diff_Suc [symmetric])
qed auto

lemma flush_data:
  assumes "fl_ok fl" "fl_dirty fl" "fl_freePages fl \<noteq> []" "f_err (fl_fd fl) = None"
  defines "k \<equiv> ceil_pages (length (fl_freePages fl))"
  shows "\<exists>fd. flushFreeList fl = (Ok (4096 * k), fl\<lparr>fl_fd := fd, fl_dirty := False\<rparr>) \<and> f_err fd = None
     \<and> f_data fd = concat (map (page_bytes (fl_freePages fl)) [0..<k]) \<and> f_durable fd = f_data fd"
proof -
  let ?ps = "fl_freePages fl"
  have n: "length ?ps < 2 ^ 31" and c: "fl_count fl = word_of_nat (length ?ps)" using assms(1) by (auto simp: fl_ok_def)
  have pos: "\<not> fl_count fl \<le>s 0" using n assms(3) by (simp add: c word_sle_eq sint_count)
  have s: "nat (sint (fl_count fl)) = length ?ps" using n by (simp add: c sint_count)
  obtain fd where fd: "write_pages (fl_count fl) ?ps [0..<k] (fl_fd fl) = (Ok (4096 * k), fd)" "f_err fd = None"
    "take (k * 4096) (f_data fd) = concat (map (page_bytes ?ps) [0..<k])" "k * 4096 \<le> length (f_data fd)"
    using write_pages_data [OF n, of 0 k "fl_fd fl"] assms(4) by (auto simp: k_def c)
  have t: "orPanic (Truncate (k * 4096)) fd = (Ok (), fd\<lparr>f_data := take (k * 4096) (f_data fd)\<rparr>)"
    using fd(2,4) by (simp add: orPanic_Ok [OF Truncate_ok])
  show ?thesis
    using assms(2) pos fd t
    by (auto simp: flushFreeList_def s bindS_def orPanic_def Truncate_ok FSync_ok returnS_def simp flip: k_def)
qed

lemma read_pages_chunks:
  assumes d: "f_err fd = None" "f_data fd = concat (map (page_bytes ps) [0..<k])" and nz: "0 \<notin> set ps"
    and full: "\<And>i. Suc i < k \<Longrightarrow> length (chunk ps i) = 1024" and a: "a \<le> k"
  shows "read_pages [a..<k] fd = Ok (concat (map (chunk ps) [a..<k]))"
  using a
proof (induction "k - a" arbitrary: a)
  case (Suc m)
  then have a: "a < k" "m = k - Suc a" by auto
  have len: "length (f_data fd) = 4096 * k" using d(2) concat_pages_length [of ps "[0..<k]"] by simp
  have rd: "ReadAt fd 4096 (a * 4096) = (page_bytes ps a, None)"
    using a(1) len concat_pages_nth [OF a(1), of ps] d by (simp add: ReadAt_ok)
  have z: "0 \<notin> set (chunk ps a)" using nz by (auto simp: chunk_def dest: in_set_takeD in_set_dropD)
  have r: "[a..<k] = a # [Suc a..<k]" using a(1) by (simp add: upt_conv_Cons)
  show ?case
  proof (cases "length (chunk ps a) = 1024")
    case True
    have "read_items 0 1024 (page_bytes ps a) = (chunk ps a, False)"
      using read_items_enc [of "[]" 0 "chunk ps a" "[]"] z True by (simp add: page_bytes_def)
    with Suc.hyps(1) [OF a(2)] a(1) rd show ?thesis unfolding r by simp
  next
    case False
    then have l: "length (chunk ps a) < 1024" using length_chunk [of ps a] by linarith
    then have "read_items 0 1024 (page_bytes ps a) = (chunk ps a, True)"
      using read_items_stop [of "[]" 0 "chunk ps a" _ 1024] z by (simp add: page_bytes_def)
    moreover have "Suc a = k" using full [of a] False a(1) by (metis Suc_lessI)
    ultimately show ?thesis unfolding r using rd by simp
  qed
qed simp

lemma chunk_full:
  assumes "Suc i < ceil_pages (length ps)"
  shows "length (chunk ps i) = 1024"
proof -
  have "Suc i * 4096 < length ps" using assms by (simp add: ceil_pages_def)
  then show ?thesis by (simp add: chunk_def)
qed

lemma load_after_flush:
  assumes "fl_ok fl" "fl_dirty fl" "f_err (fl_fd fl) = None" "0 \<notin> set (fl_freePages fl)"
    and "flushFreeList fl = (r, fl')"
  defines "k \<equiv> ceil_pages (length (fl_freePages fl))"
  shows "\<exists>fl''. loadFreeList \<lparr>fl_count = 0, fl_freePages = [], fl_dirty = False, fl_fd = fl_fd fl'\<rparr> = (Ok (), fl'')
     \<and> fl_freePages fl'' = take (1024 * k) (fl_freePages fl) \<and> fl_ok fl''"
proof (cases "fl_freePages fl = []")
  case True
  then have "fl_fd fl' = fl_fd fl\<lparr>f_data := [], f_durable := []\<rparr>" "f_err (fl_fd fl') = None"
    using assms(1-3,5) by (auto simp: flushFreeList_def fl_ok_def bindS_def orPanic_def Truncate_ok FSync_ok returnS_def)
  then show ?thesis using True by (simp add: loadFreeList_def ceil_pages_def k_def fl_ok_def)
next
  case False
  obtain fd where fd: "fl_fd fl' = fd" "f_err fd = None" "f_data fd = concat (map (page_bytes (fl_freePages fl)) [0..<k])"
    using flush_data [OF assms(1,2) False assms(3)] assms(5) unfolding k_def by auto
  have len: "length (f_data fd) = 4096 * k" using fd(3) concat_pages_length [of "fl_freePages fl" "[0..<k]"] by simp
  have ck: "ceil_pages (4096 * k) = k" by (simp add: ceil_pages_def)
  have "read_pages [0..<k] fd = Ok (take (1024 * k) (fl_freePages fl))"
    using read_pages_chunks [OF fd(2,3) assms(4), of 0] chunk_full [of _ "fl_freePages fl"] concat_chunks [of "fl_freePages fl" k]
    unfolding k_def by simp
  with fd(1,2) len ck assms(1) show ?thesis by (auto simp: loadFreeList_def Let_def fl_ok_def)
qed

lemma adds_pages:
  "fl_freePages (fold (\<lambda>p fl. snd (add p fl)) ps fl) = rev ps @ fl_freePages fl"
  by (induction ps arbitrary: fl) (auto simp: add_def)

lemma adds_ok:
  "fl_ok fl \<Longrightarrow> length ps + length (fl_freePages fl) < 2 ^ 31 \<Longrightarrow> fl_ok (fold (\<lambda>p fl. snd (add p fl)) ps fl)"
proof (induction ps arbitrary: fl)
  case (Cons p ps)
  then have "fl_ok (snd (add p fl))" by (intro add_ok) auto
  then show ?case using Cons by (simp add: add_def)
qed simp

definition fl0 :: FreeList where
  "fl0 = \<lparr>fl_count = 0, fl_freePages = [], fl_dirty = False, fl_fd = empty_file\<rparr>"

section \<open>Properties\<close>

text \<open>C27. What the free list file keeps: after a flush, a reload finds the ids in order, but only the first
  1024 for every 4096 ids of the list (the number of pages is computed from the page size in bytes, not from
  the ids a page holds). Up to 1024 ids all survive; of 1025 to 4096 ids the first 1024 do.\<close>

theorem freelist_reload:
  assumes "fl_ok fl" "fl_dirty fl" "f_err (fl_fd fl) = None" "0 \<notin> set (fl_freePages fl)"
    and "flushFreeList fl = (r, fl')"
  shows "\<exists>fl''. loadFreeList \<lparr>fl_count = 0, fl_freePages = [], fl_dirty = False, fl_fd = fl_fd fl'\<rparr> = (Ok (), fl'')
     \<and> fl_freePages fl'' = take (1024 * ((length (fl_freePages fl) + 4095) div 4096)) (fl_freePages fl) \<and> fl_ok fl''"
  using load_after_flush [OF assms] by (simp add: ceil_pages_def add.commute)

theorem freelist_reload_witness:
  "\<exists>r fl' fl''. flushFreeList (fl0\<lparr>fl_count := 1025, fl_freePages := replicate 1025 7, fl_dirty := True\<rparr>) = (r, fl')
     \<and> loadFreeList \<lparr>fl_count = 0, fl_freePages = [], fl_dirty = False, fl_fd = fl_fd fl'\<rparr> = (Ok (), fl'')
     \<and> length (fl_freePages fl'') = 1024"
proof -
  let ?fl = "fl0\<lparr>fl_count := 1025, fl_freePages := replicate 1025 7, fl_dirty := True\<rparr>"
  obtain r fl' where f: "flushFreeList ?fl = (r, fl')" by fastforce
  have "fl_ok ?fl" by (simp add: fl_ok_def fl0_def)
  from freelist_reload [OF this _ _ _ f] f show ?thesis by (auto simp: fl0_def empty_file_def)
qed

text \<open>C28. The free list is a queue: ids are handed out in the order they were added, and when all have been
  handed out the next call returns -1 and changes nothing.\<close>

theorem freelist_fifo:
  assumes "fl_ok fl" "fl_freePages fl = []" "Suc (length ps) < 2 ^ 31"
  shows "pop fl = (Ok (-1), fl) \<and> (\<exists>fl'. pop (fold (\<lambda>p fl. snd (add p fl)) (p # ps) fl) = (Ok p, fl')
     \<and> fl_ok fl' \<and> fl_freePages fl' = rev ps)"
proof -
  let ?fl = "fold (\<lambda>p fl. snd (add p fl)) (p # ps) fl"
  have ok: "fl_ok ?fl" using adds_ok [OF assms(1), of "p # ps"] assms(2,3) by simp
  have pg: "fl_freePages ?fl = rev ps @ [p]" using adds_pages [of "p # ps" fl] assms(2) by simp
  show ?thesis using pop_empty [OF assms(1,2)] pop_snoc [OF ok pg] pop_ok [OF ok] by auto
qed

theorem freelist_fifo_witness:
  "\<exists>fl'. pop (fold (\<lambda>p fl. snd (add p fl)) [4, 9, 6] fl0) = (Ok 4, fl') \<and> fl_freePages fl' = [6, 9]"
proof -
  have "fl_ok fl0" "fl_freePages fl0 = []" by (simp_all add: fl_ok_def fl0_def)
  from freelist_fifo [OF this, of "[9, 6]" 4] show ?thesis by auto
qed

end
