(* ===== verification/Pager.thy ===== *)
theory Pager
  imports DiskProps Page FreeList
begin

text \<open>
  The pager, \<^verbatim>\<open>pkg/pager/pager.go\<close>: it hands out page ids, keeps the root, the page count and the largest id,
  and turns pages into requests to the disk manager at byte offset \<^verbatim>\<open>pageId * 8192\<close>, a 32-bit product. A
  caller submits a job to the worker pool and waits for its answer; here the worker runs at once, and so
  does the disk manager's queue (\<open>DiskSteps\<close> has the interleavings). Buffers are addresses in the disk
  manager's store.
\<close>

section \<open>State\<close>

record IOJob =
  j_flag :: u8
  j_buff :: addr
  j_errCh :: chan
  j_sizeOfBuff :: int
  j_pageId :: u32

text \<open>The channel of jobs: nil, open, or closed by \<^verbatim>\<open>shutdown\<close>.\<close>

datatype jobQ = NilQ | OpenQ | ClosedQ

record Pager =
  pgr_freeList :: FreeList
  pgr_dManager :: DiskManager
  pgr_rootPageId :: u32
  pgr_pageCount :: u32
  pgr_maxPageId :: u32
  pgr_jobQ :: jobQ

text \<open>Receiving from a channel that nobody will send on waits for ever.\<close>

definition receive :: "chan \<Rightarrow> DiskManager \<Rightarrow> gerror option res \<times> DiskManager" where
  "receive c d = (case filter (\<lambda>x. fst x = c) (d_sent d) of
      [] \<Rightarrow> (Blocked, d)
    | (_, e) # _ \<Rightarrow> (Ok e, d\<lparr>d_sent := remove1 (c, e) (d_sent d)\<rparr>))"

definition on_disk :: "(DiskManager \<Rightarrow> 'a res \<times> DiskManager) \<Rightarrow> Pager \<Rightarrow> 'a res \<times> Pager" where
  "on_disk m pgr = (case m (pgr_dManager pgr) of (r, d) \<Rightarrow> (r, pgr\<lparr>pgr_dManager := d\<rparr>))"

text \<open>The answer of a job: \<open>None\<close> is nil. A request takes at most eight steps when nobody else uses the disk manager, and its
  answer is then the one received.\<close>

definition executeJob :: "IOJob \<Rightarrow> Pager \<Rightarrow> gerror option res \<times> Pager" where
  "executeJob j pgr =
     (let post = (if BitIsSet (j_flag j) 7
           then WriteReq (j_pageId j * 8192) (Some (j_buff j)) 8192 (BitIsSet (j_flag j) 6) (Some (j_errCh j)) (BitIsSet (j_flag j) 5)
           else ReadReq (Some (j_buff j)) (j_pageId j * 8192) (Some (j_errCh j))) in
      on_disk (\<lambda>d. case post d of
          (Err e, d) \<Rightarrow> (Ok (Some e), d)
        | (Panic p, d) \<Rightarrow> (Panic p, d)
        | (Blocked, d) \<Rightarrow> (Blocked, d)
        | (Ok _, d) \<Rightarrow> bindS (run_last 9) (\<lambda>_. receive (j_errCh j)) d) pgr)"

text \<open>\<^verbatim>\<open>pgr.workers.jobQ <- &ioJob; err := <-workerErrChan\<close>: the new channel is one nobody else uses.\<close>

definition fresh_chan :: "DiskManager \<Rightarrow> chan" where
  "fresh_chan d = Suc (Max (insert 0 (fst ` set (d_sent d))))"

definition submit :: "u8 \<Rightarrow> addr \<Rightarrow> u32 \<Rightarrow> int \<Rightarrow> Pager \<Rightarrow> unit res \<times> Pager" where
  "submit flag buff pageId sz pgr = (case pgr_jobQ pgr of
      NilQ \<Rightarrow> (Blocked, pgr)
    | ClosedQ \<Rightarrow> (Panic ''send on closed channel'', pgr)
    | OpenQ \<Rightarrow> (case executeJob \<lparr>j_flag = flag, j_buff = buff, j_errCh = fresh_chan (pgr_dManager pgr), j_sizeOfBuff = sz, j_pageId = pageId\<rparr> pgr of
        (Ok None, pgr) \<Rightarrow> (Ok (), pgr)
      | (Ok (Some e), pgr) \<Rightarrow> (Err e, pgr)
      | (Err e, pgr) \<Rightarrow> (Err e, pgr)
      | (Panic p, pgr) \<Rightarrow> (Panic p, pgr)
      | (Blocked, pgr) \<Rightarrow> (Blocked, pgr)))"

section \<open>Page ids\<close>

definition NewPageId :: "Pager \<Rightarrow> u32 res \<times> Pager" where
  "NewPageId pgr = (case pop (pgr_freeList pgr) of
      (Ok n, fl) \<Rightarrow>
        (if n <s 0
         then (Ok (pgr_maxPageId pgr + 1), pgr\<lparr>pgr_freeList := fl, pgr_maxPageId := pgr_maxPageId pgr + 1\<rparr>)
         else (Ok n, pgr\<lparr>pgr_freeList := fl\<rparr>))
    | (Err e, fl) \<Rightarrow> (Err e, pgr\<lparr>pgr_freeList := fl\<rparr>)
    | (Panic p, fl) \<Rightarrow> (Panic p, pgr\<lparr>pgr_freeList := fl\<rparr>)
    | (Blocked, fl) \<Rightarrow> (Blocked, pgr\<lparr>pgr_freeList := fl\<rparr>))"

definition NewPage :: "bool \<Rightarrow> bool \<Rightarrow> Page option \<Rightarrow> u32 \<Rightarrow> Pager \<Rightarrow> (u32 \<times> Page) res \<times> Pager" where
  "NewPage setAsRoot isInternal pge pid pgr = (case pge of
      None \<Rightarrow> (Err (PagerError ''No page entry provided.''), pgr)
    | Some p \<Rightarrow> (case initializePage pid isInternal p of
        (Ok _, p) \<Rightarrow>
          (let pgr = (if setAsRoot then pgr\<lparr>pgr_rootPageId := pid\<rparr> else pgr) in
           (Ok (pid, p), pgr\<lparr>pgr_pageCount := pgr_pageCount pgr + 1\<rparr>))
      | (Err e, _) \<Rightarrow> (Err e, pgr)
      | (Panic e, _) \<Rightarrow> (Panic e, pgr)
      | (Blocked, _) \<Rightarrow> (Blocked, pgr)))"

definition UpdatePageMeta :: "Page \<Rightarrow> u32 \<Rightarrow> bool \<Rightarrow> unit res \<times> Page" where
  "UpdatePageMeta page pageId isInternal =
     (if pageId = 0 then (Err (PagerError ''Invalid pageId''), page)
      else initializePage pageId isInternal page)"

section \<open>Reading and writing pages\<close>

definition buf_len :: "addr \<Rightarrow> Pager \<Rightarrow> nat option" where
  "buf_len a pgr = map_option length (d_bufs (pgr_dManager pgr) a)"

definition readMetadata :: "addr \<Rightarrow> Pager \<Rightarrow> unit res \<times> Pager" where
  "readMetadata buff pgr =
     (if buf_len buff pgr \<noteq> Some PAGE_SIZE_BYTES
      then (Err (PagerError ''Invalid buffer size. Expected buffer size of %d bytes''), pgr)
      else submit 0 buff 0 (-1) pgr)"

definition ReadPage :: "u32 \<Rightarrow> addr \<Rightarrow> Pager \<Rightarrow> unit res \<times> Pager" where
  "ReadPage pageId buff pgr =
     (if pgr_jobQ pgr = NilQ then (Err (PagerError ''job queue not initialized.''), pgr)
      else if buf_len buff pgr \<noteq> Some PAGE_SIZE_BYTES
      then (Err (PagerError ''Invalid buffer size. Expected buffer size of %d bytes''), pgr)
      else submit 0 buff pageId (-1) pgr)"

definition WritePage :: "u32 \<Rightarrow> addr \<Rightarrow> bool \<Rightarrow> Pager \<Rightarrow> unit res \<times> Pager" where
  "WritePage pageId buff flush pgr =
     (if pgr_jobQ pgr = NilQ then (Err (PagerError ''job queue not initialized.''), pgr)
      else if buf_len buff pgr \<noteq> Some PAGE_SIZE_BYTES
      then (Err (PagerError ''Invalid buffer size. Expected buffer size of %d bytes, but got %d bytes''), pgr)
      else
        (let isDead = BitIsSet (the (d_bufs (pgr_dManager pgr) buff) ! 0) Dead;
             flag = push_bit 7 1;
             flag = (if isDead then flag OR push_bit 6 1 else flag);
             flag = (if flush then flag OR push_bit 5 1 else flag) in
         bindS (submit flag buff pageId 8192) (\<lambda>_ pgr.
           if isDead
           then (Ok (), pgr\<lparr>pgr_freeList := snd (add pageId (pgr_freeList pgr)),
                            pgr_pageCount := (if pgr_pageCount pgr > 0 then pgr_pageCount pgr - 1 else pgr_pageCount pgr)\<rparr>)
           else (Ok (), pgr)) pgr))"

definition FlushMetadata :: "addr \<Rightarrow> Pager \<Rightarrow> unit res \<times> Pager" where
  "FlushMetadata buff pgr =
     (if buf_len buff pgr \<noteq> Some PAGE_SIZE_BYTES
      then (Err (PagerError ''Invalid buffer size. Expected buffer size of %d bytes''), pgr)
      else
        (let b = the (d_bufs (pgr_dManager pgr) buff);
             b = put_at 16 (le32 (pgr_maxPageId pgr)) (put_at 12 (le32 (pgr_pageCount pgr)) (put_at 0 (le32 (pgr_rootPageId pgr)) b));
             d = (pgr_dManager pgr)\<lparr>d_bufs := (d_bufs (pgr_dManager pgr))(buff \<mapsto> b)\<rparr> in
         submit (push_bit 7 1 OR push_bit 5 1) buff 0 8192 (pgr\<lparr>pgr_dManager := d\<rparr>)))"

definition UpdateRootPage :: "u32 \<Rightarrow> Pager \<Rightarrow> Pager" where
  "UpdateRootPage pageId pgr = pgr\<lparr>pgr_rootPageId := pageId\<rparr>"

definition RootPage :: "Pager \<Rightarrow> u32" where
  "RootPage pgr = pgr_rootPageId pgr"

definition pgr_Flush :: "Pager \<Rightarrow> unit res \<times> Pager" where
  "pgr_Flush = on_disk ForceFlush"

text \<open>The flush of the free list runs in its own goroutine, which the caller waits for, or gives up after 400 ms;
  the model waits.\<close>

definition FlushFreeList :: "Pager \<Rightarrow> nat res \<times> Pager" where
  "FlushFreeList pgr = (case flushFreeList (pgr_freeList pgr) of (r, fl) \<Rightarrow> (r, pgr\<lparr>pgr_freeList := fl\<rparr>))"

definition InitFromMetadata :: "addr \<Rightarrow> Pager \<Rightarrow> unit res \<times> Pager" where
  "InitFromMetadata metaPge = bindS (readMetadata metaPge) (\<lambda>_ pgr.
     (let b = the (d_bufs (pgr_dManager pgr) metaPge) in
      (Ok (), pgr\<lparr>pgr_rootPageId := of_le32 (slice 0 4 b), pgr_pageCount := of_le32 (slice 12 16 b),
                   pgr_maxPageId := of_le32 (slice 16 20 b)\<rparr>)))"

section \<open>Start and stop\<close>

definition startWorkers :: "jobQ \<Rightarrow> nat \<Rightarrow> unit res" where
  "startWorkers jobQ poolsize =
     (if jobQ = NilQ then Err (PagerError ''job queue not initialized'')
      else if poolsize = 0 then Err (PagerError ''Invalid worker poolsize. Atleast one worker required.'')
      else if poolsize > 5500 then Err (PagerError ''Worker pool size cannot go above %d'')
      else Ok ())"

definition NewPager :: "string \<Rightarrow> osfile res \<Rightarrow> DiskManager option \<Rightarrow> nat \<Rightarrow> Pager res" where
  "NewPager freeListFile opened dManager workerSize = (case dManager of
      None \<Rightarrow> Err (PagerError ''diskmanager instance not proviided'')
    | Some d \<Rightarrow>
        (let workerSize = (if workerSize = 0 then 5500 else workerSize) in
         bindR (NewFreeList freeListFile opened) (\<lambda>fl.
           case loadFreeList fl of
             (Ok _, fl) \<Rightarrow>
               (case startWorkers OpenQ workerSize of
                  Ok _ \<Rightarrow> Ok \<lparr>pgr_freeList = fl, pgr_dManager = d, pgr_rootPageId = 0, pgr_pageCount = 0,
                              pgr_maxPageId = 0, pgr_jobQ = OpenQ\<rparr>
                | _ \<Rightarrow> (case fl_close fl of
                      (Ok _, _) \<Rightarrow> (case disk_Close d of
                          (Ok _, _) \<Rightarrow> Err (PagerError ''Unable to start workers: %s'')
                        | _ \<Rightarrow> Panic ''err'')
                    | _ \<Rightarrow> Panic ''err''))
           | (Panic p, _) \<Rightarrow> Panic p
           | (Err e, _) \<Rightarrow> Err e
           | (Blocked, _) \<Rightarrow> Blocked)))"

text \<open>Closing the job queue ends the workers; later submissions would panic.\<close>

definition pgr_Close :: "Pager \<Rightarrow> unit res \<times> Pager" where
  "pgr_Close =
     bindS pgr_Flush (\<lambda>_.
     bindS (\<lambda>pgr. (Ok (), pgr\<lparr>pgr_jobQ := ClosedQ\<rparr>)) (\<lambda>_.
     bindS (on_disk ForceFlush) (\<lambda>_.
     bindS (on_disk disk_Close) (\<lambda>_ pgr.
       case fl_close (pgr_freeList pgr) of (r, fl) \<Rightarrow> (r, pgr\<lparr>pgr_freeList := fl\<rparr>)))))"

end
