(* ===== verification/PagerProps.thy ===== *)
theory PagerProps
  imports Pager
begin

text \<open>
  What the pager promises: pages written come back, page ids handed out are not in use, metadata survives a
  restart. Page offsets are 32-bit products, so ids that differ by \<open>2 ^ 19\<close> share their bytes.
\<close>

section \<open>One request\<close>

definition pgr_ok :: "Pager \<Rightarrow> bool" where
  "pgr_ok pgr \<longleftrightarrow> pgr_jobQ pgr = OpenQ \<and> idle (pgr_dManager pgr) \<and> f_err (d_fd (pgr_dManager pgr)) = None"

lemma fresh_chan: "fresh_chan d \<notin> fst ` set (d_sent d)"
proof
  assume "fresh_chan d \<in> fst ` set (d_sent d)"
  then have "fresh_chan d \<le> Max (insert 0 (fst ` set (d_sent d)))" by (intro Max_ge) auto
  then show False by (simp add: fresh_chan_def)
qed

lemma ucast_up: "ucast (ucast (x :: u32) :: u64) = x"
  by (rule bit_word_eqI) (auto simp: bit_simps)

lemma receive_sent:
  assumes "c \<notin> fst ` set s" "d_sent d = s @ [(c, e)]"
  shows "receive c d = (Ok e, d\<lparr>d_sent := s\<rparr>)"
proof -
  have "filter (\<lambda>x. fst x = c) s = []" using assms(1) by (auto simp: filter_empty_conv)
  moreover have "remove1 (c, e) (s @ [(c, e)]) = s" using assms(1) by (force simp: remove1_append)
  ultimately show ?thesis using assms(2) by (simp add: receive_def)
qed

text \<open>A posted request is executed and answered.\<close>

lemma serve:
  assumes "idle d" "execute r d = (Ok e, d1)" "io_errChan r \<notin> fst ` set (d_sent d)"
  shows "\<exists>Q qs. bindS (run_last 9) (\<lambda>_. receive (io_errChan r)) (post off r d) = (Ok e, d1\<lparr>d_Queues := Q, d_qs := qs\<rparr>)
     \<and> idle (d1\<lparr>d_Queues := Q, d_qs := qs\<rparr>)"
proof -
  obtain Q qs where Q: "run_last 9 (post off r d) = (Ok (), d1\<lparr>d_Queues := Q, d_qs := qs, d_sent := d_sent d @ [(io_errChan r, e)]\<rparr>)"
      "idle (d1\<lparr>d_Queues := Q, d_qs := qs, d_sent := d_sent d @ [(io_errChan r, e)]\<rparr>)"
    using run_request [OF assms(1,2)] by blast
  let ?d = "d1\<lparr>d_Queues := Q, d_qs := qs, d_sent := d_sent d @ [(io_errChan r, e)]\<rparr>"
  have "d_sent d1 = d_sent d" by (rule execute_frame(4) [OF assms(2)])
  then have "receive (io_errChan r) ?d = (Ok e, d1\<lparr>d_Queues := Q, d_qs := qs\<rparr>)"
    using receive_sent [OF assms(3), of ?d e] by (cases d1) simp
  with Q show ?thesis by (intro exI [of _ Q] exI [of _ qs]) (simp add: bindS_def idle_def)
qed

definition cleared :: "bool \<Rightarrow> bytes \<Rightarrow> bytes" where
  "cleared dead b = (if dead then replicate 8192 0 else b)"

definition page_off :: "u32 \<Rightarrow> nat" where
  "page_off p = unat (p * 8192)"

text \<open>The page stored under an id.\<close>

definition page_at :: "Pager \<Rightarrow> u32 \<Rightarrow> bytes" where
  "page_at pgr p = take 8192 (drop (page_off p) (f_data (d_fd (pgr_dManager pgr))))"

lemma submit_write:
  assumes ok: "pgr_ok pgr" and b: "d_bufs (pgr_dManager pgr) a = Some b" "length b = 8192" and fl: "BitIsSet flag 7"
  defines "dead \<equiv> BitIsSet flag 6"
  shows "\<exists>d. submit flag a p sz pgr = (Ok (), pgr\<lparr>pgr_dManager := d\<rparr>) \<and> pgr_ok (pgr\<lparr>pgr_dManager := d\<rparr>)
     \<and> d_bufs d = (d_bufs (pgr_dManager pgr))(a \<mapsto> cleared dead b)
     \<and> f_data (d_fd d) = write_at (page_off p) (cleared dead b) (f_data (d_fd (pgr_dManager pgr)))
     \<and> (BitIsSet flag 5 \<and> \<not> dead \<longrightarrow> f_durable (d_fd d) = f_data (d_fd d))"
proof -
  let ?d = "pgr_dManager pgr" let ?c = "fresh_chan ?d"
  let ?r = "\<lparr>io_buff = a, io_size = 8192, io_errChan = ?c, io_off = ucast (p * 8192),
             io_flag = (if dead then SetFlag 0 [6] else 0), io_flush = BitIsSet flag 5\<rparr>"
  have idle: "idle ?d" and q: "pgr_jobQ pgr = OpenQ" and fe: "f_err (d_fd ?d) = None" using ok by (auto simp: pgr_ok_def)
  have f6: "BitIsSet (SetFlag 0 [6]) 6" "\<not> BitIsSet (SetFlag 0 [6]) 7" "\<not> BitIsSet 0 7" "\<not> BitIsSet 0 6"
    using hflags.is_set_set [of 7 "[6]" 0] hflags.is_set_set [of 6 "[6]" 0] by (simp_all add: BitIsSet_def)
  have u: "ucast (ucast (p * 8192) :: u64) = p * 8192" by (rule ucast_up)
  let ?f = "if BitIsSet flag 5 \<and> \<not> dead
     then (d_fd ?d)\<lparr>f_data := write_at (page_off p) (cleared dead b) (f_data (d_fd ?d)),
                   f_durable := write_at (page_off p) (cleared dead b) (f_data (d_fd ?d))\<rparr>
     else (d_fd ?d)\<lparr>f_data := write_at (page_off p) (cleared dead b) (f_data (d_fd ?d))\<rparr>"
  have ex: "execute ?r ?d = (Ok None, ?d\<lparr>d_bufs := (d_bufs ?d)(a \<mapsto> cleared dead b), d_fd := ?f\<rparr>)"
    using b fe f6
    by (auto simp: execute_def flushPage_def zero_chunks_def cleared_def WriteAt_ok FSync_ok u page_off_def Let_def fun_upd_idem)
  obtain Q qs where Q: "bindS (run_last 9) (\<lambda>_. receive ?c) (post (p * 8192) ?r ?d)
      = (Ok None, ?d\<lparr>d_bufs := (d_bufs ?d)(a \<mapsto> cleared dead b), d_fd := ?f, d_Queues := Q, d_qs := qs\<rparr>)"
    "idle (?d\<lparr>d_bufs := (d_bufs ?d)(a \<mapsto> cleared dead b), d_fd := ?f, d_Queues := Q, d_qs := qs\<rparr>)"
    using serve [OF idle ex, of "p * 8192"] fresh_chan [of ?d] by auto
  let ?d' = "?d\<lparr>d_bufs := (d_bufs ?d)(a \<mapsto> cleared dead b), d_fd := ?f, d_Queues := Q, d_qs := qs\<rparr>"
  have "submit flag a p sz pgr = (Ok (), pgr\<lparr>pgr_dManager := ?d'\<rparr>)"
    using q fl Q(1) by (simp add: submit_def executeJob_def on_disk_def WriteReq_def Let_def dead_def)
  then show ?thesis using Q(2) q fe by (intro exI [of _ ?d']) (auto simp: pgr_ok_def)
qed

lemma submit_read:
  assumes ok: "pgr_ok pgr" and b: "d_bufs (pgr_dManager pgr) a = Some b" "length b = 8192"
  shows "\<exists>d. submit 0 a p sz pgr = (Ok (), pgr\<lparr>pgr_dManager := d\<rparr>) \<and> pgr_ok (pgr\<lparr>pgr_dManager := d\<rparr>)
     \<and> d_bufs d = (d_bufs (pgr_dManager pgr))(a \<mapsto> page_at pgr p @ drop (length (page_at pgr p)) b)
     \<and> d_fd d = d_fd (pgr_dManager pgr)"
proof -
  let ?d = "pgr_dManager pgr" let ?c = "fresh_chan ?d"
  let ?r = "\<lparr>io_buff = a, io_size = 0, io_errChan = ?c, io_off = ucast (p * 8192), io_flag = 0x80, io_flush = False\<rparr>"
  have idle: "idle ?d" and q: "pgr_jobQ pgr = OpenQ" and fe: "f_err (d_fd ?d) = None" using ok by (auto simp: pgr_ok_def)
  have u: "ucast (ucast (p * 8192) :: u64) = p * 8192" by (rule ucast_up)
  let ?B = "(d_bufs ?d)(a \<mapsto> page_at pgr p @ drop (length (page_at pgr p)) b)"
  have ex: "execute ?r ?d = (Ok None, ?d\<lparr>d_bufs := ?B\<rparr>)"
    using b fe
    by (simp add: execute_def BitIsSet_def loadPage_def ReadAt_ok u page_off_def page_at_def Let_def)
  obtain Q qs where Q: "bindS (run_last 9) (\<lambda>_. receive ?c) (post (p * 8192) ?r ?d)
      = (Ok None, ?d\<lparr>d_bufs := ?B, d_Queues := Q, d_qs := qs\<rparr>)" "idle (?d\<lparr>d_bufs := ?B, d_Queues := Q, d_qs := qs\<rparr>)"
    using serve [OF idle ex, of "p * 8192"] fresh_chan [of ?d] by auto
  have "submit 0 a p sz pgr = (Ok (), pgr\<lparr>pgr_dManager := ?d\<lparr>d_bufs := ?B, d_Queues := Q, d_qs := qs\<rparr>\<rparr>)"
    using q Q(1) by (simp add: submit_def executeJob_def on_disk_def ReadReq_def Let_def BitIsSet_def)
  then show ?thesis using Q(2) q fe by (intro exI [of _ "?d\<lparr>d_bufs := ?B, d_Queues := Q, d_qs := qs\<rparr>"]) (auto simp: pgr_ok_def)
qed

section \<open>Offsets\<close>

lemma page_off_small: "unat p < 2 ^ 19 \<Longrightarrow> page_off p = unat p * 8192"
  unfolding page_off_def by (subst unat_mult_lem [THEN iffD1]) simp_all

lemma page_off_alias: "page_off (p + 0x80000) = page_off p"
proof -
  have z: "(0x80000 :: u32) * 8192 = 0" by code_simp
  show ?thesis unfolding page_off_def distrib_right z by simp
qed

lemma page_off_disjoint:
  assumes "unat p < 2 ^ 19" "unat q < 2 ^ 19" "p \<noteq> q"
  shows "page_off p + 8192 \<le> page_off q \<or> page_off q + 8192 \<le> page_off p"
proof -
  have "unat p < unat q \<or> unat q < unat p" using assms(3) by (metis linorder_neqE_nat word_unat_eq_iff)
  then show ?thesis using page_off_small [OF assms(1)] page_off_small [OF assms(2)] by auto
qed

section \<open>Reading and writing\<close>

lemma WritePage_ok:
  assumes ok: "pgr_ok pgr" and b: "d_bufs (pgr_dManager pgr) a = Some b" "length b = 8192"
  defines "dead \<equiv> BitIsSet (b ! 0) Dead"
  shows "\<exists>pgr'. WritePage p a flush pgr = (Ok (), pgr') \<and> pgr_ok pgr'
     \<and> d_bufs (pgr_dManager pgr') = (d_bufs (pgr_dManager pgr))(a \<mapsto> cleared dead b)
     \<and> f_data (d_fd (pgr_dManager pgr')) = write_at (page_off p) (cleared dead b) (f_data (d_fd (pgr_dManager pgr)))
     \<and> (flush \<and> \<not> dead \<longrightarrow> f_durable (d_fd (pgr_dManager pgr')) = f_data (d_fd (pgr_dManager pgr')))
     \<and> pgr_freeList pgr' = (if dead then snd (add p (pgr_freeList pgr)) else pgr_freeList pgr)
     \<and> pgr_pageCount pgr' = (if dead \<and> pgr_pageCount pgr > 0 then pgr_pageCount pgr - 1 else pgr_pageCount pgr)
     \<and> pgr_maxPageId pgr' = pgr_maxPageId pgr \<and> pgr_rootPageId pgr' = pgr_rootPageId pgr"
proof -
  define flag where "flag = (let f = push_bit 7 1; f = (if dead then f OR push_bit 6 1 else f)
      in if flush then f OR push_bit 5 1 else f :: u8)"
  have f: "BitIsSet flag 7" "BitIsSet flag 6 = dead" "BitIsSet flag 5 = flush"
    by (auto simp: flag_def Let_def BitIsSet_bit bit_simps)
  obtain d where d: "submit flag a p 8192 pgr = (Ok (), pgr\<lparr>pgr_dManager := d\<rparr>)" "pgr_ok (pgr\<lparr>pgr_dManager := d\<rparr>)"
    "d_bufs d = (d_bufs (pgr_dManager pgr))(a \<mapsto> cleared dead b)"
    "f_data (d_fd d) = write_at (page_off p) (cleared dead b) (f_data (d_fd (pgr_dManager pgr)))"
    "flush \<and> \<not> dead \<longrightarrow> f_durable (d_fd d) = f_data (d_fd d)"
    using submit_write [OF ok b f(1), of p 8192] f(2,3) by auto
  have q: "pgr_jobQ pgr = OpenQ" using ok by (simp add: pgr_ok_def)
  have W: "WritePage p a flush pgr = bindS (submit flag a p 8192) (\<lambda>_ pgr.
           if dead
           then (Ok (), pgr\<lparr>pgr_freeList := snd (add p (pgr_freeList pgr)),
                            pgr_pageCount := (if pgr_pageCount pgr > 0 then pgr_pageCount pgr - 1 else pgr_pageCount pgr)\<rparr>)
           else (Ok (), pgr)) pgr"
    unfolding WritePage_def using q b by (simp add: buf_len_def flag_def dead_def Let_def)
  show ?thesis unfolding W using d by (auto simp: bindS_def pgr_ok_def)
qed

lemma ReadPage_ok:
  assumes ok: "pgr_ok pgr" and b: "d_bufs (pgr_dManager pgr) a = Some b" "length b = 8192"
  shows "\<exists>pgr'. ReadPage p a pgr = (Ok (), pgr') \<and> pgr_ok pgr'
     \<and> d_bufs (pgr_dManager pgr') a = Some (page_at pgr p @ drop (length (page_at pgr p)) b)
     \<and> d_fd (pgr_dManager pgr') = d_fd (pgr_dManager pgr)
     \<and> pgr_freeList pgr' = pgr_freeList pgr \<and> pgr_maxPageId pgr' = pgr_maxPageId pgr"
proof -
  obtain d where "submit 0 a p (-1) pgr = (Ok (), pgr\<lparr>pgr_dManager := d\<rparr>)" "pgr_ok (pgr\<lparr>pgr_dManager := d\<rparr>)"
    "d_bufs d = (d_bufs (pgr_dManager pgr))(a \<mapsto> page_at pgr p @ drop (length (page_at pgr p)) b)"
    "d_fd d = d_fd (pgr_dManager pgr)"
    using submit_read [OF ok b, of p "-1"] by blast
  then show ?thesis using ok b by (intro exI [of _ "pgr\<lparr>pgr_dManager := d\<rparr>"]) (simp add: ReadPage_def buf_len_def pgr_ok_def)
qed

lemma page_at_written:
  assumes "f_data (d_fd (pgr_dManager pgr')) = write_at (page_off p) b (f_data (d_fd (pgr_dManager pgr)))" "length b = 8192"
  shows "page_off q = page_off p \<Longrightarrow> page_at pgr' q = b"
    and "page_off p + 8192 \<le> page_off q \<or> page_off q + 8192 \<le> page_off p \<Longrightarrow> length (page_at pgr q) = 8192 \<Longrightarrow>
      page_at pgr' q = page_at pgr q"
proof -
  show "page_at pgr' q = b" if "page_off q = page_off p"
    using assms that read_write_same [of b "page_off p"] by (simp add: page_at_def)
  show "page_at pgr' q = page_at pgr q"
    if "page_off p + 8192 \<le> page_off q \<or> page_off q + 8192 \<le> page_off p" "length (page_at pgr q) = 8192"
    unfolding page_at_def assms(1)
    by (rule read_write_other) (use assms(2) that in \<open>auto simp: page_at_def\<close>)
qed

text \<open>The metadata page.\<close>

definition meta_bytes :: "Pager \<Rightarrow> bytes \<Rightarrow> bytes" where
  "meta_bytes pgr b =
     put_at 16 (le32 (pgr_maxPageId pgr)) (put_at 12 (le32 (pgr_pageCount pgr)) (put_at 0 (le32 (pgr_rootPageId pgr)) b))"

lemma FlushMetadata_ok:
  assumes "pgr_ok pgr" "d_bufs (pgr_dManager pgr) a = Some b" "length b = 8192"
  shows "\<exists>pgr1. FlushMetadata a pgr = (Ok (), pgr1) \<and> pgr_ok pgr1
     \<and> d_bufs (pgr_dManager pgr1) = (d_bufs (pgr_dManager pgr))(a \<mapsto> meta_bytes pgr b)
     \<and> f_data (d_fd (pgr_dManager pgr1)) = write_at (page_off 0) (meta_bytes pgr b) (f_data (d_fd (pgr_dManager pgr)))"
proof -
  let ?m = "meta_bytes pgr b"
  let ?pgr = "pgr\<lparr>pgr_dManager := (pgr_dManager pgr)\<lparr>d_bufs := (d_bufs (pgr_dManager pgr))(a \<mapsto> ?m)\<rparr>\<rparr>"
  have ok: "pgr_ok ?pgr" "length ?m = 8192" using assms by (simp_all add: pgr_ok_def idle_def meta_bytes_def)
  have f: "BitIsSet (push_bit 7 1 OR push_bit 5 1) 7" "\<not> BitIsSet (push_bit 7 1 OR push_bit 5 1) 6" by (simp_all add: BitIsSet_def)
  obtain d where d: "submit (push_bit 7 1 OR push_bit 5 1) a 0 8192 ?pgr = (Ok (), ?pgr\<lparr>pgr_dManager := d\<rparr>)"
    "pgr_ok (?pgr\<lparr>pgr_dManager := d\<rparr>)" "d_bufs d = (d_bufs (pgr_dManager pgr))(a \<mapsto> ?m)"
    "f_data (d_fd d) = write_at (page_off 0) ?m (f_data (d_fd (pgr_dManager pgr)))"
    using submit_write [OF ok(1) _ ok(2) f(1), of a 0 8192] f(2) by (auto simp: cleared_def)
  have "FlushMetadata a pgr = (Ok (), ?pgr\<lparr>pgr_dManager := d\<rparr>)"
    using assms(2,3) d(1) by (simp add: FlushMetadata_def buf_len_def meta_bytes_def Let_def)
  with d show ?thesis by auto
qed

lemma InitFromMetadata_ok:
  assumes "pgr_ok pgr" "d_bufs (pgr_dManager pgr) a = Some b" "length b = 8192" "page_at pgr 0 = m" "length m = 8192"
  shows "\<exists>d. InitFromMetadata a pgr = (Ok (), pgr\<lparr>pgr_dManager := d, pgr_rootPageId := of_le32 (slice 0 4 m),
      pgr_pageCount := of_le32 (slice 12 16 m), pgr_maxPageId := of_le32 (slice 16 20 m)\<rparr>)"
proof -
  obtain d where "submit 0 a 0 (-1) pgr = (Ok (), pgr\<lparr>pgr_dManager := d\<rparr>)" "d_bufs d = (d_bufs (pgr_dManager pgr))(a \<mapsto> m)"
    using submit_read [OF assms(1-3), of 0 "-1"] assms(3-5) by auto
  then show ?thesis
    using assms(2,3) by (auto simp: InitFromMetadata_def readMetadata_def buf_len_def bindS_def Let_def)
qed

section \<open>Properties\<close>

definition pager2 :: Pager where
  "pager2 = \<lparr>pgr_freeList = fl0, pgr_dManager = \<lparr>d_Queues = Map.empty, d_qs = [], d_fd = empty_file,
       d_bufs = [0 \<mapsto> replicate 8192 7, 1 \<mapsto> replicate 8192 0], d_go = [], d_sent = []\<rparr>,
     pgr_rootPageId = 1, pgr_pageCount = 2, pgr_maxPageId = 2, pgr_jobQ = OpenQ\<rparr>"

lemma pager2_ok: "pgr_ok pager2"
  by (simp add: pgr_ok_def pager2_def idle_def empty_file_def)

lemma pager2_bufs: "d_bufs (pgr_dManager pager2) 0 = Some (replicate 8192 7)" "d_bufs (pgr_dManager pager2) 1 = Some (replicate 8192 0)"
  by (simp_all add: pager2_def)

text \<open>C9. Pages come back: a page that is written and is not dead is read back unchanged, into any buffer, and
  every other page that lies inside the file is read as it was; this holds for ids below \<open>2 ^ 19\<close>.
  A flushing write has reached the disk when it returns.\<close>

theorem WritePage_ReadPage:
  assumes "pgr_ok pgr" "d_bufs (pgr_dManager pgr) a = Some b" "length b = 8192" "\<not> BitIsSet (b ! 0) Dead"
    and "d_bufs (pgr_dManager pgr) a' = Some b'" "length b' = 8192" "unat p < 2 ^ 19" "unat q < 2 ^ 19"
  shows "\<exists>pgr1 pgr2. WritePage p a flush pgr = (Ok (), pgr1) \<and> ReadPage q a' pgr1 = (Ok (), pgr2)
     \<and> (q = p \<longrightarrow> d_bufs (pgr_dManager pgr2) a' = Some b)
     \<and> (q \<noteq> p \<and> length (page_at pgr q) = 8192 \<longrightarrow> d_bufs (pgr_dManager pgr2) a' = Some (page_at pgr q))
     \<and> (flush \<longrightarrow> page_at pgr1 p = take 8192 (drop (page_off p) (f_durable (d_fd (pgr_dManager pgr1)))))"
proof -
  obtain pgr1 where w: "WritePage p a flush pgr = (Ok (), pgr1)" "pgr_ok pgr1"
    "d_bufs (pgr_dManager pgr1) = (d_bufs (pgr_dManager pgr))(a \<mapsto> b)"
    "f_data (d_fd (pgr_dManager pgr1)) = write_at (page_off p) b (f_data (d_fd (pgr_dManager pgr)))"
    "flush \<longrightarrow> f_durable (d_fd (pgr_dManager pgr1)) = f_data (d_fd (pgr_dManager pgr1))"
    using WritePage_ok [OF assms(1-3), of p flush] assms(4) by (auto simp: cleared_def)
  obtain b1 where b1: "d_bufs (pgr_dManager pgr1) a' = Some b1" "length b1 = 8192"
    using w(3) assms(2,3,5,6) by (cases "a' = a") auto
  obtain pgr2 where r: "ReadPage q a' pgr1 = (Ok (), pgr2)"
    "d_bufs (pgr_dManager pgr2) a' = Some (page_at pgr1 q @ drop (length (page_at pgr1 q)) b1)"
    using ReadPage_ok [OF w(2) b1, of q] by blast
  note pw = page_at_written [OF w(4) assms(3), of q]
  have "q = p \<longrightarrow> page_at pgr1 q = b" using pw(1) by blast
  moreover have "q \<noteq> p \<and> length (page_at pgr q) = 8192 \<longrightarrow> page_at pgr1 q = page_at pgr q"
    using pw(2) page_off_disjoint [OF assms(7,8)] by blast
  ultimately show ?thesis using w r assms(3) b1(2) by (auto simp: page_at_def)
qed

theorem WritePage_ReadPage_witness:
  "\<exists>pgr1 pgr2. WritePage 3 0 True pager2 = (Ok (), pgr1) \<and> ReadPage 3 1 pgr1 = (Ok (), pgr2)
     \<and> d_bufs (pgr_dManager pgr2) 1 = Some (replicate 8192 7)"
proof -
  have "\<not> BitIsSet (replicate 8192 (7::u8) ! 0) Dead" by (simp add: BitIsSet_def)
  from WritePage_ReadPage [OF pager2_ok pager2_bufs(1) _ this pager2_bufs(2), of 3 3 True] show ?thesis by fastforce
qed

text \<open>C29. Pages whose ids differ by \<open>2 ^ 19\<close> (524288) share their bytes, since the byte offset is a 32-bit
  product: what is written to one is read back from the other.\<close>

theorem pages_alias:
  assumes "pgr_ok pgr" "d_bufs (pgr_dManager pgr) a = Some b" "length b = 8192" "\<not> BitIsSet (b ! 0) Dead"
    and "d_bufs (pgr_dManager pgr) a' = Some b'" "length b' = 8192"
  shows "\<exists>pgr1 pgr2. WritePage p a flush pgr = (Ok (), pgr1) \<and> ReadPage (p + 0x80000) a' pgr1 = (Ok (), pgr2)
     \<and> d_bufs (pgr_dManager pgr2) a' = Some b"
proof -
  obtain pgr1 where w: "WritePage p a flush pgr = (Ok (), pgr1)" "pgr_ok pgr1"
    "d_bufs (pgr_dManager pgr1) = (d_bufs (pgr_dManager pgr))(a \<mapsto> b)"
    "f_data (d_fd (pgr_dManager pgr1)) = write_at (page_off p) b (f_data (d_fd (pgr_dManager pgr)))"
    using WritePage_ok [OF assms(1-3), of p flush] assms(4) by (auto simp: cleared_def)
  obtain b1 where b1: "d_bufs (pgr_dManager pgr1) a' = Some b1" "length b1 = 8192"
    using w(3) assms(2,3,5,6) by (cases "a' = a") auto
  obtain pgr2 where r: "ReadPage (p + 0x80000) a' pgr1 = (Ok (), pgr2)"
    "d_bufs (pgr_dManager pgr2) a' = Some (page_at pgr1 (p + 0x80000) @ drop (length (page_at pgr1 (p + 0x80000))) b1)"
    using ReadPage_ok [OF w(2) b1, of "p + 0x80000"] by blast
  have "page_at pgr1 (p + 0x80000) = b" by (rule page_at_written(1) [OF w(4) assms(3) page_off_alias])
  with w(1) r b1(2) assms(3) show ?thesis by simp
qed

theorem pages_alias_witness:
  "\<exists>pgr1 pgr2. WritePage 3 0 False pager2 = (Ok (), pgr1) \<and> ReadPage 0x80003 1 pgr1 = (Ok (), pgr2)
     \<and> d_bufs (pgr_dManager pgr2) 1 = Some (replicate 8192 7)"
proof -
  have "\<not> BitIsSet (replicate 8192 (7::u8) ! 0) Dead" by (simp add: BitIsSet_def)
  from pages_alias [OF pager2_ok pager2_bufs(1) _ this pager2_bufs(2), of 3 False] show ?thesis by simp
qed

text \<open>C23. Deleting a page: writing a page whose dead flag is set clears its bytes on the file and all of the caller's
  buffer (no other buffer changes), puts its id on the free list and takes it off the page count; the buffer no longer has
  the flag, so writing it once more does not free the id a second time, and the page stays cleared.\<close>

theorem WritePage_dead:
  assumes "pgr_ok pgr" "d_bufs (pgr_dManager pgr) a = Some b" "length b = 8192" "BitIsSet (b ! 0) Dead"
  shows "\<exists>pgr1 pgr2. WritePage p a flush pgr = (Ok (), pgr1) \<and> page_at pgr1 p = replicate 8192 0
     \<and> d_bufs (pgr_dManager pgr1) = (d_bufs (pgr_dManager pgr))(a \<mapsto> replicate 8192 0)
     \<and> fl_freePages (pgr_freeList pgr1) = p # fl_freePages (pgr_freeList pgr)
     \<and> unat (pgr_pageCount pgr1) = unat (pgr_pageCount pgr) - 1
     \<and> WritePage p a flush pgr1 = (Ok (), pgr2) \<and> pgr_freeList pgr2 = pgr_freeList pgr1
     \<and> pgr_pageCount pgr2 = pgr_pageCount pgr1 \<and> page_at pgr2 p = replicate 8192 0 \<and> d_bufs (pgr_dManager pgr2) = d_bufs (pgr_dManager pgr1)"
proof -
  let ?z = "replicate 8192 0 :: bytes"
  obtain pgr1 where w: "WritePage p a flush pgr = (Ok (), pgr1)" "pgr_ok pgr1"
    "d_bufs (pgr_dManager pgr1) = (d_bufs (pgr_dManager pgr))(a \<mapsto> ?z)"
    "f_data (d_fd (pgr_dManager pgr1)) = write_at (page_off p) ?z (f_data (d_fd (pgr_dManager pgr)))"
    "pgr_freeList pgr1 = snd (add p (pgr_freeList pgr))"
    "pgr_pageCount pgr1 = (if pgr_pageCount pgr > 0 then pgr_pageCount pgr - 1 else pgr_pageCount pgr)"
    using WritePage_ok [OF assms(1-3), of p flush] assms(4) by (auto simp: cleared_def)
  have c: "unat (pgr_pageCount pgr1) = unat (pgr_pageCount pgr) - 1"
    unfolding w(6) by (auto simp: word_gt_0 unat_minus_one)
  have z: "d_bufs (pgr_dManager pgr1) a = Some ?z" "length ?z = 8192" "\<not> BitIsSet (?z ! 0) Dead"
    using w(3) by (simp_all add: BitIsSet_def)
  obtain pgr2 where "WritePage p a flush pgr1 = (Ok (), pgr2)" "pgr_freeList pgr2 = pgr_freeList pgr1"
    "pgr_pageCount pgr2 = pgr_pageCount pgr1" "d_bufs (pgr_dManager pgr2) = (d_bufs (pgr_dManager pgr1))(a \<mapsto> ?z)"
    "f_data (d_fd (pgr_dManager pgr2)) = write_at (page_off p) ?z (f_data (d_fd (pgr_dManager pgr1)))"
    using WritePage_ok [OF w(2) z(1,2), of p flush] z(3) by (auto simp: cleared_def)
  then show ?thesis using w(1,3,5) c z(1) page_at_written(1) [OF w(4), of p] page_at_written(1) [of pgr2 p ?z pgr1] by (auto simp: add_def)
qed

theorem WritePage_dead_witness:
  "\<exists>pgr1. WritePage 3 0 False (pager2\<lparr>pgr_dManager := (pgr_dManager pager2)\<lparr>d_bufs := [0 \<mapsto> replicate 8192 0x10]\<rparr>\<rparr>) = (Ok (), pgr1)
     \<and> fl_freePages (pgr_freeList pgr1) = [3] \<and> unat (pgr_pageCount pgr1) = 1"
proof -
  let ?p = "pager2\<lparr>pgr_dManager := (pgr_dManager pager2)\<lparr>d_bufs := [0 \<mapsto> replicate 8192 0x10]\<rparr>\<rparr>"
  have "pgr_ok ?p" using pager2_ok by (simp add: pgr_ok_def idle_def)
  moreover have "BitIsSet (replicate 8192 (0x10::u8) ! 0) Dead" by (simp add: BitIsSet_def)
  ultimately show ?thesis using WritePage_dead [of ?p 0 "replicate 8192 0x10" 3 False]
    by (fastforce simp: pager2_def fl0_def)
qed

text \<open>C25. Metadata survives a restart: after \<^verbatim>\<open>FlushMetadata\<close>, a pager opened on the same file reads the same
  root, page count and largest id, whatever it had before.\<close>

theorem metadata_roundtrip:
  assumes "pgr_ok pgr" "d_bufs (pgr_dManager pgr) a = Some b" "length b = 8192"
    and "FlushMetadata a pgr = (r, pgr1)" "pgr_ok pgr'" "d_fd (pgr_dManager pgr') = d_fd (pgr_dManager pgr1)"
    and "d_bufs (pgr_dManager pgr') a' = Some b'" "length b' = 8192"
  shows "r = Ok () \<and> (\<exists>pgr2. InitFromMetadata a' pgr' = (Ok (), pgr2) \<and> pgr_rootPageId pgr2 = pgr_rootPageId pgr
     \<and> pgr_pageCount pgr2 = pgr_pageCount pgr \<and> pgr_maxPageId pgr2 = pgr_maxPageId pgr)"
proof -
  let ?m = "meta_bytes pgr b"
  have lm: "length ?m = 8192" using assms(3) by (simp add: meta_bytes_def)
  have r: "r = Ok ()" "f_data (d_fd (pgr_dManager pgr1)) = write_at (page_off 0) ?m (f_data (d_fd (pgr_dManager pgr)))"
    using FlushMetadata_ok [OF assms(1-3)] assms(4) by auto
  have pg: "page_at pgr' 0 = ?m"
    using r(2) assms(6) read_write_same [of ?m "page_off 0"] lm by (simp add: page_at_def)
  show ?thesis using InitFromMetadata_ok [OF assms(5,7,8) pg lm] r(1) assms(3) by (auto simp: meta_bytes_def)
qed

theorem metadata_roundtrip_witness:
  "\<exists>pgr1 pgr2. FlushMetadata 0 pager2 = (Ok (), pgr1)
     \<and> InitFromMetadata 1 (pgr1\<lparr>pgr_rootPageId := 0, pgr_pageCount := 0, pgr_maxPageId := 0\<rparr>) = (Ok (), pgr2)
     \<and> pgr_rootPageId pgr2 = 1 \<and> pgr_pageCount pgr2 = 2 \<and> pgr_maxPageId pgr2 = 2"
proof -
  obtain pgr1 where f: "FlushMetadata 0 pager2 = (Ok (), pgr1)" "pgr_ok pgr1" "d_bufs (pgr_dManager pgr1) 1 = Some (replicate 8192 0)"
    using FlushMetadata_ok [OF pager2_ok pager2_bufs(1)] pager2_bufs(2) by auto
  let ?p = "pgr1\<lparr>pgr_rootPageId := 0, pgr_pageCount := 0, pgr_maxPageId := 0\<rparr>"
  have "pgr_ok ?p" using f(2) by (simp add: pgr_ok_def)
  from metadata_roundtrip [OF pager2_ok pager2_bufs(1) _ f(1) this, of 1 "replicate 8192 0"] f show ?thesis
    by (auto simp: pager2_def)
qed

end
