(* ===== verification/WTinyLfu.thy ===== *)
theory WTinyLfu
  imports ClockProps TinyLfuProps PagerProps
begin

text \<open>
  The admission and eviction policy, \<^verbatim>\<open>pkg/buffermanager/wtinylfu.go\<close>: the pool's frames belong to a window segment, a
  probation segment or a protected segment, or to none; a full window gives a frame up to probation or, when that is full too,
  the less frequent of two victims is written back and freed. The calls work on the policy's state, the
  page table of the shard (\<^verbatim>\<open>sync.Map\<close>) and the pager together. The goroutine of \<^verbatim>\<open>Increment\<close> that counts the access runs at once.
  The policy's mutex is held by one method at a time and left out.
\<close>

section \<open>State\<close>

record WTinyLfu =
  w_cBuffer :: clock
  w_tinyFilter :: TinyLFU
  w_windowCount :: u64
  w_probationCount :: u64
  w_protectedCount :: u64
  w_windowCapacity :: u64
  w_probationCapacity :: u64
  w_protectedCapacity :: u64

record pool =
  p_w :: WTinyLfu
  p_table :: "u32 \<rightharpoonup> nat"
  p_pgr :: Pager

definition on_w :: "(WTinyLfu \<Rightarrow> 'a res \<times> WTinyLfu) \<Rightarrow> pool \<Rightarrow> 'a res \<times> pool" where
  "on_w m s = (case m (p_w s) of (r, w) \<Rightarrow> (r, s\<lparr>p_w := w\<rparr>))"

definition on_clk :: "(clock \<Rightarrow> 'a res \<times> clock) \<Rightarrow> WTinyLfu \<Rightarrow> 'a res \<times> WTinyLfu" where
  "on_clk m w = (case m (w_cBuffer w) of (r, c) \<Rightarrow> (r, w\<lparr>w_cBuffer := c\<rparr>))"

definition on_en :: "nat \<Rightarrow> (clockentry \<Rightarrow> 'a res \<times> clockentry) \<Rightarrow> WTinyLfu \<Rightarrow> 'a res \<times> WTinyLfu" where
  "on_en i m = on_clk (on_entry i m)"

definition pure :: "('s \<Rightarrow> 's) \<Rightarrow> 's \<Rightarrow> unit res \<times> 's" where
  "pure g s = (Ok (), g s)"

definition both :: "('s \<Rightarrow> 'a \<times> 's) \<Rightarrow> 's \<Rightarrow> 'a res \<times> 's" where
  "both g s = (case g s of (x, s') \<Rightarrow> (Ok x, s'))"

definition w_entry :: "nat \<Rightarrow> WTinyLfu \<Rightarrow> clockentry" where
  "w_entry i w = clk_bPool (w_cBuffer w) ! i"

section \<open>Segments\<close>

definition promoteToProtected :: "nat option \<Rightarrow> WTinyLfu \<Rightarrow> unit res \<times> WTinyLfu" where
  "promoteToProtected entry w = (case entry of
      None \<Rightarrow> (Err (BufferManagerError ''entry to promote no provided''), w)
    | Some i \<Rightarrow>
        if getSegType (w_entry i w) \<noteq> probationSegment then (Ok (), w)
        else if w_protectedCount w < w_protectedCapacity w
        then bindS (on_en i (both (updateSegmentCAS probationSegment protectedSegment))) (\<lambda>updated.
               if \<not> updated then returnS ()
               else
                 bindS (pure (\<lambda>w. w\<lparr>w_probationCount := w_probationCount w - 1, w_protectedCount := w_protectedCount w + 1\<rparr>)) (\<lambda>_ w.
                   if w_probationCount w > w_probationCapacity w then (Panic ''probation capacity surpassed.'', w)
                   else (Ok (), w))) w
        else bindS (on_clk (EvictWithoutClearing protectedSegment)) (\<lambda>victim. case victim of
               None \<Rightarrow> failS (BufferManagerError ''Could not find eligible victim.'')
             | Some v \<Rightarrow>
                 if v = i then panicS ''Evicted protected entry equal to current probation entry''
                 else
                   bindS (on_en v (both (updateSegmentCAS protectedSegment probationSegment))) (\<lambda>_.
                   bindS (on_en i (both (updateSegmentCAS probationSegment protectedSegment))) (\<lambda>_.
                   bindS (on_en v (pure unMarkForEviction)) (\<lambda>_.
                   on_en v unref)))) w)"

text \<open>The key bytes of a page id.\<close>

definition toBytes :: "u32 \<Rightarrow> bytes" where
  "toBytes key = le32 key"

definition wt_Increment :: "hasher \<Rightarrow> nat option \<Rightarrow> WTinyLfu \<Rightarrow> bool res \<times> WTinyLfu" where
  "wt_Increment h en w = (case en of
      None \<Rightarrow> (Panic ''(Increment) clockentry is required'', w)
    | Some i \<Rightarrow>
        bindS (if getSegType (w_entry i w) = probationSegment then promoteToProtected (Some i)
               else if getSegType (w_entry i w) = unassigned
               then bindS (on_en i (both (updateSegmentCAS unassigned windowSegment))) (\<lambda>_. returnS ())
               else returnS ()) (\<lambda>_ w.
          case IncrementItem h (toBytes (getKey (ce_entry (w_entry i w)))) (w_tinyFilter w) of
            (Ok _, t) \<Rightarrow> (Ok True, w\<lparr>w_tinyFilter := t\<rparr>)
          | (Err e, t) \<Rightarrow> (Panic ''err'', w\<lparr>w_tinyFilter := t\<rparr>)
          | (Panic p, t) \<Rightarrow> (Panic p, w\<lparr>w_tinyFilter := t\<rparr>)
          | (Blocked, t) \<Rightarrow> (Blocked, w\<lparr>w_tinyFilter := t\<rparr>)) w)"

section \<open>Eviction\<close>

text \<open>The slice \<^verbatim>\<open>buff[:]\<close> shares the frame's memory with the pager for the time of a call: its bytes are lent to the store of
  buffers at an address and taken back.\<close>

definition lend :: "addr \<Rightarrow> (addr \<Rightarrow> Pager \<Rightarrow> 'a res \<times> Pager) \<Rightarrow> bytes \<Rightarrow> Pager \<Rightarrow> ('a res \<times> bytes) \<times> Pager" where
  "lend a m b pgr =
     (case m a (pgr\<lparr>pgr_dManager := (pgr_dManager pgr)\<lparr>d_bufs := (d_bufs (pgr_dManager pgr))(a \<mapsto> b)\<rparr>\<rparr>) of
        (r, pgr) \<Rightarrow> ((r, case d_bufs (pgr_dManager pgr) a of None \<Rightarrow> b | Some b' \<Rightarrow> b'), pgr))"

definition set_bytes :: "nat \<Rightarrow> bytes \<Rightarrow> WTinyLfu \<Rightarrow> WTinyLfu" where
  "set_bytes i b w = w\<lparr>w_cBuffer := upd_entry i (\<lambda>e. e\<lparr>ce_entry := (ce_entry e)\<lparr>fr_page := (fr_page (ce_entry e))\<lparr>pgeData := b\<rparr>\<rparr>\<rparr>) (w_cBuffer w)\<rparr>"

definition with_frame :: "nat \<Rightarrow> (addr \<Rightarrow> Pager \<Rightarrow> 'a res \<times> Pager) \<Rightarrow> pool \<Rightarrow> 'a res \<times> pool" where
  "with_frame i m s =
     (case lend i m (pgeData (fr_page (ce_entry (w_entry i (p_w s))))) (p_pgr s) of
        ((r, b), pgr) \<Rightarrow> (r, s\<lparr>p_w := set_bytes i b (p_w s), p_pgr := pgr\<rparr>))"

definition on_frame :: "(Frame \<Rightarrow> 'a res \<times> Frame) \<Rightarrow> clockentry \<Rightarrow> 'a res \<times> clockentry" where
  "on_frame m e = (case m (ce_entry e) of (r, f) \<Rightarrow> (r, e\<lparr>ce_entry := f\<rparr>))"

definition flush_victim :: "nat \<Rightarrow> u32 \<Rightarrow> pool \<Rightarrow> unit res \<times> pool" where
  "flush_victim i key s =
     (if isDirty (ce_entry (w_entry i (p_w s)))
      then bindS (orPanic (on_w (on_en i (on_frame ByteData)))) (\<lambda>_. with_frame i (\<lambda>a. WritePage key a False)) s
      else (Ok (), s))"

text \<open>Out of the table first, then reset, cleared and free again.\<close>

definition drop_victim :: "nat \<Rightarrow> u32 \<Rightarrow> pool \<Rightarrow> unit res \<times> pool" where
  "drop_victim i key =
     bindS (pure (\<lambda>s. s\<lparr>p_table := (p_table s)(key := None)\<rparr>)) (\<lambda>_.
     bindS (orPanic (on_w (on_clk (resetEntry (Some i))))) (\<lambda>_.
     bindS (on_w (on_en i (pure (\<lambda>e. case frame_Clear (Some (ce_entry e)) of Ok f \<Rightarrow> e\<lparr>ce_entry := f\<rparr> | _ \<Rightarrow> e)))) (\<lambda>_.
     on_w (on_en i (pure unMarkForEviction)))))"

definition dec_window :: "WTinyLfu \<Rightarrow> WTinyLfu" where
  "dec_window w = w\<lparr>w_windowCount := w_windowCount w - 1\<rparr>"

text \<open>The contest of two victims; a failing count gives up both pins, but not the marks.\<close>

definition victim_count :: "hasher \<Rightarrow> nat \<Rightarrow> nat \<Rightarrow> u32 \<Rightarrow> pool \<Rightarrow> int res \<times> pool" where
  "victim_count h wi pi key s = (case CheckItemCount h (toBytes key) (w_tinyFilter (p_w s)) of
      Ok n \<Rightarrow> (Ok n, s)
    | Err e \<Rightarrow> bindS (on_w (on_en wi unref)) (\<lambda>_. bindS (on_w (on_en pi unref)) (\<lambda>_. failS e)) s
    | Panic p \<Rightarrow> (Panic p, s)
    | Blocked \<Rightarrow> (Blocked, s))"

definition contest :: "hasher \<Rightarrow> nat \<Rightarrow> nat \<Rightarrow> pool \<Rightarrow> unit res \<times> pool" where
  "contest h wi pi s =
     (let windKey = getKey (ce_entry (w_entry wi (p_w s)));
          mainKey = getKey (ce_entry (w_entry pi (p_w s))) in
      bindS (victim_count h wi pi windKey) (\<lambda>windCount.
      bindS (victim_count h wi pi mainKey) (\<lambda>mainCacheCount.
      if windCount \<ge> mainCacheCount then
        bindS (flush_victim pi mainKey) (\<lambda>_.
        bindS (drop_victim pi mainKey) (\<lambda>_.
        bindS (on_w (on_en wi (both (updateSegmentCAS windowSegment probationSegment)))) (\<lambda>_.
        bindS (on_w (on_en wi (pure unMarkForEviction))) (\<lambda>_.
        bindS (on_w (on_en wi unref)) (\<lambda>_.
        on_w (pure dec_window))))))
      else
        bindS (flush_victim wi windKey) (\<lambda>_.
        bindS (drop_victim wi windKey) (\<lambda>_.
        bindS (on_w (on_en pi (pure unMarkForEviction))) (\<lambda>_.
        bindS (on_w (on_en pi unref)) (\<lambda>_.
        on_w (pure dec_window))))))) s)"

definition to_probation :: "nat \<Rightarrow> WTinyLfu \<Rightarrow> unit res \<times> WTinyLfu" where
  "to_probation i =
     bindS (on_en i (both (updateSegmentCAS windowSegment probationSegment))) (\<lambda>_.
     bindS (pure (\<lambda>w. w\<lparr>w_probationCount := w_probationCount w + 1, w_windowCount := w_windowCount w - 1\<rparr>)) (\<lambda>_ w.
       if w_probationCount w > w_probationCapacity w then (Panic ''probation count(%d) exceeded capacity (%d)'', w)
       else bindS (on_en i (pure unMarkForEviction)) (\<lambda>_. on_en i unref) w))"

definition evictWindow :: "hasher \<Rightarrow> pool \<Rightarrow> unit res \<times> pool" where
  "evictWindow h s =
     (let w = p_w s in
      if w_probationCount w > w_probationCapacity w then (Panic ''probation items surpassed allowed max'', s)
      else if w_windowCount w < w_windowCapacity w then (Err (WTinyLFUError ''Window cache is not full''), s)
      else if w_probationCount w \<ge> w_probationCapacity w then
        bindS (on_w (on_clk (EvictWithoutClearing windowSegment))) (\<lambda>wv.
        bindS (on_w (on_clk (EvictWithoutClearing probationSegment))) (\<lambda>pv.
        case wv of
          None \<Rightarrow> bindS (case pv of Some pi \<Rightarrow> on_w (on_en pi unref) | None \<Rightarrow> returnS ()) (\<lambda>_.
                    failS (BufferManagerError ''(probation full) Could not find window victim(all frames in use).''))
        | Some wi \<Rightarrow> (case pv of
            None \<Rightarrow> bindS (on_w (on_en wi unref)) (\<lambda>_.
                      failS (BufferManagerError ''Unable to find probation victim(all frames in use).''))
          | Some pi \<Rightarrow> contest h wi pi))) s
      else
        bindS (on_w (on_clk (EvictWithoutClearing windowSegment))) (\<lambda>wv. case wv of
          None \<Rightarrow> failS (BufferManagerError ''Unable to find window victim(all frames in use).'')
        | Some wi \<Rightarrow> on_w (to_probation wi)) s)"

definition getFreeFrame :: "hasher \<Rightarrow> pool \<Rightarrow> nat res \<times> pool" where
  "getFreeFrame h s =
     (if w_windowCount (p_w s) > w_windowCapacity (p_w s) then (Panic ''window cache overflow.'', s)
      else bindS (if w_windowCount (p_w s) = w_windowCapacity (p_w s) then evictWindow h else returnS ()) (\<lambda>_.
           bindS (on_w (on_clk (EvictWithoutClearing unassigned))) (\<lambda>en. case en of
             None \<Rightarrow> failS (BufferManagerError ''Unable to add item to WtinyLFU'')
           | Some i \<Rightarrow>
               bindS (on_w (on_en i (both (updateSegmentCAS unassigned windowSegment)))) (\<lambda>_.
               bindS (on_w (pure (\<lambda>w. w\<lparr>w_windowCount := w_windowCount w + 1\<rparr>))) (\<lambda>_. returnS i)))) s)"

definition readdFrameToPool :: "nat option \<Rightarrow> WTinyLfu \<Rightarrow> unit res \<times> WTinyLfu" where
  "readdFrameToPool entry = on_clk (clearEntry entry)"

definition getWindowCount :: "WTinyLfu \<Rightarrow> u64" where "getWindowCount w = w_windowCount w"
definition getProbationCount :: "WTinyLfu \<Rightarrow> u64" where "getProbationCount w = w_probationCount w"
definition getProtectedCount :: "WTinyLfu \<Rightarrow> u64" where "getProtectedCount w = w_protectedCount w"

text \<open>\<^verbatim>\<open>&w.cBuffer.getReserved().entry\<close>: a clock without a reserved entry has a nil pointer there.\<close>

definition getMetadataPage :: "WTinyLfu \<Rightarrow> nat res" where
  "getMetadataPage w = (case getReserved (w_cBuffer w) of
      None \<Rightarrow> Panic ''nil pointer dereference'' | Some i \<Rightarrow> Ok i)"

text \<open>The rounded shares of the main cache are float64 products; they are arguments.\<close>

definition NewWTinylfu :: "hasher \<Rightarrow> u64 \<Rightarrow> u64 \<Rightarrow> bool \<Rightarrow> u64 \<Rightarrow> u64 \<Rightarrow> u64 \<Rightarrow> u64 \<Rightarrow> WTinyLfu res" where
  "NewWTinylfu h windowSize mainCacheSize reserveMetadata probationCap protectedCap cmsWidth cmsDepth =
     (if windowSize \<le> 0 then Err (WTinyLFUError ''Window size must be greater than 0'')
      else if mainCacheSize \<le> 0 then Err (WTinyLFUError ''Main cache size must be greater than 0'')
      else if windowSize \<ge> mainCacheSize then Err (WTinyLFUError ''Window size is greater than main cache size.'')
      else (case NewClock (unat (windowSize + mainCacheSize)) reserveMetadata of
          Ok cBuff \<Rightarrow>
            bindR (NewTinyLFU h cmsWidth cmsDepth) (\<lambda>t.
            Ok \<lparr>w_cBuffer = cBuff, w_tinyFilter = t, w_windowCount = 0, w_probationCount = 0, w_protectedCount = 0,
                w_windowCapacity = windowSize, w_probationCapacity = probationCap,
                w_protectedCapacity = (if reserveMetadata then protectedCap - 1 else protectedCap)\<rparr>)
        | Err e \<Rightarrow> Panic ''err'' | Panic p \<Rightarrow> Panic p | Blocked \<Rightarrow> Blocked))"

end
