(* ===== verification/Shard.thy ===== *)
theory Shard
  imports WTinyLfu
begin

text \<open>
  A shard of the buffer manager, \<^verbatim>\<open>pkg/buffermanager/shard.go\<close>, and its background writer (\<^verbatim>\<open>bgwriter.go\<close>). A request becomes a
  job in the queue of the shard's workers; a worker runs it and answers on one of the job's unbuffered channels, from which
  the client takes one message. Here a worker runs its job at once. A job's result is the list of the messages it
  tries to send: the client receives the first, and a worker that sends another waits for ever, with what it
  holds. The reader lock \<^verbatim>\<open>rmu\<close> is only ever taken for reading and is left out, as is the exit channel.
\<close>

section \<open>Jobs\<close>

abbreviation GET_CREATE :: nat where "GET_CREATE \<equiv> 7"
abbreviation DELETE :: nat where "DELETE \<equiv> 6"
abbreviation ISINTERNAL :: nat where "ISINTERNAL \<equiv> 5"
abbreviation SETASROOT :: nat where "SETASROOT \<equiv> 4"

record bmJob =
  bj_flag :: u8
  bj_pid :: u32

text \<open>A message: an error or nil on \<^verbatim>\<open>errChan\<close>, or a frame and whether it was cached on \<^verbatim>\<open>resultChan\<close>.\<close>

datatype bm_msg = ErrMsg "gerror option" | ResMsg nat bool

definition entry_of :: "nat \<Rightarrow> pool \<Rightarrow> clockentry" where
  "entry_of i s = w_entry i (p_w s)"

definition on_e :: "nat \<Rightarrow> (clockentry \<Rightarrow> 'a res \<times> clockentry) \<Rightarrow> pool \<Rightarrow> 'a res \<times> pool" where
  "on_e i m = on_w (on_en i m)"

definition put :: "hasher \<Rightarrow> u32 \<Rightarrow> nat \<Rightarrow> bool \<Rightarrow> pool \<Rightarrow> nat res \<times> pool" where
  "put h k en dirty s =
     bindS (case p_table s k of
              Some v \<Rightarrow> (\<lambda>s. case on_w (wt_Increment h (Some v)) s of
                  (Ok _, s) \<Rightarrow> (Ok (), s) | (Err _, s) \<Rightarrow> (Ok (), s)
                | (Panic p, s) \<Rightarrow> (Panic p, s) | (Blocked, s) \<Rightarrow> (Blocked, s))
            | None \<Rightarrow> returnS ()) (\<lambda>_.
     bindS (pure (\<lambda>s. s\<lparr>p_table := (p_table s)(k \<mapsto> en)\<rparr>)) (\<lambda>_.
     bindS (on_e en (pure (\<lambda>e. if fr_parentEntry (ce_entry e) = None
                               then e\<lparr>ce_entry := (ce_entry e)\<lparr>fr_parentEntry := Some en\<rparr>\<rparr> else e))) (\<lambda>_.
     returnS en))) s"

text \<open>The latch of a frame around a part of a job; the release is deferred.\<close>

definition latched :: "nat \<Rightarrow> (pool \<Rightarrow> 'a res \<times> pool) \<Rightarrow> pool \<Rightarrow> 'a res \<times> pool" where
  "latched i m =
     bindS (on_e i (on_frame (Acquire False))) (\<lambda>_.
     bindS m (\<lambda>r.
     bindS (on_e i (on_frame (Release False))) (\<lambda>_. returnS r)))"

definition readd :: "nat \<Rightarrow> gerror \<Rightarrow> pool \<Rightarrow> gerror option res \<times> pool" where
  "readd i e s = (case on_w (readdFrameToPool (Some i)) s of
      (Ok _, s) \<Rightarrow> (Ok (Some e), s) | (Err _, s) \<Rightarrow> (Ok (Some e), s)
    | (Panic p, s) \<Rightarrow> (Panic p, s) | (Blocked, s) \<Rightarrow> (Blocked, s))"

text \<open>A miss: the page is read into the free frame and checked; then the metadata are set and the frame enters the
  table. The result is the error to send, if any.\<close>

definition load_frame :: "hasher \<Rightarrow> u32 \<Rightarrow> nat \<Rightarrow> pool \<Rightarrow> gerror option res \<times> pool" where
  "load_frame h pid i =
     bindS (on_e i (pure unMarkForEviction)) (\<lambda>_ s.
     case RawBufferSlice (ce_entry (entry_of i s)) of
       Err e \<Rightarrow> (Ok (Some e), s) | Panic p \<Rightarrow> (Panic p, s) | Blocked \<Rightarrow> (Blocked, s)
     | Ok _ \<Rightarrow> (case with_frame i (\<lambda>a. ReadPage pid a) s of
         (Err e, s) \<Rightarrow> readd i e s
       | (Panic p, s) \<Rightarrow> (Panic p, s)
       | (Blocked, s) \<Rightarrow> (Blocked, s)
       | (Ok _, s) \<Rightarrow>
           (let b = pgeData (fr_page (ce_entry (entry_of i s)));
                p = of_le32 (slice 1 5 b) in
            if p \<noteq> pid then readd i (BufferManagerError ''Invalid pageId provided: %d, instead got %d'') s
            else (case UpdatePageMeta (fr_page (ce_entry (entry_of i s))) p (BitIsSet (b ! 0) IsInternal) of
                (Err _, _) \<Rightarrow> (Ok (Some (BufferManagerError ''err'')), s)
              | (Panic x, _) \<Rightarrow> (Panic x, s)
              | (Blocked, _) \<Rightarrow> (Blocked, s)
              | (Ok _, page) \<Rightarrow>
                  bindS (on_e i (pure (\<lambda>e. e\<lparr>ce_entry := (ce_entry e)\<lparr>fr_page := page\<rparr>\<rparr>))) (\<lambda>_.
                  bindS (on_w (on_clk (SetData i page False))) (\<lambda>_.
                  bindS (put h pid i False) (\<lambda>_. returnS None))) s))))"

section \<open>runJob\<close>

definition run_delete :: "hasher \<Rightarrow> u32 \<Rightarrow> pool \<Rightarrow> bm_msg list res \<times> pool" where
  "run_delete h pid s = (case p_table s pid of
      Some i \<Rightarrow>
        bindS (on_e i (pure reference)) (\<lambda>_.
        bindS (latched i (on_e i (pure (\<lambda>e. e\<lparr>ce_entry := MarkDead (ce_entry e)\<rparr>)))) (\<lambda>_.
        bindS (on_e i unref) (\<lambda>_. returnS [ErrMsg None]))) s
    | None \<Rightarrow> (case getFreeFrame h s of
        (Err e, s) \<Rightarrow> (Ok [ErrMsg (Some e)], s)
      | (Panic p, s) \<Rightarrow> (Panic p, s)
      | (Blocked, s) \<Rightarrow> (Blocked, s)
      | (Ok i, s) \<Rightarrow>
          latched i (bindS (load_frame h pid i) (\<lambda>err. case err of
            Some e \<Rightarrow> returnS [ErrMsg (Some e)]
          | None \<Rightarrow>
              bindS (on_e i (pure (\<lambda>e. e\<lparr>ce_entry := MarkDead (ce_entry e)\<rparr>))) (\<lambda>_.
              bindS (on_e i unref) (\<lambda>_. returnS [ErrMsg None])))) s))"

definition get_hit :: "hasher \<Rightarrow> u32 \<Rightarrow> nat \<Rightarrow> pool \<Rightarrow> bm_msg list res \<times> pool" where
  "get_hit h pid i s =
     (if IsDead (ce_entry (entry_of i s)) then
        bindS (pure (\<lambda>s. if \<not> isDirty (ce_entry (entry_of i s)) then s\<lparr>p_table := (p_table s)(pid := None)\<rparr> else s)) (\<lambda>_.
        bindS (on_e i unref) (\<lambda>_. returnS [ErrMsg (Some (BufferManagerError ''No entry found.''))])) s
      else (case on_w (wt_Increment h (Some i)) s of
          (Panic p, s) \<Rightarrow> (Panic p, s)
        | (Blocked, s) \<Rightarrow> (Blocked, s)
        | (_, s) \<Rightarrow> (Ok [ResMsg i True], s)))"

definition get_miss :: "hasher \<Rightarrow> u32 \<Rightarrow> pool \<Rightarrow> bm_msg list res \<times> pool" where
  "get_miss h pid s = (case getFreeFrame h s of
      (Err e, s) \<Rightarrow> (Ok [ErrMsg (Some e)], s)
    | (Panic p, s) \<Rightarrow> (Panic p, s)
    | (Blocked, s) \<Rightarrow> (Blocked, s)
    | (Ok i, s) \<Rightarrow>
        latched i (bindS (load_frame h pid i) (\<lambda>err. case err of
          Some e \<Rightarrow> returnS [ErrMsg (Some e)]
        | None \<Rightarrow> returnS [ResMsg i False])) s)"

definition run_get :: "hasher \<Rightarrow> u32 \<Rightarrow> pool \<Rightarrow> bm_msg list res \<times> pool" where
  "run_get h pid s =
     (if pid = 0 then (bindR (getMetadataPage (p_w s)) (\<lambda>i. Ok [ResMsg i True]), s)
      else (case p_table s pid of
          None \<Rightarrow> get_miss h pid s
        | Some i \<Rightarrow>
            bindS (on_e i (both refIfOccupied)) (\<lambda>pinned. if pinned then get_hit h pid i else get_miss h pid) s))"

text \<open>A new frame, between the latch and its release.\<close>

definition init_frame :: "hasher \<Rightarrow> bool \<Rightarrow> bool \<Rightarrow> u32 \<Rightarrow> nat \<Rightarrow> pool \<Rightarrow> bm_msg res \<times> pool" where
  "init_frame h setAsRoot internal pid i =
     bindS (on_e i (pure unMarkForEviction)) (\<lambda>_ s.
     case NewPage setAsRoot internal (Some (GetPage (ce_entry (entry_of i s)))) pid (p_pgr s) of
       (Err e, pgr) \<Rightarrow> bindS (on_e i unref) (\<lambda>_. returnS (ErrMsg (Some e))) (s\<lparr>p_pgr := pgr\<rparr>)
     | (Panic x, pgr) \<Rightarrow> (Panic x, s\<lparr>p_pgr := pgr\<rparr>)
     | (Blocked, pgr) \<Rightarrow> (Blocked, s\<lparr>p_pgr := pgr\<rparr>)
     | (Ok (pgeId, page), pgr) \<Rightarrow>
         bindS (on_e i (pure (\<lambda>e. e\<lparr>ce_entry := (ce_entry e)\<lparr>fr_page := page\<rparr>\<rparr>))) (\<lambda>_.
           if pgeId = 0 then bindS (on_e i unref) (\<lambda>_. panicS ''Invalid frame ID 0'')
           else
             bindS (on_w (on_clk (SetData i page True))) (\<lambda>_ s.
               if getKey (ce_entry (entry_of i s)) = 0 then (Panic ''Invalid frame ID 0'', s)
               else bindS (put h pgeId i True) (\<lambda>_. returnS (ResMsg i False)) s)) (s\<lparr>p_pgr := pgr\<rparr>))"

text \<open>Page id 0 is refused with a first message, and the job goes on; its second message finds no receiver, so that
  the deferred release is never reached.\<close>

definition run_create :: "hasher \<Rightarrow> bool \<Rightarrow> bool \<Rightarrow> u32 \<Rightarrow> pool \<Rightarrow> bm_msg list res \<times> pool" where
  "run_create h setAsRoot internal pid s =
     (let sent = (if pid = 0 then [ErrMsg (Some (BufferManagerError ''Invalid pid 0''))] else []) in
      case getFreeFrame h s of
        (Err e, s) \<Rightarrow> (Ok (sent @ [ErrMsg (Some e)]), s)
      | (Panic p, s) \<Rightarrow> (Panic p, s)
      | (Blocked, s) \<Rightarrow> (Blocked, s)
      | (Ok i, s) \<Rightarrow>
          bindS (if pid = 0
                 then bindS (on_e i (on_frame (Acquire False))) (\<lambda>_. init_frame h setAsRoot internal pid i)
                 else latched i (init_frame h setAsRoot internal pid i)) (\<lambda>m. returnS (sent @ [m])) s)"

definition runJob :: "hasher \<Rightarrow> bmJob \<Rightarrow> pool \<Rightarrow> bm_msg list res \<times> pool" where
  "runJob h j =
     (if BitIsSet (bj_flag j) DELETE then run_delete h (bj_pid j)
      else if BitIsSet (bj_flag j) GET_CREATE then run_get h (bj_pid j)
      else run_create h (BitIsSet (bj_flag j) SETASROOT) (BitIsSet (bj_flag j) ISINTERNAL) (bj_pid j))"

section \<open>Requests\<close>

text \<open>A client that waits for a message that is never sent waits for ever.\<close>

definition sh_get :: "hasher \<Rightarrow> u32 \<Rightarrow> pool \<Rightarrow> (nat \<times> bool) res \<times> pool" where
  "sh_get h pageId =
     bindS (runJob h \<lparr>bj_flag = 0x80, bj_pid = pageId\<rparr>) (\<lambda>msgs. case msgs of
         ResMsg i hit # _ \<Rightarrow> returnS (i, hit)
       | ErrMsg (Some e) # _ \<Rightarrow> failS e
       | ErrMsg None # _ \<Rightarrow> panicS ''nil frame''
       | [] \<Rightarrow> (\<lambda>s. (Blocked, s)))"

definition sh_delete :: "hasher \<Rightarrow> u32 \<Rightarrow> pool \<Rightarrow> unit res \<times> pool" where
  "sh_delete h pid =
     bindS (runJob h \<lparr>bj_flag = 0x40, bj_pid = pid\<rparr>) (\<lambda>msgs. case msgs of
         ErrMsg None # _ \<Rightarrow> returnS ()
       | ErrMsg (Some e) # _ \<Rightarrow> failS e
       | _ \<Rightarrow> (\<lambda>s. (Blocked, s)))"

definition sh_newFrame :: "hasher \<Rightarrow> bool \<Rightarrow> bool \<Rightarrow> u32 \<Rightarrow> pool \<Rightarrow> nat res \<times> pool" where
  "sh_newFrame h internal setAsRoot pid =
     (let flag = 0;
          flag = (if internal then flag OR push_bit ISINTERNAL 1 else flag);
          flag = (if setAsRoot then flag OR push_bit SETASROOT 1 else flag) in
      bindS (runJob h \<lparr>bj_flag = flag, bj_pid = pid\<rparr>) (\<lambda>msgs. case msgs of
         ResMsg i _ # _ \<Rightarrow> returnS i
       | ErrMsg (Some e) # _ \<Rightarrow> failS e
       | ErrMsg None # _ \<Rightarrow> panicS ''nil frame''
       | [] \<Rightarrow> (\<lambda>s. (Blocked, s))))"

definition prepareForEviction :: "nat option \<Rightarrow> pool \<Rightarrow> unit res \<times> pool" where
  "prepareForEviction f = (case f of
      None \<Rightarrow> failS (BufferManagerError ''Provided frame is nil.'')
    | Some i \<Rightarrow> latched i (\<lambda>s.
        if \<not> isDirty (ce_entry (entry_of i s)) then (Ok (), s)
        else orPanic (with_frame i (\<lambda>a. WritePage (getKey (ce_entry (entry_of i s))) a False)) s))"

definition sh_flushFreeList :: "pool \<Rightarrow> unit res \<times> pool" where
  "sh_flushFreeList s = (case FlushFreeList (p_pgr s) of
      (Ok _, pgr) \<Rightarrow> (Ok (), s\<lparr>p_pgr := pgr\<rparr>) | (Err _, pgr) \<Rightarrow> (Ok (), s\<lparr>p_pgr := pgr\<rparr>)
    | (Panic p, pgr) \<Rightarrow> (Panic p, s\<lparr>p_pgr := pgr\<rparr>) | (Blocked, pgr) \<Rightarrow> (Blocked, s\<lparr>p_pgr := pgr\<rparr>))"

text \<open>The pin is given back before the latch: deferred calls run in reverse order, also when the write fails.\<close>

definition sh_FlushMetadata :: "pool \<Rightarrow> unit res \<times> pool" where
  "sh_FlushMetadata s = (case getReserved (w_cBuffer (p_w s)) of
      None \<Rightarrow> (Err (BufferManagerError ''No metadata frame available''), s)
    | Some i \<Rightarrow>
        bindS (latched i
          (bindS (on_e i (pure reference)) (\<lambda>_.
           bindS (\<lambda>s. case with_frame i FlushMetadata s of
                      (Ok _, s) \<Rightarrow> (Ok None, s) | (Err e, s) \<Rightarrow> (Ok (Some e), s)
                    | (Panic p, s) \<Rightarrow> (Panic p, s) | (Blocked, s) \<Rightarrow> (Blocked, s)) (\<lambda>r.
           bindS (on_e i unref) (\<lambda>_. returnS r)))))
          (\<lambda>r. case r of None \<Rightarrow> returnS () | Some e \<Rightarrow> failS e) s)"

section \<open>The background writer\<close>

abbreviation MAX_PAGES :: u32 where "MAX_PAGES \<equiv> 5000"

text \<open>One entry of a pass: the page is copied, marked clean and unlatched, and then the copy is written. \<open>tmp\<close> is the
  address of the copy. (\<^verbatim>\<open>RawBufferSlice\<close> gives an error for a nil page only; a frame holds its page.)\<close>

definition bg_copy :: "nat \<Rightarrow> pool \<Rightarrow> (u32 \<times> bytes) res \<times> pool" where
  "bg_copy i s =
     (let k = fr_key (ce_entry (entry_of i s)) in
      bindS (liftR (RawBufferSlice (ce_entry (entry_of i s)))) (\<lambda>(buff, _).
      bindS (on_e i (pure (\<lambda>e. e\<lparr>ce_entry := frame_MarkClean (ce_entry e)\<rparr>))) (\<lambda>_.
      returnS (k, buff))) s)"

definition bg_entry :: "addr \<Rightarrow> u32 \<Rightarrow> nat \<Rightarrow> pool \<Rightarrow> u32 res \<times> pool" where
  "bg_entry tmp writtenPages i =
     bindS (on_e i (both refIfNotReferenced)) (\<lambda>pinned s.
       if \<not> pinned then (Ok writtenPages, s)
       else if \<not> isDirty (ce_entry (entry_of i s)) then bindS (on_e i unref) (\<lambda>_. returnS writtenPages) s
       else
         (let shouldFlush = (writtenPages + 1 = MAX_PAGES) in
          bindS (latched i (bg_copy i)) (\<lambda>(k, buff) s.
            case lend tmp (\<lambda>a. WritePage k a shouldFlush) buff (p_pgr s) of
              ((Ok _, _), pgr) \<Rightarrow> bindS (on_e i unref) (\<lambda>_. returnS (writtenPages + 1)) (s\<lparr>p_pgr := pgr\<rparr>)
            | ((Err _, _), pgr) \<Rightarrow> bindS (on_e i unref) (\<lambda>_. returnS writtenPages) (s\<lparr>p_pgr := pgr\<rparr>)
            | ((Panic p, _), pgr) \<Rightarrow> (Panic p, s\<lparr>p_pgr := pgr\<rparr>)
            | ((Blocked, _), pgr) \<Rightarrow> (Blocked, s\<lparr>p_pgr := pgr\<rparr>)) s))"

text \<open>A pass over the pool; it ends early when enough pages were written. (An entry that is skipped does not reach the
  test, which changes nothing: the count is below the limit after every test.)\<close>

fun bg_pass :: "addr \<Rightarrow> u32 \<Rightarrow> nat list \<Rightarrow> pool \<Rightarrow> u32 res \<times> pool" where
  "bg_pass tmp writtenPages [] = returnS writtenPages"
| "bg_pass tmp writtenPages (i # is) =
     bindS (bg_entry tmp writtenPages i) (\<lambda>n. if n \<ge> MAX_PAGES then returnS 0 else bg_pass tmp n is)"

text \<open>\<^verbatim>\<open>BgWriter.Start\<close> until the exit channel is closed: \<open>rounds\<close> passes over the whole pool and \<open>visited\<close> entries of the last one; and \<^verbatim>\<open>watchFreeList\<close> for a
  number of rounds, where an error is a panic. The waiting time between the rounds plays no part.\<close>

primrec bg_Start :: "addr \<Rightarrow> nat \<Rightarrow> nat \<Rightarrow> u32 \<Rightarrow> pool \<Rightarrow> u32 res \<times> pool" where
  "bg_Start tmp 0 visited writtenPages s = bg_pass tmp writtenPages [0..<min visited (clk_capacity (w_cBuffer (p_w s)))] s"
| "bg_Start tmp (Suc rounds) visited writtenPages s =
     bindS (bg_pass tmp writtenPages [0..<clk_capacity (w_cBuffer (p_w s))]) (bg_Start tmp rounds visited) s"

primrec watchFreeList :: "nat \<Rightarrow> pool \<Rightarrow> unit res \<times> pool" where
  "watchFreeList 0 s = (Ok (), s)"
| "watchFreeList (Suc rounds) s = bindS (orPanic sh_flushFreeList) (\<lambda>_. watchFreeList rounds) s"

end
