(* ===== verification/PageStore.thy ===== *)
theory PageStore
  imports Shard
begin

text \<open>
  What the buffer pool relies on from the pager, as an interface: a store of pages by id, with a call that writes the bytes of a
  frame and one that reads into them. The interpretation shows that the pager provides it for ids
  below \<open>2 ^ 19\<close>. A page's dirty bit is not part of what is stored: it is set in the bytes that are written and
  cleared in the frame.
\<close>

section \<open>Bytes of a page\<close>

definition undirty :: "bytes \<Rightarrow> bytes" where
  "undirty b = b[0 := UnsetFlag (b ! 0) [Dirty]]"

definition alive :: "bytes \<Rightarrow> bool" where
  "alive b \<longleftrightarrow> \<not> BitIsSet (b ! 0) Dead"

definition has_id :: "u32 \<Rightarrow> bytes \<Rightarrow> bool" where
  "has_id k b \<longleftrightarrow> length b = PAGE_SIZE_BYTES \<and> slice 1 5 b = le32 k"

lemma alive_undirty: "length b = PAGE_SIZE_BYTES \<Longrightarrow> alive (undirty b) = alive b"
  by (simp add: alive_def undirty_def hflags.is_set_unset)

lemma flag_idem: "UnsetFlag (UnsetFlag f ps) ps = UnsetFlag f ps" "UnsetFlag (SetFlag f [p]) [p] = UnsetFlag f [p]"
  by (rule bit_word_eqI; simp add: UnsetFlag_def SetFlag_def bit_simps; blast)+

lemma undirty_clean: "length b = PAGE_SIZE_BYTES \<Longrightarrow> undirty (b[0 := UnsetFlag (b ! 0) [Dirty]]) = undirty b"
  by (simp add: undirty_def flag_idem)

lemma undirty_mark: "length b = PAGE_SIZE_BYTES \<Longrightarrow> undirty (b[0 := SetFlag (b ! 0) [Dirty]]) = undirty b"
  by (simp add: undirty_def flag_idem)

lemma slice_first [simp]: "slice (Suc 0) 5 (b[0 := x]) = slice (Suc 0) 5 b"
  by (rule slice_eqI) auto

lemma has_id_first [simp]: "has_id k (b[0 := x]) = has_id k b"
  by (simp add: has_id_def)

lemma has_id_undirty [simp]: "has_id k (undirty b) = has_id k b"
  by (simp add: undirty_def)

lemma has_id_of_le32: "has_id k b \<Longrightarrow> of_le32 (slice 1 5 b) = k"
  by (simp add: has_id_def)

lemma has_id_iff: "length b = PAGE_SIZE_BYTES \<Longrightarrow> has_id k b \<longleftrightarrow> of_le32 (slice 1 5 b) = k"
  by (auto simp: has_id_def le32_of_le32)

section \<open>The interface\<close>

locale page_store =
  fixes ok :: "'s \<Rightarrow> bool"
    and kept :: "'s \<Rightarrow> u32 \<Rightarrow> bytes option"
    and ids :: "'s \<Rightarrow> 'i"
    and wr :: "u32 \<Rightarrow> bytes \<Rightarrow> 's \<Rightarrow> (unit res \<times> bytes) \<times> 's"
    and rd :: "u32 \<Rightarrow> bytes \<Rightarrow> 's \<Rightarrow> (unit res \<times> bytes) \<times> 's"
  assumes wr: "ok s \<Longrightarrow> unat k < 2 ^ 19 \<Longrightarrow> has_id k b \<Longrightarrow> alive b \<Longrightarrow>
      \<exists>s'. wr k b s = ((Ok (), b), s') \<and> ok s' \<and> ids s' = ids s
        \<and> (\<forall>q. unat q < 2 ^ 19 \<longrightarrow> q \<noteq> 0 \<longrightarrow> kept s' q = (if q = k then Some (undirty b) else kept s q))"
    and rd: "ok s \<Longrightarrow> unat k < 2 ^ 19 \<Longrightarrow> b = replicate PAGE_SIZE_BYTES 0 \<Longrightarrow> k \<noteq> 0 \<Longrightarrow>
      \<exists>s' b'. rd k b s = ((Ok (), b'), s') \<and> ok s' \<and> ids s' = ids s \<and> kept s' = kept s \<and> length b' = PAGE_SIZE_BYTES
        \<and> kept s k = (if has_id k b' then Some (undirty b') else None) \<and> (has_id k b' \<longrightarrow> alive b')"
begin

text \<open>What was written is read back.\<close>

lemma rd_wr:
  assumes "ok s" "unat k < 2 ^ 19" "has_id k b" "alive b" "k \<noteq> 0"
  shows "\<exists>s1 s2 b'. wr k b s = ((Ok (), b), s1) \<and> rd k (replicate PAGE_SIZE_BYTES 0) s1 = ((Ok (), b'), s2) \<and> undirty b' = undirty b"
proof -
  obtain s1 where s1: "wr k b s = ((Ok (), b), s1)" "ok s1" "kept s1 k = Some (undirty b)"
    using wr[OF assms(1-4)] assms(2,5) by auto
  from rd[OF s1(2) assms(2) refl assms(5)] s1 show ?thesis by (auto split: if_splits)
qed

end

section \<open>The pager as a store of pages\<close>

definition kept_page :: "Pager \<Rightarrow> u32 \<Rightarrow> bytes option" where
  "kept_page pgr q = (if has_id q (page_at pgr q) then Some (undirty (page_at pgr q)) else None)"

definition pgr_ids :: "Pager \<Rightarrow> FreeList \<times> u32" where
  "pgr_ids pgr = (pgr_freeList pgr, pgr_maxPageId pgr)"

definition store_ok :: "Pager \<Rightarrow> bool" where
  "store_ok pgr \<longleftrightarrow> pgr_ok pgr \<and> 8192 dvd length (f_data (d_fd (pgr_dManager pgr)))
     \<and> (\<forall>q. unat q < 2 ^ 19 \<longrightarrow> q \<noteq> 0 \<longrightarrow> has_id q (page_at pgr q) \<longrightarrow> alive (page_at pgr q))"

definition lent :: "addr \<Rightarrow> bytes \<Rightarrow> Pager \<Rightarrow> Pager" where
  "lent a b pgr = pgr\<lparr>pgr_dManager := (pgr_dManager pgr)\<lparr>d_bufs := (d_bufs (pgr_dManager pgr))(a \<mapsto> b)\<rparr>\<rparr>"

lemma lent_simps [simp]:
  "pgr_ok (lent a b pgr) = pgr_ok pgr" "d_fd (pgr_dManager (lent a b pgr)) = d_fd (pgr_dManager pgr)"
  "d_bufs (pgr_dManager (lent a b pgr)) a = Some b" "page_at (lent a b pgr) q = page_at pgr q" "pgr_ids (lent a b pgr) = pgr_ids pgr"
  by (auto simp: lent_def pgr_ok_def idle_def page_at_def pgr_ids_def)

lemma whole_pages:
  assumes "8192 dvd length (f_data (d_fd (pgr_dManager pgr)))" "unat q < 2 ^ 19"
  shows "length (page_at pgr q) = 8192 \<or> page_at pgr q = []"
proof -
  obtain n where n: "length (f_data (d_fd (pgr_dManager pgr))) = 8192 * n" using assms(1) by blast
  show ?thesis unfolding page_at_def page_off_small[OF assms(2)] using n by (cases "n \<le> unat q") auto
qed

lemma page_at_other:
  assumes "f_data (d_fd (pgr_dManager pgr')) = write_at (page_off p) b (f_data (d_fd (pgr_dManager pgr)))" "length b = 8192"
    and "8192 dvd length (f_data (d_fd (pgr_dManager pgr)))" "unat p < 2 ^ 19" "unat q < 2 ^ 19" "q \<noteq> p" "q \<noteq> 0"
  shows "has_id q (page_at pgr' q) = has_id q (page_at pgr q)" "has_id q (page_at pgr q) \<Longrightarrow> page_at pgr' q = page_at pgr q"
proof -
  note dis = page_off_disjoint[OF assms(4,5)]
  have full: "page_at pgr' q = page_at pgr q" if "length (page_at pgr q) = 8192"
    using page_at_written(2)[OF assms(1,2)] dis assms(6) that by blast
  have "\<not> has_id q (page_at pgr' q)" if "page_at pgr q = []"
  proof
    assume h: "has_id q (page_at pgr' q)"
    have "drop (page_off q) (f_data (d_fd (pgr_dManager pgr))) = []" using that by (simp add: page_at_def)
    then have "page_at pgr' q = replicate (length (page_at pgr' q)) 0"
      using dis assms(2,6) by (intro nth_equalityI) (auto simp: page_at_def assms(1) nth_write_at)
    then have "slice 1 5 (page_at pgr' q) = replicate 4 0" using h by (simp add: has_id_def slice_def)
    then have "le32 q = le32 0" using h by (simp add: has_id_def le32_def numeral_eq_Suc)
    then show False using assms(7) by simp
  qed
  then show "has_id q (page_at pgr' q) = has_id q (page_at pgr q)" "has_id q (page_at pgr q) \<Longrightarrow> page_at pgr' q = page_at pgr q"
    using full whole_pages[OF assms(3,5)] by (auto simp: has_id_def)
qed

lemma lend_eq: "lend a m b pgr = (case m a (lent a b pgr) of (r, pgr) \<Rightarrow>
    ((r, case d_bufs (pgr_dManager pgr) a of None \<Rightarrow> b | Some b' \<Rightarrow> b'), pgr))"
  by (simp add: lend_def lent_def)

lemma lend_write:
  assumes "store_ok pgr" "unat k < 2 ^ 19" "has_id k b" "alive b"
  shows "\<exists>pgr'. lend a (\<lambda>a. WritePage k a flush) b pgr = ((Ok (), b), pgr') \<and> store_ok pgr' \<and> pgr_ids pgr' = pgr_ids pgr
    \<and> (\<forall>q. unat q < 2 ^ 19 \<longrightarrow> q \<noteq> 0 \<longrightarrow> kept_page pgr' q = (if q = k then Some (undirty b) else kept_page pgr q))"
proof -
  have ok: "pgr_ok (lent a b pgr)" and b: "length b = 8192" "\<not> BitIsSet (b ! 0) Dead" and d: "8192 dvd length (f_data (d_fd (pgr_dManager pgr)))"
    using assms by (auto simp: store_ok_def has_id_def alive_def)
  obtain pgr' where w: "WritePage k a flush (lent a b pgr) = (Ok (), pgr')" "pgr_ok pgr'"
      "d_bufs (pgr_dManager pgr') a = Some b" "f_data (d_fd (pgr_dManager pgr')) = write_at (page_off k) b (f_data (d_fd (pgr_dManager pgr)))"
      "pgr_ids pgr' = pgr_ids (lent a b pgr)"
    using WritePage_ok[OF ok lent_simps(3) b(1), of k flush] b(2) by (auto simp: cleared_def pgr_ids_def)
  note other = page_at_other[OF w(4) b(1) d assms(2)]
  have same: "page_at pgr' k = b" using page_at_written(1)[OF w(4) b(1)] by simp
  have "8192 dvd length (f_data (d_fd (pgr_dManager pgr')))"
    using d page_off_small[OF assms(2)] w(4) b(1) by (simp add: max_def)
  moreover have "alive (page_at pgr' q)" if "unat q < 2 ^ 19" "q \<noteq> 0" "has_id q (page_at pgr' q)" for q
    using that other[of q] same assms(1,4) by (cases "q = k") (auto simp: store_ok_def)
  ultimately have "store_ok pgr'" using w(2) by (simp add: store_ok_def)
  moreover have "kept_page pgr' q = (if q = k then Some (undirty b) else kept_page pgr q)" if "unat q < 2 ^ 19" "q \<noteq> 0" for q
    using other[OF that(1)] that(2) same assms(3) by (auto simp: kept_page_def)
  ultimately show ?thesis using w by (simp add: lend_eq)
qed

lemma lend_read:
  assumes "store_ok pgr" "unat k < 2 ^ 19" "b = replicate PAGE_SIZE_BYTES 0" "k \<noteq> 0"
  shows "\<exists>pgr' b'. lend a (\<lambda>a. ReadPage k a) b pgr = ((Ok (), b'), pgr') \<and> store_ok pgr' \<and> pgr_ids pgr' = pgr_ids pgr \<and> kept_page pgr' = kept_page pgr
    \<and> length b' = PAGE_SIZE_BYTES \<and> kept_page pgr k = (if has_id k b' then Some (undirty b') else None) \<and> (has_id k b' \<longrightarrow> alive b')"
proof -
  have ok: "pgr_ok (lent a b pgr)" "length b = 8192" using assms by (auto simp: store_ok_def)
  obtain pgr' where r: "ReadPage k a (lent a b pgr) = (Ok (), pgr')" "pgr_ok pgr'"
      "d_bufs (pgr_dManager pgr') a = Some (page_at pgr k @ drop (length (page_at pgr k)) b)" "d_fd (pgr_dManager pgr') = d_fd (pgr_dManager pgr)"
      "pgr_ids pgr' = pgr_ids (lent a b pgr)"
    using ReadPage_ok[OF ok(1) lent_simps(3) ok(2), of k] by (auto simp: pgr_ids_def)
  have at: "page_at pgr' = page_at pgr" using r(4) by (simp add: page_at_def fun_eq_iff)
  have st: "store_ok pgr'" "kept_page pgr' = kept_page pgr"
    using assms(1) r(2,4) by (auto simp: store_ok_def at kept_page_def fun_eq_iff)
  have zero: "\<not> has_id k b"
    using assms(3,4) by (auto simp: has_id_iff slice_def numeral_eq_Suc)
  from whole_pages[OF _ assms(2), of pgr] assms(1)
  have "length (page_at pgr k) = 8192 \<or> page_at pgr k = []" by (simp add: store_ok_def)
  then show ?thesis
  proof
    assume l: "length (page_at pgr k) = 8192"
    then show ?thesis using r st assms ok by (simp add: lend_eq kept_page_def store_ok_def)
  next
    assume e: "page_at pgr k = []"
    then show ?thesis using r st zero ok(2) by (simp add: lend_eq kept_page_def has_id_def)
  qed
qed

interpretation pages: page_store store_ok kept_page pgr_ids "\<lambda>k. lend a (\<lambda>a. WritePage k a False)" "\<lambda>k. lend a (\<lambda>a. ReadPage k a)" for a
  by unfold_locales (use lend_write lend_read in blast)+

end
