(* ===== verification/PoolInv.thy ===== *)
theory PoolInv
  imports PageStore
begin

text \<open>
  The invariant of a buffer pool without deleted pages, what a pool stores (the cached copy of a page, or else the stored one), and the
  relation between two states of a pool that a request may not break: every page keeps its contents, and pinned frames
  stay where they are. \<open>X\<close> names the frames a running job has claimed and not yet filled.
\<close>

section \<open>The invariant\<close>

abbreviation frames :: "pool \<Rightarrow> clockentry list" where
  "frames s \<equiv> clk_bPool (w_cBuffer (p_w s))"

abbreviation ent_bytes :: "clockentry \<Rightarrow> bytes" where
  "ent_bytes e \<equiv> pgeData (fr_page (ce_entry e))"

abbreviation ent_key :: "clockentry \<Rightarrow> u32" where
  "ent_key e \<equiv> fr_key (ce_entry e)"

definition valid_id :: "u32 \<Rightarrow> bool" where
  "valid_id k \<longleftrightarrow> k \<noteq> 0 \<and> unat k < 2 ^ 19"

definition free_ent :: "clockentry \<Rightarrow> bool" where
  "free_ent e \<longleftrightarrow> \<not> ce_isOccupied e \<and> ce_segtype e = unassigned \<and> \<not> ce_acc e \<and> \<not> ce_markedForEviction e
     \<and> \<not> fr_dirty (ce_entry e) \<and> unlatched (ce_entry e) \<and> ent_bytes e = replicate PAGE_SIZE_BYTES 0"

definition used_ent :: "(u32 \<rightharpoonup> nat) \<Rightarrow> Pager \<Rightarrow> nat \<Rightarrow> clockentry \<Rightarrow> bool" where
  "used_ent T pgr i e \<longleftrightarrow> ce_isOccupied e \<and> ce_segtype e \<noteq> unassigned \<and> \<not> ce_markedForEviction e
     \<and> T (ent_key e) = Some i \<and> valid_id (ent_key e) \<and> has_id (ent_key e) (ent_bytes e) \<and> alive (ent_bytes e)
     \<and> \<not> fr_isDeleted (ce_entry e) \<and> (\<not> ce_acc e \<longrightarrow> unlatched (ce_entry e))
     \<and> (\<not> fr_dirty (ce_entry e) \<longrightarrow> kept_page pgr (ent_key e) = Some (undirty (ent_bytes e)))"

definition ent_ok :: "(u32 \<rightharpoonup> nat) \<Rightarrow> Pager \<Rightarrow> nat \<Rightarrow> clockentry \<Rightarrow> bool" where
  "ent_ok T pgr i e \<longleftrightarrow> fr_parentEntry (ce_entry e) = Some i \<and> pins_ok e
     \<and> (if ce_reserved e then ce_segtype e = unassigned \<and> ce_acc e else free_ent e \<or> used_ent T pgr i e)"

definition seg_count :: "SegmentType \<Rightarrow> clockentry list \<Rightarrow> nat" where
  "seg_count seg xs = count_list (map ce_segtype xs) seg"

definition counts_ok :: "WTinyLfu \<Rightarrow> bool" where
  "counts_ok w \<longleftrightarrow> (let xs = clk_bPool (w_cBuffer w) in
     unat (w_windowCount w) = seg_count windowSegment xs \<and> w_windowCount w \<le> w_windowCapacity w
     \<and> unat (w_probationCount w) = seg_count probationSegment xs \<and> w_probationCount w \<le> w_probationCapacity w
     \<and> unat (w_protectedCount w) = seg_count protectedSegment xs \<and> w_protectedCount w \<le> w_protectedCapacity w
     \<and> unat (w_windowCapacity w) + unat (w_probationCapacity w) + unat (w_protectedCapacity w)
         + length (filter ce_reserved xs) \<le> length xs)"

text \<open>All but the counters, which a step changes one after the other.\<close>

definition pool_core :: "nat set \<Rightarrow> pool \<Rightarrow> bool" where
  "pool_core X s \<longleftrightarrow> clk_ok (w_cBuffer (p_w s)) \<and> lfu_ok (w_tinyFilter (p_w s)) \<and> store_ok (p_pgr s)
     \<and> (\<forall>i<length (frames s). i \<notin> X \<longrightarrow> ent_ok (p_table s) (p_pgr s) i (frames s ! i))
     \<and> (\<forall>k i. p_table s k = Some i \<longrightarrow> i < length (frames s) \<and> i \<notin> X \<and> ce_isOccupied (frames s ! i) \<and> \<not> ce_reserved (frames s ! i)
          \<and> ent_key (frames s ! i) = k)"

definition pool_ok :: "nat set \<Rightarrow> pool \<Rightarrow> bool" where
  "pool_ok X s \<longleftrightarrow> pool_core X s \<and> counts_ok (p_w s)"

text \<open>The pin counters are 64 bits wide.\<close>

definition pins_below :: "nat \<Rightarrow> pool \<Rightarrow> bool" where
  "pins_below n s \<longleftrightarrow> (\<forall>e\<in>set (frames s). unat (ce_pinCount e) \<le> n)"

lemma pins_below_mono: "pins_below n s \<Longrightarrow> n \<le> m \<Longrightarrow> pins_below m s"
  unfolding pins_below_def using order_trans by blast

section \<open>What a pool stores\<close>

definition view :: "pool \<Rightarrow> u32 \<Rightarrow> bytes option" where
  "view s k = (case p_table s k of
      Some i \<Rightarrow> Some (undirty (ent_bytes (frames s ! i)))
    | None \<Rightarrow> kept_page (p_pgr s) k)"

text \<open>No frame outside \<open>X\<close> becomes pinned or enters the table; the sizes and the pager's ids stay.\<close>

definition calm :: "nat set \<Rightarrow> pool \<Rightarrow> pool \<Rightarrow> bool" where
  "calm X s s' \<longleftrightarrow> length (frames s') = length (frames s) \<and> w_windowCapacity (p_w s') = w_windowCapacity (p_w s)
     \<and> w_probationCapacity (p_w s') = w_probationCapacity (p_w s)
     \<and> (\<forall>j<length (frames s). ce_reserved (frames s' ! j) = ce_reserved (frames s ! j))
     \<and> (\<forall>j<length (frames s). j \<notin> X \<longrightarrow> ce_acc (frames s' ! j) \<longrightarrow> ce_acc (frames s ! j))
     \<and> (\<forall>k j. p_table s' k = Some j \<longrightarrow> j \<notin> X \<longrightarrow> p_table s k = Some j) \<and> pgr_ids (p_pgr s') = pgr_ids (p_pgr s)"

text \<open>A pinned page stays in its frame, pinned as often unless the frame is in \<open>X\<close>.\<close>

definition stays :: "nat set \<Rightarrow> u32 \<Rightarrow> nat \<Rightarrow> pool \<Rightarrow> pool \<Rightarrow> bool" where
  "stays X k j s s' \<longleftrightarrow> p_table s' k = Some j \<and> ce_entry (frames s' ! j) = ce_entry (frames s ! j) \<and> ce_acc (frames s' ! j)
     \<and> (j \<notin> X \<longrightarrow> pins (frames s' ! j) = pins (frames s ! j))"

lemma stays_trans: "stays X k j a b \<Longrightarrow> (p_table b k = Some j \<Longrightarrow> ce_acc (frames b ! j) \<Longrightarrow> stays Y k j b c) \<Longrightarrow> stays (X \<union> Y) k j a c"
  by (simp add: stays_def)

definition safe_but :: "nat set \<Rightarrow> pool \<Rightarrow> pool \<Rightarrow> bool" where
  "safe_but X s s' \<longleftrightarrow> calm X s s' \<and> (\<forall>k. valid_id k \<longrightarrow> view s' k = view s k)
     \<and> (\<forall>k j. p_table s k = Some j \<longrightarrow> ce_acc (frames s ! j) \<longrightarrow>
          stays X k j s s')"

abbreviation safe :: "pool \<Rightarrow> pool \<Rightarrow> bool" where
  "safe \<equiv> safe_but {}"

lemma calm_trans: "calm X a b \<Longrightarrow> calm Y b c \<Longrightarrow> calm (X \<union> Y) a c"
  by (simp add: calm_def)

lemma safe_refl [simp]: "safe s s"
  by (simp add: safe_but_def calm_def stays_def)

lemma safe_but_trans:
  assumes "safe_but X a b" "safe_but Y b c"
  shows "safe_but (X \<union> Y) a c"
proof -
  have "calm (X \<union> Y) a c" using calm_trans assms by (auto simp: safe_but_def)
  moreover have "stays (X \<union> Y) k j a c" if "p_table a k = Some j" "ce_acc (frames a ! j)" for k j
    using assms that stays_trans[of X k j a b Y c] by (simp add: safe_but_def)
  ultimately show ?thesis using assms by (simp add: safe_but_def)
qed

lemma safe_trans: "safe a b \<Longrightarrow> safe_but X b c \<Longrightarrow> safe_but X a c"
  using safe_but_trans[of "{}" a b X c] by simp

section \<open>Reference bits do not matter\<close>

lemma ent_ok_ref [simp]: "ent_ok T pgr i (e\<lparr>ce_ref := b\<rparr>) = ent_ok T pgr i e"
  by (simp add: ent_ok_def free_ent_def used_ent_def pins_ok_def pins_def)

definition set_clk :: "clock \<Rightarrow> pool \<Rightarrow> pool" where
  "set_clk c s = s\<lparr>p_w := (p_w s)\<lparr>w_cBuffer := c\<rparr>\<rparr>"

lemma set_clk_simps [simp]:
  "frames (set_clk c s) = clk_bPool c" "p_table (set_clk c s) = p_table s" "p_pgr (set_clk c s) = p_pgr s"
  "w_cBuffer (p_w (set_clk c s)) = c" "w_tinyFilter (p_w (set_clk c s)) = w_tinyFilter (p_w s)"
  by (simp_all add: set_clk_def)

lemma swept_field:
  assumes "swept c c'" "j < length (clk_bPool c)" "\<And>e b. f (e\<lparr>ce_ref := b\<rparr>) = f e"
  shows "f (clk_bPool c' ! j) = f (clk_bPool c ! j)"
  using swept_entry[OF assms(1,2)] assms(3) by metis

lemma swept_map:
  assumes "swept c c'" "\<And>e b. f (e\<lparr>ce_ref := b\<rparr>) = f e"
  shows "map f (clk_bPool c') = map f (clk_bPool c)"
proof (rule nth_equalityI)
  show len: "length (map f (clk_bPool c')) = length (map f (clk_bPool c))" using assms(1) by (simp add: swept_def)
  fix j assume "j < length (map f (clk_bPool c'))"
  then show "map f (clk_bPool c') ! j = map f (clk_bPool c) ! j"
    using len swept_field[OF assms(1), of j f, OF _ assms(2)] by simp
qed

lemma filter_map_count: "length (filter f xs) = count_list (map f xs) True"
  by (induction xs) auto

lemma swept_counts:
  assumes "swept (w_cBuffer (p_w s)) c" "counts_ok (p_w s)"
  shows "counts_ok (p_w (set_clk c s))"
proof -
  have mp: "map ce_segtype (clk_bPool c) = map ce_segtype (frames s)" "map ce_reserved (clk_bPool c) = map ce_reserved (frames s)"
    by (rule swept_map[OF assms(1)]; simp)+
  show ?thesis
    using assms by (simp add: swept_def counts_ok_def Let_def seg_count_def set_clk_def filter_map_count mp)
qed

lemma swept_pool:
  assumes "pool_core X s" "swept (w_cBuffer (p_w s)) c" "clk_ok c"
  shows "pool_core X (set_clk c s)" "safe s (set_clk c s)" "pins_below n s \<Longrightarrow> pins_below n (set_clk c s)"
proof -
  have len: "length (clk_bPool c) = length (frames s)" using assms(2) by (simp add: swept_def)
  have T: "j < length (frames s)" if "p_table s k = Some j" for k j using assms(1) that by (simp add: pool_core_def)
  have fld: "ent_ok (p_table s) (p_pgr s) j (clk_bPool c ! j) = ent_ok (p_table s) (p_pgr s) j (frames s ! j)"
      "ce_isOccupied (clk_bPool c ! j) = ce_isOccupied (frames s ! j)" "ce_reserved (clk_bPool c ! j) = ce_reserved (frames s ! j)"
      "ce_entry (clk_bPool c ! j) = ce_entry (frames s ! j)" "ce_acc (clk_bPool c ! j) = ce_acc (frames s ! j)"
      "ce_pinCount (clk_bPool c ! j) = ce_pinCount (frames s ! j)"
      "pins (clk_bPool c ! j) = pins (frames s ! j)" if "j < length (frames s)" for j
    by (rule swept_field[OF assms(2) that]; simp add: pins_def)+
  show "pool_core X (set_clk c s)"
    using assms(1,3) len fld by (auto simp: pool_core_def)
  show "safe s (set_clk c s)"
    using fld T using len by (auto simp: safe_but_def calm_def stays_def view_def set_clk_def split: option.splits)
  show "pins_below n (set_clk c s)" if "pins_below n s"
    using that fld len by (simp add: pins_below_def all_set_conv_all_nth)
qed

section \<open>Updates of an entry\<close>

definition set_ent :: "nat \<Rightarrow> clockentry \<Rightarrow> pool \<Rightarrow> pool" where
  "set_ent i e s = set_clk (upd_entry i (\<lambda>_. e) (w_cBuffer (p_w s))) s"

lemma set_ent_simps [simp]:
  "frames (set_ent i e s) = (frames s)[i := e]" "p_table (set_ent i e s) = p_table s"
  "p_pgr (set_ent i e s) = p_pgr s" "w_tinyFilter (p_w (set_ent i e s)) = w_tinyFilter (p_w s)"
  "w_windowCount (p_w (set_ent i e s)) = w_windowCount (p_w s)" "w_windowCapacity (p_w (set_ent i e s)) = w_windowCapacity (p_w s)"
  "w_probationCount (p_w (set_ent i e s)) = w_probationCount (p_w s)" "w_probationCapacity (p_w (set_ent i e s)) = w_probationCapacity (p_w s)"
  "w_protectedCount (p_w (set_ent i e s)) = w_protectedCount (p_w s)" "w_protectedCapacity (p_w (set_ent i e s)) = w_protectedCapacity (p_w s)"
  "clk_ok (w_cBuffer (p_w (set_ent i e s))) = clk_ok (w_cBuffer (p_w s))"
  by (simp_all add: set_ent_def set_clk_def) (simp_all add: upd_entry_def)

lemma set_ent_twice [simp]: "set_ent i e (set_ent i e' s) = set_ent i e s"
  by (simp add: set_ent_def set_clk_def upd_entry_def)

named_theorems entry_steps \<open>calls on one entry of the pool\<close>

lemma on_entry_step: "m (frames s ! i) = (r, e) \<Longrightarrow> on_w (on_en i m) s = (r, set_ent i e s)"
  by (simp add: on_w_def on_en_def on_clk_def on_entry_def set_ent_def set_clk_def)

lemma on_pure [entry_steps]: "on_w (on_en i (pure g)) s = (Ok (), set_ent i (g (frames s ! i)) s)"
  by (simp add: on_entry_step pure_def)

lemma on_both [entry_steps]: "on_w (on_en i (both g)) s = (Ok (fst (g (frames s ! i))), set_ent i (snd (g (frames s ! i))) s)"
  by (simp add: on_entry_step both_def split_beta)

lemma on_unref: "unref (frames s ! i) = (Ok (), e) \<Longrightarrow> on_w (on_en i unref) s = (Ok (), set_ent i e s)"
  by (rule on_entry_step)

lemma count_list_update:
  "i < length xs \<Longrightarrow> count_list (xs[i := y]) z + (if xs ! i = z then 1 else 0) = count_list xs z + (if y = z then 1 else 0)"
proof (induction xs arbitrary: i)
  case (Cons x xs)
  show ?case
  proof (cases i)
    case (Suc j)
    then show ?thesis using Cons.IH[of j] Cons.prems by auto
  qed simp
qed simp

lemma seg_count_update:
  "i < length xs \<Longrightarrow> seg_count z (xs[i := e]) + (if ce_segtype (xs ! i) = z then 1 else 0) = seg_count z xs + (if ce_segtype e = z then 1 else 0)"
  using count_list_update[of i "map ce_segtype xs" "ce_segtype e" z] by (simp add: seg_count_def map_update)

lemma reserved_update:
  "i < length xs \<Longrightarrow> ce_reserved e = ce_reserved (xs ! i) \<Longrightarrow> length (filter ce_reserved (xs[i := e])) = length (filter ce_reserved xs)"
  using count_list_update[of i "map ce_reserved xs" "ce_reserved e" True] by (simp add: filter_map_count map_update split: if_splits)

lemma pool_entry: "pool_core X s \<Longrightarrow> i < length (frames s) \<Longrightarrow> i \<notin> X \<Longrightarrow> ent_ok (p_table s) (p_pgr s) i (frames s ! i)"
  by (simp add: pool_ok_def pool_core_def)

lemma pool_table: "pool_core X s \<Longrightarrow> p_table s k = Some i \<Longrightarrow> i < length (frames s) \<and> i \<notin> X \<and> ce_isOccupied (frames s ! i)
    \<and> \<not> ce_reserved (frames s ! i) \<and> ent_key (frames s ! i) = k"
  by (simp add: pool_ok_def pool_core_def)

section \<open>Claiming a victim\<close>

text \<open>A state that differs in the hand and in reference bits only.\<close>

definition resweep :: "pool \<Rightarrow> pool \<Rightarrow> bool" where
  "resweep s s' \<longleftrightarrow> s' = set_clk (w_cBuffer (p_w s')) s \<and> swept (w_cBuffer (p_w s)) (w_cBuffer (p_w s')) \<and> clk_ok (w_cBuffer (p_w s'))"

lemma resweep_set_clk: "swept (w_cBuffer (p_w s)) c \<Longrightarrow> clk_ok c \<Longrightarrow> resweep s (set_clk c s)"
  by (simp add: resweep_def)

lemma resweep_pool:
  assumes "resweep s s'"
  shows "pool_core X s \<Longrightarrow> pool_core X s'" "pool_core X s \<Longrightarrow> safe s s'" "pool_core X s \<Longrightarrow> pins_below n s \<Longrightarrow> pins_below n s'"
    "counts_ok (p_w s) \<Longrightarrow> counts_ok (p_w s')"
    "length (frames s') = length (frames s)" "p_table s' = p_table s" "p_pgr s' = p_pgr s" "w_tinyFilter (p_w s') = w_tinyFilter (p_w s)"
    "w_windowCount (p_w s') = w_windowCount (p_w s)" "w_windowCapacity (p_w s') = w_windowCapacity (p_w s)"
    "w_probationCount (p_w s') = w_probationCount (p_w s)" "w_probationCapacity (p_w s') = w_probationCapacity (p_w s)"
    "w_protectedCount (p_w s') = w_protectedCount (p_w s)" "w_protectedCapacity (p_w s') = w_protectedCapacity (p_w s)"
proof -
  obtain c where c: "s' = set_clk c s" "swept (w_cBuffer (p_w s)) c" "clk_ok c" using assms by (auto simp: resweep_def)
  show "pool_core X s \<Longrightarrow> pool_core X s'" "pool_core X s \<Longrightarrow> safe s s'" "pool_core X s \<Longrightarrow> pins_below n s \<Longrightarrow> pins_below n s'"
    "counts_ok (p_w s) \<Longrightarrow> counts_ok (p_w s')"
    using swept_pool[of X s c] swept_counts[of s c] c by auto
  show "length (frames s') = length (frames s)" using c(1,2) by (simp add: swept_def)
  show "p_table s' = p_table s" "p_pgr s' = p_pgr s" "w_tinyFilter (p_w s') = w_tinyFilter (p_w s)"
    "w_windowCount (p_w s') = w_windowCount (p_w s)" "w_windowCapacity (p_w s') = w_windowCapacity (p_w s)"
    "w_probationCount (p_w s') = w_probationCount (p_w s)" "w_probationCapacity (p_w s') = w_probationCapacity (p_w s)"
    "w_protectedCount (p_w s') = w_protectedCount (p_w s)" "w_protectedCapacity (p_w s') = w_protectedCapacity (p_w s)"
    using c(1) by (simp_all add: set_clk_def)
qed

text \<open>A victim is an eligible entry of a state that differs in reference bits only, and is claimed.\<close>

lemma claim:
  assumes "clk_ok (w_cBuffer (p_w s))"
  shows "\<exists>r s'. on_w (on_clk (EvictWithoutClearing seg)) s = (Ok r, s') \<and>
     (case r of
        None \<Rightarrow> resweep s s' \<and> (\<forall>e\<in>set (frames s). \<not> eligible seg e)
      | Some i \<Rightarrow> \<exists>s0. resweep s s0 \<and> s' = set_ent i (take_victim (frames s0 ! i)) s0 \<and> i < length (frames s0)
          \<and> eligible seg (frames s0 ! i))"
proof -
  let ?c = "w_cBuffer (p_w s)"
  obtain r c' where e: "EvictWithoutClearing seg ?c = (Ok r, c')" and v: "victim_spec seg ?c r c'"
      and none: "r = None \<longleftrightarrow> (\<forall>e\<in>set (frames s). \<not> eligible seg e)"
    using Evict_spec[of ?c seg] assms(1) by auto
  have run: "on_w (on_clk (EvictWithoutClearing seg)) s = (Ok r, set_clk c' s)"
    using e by (simp add: on_w_def on_clk_def set_clk_def)
  show ?thesis
  proof (cases r)
    case None
    then have "swept ?c c'" "clk_ok c'" using v by (auto simp: victim_spec_def)
    then show ?thesis using run None none resweep_set_clk by auto
  next
    case (Some i)
    let ?cc = "upd_entry i (\<lambda>_. clk_bPool ?c ! i) c'"
    have i: "i < length (frames s)" "eligible seg (frames s ! i)" "swept (upd_entry i take_victim ?c) c'" "ce_ref (clk_bPool c' ! i)" "clk_ok c'"
      using v Some by (auto simp: victim_spec_def)
    have len: "length (clk_bPool c') = length (frames s)" using i(3) by (simp add: swept_def upd_entry_def)
    have "clk_bPool c' ! i = (take_victim (frames s ! i))\<lparr>ce_ref := True\<rparr>"
      using swept_entry[OF i(3), of i] i(1,4) by (simp add: upd_entry_def)
    then have t: "clk_bPool c' ! i = take_victim (frames s ! i)" by (simp add: take_victim_def)
    have s0: "swept ?c ?cc" using i(1,3) len by (auto simp: swept_def upd_entry_def nth_list_update)
    have "c' = upd_entry i (\<lambda>_. take_victim (frames s ! i)) ?cc" using i(1) len t by (simp add: upd_entry_def list_update_id flip: t)
    then have eq: "set_clk c' s = set_ent i (take_victim (frames s ! i)) (set_clk ?cc s)" by (simp add: set_ent_def set_clk_def)
    have e0: "clk_bPool ?cc ! i = frames s ! i" "length (clk_bPool ?cc) = length (frames s)" using i(1) len by (simp_all add: upd_entry_def)
    have "clk_ok ?cc" using i(5) by simp
    then show ?thesis using run Some eq e0 i(1,2) resweep_set_clk[OF s0]
      by (intro exI[of _ r] exI[of _ "set_clk c' s"]) auto
  qed
qed

end
