(* ===== verification/PoolSteps.thy ===== *)
theory PoolSteps
  imports PoolInv
begin

text \<open>
  The steps of the eviction policy keep the invariant of the pool and are safe: a frame moves between segments, the victim of a
  contest is written back and freed, a free frame is claimed.
\<close>

section \<open>Counters\<close>

definition with_counts :: "u64 \<Rightarrow> u64 \<Rightarrow> u64 \<Rightarrow> pool \<Rightarrow> pool" where
  "with_counts a b c s = s\<lparr>p_w := (p_w s)\<lparr>w_windowCount := a, w_probationCount := b, w_protectedCount := c\<rparr>\<rparr>"

lemma with_counts_simps [simp]:
  "frames (with_counts a b c s) = frames s" "p_table (with_counts a b c s) = p_table s" "p_pgr (with_counts a b c s) = p_pgr s"
  "w_cBuffer (p_w (with_counts a b c s)) = w_cBuffer (p_w s)" "w_tinyFilter (p_w (with_counts a b c s)) = w_tinyFilter (p_w s)"
  "w_windowCount (p_w (with_counts a b c s)) = a" "w_probationCount (p_w (with_counts a b c s)) = b" "w_protectedCount (p_w (with_counts a b c s)) = c"
  "w_windowCapacity (p_w (with_counts a b c s)) = w_windowCapacity (p_w s)"
  "w_probationCapacity (p_w (with_counts a b c s)) = w_probationCapacity (p_w s)"
  "w_protectedCapacity (p_w (with_counts a b c s)) = w_protectedCapacity (p_w s)"
  by (simp_all add: with_counts_def)

abbreviation in_seg :: "SegmentType \<Rightarrow> clockentry \<Rightarrow> nat" where
  "in_seg seg e \<equiv> (if ce_segtype e = seg then 1 else 0)"

lemma counts_ok_upd:
  assumes "counts_ok (p_w s)" "i < length (frames s)" "ce_reserved (e) = ce_reserved (frames s ! i)"
    and "unat a + in_seg windowSegment (frames s ! i) = unat (w_windowCount (p_w s)) + in_seg windowSegment (e)"
    and "unat b + in_seg probationSegment (frames s ! i) = unat (w_probationCount (p_w s)) + in_seg probationSegment (e)"
    and "unat c + in_seg protectedSegment (frames s ! i) = unat (w_protectedCount (p_w s)) + in_seg protectedSegment (e)"
    and "a \<le> w_windowCapacity (p_w s)" "b \<le> w_probationCapacity (p_w s)" "c \<le> w_protectedCapacity (p_w s)"
  shows "counts_ok (p_w (with_counts a b c (set_ent i e s)))"
proof -
  note u = seg_count_update[OF assms(2), of _ e]
  have "seg_count windowSegment ((frames s)[i := e]) = unat a" "seg_count probationSegment ((frames s)[i := e]) = unat b"
    "seg_count protectedSegment ((frames s)[i := e]) = unat c"
    using u[of windowSegment] u[of probationSegment] u[of protectedSegment] assms(1,4,5,6) by (auto simp: counts_ok_def Let_def split: if_splits)
  then show ?thesis using assms(1,7,8,9) reserved_update[OF assms(2,3)] by (simp add: counts_ok_def Let_def)
qed

section \<open>Moving a frame between segments\<close>

text \<open>A claimed victim that is only moved: pinned and unpinned once.\<close>

definition settle :: "SegmentType \<Rightarrow> clockentry \<Rightarrow> clockentry" where
  "settle seg e = e\<lparr>ce_ref := True, ce_acc := False, ce_markedForEviction := False, ce_pinCount := ce_pinCount e + 1,
     ce_unpinCount := ce_unpinCount e + 1, ce_segtype := seg\<rparr>"

lemma pins_zero: "pins_ok e \<Longrightarrow> \<not> ce_acc e \<Longrightarrow> ce_unpinCount e = ce_pinCount e"
  by (metis pins_ok_def pins_def antisym diff_is_0_eq not_gr_zero word_le_nat_alt)

lemma unref_claimed:
  assumes "pins_ok e" "\<not> ce_acc e" "unat (ce_pinCount e) < 2 ^ 64 - 1"
  shows "unref ((take_victim e)\<lparr>ce_segtype := seg, ce_markedForEviction := False\<rparr>) = (Ok (), settle seg e)"
proof -
  have "ce_pinCount e < ce_pinCount e + 1" using assms(3) by (simp add: word_less_nat_alt unat_word_ariths)
  then show ?thesis
    using pins_zero[OF assms(1,2)] by (simp add: unref_def take_victim_def settle_def Let_def not_le)
qed

lemma settle_fields [simp]:
  "ce_entry (settle seg e) = ce_entry e" "ce_isOccupied (settle seg e) = ce_isOccupied e" "ce_reserved (settle seg e) = ce_reserved e"
  "ce_segtype (settle seg e) = seg" "\<not> ce_acc (settle seg e)" "\<not> ce_markedForEviction (settle seg e)" "ce_pinCount (settle seg e) = ce_pinCount e + 1"
  by (simp_all add: settle_def)

lemma settle_pins: "pins_ok e \<Longrightarrow> \<not> ce_acc e \<Longrightarrow> pins_ok (settle seg e)"
  by (drule (1) pins_zero) (simp add: pins_ok_def pins_def settle_def)

lemma eligible_used:
  assumes "ent_ok T pgr i e" "eligible seg e" "seg \<noteq> unassigned"
  shows "used_ent T pgr i e" "pins_ok e" "fr_parentEntry (ce_entry e) = Some i" "\<not> ce_acc e" "\<not> ce_reserved e"
  using assms by (simp_all add: ent_ok_def eligible_def free_ent_def split: if_splits)

lemma settle_ent:
  assumes "ent_ok T pgr i e" "eligible sg e" "sg \<noteq> unassigned" "seg \<noteq> unassigned"
  shows "ent_ok T pgr i (settle seg e)"
  using eligible_used[OF assms(1-3)] assms(4) settle_pins[of e seg] by (simp add: ent_ok_def used_ent_def)

lemma pins_below_upd:
  "pins_below n s \<Longrightarrow> n \<le> m \<Longrightarrow> unat (ce_pinCount (e)) \<le> m \<Longrightarrow> pins_below m (set_ent i e s)"
  by (auto simp: pins_below_def dest!: set_update_subset_insert[THEN subsetD])

lemma view_with_counts [simp]: "view (with_counts a b c s) = view s"
  by (simp add: view_def fun_eq_iff split: option.splits)

lemma core_with_counts [simp]: "pool_core X (with_counts a b c s) = pool_core X s" "safe_but Y s (with_counts a b c s') = safe_but Y s s'"
    "pins_below n (with_counts a b c s) = pins_below n s"
  by (simp_all add: pool_core_def safe_but_def stays_def calm_def pins_below_def)

section \<open>Updates that leave the page alone\<close>

lemma pins_seg [simp]: "pins (e\<lparr>ce_segtype := seg\<rparr>) = pins e"
  by (simp add: pins_def)

lemma bits_core:
  assumes "pool_core X s" "i < length (frames s)" "i \<notin> X"
    and "ce_entry e = ce_entry (frames s ! i)" "ce_isOccupied e = ce_isOccupied (frames s ! i)" "ce_reserved e = ce_reserved (frames s ! i)"
    and "ce_acc (frames s ! i) \<longrightarrow> ce_acc e" "ent_ok (p_table s) (p_pgr s) i e"
  shows "pool_core X (set_ent i e s)" "(ce_acc e \<longrightarrow> ce_acc (frames s ! i) \<or> i \<in> Y) \<Longrightarrow> (i \<notin> Y \<and> ce_acc (frames s ! i) \<longrightarrow> pins e = pins (frames s ! i)) \<Longrightarrow> safe_but Y s (set_ent i e s)"
proof -
  define s' where "s' = set_ent i e s"
  have nth: "frames s' ! j = (if j = i then e else frames s ! j)" if "j < length (frames s)" for j
    using that by (simp add: s'_def nth_list_update)
  have same: "length (frames s') = length (frames s)" "p_table s' = p_table s" "p_pgr s' = p_pgr s" "w_tinyFilter (p_w s') = w_tinyFilter (p_w s)"
      "clk_ok (w_cBuffer (p_w s'))"
    using assms(1) by (simp_all add: s'_def pool_core_def)
  have T: "j < length (frames s)" if "p_table s k = Some j" for k j using pool_table[OF assms(1) that] by simp
  show "pool_core X (set_ent i e s)" using assms nth same unfolding s'_def[symmetric] pool_core_def by auto
  have cap: "w_windowCapacity (p_w s') = w_windowCapacity (p_w s)" "w_probationCapacity (p_w s') = w_probationCapacity (p_w s)"
    by (simp_all add: s'_def)
  show "safe_but Y s (set_ent i e s)" if "ce_acc e \<longrightarrow> ce_acc (frames s ! i) \<or> i \<in> Y" "i \<notin> Y \<and> ce_acc (frames s ! i) \<longrightarrow> pins e = pins (frames s ! i)"
    unfolding s'_def[symmetric] safe_but_def stays_def calm_def view_def using nth T same cap that assms(4,6,7) by (auto split: option.splits)
qed

lemma settle_core:
  assumes "pool_core {} s" "pins_below n s" "n < 2 ^ 64 - 1" "i < length (frames s)" "eligible sg (frames s ! i)" "sg \<noteq> unassigned" "seg \<noteq> unassigned"
  defines "s' \<equiv> set_ent i (settle seg (frames s ! i)) s"
  shows "pool_core {} s'" "safe s s'" "pins_below (Suc n) s'"
proof -
  let ?e = "frames s ! i"
  have e: "ent_ok (p_table s) (p_pgr s) i ?e" using pool_entry[OF assms(1,4)] by simp
  show "pool_core {} s'" "safe s s'"
    unfolding s'_def using settle_ent[OF e assms(5-7)] assms(5) by (auto intro!: bits_core[OF assms(1,4)] simp: eligible_def)
  have "unat (ce_pinCount ?e) \<le> n" using assms(2,4) by (simp add: pins_below_def)
  then have "unat (ce_pinCount ?e + 1) \<le> Suc n" using assms(3) by (simp add: unat_word_ariths)
  then show "pins_below (Suc n) s'" unfolding s'_def by (intro pins_below_upd[OF assms(2)]) simp_all
qed

lemma upd_with_counts [simp]: "set_ent i e (with_counts a b c s) = with_counts a b c (set_ent i e s)"
  by (simp add: set_ent_def with_counts_def set_clk_def)

lemma on_w_bindS: "on_w (bindS m f) s = bindS (on_w m) (\<lambda>x. on_w (f x)) s"
  by (auto simp: on_w_def bindS_def split: prod.splits res.splits)

lemma on_w_pure: "on_w (pure g) s = (Ok (), s\<lparr>p_w := g (p_w s)\<rparr>)"
  by (simp add: on_w_def pure_def)

lemma on_w_guard: "on_w (\<lambda>w. if P w then (Panic x, w) else m w) s = (if P (p_w s) then (Panic x, s) else on_w m s)"
  by (simp add: on_w_def)

lemma bump_counts:
  "s\<lparr>p_w := (p_w s)\<lparr>w_probationCount := b, w_windowCount := a\<rparr>\<rparr> = with_counts a b (w_protectedCount (p_w s)) s"
  "s\<lparr>p_w := (p_w s)\<lparr>w_probationCount := b, w_protectedCount := c\<rparr>\<rparr> = with_counts (w_windowCount (p_w s)) b c s"
  "s\<lparr>p_w := (p_w s)\<lparr>w_windowCount := a\<rparr>\<rparr> = with_counts a (w_probationCount (p_w s)) (w_protectedCount (p_w s)) s"
  by (cases s; cases "p_w s"; simp add: with_counts_def)+

lemma CAS_moves [simp]: "snd (updateSegmentCAS old seg e) = (if ce_segtype e = old then e\<lparr>ce_segtype := seg\<rparr> else e)"
  "fst (updateSegmentCAS old seg e) = (ce_segtype e = old)"
  by (simp_all add: updateSegmentCAS_def)

lemma take_victim_fields [simp]:
  "ce_segtype (take_victim e) = ce_segtype e" "ce_entry (take_victim e) = ce_entry e" "ce_isOccupied (take_victim e) = ce_isOccupied e"
  "ce_reserved (take_victim e) = ce_reserved e"
  by (simp_all add: take_victim_def)

lemma dec_word: "0 < unat (x :: u64) \<Longrightarrow> unat (x - 1) + 1 = unat x"
  by (metis Suc_diff_1 Suc_eq_plus1 less_nat_zero_code unat_0 unat_minus_one)

lemma inc_word:
  assumes "(x :: u64) < y"
  shows "unat (x + 1) = unat x + 1 \<and> x + 1 \<le> y"
proof -
  have "unat x + 1 < 2 ^ 64" using assms unsigned_less[where 'a = nat and w = y] by (simp add: word_less_nat_alt)
  then show ?thesis using assms by (simp add: word_less_nat_alt word_le_nat_alt unat_word_ariths)
qed

lemma seg_pos:
  assumes "i < length xs"
  shows "0 < seg_count (ce_segtype (xs ! i)) xs"
proof -
  have "ce_segtype (xs ! i) \<in> set (map ce_segtype xs)" using assms by (simp add: imageI)
  then show ?thesis unfolding seg_count_def by (metis count_list_0_iff gr0I)
qed

lemma to_probation_ok:
  assumes "pool_ok {} s" "pins_below n s" "n < 2 ^ 64 - 1" "i < length (frames s)" "eligible windowSegment (frames s ! i)"
    and "w_probationCount (p_w s) < w_probationCapacity (p_w s)"
  shows "\<exists>s'. on_w (to_probation i) (set_ent i (take_victim (frames s ! i)) s) = (Ok (), s') \<and> pool_ok {} s' \<and> pins_below (Suc n) s' \<and> safe s s'
     \<and> w_windowCount (p_w s') < w_windowCapacity (p_w s')"
proof -
  let ?a = "w_windowCount (p_w s) - 1" and ?b = "w_probationCount (p_w s) + 1" and ?c = "w_protectedCount (p_w s)"
  let ?s = "with_counts ?a ?b ?c (set_ent i (settle probationSegment (frames s ! i)) s)"
  have co: "counts_ok (p_w s)" using assms(1) by (simp add: pool_ok_def)
  have seg: "ce_segtype (frames s ! i) = windowSegment" using assms(5) by (simp add: eligible_def)
  have "0 < unat (w_windowCount (p_w s))" using seg_pos[OF assms(4)] seg co by (simp add: counts_ok_def Let_def)
  note d = dec_word[OF this] and inc = inc_word[OF assms(6)]
  have le: "?a \<le> w_windowCapacity (p_w s)" "w_windowCount (p_w s) \<le> w_windowCapacity (p_w s)" "?a < w_windowCapacity (p_w s)"
    using co d by (auto simp: counts_ok_def Let_def word_le_nat_alt word_less_nat_alt)
  have "counts_ok (p_w ?s)"
    using counts_ok_upd[OF co assms(4), of "settle probationSegment (frames s ! i)" ?a ?b ?c] co seg d inc le by (simp add: counts_ok_def Let_def)
  moreover have core: "pool_core {} s" using assms(1) by (simp add: pool_ok_def)
  ultimately have fin: "pool_ok {} ?s" "safe s ?s" "pins_below (Suc n) ?s"
    using settle_core[OF core assms(2-5), of probationSegment] by (simp_all add: pool_ok_def)
  have e: "pins_ok (frames s ! i)" "\<not> ce_acc (frames s ! i)"
    using pool_entry[OF core assms(4)] assms(5) by (auto simp: ent_ok_def eligible_def)
  have "unat (ce_pinCount (frames s ! i)) < 2 ^ 64 - 1" using assms(2-4) by (simp add: pins_below_def) (meson nth_mem order.strict_trans1)
  note un = unref_claimed[OF e this, of probationSegment]
  have "on_w (to_probation i) (set_ent i (take_victim (frames s ! i)) s) = (Ok (), ?s)"
    using assms(4) seg inc un
    by (simp add: to_probation_def on_w_bindS bindS_def entry_steps on_unref on_w_pure on_w_guard bump_counts unMarkForEviction_def not_less)
  then show ?thesis using fin le by auto
qed

section \<open>Writing a victim back and freeing it\<close>

lemma set_ent_same [simp]: "i < length (frames s) \<Longrightarrow> set_ent i (frames s ! i) s = s"
  by (cases s; cases "p_w s"; cases "w_cBuffer (p_w s)") (simp add: set_ent_def set_clk_def upd_entry_def)

lemma set_bytes_same: "i < length (frames s) \<Longrightarrow> set_bytes i (ent_bytes (frames s ! i)) (p_w s) = p_w s"
proof -
  assume i: "i < length (frames s)"
  have "e\<lparr>ce_entry := (ce_entry e)\<lparr>fr_page := (fr_page (ce_entry e))\<lparr>pgeData := ent_bytes e\<rparr>\<rparr>\<rparr> = e" for e :: clockentry
    by (cases e; cases "ce_entry e"; cases "fr_page (ce_entry e)") simp
  then show ?thesis using i by (cases "p_w s"; cases "w_cBuffer (p_w s)") (simp add: set_bytes_def upd_entry_def)
qed

lemma flush_victim_ok:
  assumes "store_ok (p_pgr t)" "i < length (frames t)" "valid_id key" "unlatched (ce_entry (frames t ! i))"
    and "has_id key (ent_bytes (frames t ! i))" "alive (ent_bytes (frames t ! i))"
    and "\<not> fr_dirty (ce_entry (frames t ! i)) \<Longrightarrow> kept_page (p_pgr t) key = Some (undirty (ent_bytes (frames t ! i)))"
  shows "\<exists>pgr. flush_victim i key t = (Ok (), t\<lparr>p_pgr := pgr\<rparr>) \<and> store_ok pgr \<and> pgr_ids pgr = pgr_ids (p_pgr t)
     \<and> (\<forall>q. valid_id q \<longrightarrow> kept_page pgr q = (if q = key then Some (undirty (ent_bytes (frames t ! i))) else kept_page (p_pgr t) q))"
proof (cases "fr_dirty (ce_entry (frames t ! i))")
  case False
  then show ?thesis using assms by (intro exI[of _ "p_pgr t"]) (auto simp: flush_victim_def isDirty_def w_entry_def)
next
  case True
  obtain pgr where w: "lend i (\<lambda>a. WritePage key a False) (ent_bytes (frames t ! i)) (p_pgr t) = ((Ok (), ent_bytes (frames t ! i)), pgr)" "store_ok pgr" "pgr_ids pgr = pgr_ids (p_pgr t)"
      "\<And>q. unat q < 2 ^ 19 \<Longrightarrow> q \<noteq> 0 \<Longrightarrow> kept_page pgr q = (if q = key then Some (undirty (ent_bytes (frames t ! i))) else kept_page (p_pgr t) q)"
    using pages.wr[OF assms(1) _ assms(5,6), of i] assms(3) by (auto simp: valid_id_def)
  have "on_frame ByteData (frames t ! i) = (Ok (ent_bytes (frames t ! i)), frames t ! i)"
    using ByteData_eq[OF assms(4)] by (simp add: on_frame_def)
  then have "on_w (on_en i (on_frame ByteData)) t = (Ok (ent_bytes (frames t ! i)), t)"
    using assms(2) by (simp add: on_entry_step)
  then have "flush_victim i key t = with_frame i (\<lambda>a. WritePage key a False) t"
    using True by (simp add: flush_victim_def isDirty_def w_entry_def bindS_def orPanic_def)
  also have "\<dots> = (Ok (), t\<lparr>p_pgr := pgr\<rparr>)"
    using w(1) set_bytes_same[OF assms(2)] by (cases t) (simp add: with_frame_def w_entry_def)
  finally show ?thesis using w by (auto simp: valid_id_def)
qed

text \<open>A freed frame.\<close>

definition freed :: "clockentry \<Rightarrow> clockentry" where
  "freed e = unMarkForEviction ((reset_fields e)\<lparr>ce_entry := (ce_entry e)\<lparr>fr_dirty := False, fr_key := 0,
     fr_page := (fr_page (ce_entry e))\<lparr>pgeData := replicate PAGE_SIZE_BYTES 0\<rparr>\<rparr>\<rparr>)"

lemma freed_fields [simp]: "ce_reserved (freed e) = ce_reserved e" "ce_segtype (freed e) = unassigned" "ce_pinCount (freed e) = 0" "\<not> ce_acc (freed e)"
    "\<not> ce_isOccupied (freed e)" "fr_parentEntry (ce_entry (freed e)) = fr_parentEntry (ce_entry e)"
  by (simp_all add: freed_def reset_fields_def unMarkForEviction_def)

lemma freed_free: "unlatched (ce_entry e) \<Longrightarrow> free_ent (freed e)"
  by (simp add: freed_def reset_fields_def unMarkForEviction_def free_ent_def unlatched_def)

lemma freed_pins: "pins_ok (freed e)"
  by (simp add: freed_def reset_fields_def unMarkForEviction_def pins_ok_def pins_def)

lemma freed_take [simp]: "freed (take_victim e) = freed e"
  by (simp add: freed_def reset_fields_def unMarkForEviction_def take_victim_def)

lemma drop_victim_eq: "i < length (frames t) \<Longrightarrow>
   drop_victim i key t = (Ok (), set_ent i (freed (frames t ! i)) (t\<lparr>p_table := (p_table t)(key := None)\<rparr>))"
proof -
  assume i: "i < length (frames t)"
  have r: "on_w (on_clk (resetEntry (Some i))) u = (Ok (), set_ent i (reset_fields (frames u ! i)) u)" for u
    by (simp add: on_w_def on_clk_def resetEntry_def set_ent_def set_clk_def upd_entry_def)
  show ?thesis
    using i by (simp add: drop_victim_def pure_def[of _ t] bindS_def orPanic_def r entry_steps frame_Clear_eq freed_def)
      (simp add: reset_fields_def)
qed

lemma drop_core:
  assumes "pool_core {} s" "pins_below n s" "i < length (frames s)" "eligible sg (frames s ! i)" "sg \<noteq> unassigned" "store_ok pgr" "pgr_ids pgr = pgr_ids (p_pgr s)"
    and kept: "\<And>q. valid_id q \<Longrightarrow> kept_page pgr q = (if q = ent_key (frames s ! i) then Some (undirty (ent_bytes (frames s ! i))) else kept_page (p_pgr s) q)"
  defines "s' \<equiv> set_ent i (freed (frames s ! i)) (s\<lparr>p_pgr := pgr, p_table := (p_table s)(ent_key (frames s ! i) := None)\<rparr>)"
  shows "pool_core {} s'" "safe s s'" "pins_below n s'"
proof -
  let ?e = "frames s ! i" and ?k = "ent_key (frames s ! i)"
  have e: "ent_ok (p_table s) (p_pgr s) i ?e" using pool_entry[OF assms(1,3)] by simp
  note u = eligible_used[OF e assms(4,5)]
  have nth: "frames s' ! j = (if j = i then freed ?e else frames s ! j)" if "j < length (frames s)" for j
    using that by (simp add: s'_def nth_list_update)
  have len: "length (frames s') = length (frames s)" by (simp add: s'_def)
  have same: "p_table s' = (p_table s)(?k := None)" "p_pgr s' = pgr" "w_tinyFilter (p_w s') = w_tinyFilter (p_w s)" "clk_ok (w_cBuffer (p_w s'))"
    using assms(1) by (simp_all add: s'_def pool_core_def)
  have Ti: "p_table s ?k = Some i" "valid_id ?k" using u(1) by (simp_all add: used_ent_def)
  have Tj: "j < length (frames s) \<and> ce_isOccupied (frames s ! j) \<and> \<not> ce_reserved (frames s ! j) \<and> ent_key (frames s ! j) = k" if "p_table s k = Some j" for k j
    using pool_table[OF assms(1) that] by simp
  have "ent_ok (p_table s') pgr j (frames s' ! j)" if "j < length (frames s)" for j
  proof (cases "j = i")
    case True
    have "unlatched (ce_entry ?e)" using u(1,4) by (simp add: used_ent_def)
    then show ?thesis using True nth[OF that] u(3,5) freed_free freed_pins by (simp add: ent_ok_def)
  next
    case False
    have ej: "ent_ok (p_table s) (p_pgr s) j (frames s ! j)" using pool_entry[OF assms(1) that] by simp
    have "used_ent (p_table s') pgr j (frames s ! j)" if uj: "used_ent (p_table s) (p_pgr s) j (frames s ! j)"
    proof -
      have "ent_key (frames s ! j) \<noteq> ?k" using uj Ti False by (auto simp: used_ent_def)
      then show ?thesis using uj kept by (auto simp: used_ent_def same)
    qed
    then show ?thesis using ej nth[OF that] False by (auto simp: ent_ok_def)
  qed
  moreover have "j < length (frames s') \<and> ce_isOccupied (frames s' ! j) \<and> \<not> ce_reserved (frames s' ! j) \<and> ent_key (frames s' ! j) = k"
    if "p_table s' k = Some j" for k j
  proof -
    have kj: "k \<noteq> ?k" "p_table s k = Some j" using that same(1) by (auto split: if_splits)
    then have "j \<noteq> i" using Tj by blast
    then show ?thesis using Tj[OF kj(2)] nth len by simp
  qed
  ultimately show "pool_core {} s'" using assms(1,6) same len by (simp add: pool_core_def)
  have "view s' k = view s k" if "valid_id k" for k
  proof (cases "k = ?k")
    case True
    then show ?thesis using kept[OF that] Ti same by (simp add: view_def)
  next
    case False
    then show ?thesis using kept[OF that] Tj[of k] nth same by (cases "p_table s k") (auto simp: view_def)
  qed
  moreover have "p_table s' k = Some j \<and> ce_entry (frames s' ! j) = ce_entry (frames s ! j) \<and> ce_acc (frames s' ! j) \<and> pins (frames s' ! j) = pins (frames s ! j)"
    if "p_table s k = Some j" "ce_acc (frames s ! j)" for k j
  proof -
    have "j \<noteq> i" using that(2) assms(4) by (auto simp: eligible_def)
    then show ?thesis using that Tj[OF that(1)] nth same Ti by auto
  qed
  moreover have "calm {} s s'"
  proof -
    have "ce_acc (frames s ! j)" if "j < length (frames s)" "ce_acc (frames s' ! j)" for j
      using that nth[OF that(1)] by (auto split: if_splits)
    moreover have "ce_reserved (frames s' ! j) = ce_reserved (frames s ! j)" if "j < length (frames s)" for j
      using nth[OF that] by simp
    ultimately show ?thesis using len same(1) assms(7) by (simp add: calm_def) (simp add: s'_def)
  qed
  ultimately show "safe s s'" by (simp add: safe_but_def stays_def)
  show "pins_below n s'"
    using pins_below_upd[of n s n "freed ?e" i] assms(2) by (simp add: s'_def pins_below_def)
qed

end
