(* ===== verification/PoolEvict.thy ===== *)
theory PoolEvict
  imports PoolSteps
begin

text \<open>
  Eviction as a whole: the contest of two victims, \<^verbatim>\<open>evictWindow\<close> and \<^verbatim>\<open>getFreeFrame\<close> keep the invariant, lose no page and touch no
  pinned frame.
\<close>

section \<open>Two victims\<close>

lemma set_ent_swap: "i \<noteq> j \<Longrightarrow> set_ent i a (set_ent j b s) = set_ent j b (set_ent i a s)"
  by (simp add: set_ent_def set_clk_def upd_entry_def list_update_swap)

lemma set_ent_table [simp]:
  "(set_ent i a s)\<lparr>p_table := T\<rparr> = set_ent i a (s\<lparr>p_table := T\<rparr>)" "(set_ent i a s)\<lparr>p_pgr := pgr\<rparr> = set_ent i a (s\<lparr>p_pgr := pgr\<rparr>)"
  by (simp_all add: set_ent_def set_clk_def)

lemma resweep_claimed:
  assumes "resweep (set_ent i e s) t" "i < length (frames s)" "ce_acc e" "clk_ok (w_cBuffer (p_w s))"
  shows "\<exists>s0. resweep s s0 \<and> t = set_ent i e s0 \<and> frames s0 ! i = frames s ! i"
proof -
  obtain c where c: "t = set_clk c (set_ent i e s)" "swept (w_cBuffer (p_w (set_ent i e s))) c" "clk_ok c"
    using assms(1) by (auto simp: resweep_def)
  let ?c = "upd_entry i (\<lambda>_. frames s ! i) c"
  have len: "length (clk_bPool c) = length (frames s)" using c(2) by (simp add: swept_def)
  have sw: "clk_bPool c ! j = ((frames s)[i := e] ! j)\<lparr>ce_ref := ce_ref (clk_bPool c ! j)\<rparr>
      \<and> (ce_ref (clk_bPool c ! j) \<longrightarrow> ce_ref ((frames s)[i := e] ! j))
      \<and> (ce_acc ((frames s)[i := e] ! j) \<longrightarrow> ce_ref (clk_bPool c ! j) = ce_ref ((frames s)[i := e] ! j))" if "j < length (frames s)" for j
    using c(2) that by (simp add: swept_def)
  have r: "ce_ref (clk_bPool c ! i) = ce_ref e" using sw[OF assms(2)] assms(2,3) by simp
  have "clk_bPool c ! i = e\<lparr>ce_ref := ce_ref (clk_bPool c ! i)\<rparr>" using sw[OF assms(2)] assms(2) by simp
  also have "\<dots> = e" unfolding r by simp
  finally have ci: "clk_bPool c ! i = e" .
  have cap: "clk_capacity c = clk_capacity (w_cBuffer (p_w s))" "clk_Reserved c = clk_Reserved (w_cBuffer (p_w s))"
    using c(2) by (simp_all add: swept_def set_ent_def set_clk_def upd_entry_def)
  have "swept (w_cBuffer (p_w s)) ?c"
    unfolding swept_def
  proof (intro conjI allI impI)
    fix j assume j: "j < length (frames s)"
    show "clk_bPool ?c ! j = (frames s ! j)\<lparr>ce_ref := ce_ref (clk_bPool ?c ! j)\<rparr>" "ce_ref (clk_bPool ?c ! j) \<Longrightarrow> ce_ref (frames s ! j)"
      "ce_acc (frames s ! j) \<Longrightarrow> ce_ref (clk_bPool ?c ! j) = ce_ref (frames s ! j)"
    proof (atomize (full), cases "j = i")
      case True
      then have "clk_bPool ?c ! j = frames s ! j" using j len by (simp add: upd_entry_def)
      then show "clk_bPool ?c ! j = (frames s ! j)\<lparr>ce_ref := ce_ref (clk_bPool ?c ! j)\<rparr> \<and> (ce_ref (clk_bPool ?c ! j) \<longrightarrow> ce_ref (frames s ! j))
        \<and> (ce_acc (frames s ! j) \<longrightarrow> ce_ref (clk_bPool ?c ! j) = ce_ref (frames s ! j))" by simp
    next
      case False
      then have eqs: "clk_bPool ?c ! j = clk_bPool c ! j" "(frames s)[i := e] ! j = frames s ! j" by (simp_all add: upd_entry_def)
      show "clk_bPool ?c ! j = (frames s ! j)\<lparr>ce_ref := ce_ref (clk_bPool ?c ! j)\<rparr> \<and> (ce_ref (clk_bPool ?c ! j) \<longrightarrow> ce_ref (frames s ! j))
        \<and> (ce_acc (frames s ! j) \<longrightarrow> ce_ref (clk_bPool ?c ! j) = ce_ref (frames s ! j))"
        unfolding eqs(1) using sw[OF j] unfolding eqs(2) .
    qed
  qed (use cap len in \<open>simp_all add: upd_entry_def\<close>)
  then have "resweep s (set_clk ?c s)" using c(3) by (intro resweep_set_clk) simp_all
  moreover have "t = set_ent i e (set_clk ?c s)"
    unfolding c(1) using ci by (cases c) (simp add: set_ent_def set_clk_def upd_entry_def list_update_id flip: ci)
  ultimately show ?thesis using assms(2) len by (intro exI[of _ "set_clk ?c s"]) (simp add: upd_entry_def)
qed

lemma take_victim_acc [simp]: "ce_acc (take_victim e)"
  by (simp add: take_victim_def)

lemma resweep_iff: "resweep s s' \<longleftrightarrow> (\<exists>c. s' = set_clk c s \<and> swept (w_cBuffer (p_w s)) c \<and> clk_ok c)"
  by (auto simp: resweep_def)

lemma resweep_trans:
  assumes "resweep a b" "resweep b c"
  shows "resweep a c"
proof -
  obtain x y where "b = set_clk x a" "swept (w_cBuffer (p_w a)) x" "c = set_clk y b" "swept (w_cBuffer (p_w b)) y" "clk_ok y"
    using assms by (auto simp: resweep_iff)
  then show ?thesis unfolding resweep_iff by (intro exI[of _ y]) (auto simp: set_clk_def intro: swept_trans)
qed

lemma resweep_eligible:
  assumes "resweep s s'" "j < length (frames s)"
  shows "eligible seg (frames s' ! j) = eligible seg (frames s ! j)" "\<And>T pgr. ent_ok T pgr j (frames s' ! j) = ent_ok T pgr j (frames s ! j)"
  using assms swept_eligible swept_field[of "w_cBuffer (p_w s)" "w_cBuffer (p_w s')" j "ent_ok _ _ j"]
  by (auto simp: resweep_def)

lemma unref_taken:
  assumes "pins_ok e" "\<not> ce_acc e" "unat (ce_pinCount e) < 2 ^ 64 - 1"
  shows "fst (unref (take_victim e)) = Ok ()"
proof -
  have "ce_pinCount e < ce_pinCount e + 1" using assms(3) by (simp add: word_less_nat_alt unat_word_ariths)
  then show ?thesis using pins_zero[OF assms(1,2)] by (simp add: unref_def take_victim_def Let_def not_le)
qed

lemma claimed_unref:
  assumes "pool_core {} s" "pins_below n s" "n < 2 ^ 64 - 1" "resweep s s0" "i < length (frames s0)" "eligible seg (frames s0 ! i)"
  shows "fst (unref (take_victim (frames s0 ! i))) = Ok ()"
proof -
  have "pool_core {} s0" "pins_below n s0" using resweep_pool[OF assms(4)] assms(1,2) by auto
  then have "ent_ok (p_table s0) (p_pgr s0) i (frames s0 ! i)" "unat (ce_pinCount (frames s0 ! i)) \<le> n"
    using pool_entry assms(5) by (auto simp: pins_below_def)
  then show ?thesis using assms(3,6) by (intro unref_taken) (auto simp: ent_ok_def eligible_def)
qed

text \<open>The second victim, after the first was claimed.\<close>

lemma claim_second:
  assumes "clk_ok (w_cBuffer (p_w s))" "i < length (frames s)"
  defines "s1 \<equiv> set_ent i (take_victim (frames s ! i)) s"
  shows "\<exists>r s2. on_w (on_clk (EvictWithoutClearing seg)) s1 = (Ok r, s2) \<and>
     (\<exists>s0. resweep s s0 \<and> frames s0 ! i = frames s ! i \<and> (case r of
        None \<Rightarrow> s2 = set_ent i (take_victim (frames s0 ! i)) s0
      | Some j \<Rightarrow> j \<noteq> i \<and> j < length (frames s0) \<and> eligible seg (frames s0 ! j)
          \<and> s2 = set_ent j (take_victim (frames s0 ! j)) (set_ent i (take_victim (frames s0 ! i)) s0)))
     \<and> (r = None \<longrightarrow> (\<forall>e\<in>set (frames s1). \<not> eligible seg e))"
proof -
  have ok1: "clk_ok (w_cBuffer (p_w s1))" using assms(1) by (simp add: s1_def)
  obtain r s2 where e: "on_w (on_clk (EvictWithoutClearing seg)) s1 = (Ok r, s2)" and
     c: "case r of None \<Rightarrow> resweep s1 s2 \<and> (\<forall>e\<in>set (frames s1). \<not> eligible seg e)
        | Some j \<Rightarrow> \<exists>t. resweep s1 t \<and> s2 = set_ent j (take_victim (frames t ! j)) t \<and> j < length (frames t) \<and> eligible seg (frames t ! j)"
    using claim[OF ok1, of seg] by blast
  note rc = resweep_claimed[of i "take_victim (frames s ! i)" s, folded s1_def, OF _ assms(2) take_victim_acc assms(1)]
  show ?thesis
  proof (cases r)
    case None
    then have "resweep s1 s2" using c by simp
    from rc[OF this] show ?thesis using e c None by auto
  next
    case (Some j)
    then obtain t where t: "resweep s1 t" "s2 = set_ent j (take_victim (frames t ! j)) t" "j < length (frames t)" "eligible seg (frames t ! j)"
      using c by auto
    obtain s0 where s0: "resweep s s0" "t = set_ent i (take_victim (frames s ! i)) s0" "frames s0 ! i = frames s ! i" using rc[OF t(1)] by blast
    have len: "length (frames s0) = length (frames s)" using resweep_pool(5)[OF s0(1)] .
    have "j \<noteq> i" using t(4) s0(2) assms(2) len by (auto simp: eligible_def)
    then show ?thesis using e Some s0 t by auto
  qed
qed

section \<open>The contest\<close>

lemma pins_nth: "pins_below n s \<Longrightarrow> i < length (frames s) \<Longrightarrow> unat (ce_pinCount (frames s ! i)) \<le> n"
  by (simp add: pins_below_def)

lemma victim_count_ok: "lfu_ok (w_tinyFilter (p_w s)) \<Longrightarrow> \<exists>m. victim_count h wi pi k s = (Ok m, s)"
  by (simp add: victim_count_def CheckItemCount_def GetCount_eq lfu_ok_def)

text \<open>The loser \<open>l\<close> is written back and freed, the winner \<open>k\<close> goes to or stays in probation.\<close>

definition settled :: "nat \<Rightarrow> nat \<Rightarrow> Pager \<Rightarrow> pool \<Rightarrow> pool" where
  "settled k l pgr s = set_ent k (settle probationSegment (frames s ! k))
     (set_ent l (freed (frames s ! l)) (s\<lparr>p_pgr := pgr, p_table := (p_table s)(ent_key (frames s ! l) := None)\<rparr>))"

lemma settled_core:
  assumes "pool_core {} s" "pins_below n s" "n < 2 ^ 64 - 1" "k \<noteq> l" "k < length (frames s)" "l < length (frames s)"
    and "eligible sk (frames s ! k)" "eligible sl (frames s ! l)" "sk \<noteq> unassigned" "sl \<noteq> unassigned" "store_ok pgr" "pgr_ids pgr = pgr_ids (p_pgr s)"
    and "\<And>q. valid_id q \<Longrightarrow> kept_page pgr q = (if q = ent_key (frames s ! l) then Some (undirty (ent_bytes (frames s ! l))) else kept_page (p_pgr s) q)"
  shows "pool_core {} (settled k l pgr s)" "safe s (settled k l pgr s)" "pins_below (Suc n) (settled k l pgr s)"
proof -
  let ?s = "set_ent l (freed (frames s ! l)) (s\<lparr>p_pgr := pgr, p_table := (p_table s)(ent_key (frames s ! l) := None)\<rparr>)"
  have d: "pool_core {} ?s" "safe s ?s" "pins_below n ?s"
    by (rule drop_core[OF assms(1,2,6,8,10,11,12)]; rule assms(13); assumption)+
  have k: "k < length (frames ?s)" "frames ?s ! k = frames s ! k" using assms(4,5) by simp_all
  note st = settle_core[OF d(1) d(3) assms(3) k(1), unfolded k(2), OF assms(7,9), of probationSegment, folded settled_def]
  show "pool_core {} (settled k l pgr s)" "pins_below (Suc n) (settled k l pgr s)" using st by simp_all
  show "safe s (settled k l pgr s)" using safe_trans[OF d(2)] st(2) by simp
qed

lemma settled_counts:
  fixes pgr :: Pager
  assumes "counts_ok (p_w s)" "k \<noteq> l" "k < length (frames s)" "l < length (frames s)"
    and "{ce_segtype (frames s ! k), ce_segtype (frames s ! l)} = {windowSegment, probationSegment}"
  defines "s' \<equiv> with_counts (w_windowCount (p_w s) - 1) (w_probationCount (p_w s)) (w_protectedCount (p_w s)) (settled k l pgr s)"
  shows "counts_ok (p_w s')" "w_windowCount (p_w s') < w_windowCapacity (p_w s')"
proof -
  let ?ys = "(frames s)[l := freed (frames s ! l)]" and ?e = "settle probationSegment (frames s ! k)"
  have k: "k < length ?ys" "?ys ! k = frames s ! k" using assms(2,3) by simp_all
  note u = seg_count_update[OF assms(4), of _ "freed (frames s ! l)"] and v = seg_count_update[OF k(1), of _ ?e, unfolded k(2)]
  have fr: "frames s' = ?ys[k := ?e]" by (simp add: s'_def settled_def)
  have r: "length (filter ce_reserved (frames s')) = length (filter ce_reserved (frames s))"
    unfolding fr using reserved_update[OF k(1), of ?e] reserved_update[OF assms(4), of "freed (frames s ! l)"] k(2) by simp
  have "0 < seg_count windowSegment (frames s)"
    using seg_pos[OF assms(3)] seg_pos[OF assms(4)] assms(5) by (auto simp: doubleton_eq_iff)
  then have pos: "0 < unat (w_windowCount (p_w s))" using assms(1) by (simp add: counts_ok_def Let_def)
  note d = dec_word[OF this]
  have cnt: "seg_count windowSegment (frames s') + 1 = seg_count windowSegment (frames s)"
    "seg_count probationSegment (frames s') = seg_count probationSegment (frames s)"
    "seg_count protectedSegment (frames s') = seg_count protectedSegment (frames s)"
    unfolding fr using u[of windowSegment] v[of windowSegment] u[of probationSegment] v[of probationSegment]
      u[of protectedSegment] v[of protectedSegment] assms(5) by (auto simp: doubleton_eq_iff split: if_splits)
  have caps: "w_windowCapacity (p_w s') = w_windowCapacity (p_w s)" "w_probationCapacity (p_w s') = w_probationCapacity (p_w s)"
    "w_protectedCapacity (p_w s') = w_protectedCapacity (p_w s)" "w_windowCount (p_w s') = w_windowCount (p_w s) - 1"
    "w_probationCount (p_w s') = w_probationCount (p_w s)" "w_protectedCount (p_w s') = w_protectedCount (p_w s)"
    by (simp_all add: s'_def settled_def)
  have le: "w_windowCount (p_w s) - 1 < w_windowCapacity (p_w s)"
    using assms(1) d by (auto simp: counts_ok_def Let_def word_le_nat_alt word_less_nat_alt)
  have len: "length (frames s') = length (frames s)" unfolding fr by simp
  show "w_windowCount (p_w s') < w_windowCapacity (p_w s')" using le caps by simp
  show "counts_ok (p_w s')"
    using assms(1) cnt caps d r len le by (auto simp: counts_ok_def Let_def)
qed

text \<open>The loser's way out, from the state in which both are claimed.\<close>

definition both_claimed :: "nat \<Rightarrow> nat \<Rightarrow> pool \<Rightarrow> pool" where
  "both_claimed wi pi s = set_ent pi (take_victim (frames s ! pi)) (set_ent wi (take_victim (frames s ! wi)) s)"

lemma loser_out:
  assumes "pool_core {} s" "k \<noteq> l" "k < length (frames s)" "l < length (frames s)" "eligible sl (frames s ! l)" "sl \<noteq> unassigned"
    and t: "t = both_claimed k l s \<or> t = both_claimed l k s"
  shows "\<exists>pgr. bindS (flush_victim l (ent_key (frames s ! l))) (\<lambda>_. drop_victim l (ent_key (frames s ! l))) t
      = (Ok (), set_ent k (take_victim (frames s ! k)) (set_ent l (freed (frames s ! l)) (s\<lparr>p_pgr := pgr, p_table := (p_table s)(ent_key (frames s ! l) := None)\<rparr>)))
    \<and> store_ok pgr \<and> pgr_ids pgr = pgr_ids (p_pgr s) \<and> (\<forall>q. valid_id q \<longrightarrow> kept_page pgr q = (if q = ent_key (frames s ! l) then Some (undirty (ent_bytes (frames s ! l))) else kept_page (p_pgr s) q))"
proof -
  let ?e = "frames s ! l"
  have t': "t = set_ent k (take_victim (frames s ! k)) (set_ent l (take_victim ?e) s)"
    using t assms(2) set_ent_swap by (auto simp: both_claimed_def)
  have e: "ent_ok (p_table s) (p_pgr s) l ?e" using pool_entry[OF assms(1,4)] by simp
  note u = eligible_used[OF e assms(5,6)]
  have l: "frames t ! l = take_victim ?e" "l < length (frames t)" "p_pgr t = p_pgr s" using assms(2-4) t' by simp_all
  have st: "store_ok (p_pgr t)" using assms(1) l(3) by (simp add: pool_core_def)
  obtain pgr where f: "flush_victim l (ent_key ?e) t = (Ok (), t\<lparr>p_pgr := pgr\<rparr>)" "store_ok pgr" "pgr_ids pgr = pgr_ids (p_pgr s)"
     "\<forall>q. valid_id q \<longrightarrow> kept_page pgr q = (if q = ent_key ?e then Some (undirty (ent_bytes ?e)) else kept_page (p_pgr s) q)"
    using flush_victim_ok[OF st l(2), of "ent_key ?e", unfolded l take_victim_fields] u by (auto simp: used_ent_def)
  have "drop_victim l (ent_key ?e) (t\<lparr>p_pgr := pgr\<rparr>)
      = (Ok (), set_ent l (freed ?e) (t\<lparr>p_pgr := pgr, p_table := (p_table s)(ent_key ?e := None)\<rparr>))"
    using l by (simp add: drop_victim_eq t')
  also have "\<dots> = (Ok (), set_ent k (take_victim (frames s ! k)) (set_ent l (freed ?e) (s\<lparr>p_pgr := pgr, p_table := (p_table s)(ent_key ?e := None)\<rparr>)))"
    using assms(2) by (simp add: t' set_ent_swap[of l k])
  finally show ?thesis using f by (auto simp: bindS_def)
qed

lemma on_dec: "on_w (pure dec_window) s = (Ok (), with_counts (w_windowCount (p_w s) - 1) (w_probationCount (p_w s)) (w_protectedCount (p_w s)) s)"
  by (simp add: on_w_pure dec_window_def bump_counts)

lemma bindS_assoc: "bindS (bindS m f) g s = bindS m (\<lambda>x. bindS (f x) g) s"
  by (auto simp: bindS_def split: prod.splits res.splits)

lemma contest_ok:
  assumes "pool_ok {} s" "pins_below n s" "n < 2 ^ 64 - 1" "wi \<noteq> pi" "wi < length (frames s)" "pi < length (frames s)"
    and "eligible windowSegment (frames s ! wi)" "eligible probationSegment (frames s ! pi)"
  shows "\<exists>s'. contest h wi pi (both_claimed wi pi s) = (Ok (), s') \<and> pool_ok {} s' \<and> pins_below (Suc n) s' \<and> safe s s'
     \<and> w_windowCount (p_w s') < w_windowCapacity (p_w s')"
proof -
  let ?t = "both_claimed wi pi s"
  have core: "pool_core {} s" and co: "counts_ok (p_w s)" using assms(1) by (simp_all add: pool_ok_def)
  have fr: "frames ?t ! wi = take_victim (frames s ! wi)" "frames ?t ! pi = take_victim (frames s ! pi)"
    using assms(4-6) by (simp_all add: both_claimed_def)
  have "lfu_ok (w_tinyFilter (p_w ?t))" using core by (simp add: pool_core_def both_claimed_def)
  from victim_count_ok[OF this] obtain cw cm where cnt: "victim_count h wi pi (ent_key (frames s ! wi)) ?t = (Ok cw, ?t)"
      "victim_count h wi pi (ent_key (frames s ! pi)) ?t = (Ok cm, ?t)" by blast
  have pin: "pins_ok (frames s ! j)" "\<not> ce_acc (frames s ! j)" "unat (ce_pinCount (frames s ! j)) < 2 ^ 64 - 1" if "j \<in> {wi, pi}" for j
    using that pool_entry[OF core] assms(3,5-8) pins_nth[OF assms(2), of j] by (auto simp: ent_ok_def eligible_def)
  note un = unref_claimed[OF pin, of _ probationSegment]
  have seg: "ce_segtype (frames s ! wi) = windowSegment" "ce_segtype (frames s ! pi) = probationSegment"
    using assms(7,8) by (simp_all add: eligible_def)
  show ?thesis
  proof (cases "cm \<le> cw")
    case True
    obtain pgr where lo: "bindS (flush_victim pi (ent_key (frames s ! pi))) (\<lambda>_. drop_victim pi (ent_key (frames s ! pi))) ?t
        = (Ok (), set_ent wi (take_victim (frames s ! wi)) (set_ent pi (freed (frames s ! pi)) (s\<lparr>p_pgr := pgr, p_table := (p_table s)(ent_key (frames s ! pi) := None)\<rparr>)))"
       and pgr: "store_ok pgr" "pgr_ids pgr = pgr_ids (p_pgr s)" "\<And>q. valid_id q \<Longrightarrow> kept_page pgr q = (if q = ent_key (frames s ! pi) then Some (undirty (ent_bytes (frames s ! pi))) else kept_page (p_pgr s) q)"
      using loser_out[OF core assms(4-6,8), of ?t] by auto
    let ?s = "with_counts (w_windowCount (p_w s) - 1) (w_probationCount (p_w s)) (w_protectedCount (p_w s)) (settled wi pi pgr s)"
    have run: "contest h wi pi ?t = (Ok (), ?s)"
      using True cnt fr lo un[of wi] assms(4-6) seg
      by (simp add: contest_def w_entry_def getKey_def bindS_def[of "victim_count _ _ _ _"] flip: bindS_assoc)
         (simp add: bindS_def entry_steps on_unref on_dec settled_def unMarkForEviction_def)
    have "pool_core {} ?s" "safe s ?s" "pins_below (Suc n) ?s"
      using settled_core[OF core assms(2-8) _ _ pgr] by simp_all
    moreover have "counts_ok (p_w ?s)" "w_windowCount (p_w ?s) < w_windowCapacity (p_w ?s)"
      using settled_counts[OF co assms(4-6)] seg by auto
    ultimately show ?thesis using run by (auto simp: pool_ok_def)
  next
    case False
    obtain pgr where lo: "bindS (flush_victim wi (ent_key (frames s ! wi))) (\<lambda>_. drop_victim wi (ent_key (frames s ! wi))) ?t
        = (Ok (), set_ent pi (take_victim (frames s ! pi)) (set_ent wi (freed (frames s ! wi)) (s\<lparr>p_pgr := pgr, p_table := (p_table s)(ent_key (frames s ! wi) := None)\<rparr>)))"
       and pgr: "store_ok pgr" "pgr_ids pgr = pgr_ids (p_pgr s)" "\<And>q. valid_id q \<Longrightarrow> kept_page pgr q = (if q = ent_key (frames s ! wi) then Some (undirty (ent_bytes (frames s ! wi))) else kept_page (p_pgr s) q)"
      using loser_out[OF core assms(4)[symmetric] assms(6,5,7), of ?t] by auto
    let ?s = "with_counts (w_windowCount (p_w s) - 1) (w_probationCount (p_w s)) (w_protectedCount (p_w s)) (settled pi wi pgr s)"
    have same: "(take_victim (frames s ! pi))\<lparr>ce_segtype := probationSegment\<rparr> = take_victim (frames s ! pi)"
      using seg(2) by (cases "frames s ! pi") (simp add: take_victim_def)
    have run: "contest h wi pi ?t = (Ok (), ?s)"
      using False cnt fr lo un[of pi, unfolded same] assms(4-6) seg
      by (simp add: contest_def w_entry_def getKey_def bindS_def[of "victim_count _ _ _ _"] flip: bindS_assoc)
         (simp add: bindS_def entry_steps on_unref on_dec settled_def unMarkForEviction_def)
    have "pool_core {} ?s" "safe s ?s" "pins_below (Suc n) ?s"
      using settled_core[OF core assms(2,3) assms(4)[symmetric] assms(6,5,8,7) _ _ pgr] by simp_all
    moreover have "counts_ok (p_w ?s)" "w_windowCount (p_w ?s) < w_windowCapacity (p_w ?s)"
      using settled_counts[OF co assms(4)[symmetric] assms(6,5)] seg by auto
    ultimately show ?thesis using run by (auto simp: pool_ok_def)
  qed
qed

section \<open>evictWindow\<close>

text \<open>The window can give up a frame: one of its frames is unpinned, and one of probation too if that is full.\<close>

definition can_evict :: "pool \<Rightarrow> bool" where
  "can_evict s \<longleftrightarrow> (\<exists>e\<in>set (frames s). eligible windowSegment e)
     \<and> (w_probationCount (p_w s) < w_probationCapacity (p_w s) \<or> (\<exists>e\<in>set (frames s). eligible probationSegment e))"

text \<open>A refused request: the table, the files, the frames' contents and the pins are as before. At most one frame, an unpinned one, is left marked for
  eviction.\<close>

definition spared :: "pool \<Rightarrow> pool \<Rightarrow> bool" where
  "spared s s' \<longleftrightarrow> p_table s' = p_table s \<and> p_pgr s' = p_pgr s \<and> length (frames s') = length (frames s)
     \<and> (\<forall>j<length (frames s). ce_entry (frames s' ! j) = ce_entry (frames s ! j) \<and> pins (frames s' ! j) = pins (frames s ! j))
     \<and> (\<exists>m. \<forall>j<length (frames s). ce_markedForEviction (frames s' ! j) \<noteq> ce_markedForEviction (frames s ! j) \<longrightarrow> j = m \<and> pins (frames s ! j) = 0)"

lemma resweep_fields:
  assumes "resweep s t" "j < length (frames s)"
  shows "ce_entry (frames t ! j) = ce_entry (frames s ! j)" "pins (frames t ! j) = pins (frames s ! j)"
    "ce_markedForEviction (frames t ! j) = ce_markedForEviction (frames s ! j)"
proof -
  have "frames t ! j = (frames s ! j)\<lparr>ce_ref := ce_ref (frames t ! j)\<rparr>" using assms by (auto simp: resweep_def swept_def)
  then obtain b where "frames t ! j = (frames s ! j)\<lparr>ce_ref := b\<rparr>" by blast
  then show "ce_entry (frames t ! j) = ce_entry (frames s ! j)" "pins (frames t ! j) = pins (frames s ! j)"
    "ce_markedForEviction (frames t ! j) = ce_markedForEviction (frames s ! j)" by (simp_all add: pins_def)
qed

lemma resweep_spared: "resweep s t \<Longrightarrow> spared s t"
  using resweep_pool(5-7) resweep_fields by (simp add: spared_def)

lemma unref_victim_fields:
  assumes "pins_ok e" "\<not> ce_acc e" "unat (ce_pinCount e) < 2 ^ 64 - 1"
  shows "ce_entry (snd (unref (take_victim e))) = ce_entry e" "pins (snd (unref (take_victim e))) = 0" "pins e = 0"
proof -
  have z: "ce_unpinCount e = ce_pinCount e" using pins_zero[OF assms(1,2)] by simp
  then show "pins e = 0" by (simp add: pins_def)
  show "ce_entry (snd (unref (take_victim e))) = ce_entry e" "pins (snd (unref (take_victim e))) = 0"
    using z by (simp_all add: unref_def take_victim_def Let_def pins_def word_le_nat_alt)
qed

lemma victim_spared:
  assumes "pool_core {} s" "pins_below n s" "n < 2 ^ 64 - 1" "resweep s t" "i < length (frames t)" "eligible seg (frames t ! i)"
  shows "spared s (set_ent i (snd (unref (take_victim (frames t ! i)))) t)"
proof -
  have "pool_core {} t" "pins_below n t" using resweep_pool[OF assms(4)] assms(1,2) by auto
  then have "ent_ok (p_table t) (p_pgr t) i (frames t ! i)" "unat (ce_pinCount (frames t ! i)) \<le> n" using pool_entry pins_nth assms(5) by auto
  then have f: "ce_entry (snd (unref (take_victim (frames t ! i)))) = ce_entry (frames t ! i)"
      "pins (snd (unref (take_victim (frames t ! i)))) = 0" "pins (frames t ! i) = 0"
    using unref_victim_fields[of "frames t ! i"] assms(3,6) by (auto simp: ent_ok_def eligible_def)
  have len: "length (frames t) = length (frames s)" using resweep_pool(5)[OF assms(4)] .
  show ?thesis
    unfolding spared_def
    using f assms(5) len resweep_pool(6,7)[OF assms(4)] resweep_fields[OF assms(4)]
    by (auto simp: nth_list_update intro!: exI[of _ i])
qed

definition evict_spec :: "pool \<Rightarrow> nat \<Rightarrow> unit res \<times> pool \<Rightarrow> bool" where
  "evict_spec s n out \<longleftrightarrow> (case out of
      (Ok _, s') \<Rightarrow> pool_ok {} s' \<and> pins_below (Suc n) s' \<and> safe s s' \<and> w_windowCount (p_w s') < w_windowCapacity (p_w s')
    | (Err _, s') \<Rightarrow> \<not> can_evict s \<and> spared s s'
    | _ \<Rightarrow> False)"

lemma resweep_ok:
  assumes "resweep s t" "pool_ok X s" "pins_below n s"
  shows "pool_ok X t" "pins_below n t" "safe s t"
  using resweep_pool(1-4)[OF assms(1)] assms(2,3) unfolding pool_ok_def by blast+

lemma bindS_unref_fail: "fst (unref (frames s ! i)) = Ok () \<Longrightarrow>
   bindS (on_w (on_en i unref)) (\<lambda>_. failS e) s = (Err e, set_ent i (snd (unref (frames s ! i))) s)"
  by (cases "unref (frames s ! i)") (simp add: bindS_def on_entry_step failS_def)

lemma evictWindow_ok:
  assumes "pool_ok {} s" "pins_below n s" "n < 2 ^ 64 - 1" "w_windowCount (p_w s) = w_windowCapacity (p_w s)"
  shows "evict_spec s n (evictWindow h s)"
proof -
  have core: "pool_core {} s" and co: "counts_ok (p_w s)" and ck: "clk_ok (w_cBuffer (p_w s))"
    using assms(1) by (simp_all add: pool_ok_def pool_core_def)
  have le: "\<not> w_probationCapacity (p_w s) < w_probationCount (p_w s)" using co by (simp add: counts_ok_def Let_def not_less)
  obtain r1 s1 where c1: "on_w (on_clk (EvictWithoutClearing windowSegment)) s = (Ok r1, s1)" and
     v1: "case r1 of None \<Rightarrow> resweep s s1 \<and> (\<forall>e\<in>set (frames s). \<not> eligible windowSegment e)
       | Some i \<Rightarrow> \<exists>s0. resweep s s0 \<and> s1 = set_ent i (take_victim (frames s0 ! i)) s0 \<and> i < length (frames s0) \<and> eligible windowSegment (frames s0 ! i)"
    using claim[OF ck, of windowSegment] by blast
  note rs = resweep_pool
  show ?thesis
  proof (cases "w_probationCapacity (p_w s) \<le> w_probationCount (p_w s)")
    case False
    then have lt: "w_probationCount (p_w s) < w_probationCapacity (p_w s)" by simp
    have ev: "evictWindow h s = (case r1 of None \<Rightarrow> (Err (BufferManagerError ''Unable to find window victim(all frames in use).''), s1)
        | Some wi \<Rightarrow> on_w (to_probation wi) s1)"
      using False le assms(4) c1 by (simp add: evictWindow_def Let_def bindS_def failS_def split: option.splits)
    show ?thesis
    proof (cases r1)
      case None
      then show ?thesis using ev v1 by (auto simp: evict_spec_def can_evict_def resweep_spared)
    next
      case (Some i)
      then obtain s0 where s0: "resweep s s0" "s1 = set_ent i (take_victim (frames s0 ! i)) s0" "i < length (frames s0)" "eligible windowSegment (frames s0 ! i)"
        using v1 by auto
      have "pool_ok {} s0" "pins_below n s0" "w_probationCount (p_w s0) < w_probationCapacity (p_w s0)"
        using resweep_ok[OF s0(1) assms(1,2)] rs(11,12)[OF s0(1)] lt by simp_all
      from to_probation_ok[OF this(1,2) assms(3) s0(3,4) this(3)] show ?thesis
        using ev Some s0(2) safe_trans[OF rs(2)[OF s0(1) core]] by (auto simp: evict_spec_def)
    qed
  next
    case True
    show ?thesis
    proof (cases r1)
      case None
      then have sw: "resweep s s1" and no: "\<forall>e\<in>set (frames s). \<not> eligible windowSegment e" using v1 by auto
      have core1: "pool_core {} s1" "pins_below n s1" using rs[OF sw] core assms(2) by auto
      have ck1: "clk_ok (w_cBuffer (p_w s1))" using core1(1) by (simp add: pool_core_def)
      obtain r2 s2 where c2: "on_w (on_clk (EvictWithoutClearing probationSegment)) s1 = (Ok r2, s2)" and
         v2: "case r2 of None \<Rightarrow> resweep s1 s2 | Some i \<Rightarrow> \<exists>t. resweep s1 t \<and> s2 = set_ent i (take_victim (frames t ! i)) t
           \<and> i < length (frames t) \<and> eligible probationSegment (frames t ! i)"
        using claim[OF ck1, of probationSegment] by (fastforce split: option.splits)
      have sp: "case r2 of None \<Rightarrow> spared s s2
         | Some i \<Rightarrow> fst (unref (frames s2 ! i)) = Ok () \<and> spared s (set_ent i (snd (unref (frames s2 ! i))) s2)"
        using v2 resweep_spared[OF resweep_trans[OF sw]] claimed_unref[OF core1 assms(3)] victim_spared[OF core assms(2,3) resweep_trans[OF sw]]
        by (fastforce split: option.splits)
      have "\<exists>e s'. evictWindow h s = (Err e, s') \<and> spared s s'"
        using True le assms(4) c1 c2 None sp
          bindS_unref_fail[of s2 "the r2" "BufferManagerError ''(probation full) Could not find window victim(all frames in use).''"]
        by (cases r2) (auto simp: evictWindow_def Let_def failS_def bindS_Ok[of "on_w (on_clk (EvictWithoutClearing _))"])
      then show ?thesis using no by (auto simp: evict_spec_def can_evict_def)
    next
      case (Some i)
      then obtain s0 where s0: "resweep s s0" "s1 = set_ent i (take_victim (frames s0 ! i)) s0" "i < length (frames s0)" "eligible windowSegment (frames s0 ! i)"
        using v1 by auto
      have ok0: "pool_ok {} s0" "pins_below n s0" "safe s s0" by (rule resweep_ok[OF s0(1) assms(1,2)])+
      have ck0: "clk_ok (w_cBuffer (p_w s0))" using ok0 by (simp add: pool_ok_def pool_core_def)
      from claim_second[OF ck0 s0(3), of probationSegment, folded s0(2)]
      obtain r2 s2 t where c2: "on_w (on_clk (EvictWithoutClearing probationSegment)) s1 = (Ok r2, s2)" and t: "resweep s0 t" "frames t ! i = frames s0 ! i"
        and v2: "case r2 of None \<Rightarrow> s2 = set_ent i (take_victim (frames t ! i)) t
          | Some j \<Rightarrow> j \<noteq> i \<and> j < length (frames t) \<and> eligible probationSegment (frames t ! j) \<and> s2 = set_ent j (take_victim (frames t ! j)) (set_ent i (take_victim (frames t ! i)) t)"
        and no: "r2 = None \<longrightarrow> (\<forall>e\<in>set (frames s1). \<not> eligible probationSegment e)" by blast
      have okt: "pool_ok {} t" "pins_below n t" "safe s0 t" "i < length (frames t)"
        using resweep_ok[OF t(1) ok0(1,2)] rs(5)[OF t(1)] s0(3) by simp_all
      show ?thesis
      proof (cases r2)
        case None
        have s2: "s2 = set_ent i (take_victim (frames t ! i)) t" using v2 None by simp
        have "fst (unref (frames s2 ! i)) = Ok ()"
          using claimed_unref[of s n s0 i windowSegment] core assms(2,3) s0 okt(4) t(2) s2 by simp
        moreover have "spared s (set_ent i (snd (unref (frames s2 ! i))) s2)"
          using victim_spared[OF core assms(2,3) resweep_trans[OF s0(1) t(1)] okt(4), of windowSegment] s0(4) t(2) s2 okt(4) by simp
        ultimately have "\<exists>e s'. evictWindow h s = (Err e, s') \<and> spared s s'"
          using True le assms(4) c1 c2 Some None bindS_unref_fail[of s2 i "BufferManagerError ''Unable to find probation victim(all frames in use).''"]
          by (auto simp: evictWindow_def Let_def bindS_Ok[of "on_w (on_clk (EvictWithoutClearing _))"])
        moreover have "\<not> eligible probationSegment (frames s ! j)" if "j < length (frames s)" for j
        proof (cases "j = i")
          case True
          then show ?thesis using s0 resweep_eligible[OF s0(1) that] by (auto simp: eligible_def)
        next
          case False
          have len: "length (frames s0) = length (frames s)" using rs(5)[OF s0(1)] .
          then have "frames s0 ! j \<in> set (frames s1)" using that False s0(2) by (auto simp: in_set_conv_nth intro!: exI[of _ j])
          then show ?thesis using no None resweep_eligible[OF s0(1) that] by blast
        qed
        ultimately show ?thesis using leD[OF True] by (auto simp: evict_spec_def can_evict_def in_set_conv_nth)
      next
        case (Some j)
        then have j: "j \<noteq> i" "j < length (frames t)" "eligible probationSegment (frames t ! j)" "s2 = both_claimed i j t"
          using v2 by (auto simp: both_claimed_def)
        have ei: "eligible windowSegment (frames t ! i)" using t(2) s0(4) by simp
        have "evictWindow h s = contest h i j s2"
          using True le assms(4) c1 c2 Some \<open>r1 = Some i\<close> by (simp add: evictWindow_def Let_def bindS_Ok[of "on_w (on_clk (EvictWithoutClearing _))"])
        then show ?thesis
          using contest_ok[OF okt(1,2) assms(3) j(1)[symmetric] okt(4) j(2) ei j(3), of h] j(4) safe_trans[OF ok0(3)] safe_trans[OF okt(3)]
          by (fastforce simp: evict_spec_def)
      qed
    qed
  qed
qed

section \<open>getFreeFrame\<close>

lemma seg_counts_sum:
  "seg_count unassigned xs + seg_count windowSegment xs + seg_count probationSegment xs + seg_count protectedSegment xs = length xs"
proof (induction xs)
  case (Cons e xs)
  then show ?case by (cases "ce_segtype e") (simp_all add: seg_count_def)
qed (simp add: seg_count_def)

lemma spare_entry: "length (filter ce_reserved xs) < seg_count unassigned xs \<Longrightarrow> \<exists>e\<in>set xs. ce_segtype e = unassigned \<and> \<not> ce_reserved e"
  by (induction xs) (auto simp: seg_count_def split: if_splits)

lemma free_frame_left:
  assumes "pool_ok {} s" "w_windowCount (p_w s) < w_windowCapacity (p_w s)"
  shows "\<exists>e\<in>set (frames s). eligible unassigned e"
proof -
  have "length (filter ce_reserved (frames s)) < seg_count unassigned (frames s)"
    using assms seg_counts_sum[of "frames s"] by (simp add: pool_ok_def counts_ok_def Let_def word_less_nat_alt word_le_nat_alt)
  then obtain i where i: "i < length (frames s)" "ce_segtype (frames s ! i) = unassigned" "\<not> ce_reserved (frames s ! i)"
    using spare_entry by (metis in_set_conv_nth)
  moreover have "ent_ok (p_table s) (p_pgr s) i (frames s ! i)" using assms(1) pool_entry i(1) by (auto simp: pool_ok_def)
  ultimately have "eligible unassigned (frames s ! i)" by (auto simp: ent_ok_def used_ent_def free_ent_def eligible_def)
  then show ?thesis using i(1) nth_mem by blast
qed

text \<open>The frame handed out: pinned once, still marked, in the window, with a cleared page.\<close>

definition claimed :: "pool \<Rightarrow> nat \<Rightarrow> bool" where
  "claimed s i \<longleftrightarrow> i < length (frames s) \<and> (\<exists>e. free_ent e \<and> pins_ok e \<and> \<not> ce_reserved e \<and> fr_parentEntry (ce_entry e) = Some i
     \<and> unat (ce_pinCount e) < 2 ^ 64 - 1 \<and> frames s ! i = (take_victim e)\<lparr>ce_segtype := windowSegment\<rparr>)"

lemma claim_free:
  assumes "pool_ok {} s" "pins_below n s" "n < 2 ^ 64 - 1" "w_windowCount (p_w s) < w_windowCapacity (p_w s)"
  shows "\<exists>i s'. bindS (on_w (on_clk (EvictWithoutClearing unassigned))) (\<lambda>en. case en of
             None \<Rightarrow> failS (BufferManagerError ''Unable to add item to WtinyLFU'')
           | Some i \<Rightarrow>
               bindS (on_w (on_en i (both (updateSegmentCAS unassigned windowSegment)))) (\<lambda>_.
               bindS (on_w (pure (\<lambda>w. w\<lparr>w_windowCount := w_windowCount w + 1\<rparr>))) (\<lambda>_. returnS i))) s = (Ok i, s')
     \<and> pool_ok {i} s' \<and> pins_below (Suc n) s' \<and> safe_but {i} s s' \<and> claimed s' i"
proof -
  have ck: "clk_ok (w_cBuffer (p_w s))" using assms(1) by (simp add: pool_ok_def pool_core_def)
  obtain i s0 where c: "on_w (on_clk (EvictWithoutClearing unassigned)) s = (Ok (Some i), set_ent i (take_victim (frames s0 ! i)) s0)"
      "resweep s s0" "i < length (frames s0)" "eligible unassigned (frames s0 ! i)"
    using claim[OF ck, of unassigned] free_frame_left[OF assms(1,4)] by (fastforce split: option.splits)
  have ok0: "pool_ok {} s0" "pins_below n s0" "safe s s0" by (rule resweep_ok[OF c(2) assms(1,2)])+
  have core: "pool_core {} s0" and co: "counts_ok (p_w s0)" using ok0(1) by (simp_all add: pool_ok_def)
  let ?e = "frames s0 ! i"
  let ?f = "(take_victim ?e)\<lparr>ce_segtype := windowSegment\<rparr>"
  have lt: "w_windowCount (p_w s0) < w_windowCapacity (p_w s0)" using resweep_pool(9,10)[OF c(2)] assms(4) by simp
  have ent: "ent_ok (p_table s0) (p_pgr s0) i ?e" using pool_entry[OF core c(3)] by simp
  then have free: "free_ent ?e" "pins_ok ?e" "\<not> ce_reserved ?e" "fr_parentEntry (ce_entry ?e) = Some i"
    using c(4) by (auto simp: ent_ok_def used_ent_def eligible_def)
  have seg: "ce_segtype ?e = unassigned" using c(4) by (simp add: eligible_def)
  have pin: "unat (ce_pinCount ?e) \<le> n" using pins_nth[OF ok0(2) c(3)] .
  let ?s = "with_counts (w_windowCount (p_w s0) + 1) (w_probationCount (p_w s0)) (w_protectedCount (p_w s0)) (set_ent i ?f s0)"
  have T: "i \<noteq> j" if "p_table s0 k = Some j" for k j
    using pool_table[OF core that] free(1) by (auto simp: free_ent_def)
  have "pool_core {i} (set_ent i ?f s0)"
    using core T unfolding pool_core_def by auto
  moreover have "counts_ok (p_w ?s)"
    using co inc_word[OF lt] seg by (intro counts_ok_upd[OF co c(3)]) (simp_all add: counts_ok_def Let_def)
  moreover have res: "ce_reserved ((frames s0)[i := ?f] ! j) = ce_reserved (frames s0 ! j)" for j using c(3) by (cases "j = i") simp_all
  moreover have "safe_but {i} s0 (set_ent i ?f s0)"
    using T res by (auto simp: safe_but_def stays_def calm_def view_def nth_list_update split: option.splits)
  moreover have "pins_below (Suc n) (set_ent i ?f s0)"
    using pin assms(3) by (intro pins_below_upd[OF ok0(2)]) (simp_all add: take_victim_def unat_word_ariths)
  moreover have "claimed ?s i" using free pin assms(3) c(3) by (auto simp: claimed_def)
  moreover have "bindS (on_w (on_en i (both (updateSegmentCAS unassigned windowSegment)))) (\<lambda>_.
      bindS (on_w (pure (\<lambda>w. w\<lparr>w_windowCount := w_windowCount w + 1\<rparr>))) (\<lambda>_. returnS i)) (set_ent i (take_victim ?e) s0) = (Ok i, ?s)"
    using c(3) seg by (simp add: bindS_def entry_steps on_w_pure bump_counts returnS_def)
  ultimately show ?thesis using c(1) safe_trans[OF ok0(3)] by (auto simp: bindS_Ok pool_ok_def)
qed

definition free_spec :: "pool \<Rightarrow> nat \<Rightarrow> nat res \<times> pool \<Rightarrow> bool" where
  "free_spec s n out \<longleftrightarrow> (case out of
      (Ok i, s') \<Rightarrow> pool_ok {i} s' \<and> pins_below n s' \<and> safe_but {i} s s' \<and> claimed s' i
    | (Err _, s') \<Rightarrow> w_windowCount (p_w s) = w_windowCapacity (p_w s) \<and> \<not> can_evict s \<and> spared s s'
    | _ \<Rightarrow> False)"

lemma getFreeFrame_ok:
  assumes "pool_ok {} s" "pins_below n s" "n < 2 ^ 64 - 2"
  shows "free_spec s (n + 2) (getFreeFrame h s)"
proof (cases "w_windowCount (p_w s) = w_windowCapacity (p_w s)")
  case True
  have ev: "evict_spec s n (evictWindow h s)" using evictWindow_ok[OF assms(1,2) _ True] assms(3) by simp
  show ?thesis
  proof (cases "fst (evictWindow h s)")
    case (Ok x)
    then obtain s1 where s1: "evictWindow h s = (Ok (), s1)" by (cases "evictWindow h s") auto
    then have ok1: "pool_ok {} s1" "pins_below (Suc n) s1" "safe s s1" "w_windowCount (p_w s1) < w_windowCapacity (p_w s1)"
      using ev by (auto simp: evict_spec_def)
    from claim_free[OF ok1(1,2) _ ok1(4)] assms(3) s1 True show ?thesis
      using safe_trans[OF ok1(3)] by (fastforce simp: getFreeFrame_def free_spec_def bindS_Ok)
  next
    case (Err e)
    then obtain s1 where "evictWindow h s = (Err e, s1)" by (cases "evictWindow h s") auto
    then show ?thesis using ev True by (auto simp: getFreeFrame_def free_spec_def evict_spec_def bindS_def)
  qed (use ev in \<open>cases "evictWindow h s"; auto simp: evict_spec_def\<close>)+
next
  case False
  then have lt: "w_windowCount (p_w s) < w_windowCapacity (p_w s)"
    using assms(1) by (auto simp: pool_ok_def counts_ok_def Let_def)
  have "\<not> w_windowCapacity (p_w s) < w_windowCount (p_w s)" using lt by simp
  moreover have "pins_below (n + 2) s'" if "pins_below (Suc n) s'" for s' using that by (auto simp: pins_below_def)
  ultimately show ?thesis
    using claim_free[OF assms(1,2) _ lt] assms(3) False by (fastforce simp: getFreeFrame_def free_spec_def)
qed

end
