(* ===== verification/PoolGet.thy ===== *)
theory PoolGet
  imports PoolEvict
begin

text \<open>
  The requests of a shard on a pool that satisfies the invariant: pinning, promotion, lookup of a cached page, loading of a page from the
  store.
\<close>

section \<open>Promotion\<close>

lemma used_seg: "ent_ok T pgr i e \<Longrightarrow> used_ent T pgr i e \<Longrightarrow> \<not> ce_reserved e \<Longrightarrow> seg \<noteq> unassigned \<Longrightarrow> ent_ok T pgr i (e\<lparr>ce_segtype := seg\<rparr>)"
  by (simp add: ent_ok_def used_ent_def pins_ok_def pins_def)

lemma table_used:
  assumes "pool_core X s" "p_table s k = Some i"
  shows "i < length (frames s)" "i \<notin> X" "ent_ok (p_table s) (p_pgr s) i (frames s ! i)" "used_ent (p_table s) (p_pgr s) i (frames s ! i)"
    "\<not> ce_reserved (frames s ! i)" "ent_key (frames s ! i) = k"
proof -
  show *: "i < length (frames s)" "i \<notin> X" "\<not> ce_reserved (frames s ! i)" "ent_key (frames s ! i) = k"
    using pool_table[OF assms] by simp_all
  show "ent_ok (p_table s) (p_pgr s) i (frames s ! i)" using pool_entry[OF assms(1) *(1,2)] .
  then show "used_ent (p_table s) (p_pgr s) i (frames s ! i)"
    using pool_table[OF assms] by (auto simp: ent_ok_def free_ent_def)
qed

lemma on_w_cong: "m (p_w s) = m' (p_w s) \<Longrightarrow> on_w m s = on_w m' s"
  by (simp add: on_w_def)

definition step_spec :: "nat \<Rightarrow> pool \<Rightarrow> 'a res \<times> pool \<Rightarrow> bool" where
  "step_spec n s out \<longleftrightarrow> (case out of (r, s') \<Rightarrow> ((\<exists>x. r = Ok x) \<or> (\<exists>e. r = Err e)) \<and> pool_ok {} s' \<and> pins_below n s' \<and> safe s s')"

lemma promote_room:
  assumes "pool_ok {} s" "pins_below n s" "p_table s k = Some i" "ce_segtype (frames s ! i) = probationSegment"
    and "w_protectedCount (p_w s) < w_protectedCapacity (p_w s)"
  shows "step_spec n s (on_w (promoteToProtected (Some i)) s)"
proof -
  have core: "pool_core {} s" and co: "counts_ok (p_w s)" using assms(1) by (simp_all add: pool_ok_def)
  note u = table_used[OF core assms(3)]
  let ?e = "(frames s ! i)\<lparr>ce_segtype := protectedSegment\<rparr>"
  let ?s = "with_counts (w_windowCount (p_w s)) (w_probationCount (p_w s) - 1) (w_protectedCount (p_w s) + 1) (set_ent i ?e s)"
  have b: "pool_core {} (set_ent i ?e s)" "safe s (set_ent i ?e s)"
    using bits_core[OF core u(1,2), of ?e] used_seg[OF u(3-5), of protectedSegment] by simp_all
  have pos: "0 < unat (w_probationCount (p_w s))" using seg_pos[OF u(1)] assms(4) co by (simp add: counts_ok_def Let_def)
  note d = dec_word[OF pos] and inc = inc_word[OF assms(5)]
  have le: "w_probationCount (p_w s) - 1 \<le> w_probationCapacity (p_w s)"
    using co d by (auto simp: counts_ok_def Let_def word_le_nat_alt)
  have "counts_ok (p_w ?s)"
    using co d inc le assms(4) by (intro counts_ok_upd[OF co u(1)]) (simp_all add: counts_ok_def Let_def)
  moreover have "on_w (promoteToProtected (Some i)) s = (Ok (), ?s)"
  proof -
    have "on_w (promoteToProtected (Some i)) s = on_w (bindS (on_en i (both (updateSegmentCAS probationSegment protectedSegment))) (\<lambda>updated.
        if \<not> updated then returnS ()
        else bindS (pure (\<lambda>w. w\<lparr>w_probationCount := w_probationCount w - 1, w_protectedCount := w_protectedCount w + 1\<rparr>)) (\<lambda>_ w.
          if w_probationCount w > w_probationCapacity w then (Panic ''probation capacity surpassed.'', w) else (Ok (), w)))) s"
      using assms(4,5) by (intro on_w_cong) (simp add: promoteToProtected_def getSegType_def w_entry_def)
    also have "\<dots> = (Ok (), ?s)"
      using assms(4) le u(1) by (simp add: on_w_bindS bindS_def entry_steps on_w_pure on_w_guard bump_counts not_less) (simp add: on_w_def)
    finally show ?thesis .
  qed
  moreover have "pins_below n (set_ent i ?e s)" using pins_nth[OF assms(2) u(1)] by (intro pins_below_upd[OF assms(2)]) simp_all
  ultimately show ?thesis using b by (simp add: step_spec_def pool_ok_def)
qed

lemma promote_swap:
  assumes "pool_ok {} s" "pins_below n s" "n < 2 ^ 64 - 1" "p_table s k = Some i" "ce_segtype (frames s ! i) = probationSegment"
    and "\<not> w_protectedCount (p_w s) < w_protectedCapacity (p_w s)"
  shows "step_spec (Suc n) s (on_w (promoteToProtected (Some i)) s)"
proof -
  have ck: "clk_ok (w_cBuffer (p_w s))" using assms(1) by (simp add: pool_ok_def pool_core_def)
  obtain r s1 where c: "on_w (on_clk (EvictWithoutClearing protectedSegment)) s = (Ok r, s1)" and
     v: "case r of None \<Rightarrow> resweep s s1 \<and> (\<forall>e\<in>set (frames s). \<not> eligible protectedSegment e)
       | Some i \<Rightarrow> \<exists>s0. resweep s s0 \<and> s1 = set_ent i (take_victim (frames s0 ! i)) s0 \<and> i < length (frames s0) \<and> eligible protectedSegment (frames s0 ! i)"
    using claim[OF ck, of protectedSegment] by blast
  have run: "on_w (promoteToProtected (Some i)) s = (case r of
      None \<Rightarrow> (Err (BufferManagerError ''Could not find eligible victim.''), s1)
    | Some v \<Rightarrow> on_w (if v = i then panicS ''Evicted protected entry equal to current probation entry''
                 else
                   bindS (on_en v (both (updateSegmentCAS protectedSegment probationSegment))) (\<lambda>_.
                   bindS (on_en i (both (updateSegmentCAS probationSegment protectedSegment))) (\<lambda>_.
                   bindS (on_en v (pure unMarkForEviction)) (\<lambda>_.
                   on_en v unref)))) s1)"
  proof -
    have "on_w (promoteToProtected (Some i)) s = on_w (bindS (on_clk (EvictWithoutClearing protectedSegment)) (\<lambda>victim. case victim of
               None \<Rightarrow> failS (BufferManagerError ''Could not find eligible victim.'')
             | Some v \<Rightarrow>
                 if v = i then panicS ''Evicted protected entry equal to current probation entry''
                 else
                   bindS (on_en v (both (updateSegmentCAS protectedSegment probationSegment))) (\<lambda>_.
                   bindS (on_en i (both (updateSegmentCAS probationSegment protectedSegment))) (\<lambda>_.
                   bindS (on_en v (pure unMarkForEviction)) (\<lambda>_.
                   on_en v unref))))) s"
      using assms(5,6) by (intro on_w_cong) (simp add: promoteToProtected_def getSegType_def w_entry_def)
    then show ?thesis using c by (cases r) (simp_all add: on_w_bindS bindS_Ok, simp add: on_w_def failS_def)
  qed
  show ?thesis
  proof (cases r)
    case None
    then have "resweep s s1" using v by simp
    from resweep_ok[OF this assms(1,2)] have "pool_ok {} s1" "pins_below (Suc n) s1" "safe s s1" by (auto simp: pins_below_def)
    then show ?thesis using run None by (simp add: step_spec_def)
  next
    case (Some v)
    then obtain t where t: "resweep s t" "s1 = set_ent v (take_victim (frames t ! v)) t" "v < length (frames t)" "eligible protectedSegment (frames t ! v)"
      using v by auto
    have okt: "pool_ok {} t" "pins_below n t" "safe s t" by (rule resweep_ok[OF t(1) assms(1,2)])+
    then have core: "pool_core {} t" and co: "counts_ok (p_w t)" by (simp_all add: pool_ok_def)
    have Ti: "p_table t k = Some i" using resweep_pool(6)[OF t(1)] assms(4) by simp
    note u = table_used[OF core Ti]
    have seg: "ce_segtype (frames t ! i) = probationSegment" "ce_segtype (frames t ! v) = protectedSegment"
      using assms(5) t u(1) resweep_pool(5)[OF t(1)] swept_field[of "w_cBuffer (p_w s)" "w_cBuffer (p_w t)" i ce_segtype]
      by (auto simp: resweep_def eligible_def)
    then have ne: "v \<noteq> i" by auto
    let ?e = "(frames t ! i)\<lparr>ce_segtype := protectedSegment\<rparr>"
    let ?t1 = "set_ent i ?e t"
    have b: "pool_core {} ?t1" "safe t ?t1"
      using bits_core[OF core u(1,2), of ?e] used_seg[OF u(3-5), of protectedSegment] by simp_all
    have v1: "v < length (frames ?t1)" "frames ?t1 ! v = frames t ! v" "eligible protectedSegment (frames ?t1 ! v)" using t(3,4) ne by simp_all
    have p1: "pins_below n ?t1" using pins_nth[OF okt(2) u(1)] by (intro pins_below_upd[OF okt(2)]) simp_all
    let ?s = "set_ent v (settle probationSegment (frames t ! v)) ?t1"
    have st: "pool_core {} ?s" "safe ?t1 ?s" "pins_below (Suc n) ?s"
      using settle_core[OF b(1) p1 assms(3) v1(1,3), of probationSegment] v1(2) by simp_all
    have "seg_count z (frames ?s) = seg_count z (frames t)" for z
      using seg_count_update[OF u(1), of z ?e] seg_count_update[OF v1(1), of z "settle probationSegment (frames t ! v)"] v1(2) seg
      by (simp split: if_splits)
    moreover have "length (filter ce_reserved (frames ?s)) = length (filter ce_reserved (frames t))"
      using reserved_update[OF u(1), of ?e] reserved_update[OF v1(1), of "settle probationSegment (frames t ! v)"] v1(2) by simp
    ultimately have "counts_ok (p_w ?s)" using co by (simp add: counts_ok_def Let_def)
    moreover have "on_w (promoteToProtected (Some i)) s = (Ok (), ?s)"
    proof -
      have pin: "pins_ok (frames t ! v)" "\<not> ce_acc (frames t ! v)" "unat (ce_pinCount (frames t ! v)) < 2 ^ 64 - 1"
        using pool_entry[OF core t(3)] t(4) pins_nth[OF okt(2) t(3)] assms(3) by (auto simp: ent_ok_def eligible_def)
      show ?thesis
        using run Some ne t(2,3) u(1) seg unref_claimed[OF pin, of probationSegment]
        by (simp add: on_w_bindS bindS_def entry_steps on_unref unMarkForEviction_def set_ent_swap[of v i])
    qed
    ultimately show ?thesis using st safe_trans[OF okt(3)] safe_trans[OF b(2)] by (auto simp: step_spec_def pool_ok_def)
  qed
qed

lemma promote_ok:
  assumes "pool_ok {} s" "pins_below n s" "n < 2 ^ 64 - 1" "p_table s k = Some i"
  shows "step_spec (Suc n) s (on_w (promoteToProtected (Some i)) s)"
proof (cases "ce_segtype (frames s ! i) = probationSegment")
  case True
  show ?thesis
  proof (cases "w_protectedCount (p_w s) < w_protectedCapacity (p_w s)")
    case lt: True
    show ?thesis using promote_room[OF assms(1,2,4) True lt] pins_below_mono[of n _ "Suc n"] by (auto simp: step_spec_def)
  next
    case False
    then show ?thesis using promote_swap[OF assms True] by simp
  qed
next
  case False
  then have "on_w (promoteToProtected (Some i)) s = (Ok (), s)"
    by (simp add: on_w_def promoteToProtected_def getSegType_def w_entry_def)
  then show ?thesis using assms(1) pins_below_mono[OF assms(2), of "Suc n"] by (simp add: step_spec_def)
qed

lemma pool_filter:
  assumes "pool_ok X s" "lfu_ok t"
  shows "pool_ok X (s\<lparr>p_w := (p_w s)\<lparr>w_tinyFilter := t\<rparr>\<rparr>)" "safe s (s\<lparr>p_w := (p_w s)\<lparr>w_tinyFilter := t\<rparr>\<rparr>)"
    "pins_below n (s\<lparr>p_w := (p_w s)\<lparr>w_tinyFilter := t\<rparr>\<rparr>) = pins_below n s"
  using assms by (auto simp: pool_ok_def pool_core_def counts_ok_def Let_def safe_but_def stays_def calm_def view_def pins_below_def split: option.splits)

lemma wt_Increment_ok:
  assumes "pool_ok {} s" "pins_below n s" "n < 2 ^ 64 - 1" "p_table s k = Some i"
  shows "step_spec (Suc n) s (on_w (wt_Increment h (Some i)) s)"
proof -
  have core: "pool_core {} s" using assms(1) by (simp add: pool_ok_def)
  have seg: "ce_segtype (frames s ! i) \<noteq> unassigned" using table_used(4)[OF core assms(4)] by (simp add: used_ent_def)
  let ?m = "if getSegType (frames s ! i) = probationSegment then promoteToProtected (Some i) else returnS ()"
  obtain r s1 where m: "on_w ?m s = (r, s1)" by fastforce
  have st: "step_spec (Suc n) s (r, s1)"
    using promote_ok[OF assms] assms(1) pins_below_mono[OF assms(2), of "Suc n"] m by (auto simp: step_spec_def returnS_def on_w_def split: if_splits)
  have run: "on_w (wt_Increment h (Some i)) s = bindS (on_w ?m) (\<lambda>_. on_w (\<lambda>w.
       case IncrementItem h (toBytes (getKey (ce_entry (w_entry i w)))) (w_tinyFilter w) of
            (Ok _, t) \<Rightarrow> (Ok True, w\<lparr>w_tinyFilter := t\<rparr>)
          | (Err e, t) \<Rightarrow> (Panic ''err'', w\<lparr>w_tinyFilter := t\<rparr>)
          | (Panic p, t) \<Rightarrow> (Panic p, w\<lparr>w_tinyFilter := t\<rparr>)
          | (Blocked, t) \<Rightarrow> (Blocked, w\<lparr>w_tinyFilter := t\<rparr>))) s"
    unfolding on_w_bindS[symmetric] using seg
    by (intro on_w_cong) (simp add: wt_Increment_def w_entry_def getSegType_def)
  show ?thesis
  proof (cases r)
    case (Ok x)
    have ok1: "pool_ok {} s1" "pins_below (Suc n) s1" "safe s s1" using st by (auto simp: step_spec_def)
    let ?k = "toBytes (getKey (ce_entry (frames s1 ! i)))"
    have "lfu_ok (w_tinyFilter (p_w s1))" using ok1(1) by (simp add: pool_ok_def pool_core_def)
    moreover have "?k \<noteq> []" by (simp add: toBytes_def le32_def)
    ultimately obtain t where t: "IncrementItem h ?k (w_tinyFilter (p_w s1)) = (Ok (), t)" "lfu_ok t"
      using IncrementItem_ok[of "w_tinyFilter (p_w s1)" ?k h] by (metis prod.collapse)
    have "on_w (wt_Increment h (Some i)) s = (Ok True, s1\<lparr>p_w := (p_w s1)\<lparr>w_tinyFilter := t\<rparr>\<rparr>)"
      unfolding run using m Ok t(1) by (simp add: bindS_Ok on_w_def w_entry_def)
    then show ?thesis using pool_filter[OF ok1(1) t(2)] ok1(2,3) safe_trans by (auto simp: step_spec_def)
  next
    case (Err e)
    then show ?thesis unfolding run using m st by (simp add: bindS_def step_spec_def)
  qed (use st in \<open>simp_all add: step_spec_def\<close>)
qed

section \<open>A cached page\<close>

lemma refIfOccupied_used:
  "used_ent T pgr i e \<Longrightarrow> refIfOccupied e = (True, reference e)"
  by (simp add: refIfOccupied_def used_ent_def reference_def)

lemma reference_fields [simp]:
  "ce_entry (reference e) = ce_entry e" "ce_isOccupied (reference e) = ce_isOccupied e" "ce_reserved (reference e) = ce_reserved e"
  "ce_segtype (reference e) = ce_segtype e" "ce_acc (reference e)" "ce_markedForEviction (reference e) = ce_markedForEviction e"
  "ce_pinCount (reference e) = ce_pinCount e + 1"
  by (simp_all add: reference_def)

lemma seg_same:
  assumes "counts_ok (p_w s)" "i < length (frames s)" "ce_segtype e = ce_segtype (frames s ! i)" "ce_reserved e = ce_reserved (frames s ! i)"
  shows "counts_ok (p_w (set_ent i e s))"
proof -
  have "seg_count z ((frames s)[i := e]) = seg_count z (frames s)" for z
    using seg_count_update[OF assms(2), of z e] assms(3) by (simp split: if_splits)
  then show ?thesis using assms reserved_update[OF assms(2), of e] by (simp add: counts_ok_def Let_def)
qed

lemma reference_ok:
  assumes "pool_ok {} s" "pins_below n s" "n < 2 ^ 64 - 1" "p_table s k = Some i"
  shows "pool_ok {} (set_ent i (reference (frames s ! i)) s)" "safe_but {i} s (set_ent i (reference (frames s ! i)) s)"
    "pins_below (Suc n) (set_ent i (reference (frames s ! i)) s)"
proof -
  have core: "pool_core {} s" and co: "counts_ok (p_w s)" using assms(1) by (simp_all add: pool_ok_def)
  note u = table_used[OF core assms(4)]
  have pin: "unat (ce_pinCount (frames s ! i)) \<le> n" using pins_nth[OF assms(2) u(1)] .
  have "pins_ok (reference (frames s ! i))" using pins_ok_reference[of "frames s ! i"] u(3) pin assms(3) by (simp add: ent_ok_def)
  then have "ent_ok (p_table s) (p_pgr s) i (reference (frames s ! i))" using u(3-5) by (auto simp: ent_ok_def used_ent_def)
  then show "pool_ok {} (set_ent i (reference (frames s ! i)) s)" "safe_but {i} s (set_ent i (reference (frames s ! i)) s)"
    using bits_core[OF core u(1,2), of "reference (frames s ! i)"] seg_same[OF co u(1), of "reference (frames s ! i)"] by (simp_all add: pool_ok_def)
  have "unat (ce_pinCount (frames s ! i) + 1) \<le> Suc n" using pin assms(3) by (simp add: unat_word_ariths)
  then show "pins_below (Suc n) (set_ent i (reference (frames s ! i)) s)" by (intro pins_below_upd[OF assms(2)]) simp_all
qed

lemma get_cached:
  assumes "pool_ok {} s" "pins_below n s" "n < 2 ^ 64 - 2" "p_table s pid = Some i" "pid \<noteq> 0"
  shows "\<exists>s'. run_get h pid s = (Ok [ResMsg i True], s') \<and> pool_ok {} s' \<and> pins_below (n + 2) s' \<and> safe_but {i} s s'
     \<and> p_table s' pid = Some i \<and> ce_acc (frames s' ! i) \<and> pins (frames s' ! i) = Suc (pins (frames s ! i))
     \<and> ce_entry (frames s' ! i) = ce_entry (frames s ! i)"
proof -
  have core: "pool_core {} s" using assms(1) by (simp add: pool_ok_def)
  note u = table_used[OF core assms(4)]
  let ?s = "set_ent i (reference (frames s ! i)) s"
  have r: "pool_ok {} ?s" "safe_but {i} s ?s" "pins_below (Suc n) ?s" "p_table ?s pid = Some i"
    using reference_ok[OF assms(1,2) _ assms(4)] assms(3,4) by simp_all
  obtain o' s' where w: "on_w (wt_Increment h (Some i)) ?s = (o', s')" by fastforce
  have st: "step_spec (Suc (Suc n)) ?s (o', s')" using wt_Increment_ok[OF r(1,3) _ r(4), of h] assms(3) w by simp
  have "on_e i (both refIfOccupied) s = (Ok True, ?s)"
    using refIfOccupied_used[OF u(4)] by (simp add: on_e_def on_both)
  moreover have "\<not> IsDead (ce_entry (entry_of i ?s))"
    using u(1,4) by (simp add: IsDead_def entry_of_def w_entry_def used_ent_def)
  ultimately have "run_get h pid s = (Ok [ResMsg i True], s')"
    using assms(4,5) w st by (auto simp: run_get_def bindS_Ok get_hit_def step_spec_def)
  moreover have "p_table s' pid = Some i \<and> ce_acc (frames s' ! i) \<and> pins (frames s' ! i) = pins (frames ?s ! i)
      \<and> ce_entry (frames s' ! i) = ce_entry (frames s ! i)"
    using st r(4) u(1) by (auto simp: step_spec_def safe_but_def stays_def)
  moreover have "pins (frames ?s ! i) = Suc (pins (frames s ! i))"
  proof -
    have "unat (ce_pinCount (frames s ! i)) < 2 ^ 64 - 1" using pins_nth[OF assms(2) u(1)] assms(3) by simp
    moreover have "pins_ok (frames s ! i)" using u(3) by (simp add: ent_ok_def)
    ultimately show ?thesis using pins_ok_reference u(1) by simp
  qed
  ultimately show ?thesis using st safe_but_trans[OF r(2), of "{}"] by (auto simp: step_spec_def)
qed

end
