(* ===== verification/PoolMiss.thy ===== *)
theory PoolMiss
  imports PoolGet
begin

text \<open>
  A claimed frame is filled: with a page from the store (\<^verbatim>\<open>Get\<close> of a page that is not cached) or with a new page (\<^verbatim>\<open>newFrame\<close>).
\<close>

section \<open>A filled frame joins the pool\<close>

definition filled :: "nat \<Rightarrow> u32 \<Rightarrow> clockentry \<Rightarrow> bool" where
  "filled i k e \<longleftrightarrow> ce_isOccupied e \<and> ce_segtype e \<noteq> unassigned \<and> \<not> ce_markedForEviction e \<and> ent_key e = k \<and> valid_id k
     \<and> has_id k (ent_bytes e) \<and> alive (ent_bytes e) \<and> \<not> fr_isDeleted (ce_entry e) \<and> ce_acc e \<and> pins_ok e
     \<and> fr_parentEntry (ce_entry e) = Some i \<and> \<not> ce_reserved e"

text \<open>The states agree but for page \<open>k\<close>; pinned frames stay where they are.\<close>

definition only_changes :: "nat set \<Rightarrow> u32 \<Rightarrow> bytes \<Rightarrow> pool \<Rightarrow> pool \<Rightarrow> bool" where
  "only_changes X k b s s' \<longleftrightarrow> calm X s s' \<and> view s' k = Some b \<and> (\<forall>q. valid_id q \<longrightarrow> q \<noteq> k \<longrightarrow> view s' q = view s q)
     \<and> (\<forall>q j. p_table s q = Some j \<longrightarrow> q \<noteq> k \<longrightarrow> ce_acc (frames s ! j) \<longrightarrow>
          stays X q j s s')"

lemma fill_core:
  assumes "pool_core {i} s" "i < length (frames s)" "filled i k e" "p_table s k = None" "store_ok pgr"
    and acc: "ce_acc (frames s ! i)" and res: "\<not> ce_reserved (frames s ! i)" and ids: "pgr_ids pgr = pgr_ids (p_pgr s)"
    and kept: "\<And>q. valid_id q \<Longrightarrow> kept_page pgr q = kept_page (p_pgr s) q"
    and clean: "\<not> fr_dirty (ce_entry e) \<Longrightarrow> kept_page pgr k = Some (undirty (ent_bytes e))"
  defines "s' \<equiv> set_ent i e (s\<lparr>p_pgr := pgr, p_table := (p_table s)(k \<mapsto> i)\<rparr>)"
  shows "pool_core {} s'" "only_changes {i} k (undirty (ent_bytes e)) s s'"
proof -
  have nth: "frames s' ! j = (if j = i then e else frames s ! j)" if "j < length (frames s)" for j
    using that by (simp add: s'_def nth_list_update)
  have same: "length (frames s') = length (frames s)" "p_table s' = (p_table s)(k \<mapsto> i)" "p_pgr s' = pgr" "w_tinyFilter (p_w s') = w_tinyFilter (p_w s)"
      "clk_ok (w_cBuffer (p_w s'))" "lfu_ok (w_tinyFilter (p_w s))"
    using assms(1) by (simp_all add: s'_def pool_core_def)
  have T: "j < length (frames s)" "j \<noteq> i" "ce_isOccupied (frames s ! j)" "\<not> ce_reserved (frames s ! j)" "ent_key (frames s ! j) = q"
    if "p_table s q = Some j" for q j using pool_table[OF assms(1) that] by simp_all
  have "ent_ok (p_table s') pgr j (frames s' ! j)" if j: "j < length (frames s)" for j
  proof (cases "j = i")
    case True
    then show ?thesis using nth[OF j] assms(3) clean same(2) by (auto simp: ent_ok_def used_ent_def filled_def)
  next
    case False
    have ej: "ent_ok (p_table s) (p_pgr s) j (frames s ! j)" using pool_entry[OF assms(1) j] False by simp
    have "used_ent (p_table s') pgr j (frames s ! j)" if uj: "used_ent (p_table s) (p_pgr s) j (frames s ! j)"
      using uj kept assms(4) same(2) by (auto simp: used_ent_def)
    then show ?thesis using ej nth[OF j] False by (auto simp: ent_ok_def)
  qed
  moreover have "j < length (frames s') \<and> ce_isOccupied (frames s' ! j) \<and> \<not> ce_reserved (frames s' ! j) \<and> ent_key (frames s' ! j) = q"
    if "p_table s' q = Some j" for q j
    using that T[of q j] nth[of j] same assms(2,3) by (auto simp: filled_def split: if_splits)
  ultimately show "pool_core {} s'" using same assms(5) by (simp add: pool_core_def)
  have "view s' q = view s q" if "valid_id q" "q \<noteq> k" for q
    using that T[of q] nth kept same by (auto simp: view_def split: option.splits)
  moreover have "view s' k = Some (undirty (ent_bytes e))" using nth[OF assms(2)] same by (simp add: view_def)
  moreover have "stays {i} q j s s'" if "p_table s q = Some j" "q \<noteq> k" "ce_acc (frames s ! j)" for q j
    using that T[OF that(1)] nth same by (auto simp: stays_def)
  moreover have "calm {i} s s'"
  proof -
    have "ce_acc (frames s ! j)" if "j < length (frames s)" "ce_acc (frames s' ! j)" for j
      using that nth[OF that(1)] acc by (auto split: if_splits)
    moreover have "ce_reserved (frames s' ! j) = ce_reserved (frames s ! j)" if "j < length (frames s)" for j
      using nth[OF that] res assms(3) by (simp add: filled_def)
    ultimately show ?thesis using same(1,2) ids by (simp add: calm_def) (simp add: s'_def)
  qed
  ultimately show "only_changes {i} k (undirty (ent_bytes e)) s s'" by (auto simp: only_changes_def)
qed

lemma only_changes_safe: "only_changes X k b s s' \<Longrightarrow> view s k = Some b \<Longrightarrow> p_table s k = None \<Longrightarrow> safe_but X s s'"
  unfolding only_changes_def safe_but_def by (metis option.discI)

lemma safe_only_changes:
  assumes "safe_but X s t" "only_changes Y k b t s'"
  shows "only_changes (X \<union> Y) k b s s'"
proof -
  have "stays (X \<union> Y) q j s s'" if "p_table s q = Some j" "q \<noteq> k" "ce_acc (frames s ! j)" for q j
    using assms that stays_trans[of X q j s t Y s'] by (simp add: only_changes_def safe_but_def)
  then show ?thesis using assms calm_trans by (auto simp: only_changes_def safe_but_def)
qed

lemma only_changes_safe_trans:
  assumes "only_changes X k b s t" "safe_but Y t s'" "valid_id k"
  shows "only_changes (X \<union> Y) k b s s'"
proof -
  have "stays (X \<union> Y) q j s s'" if "p_table s q = Some j" "q \<noteq> k" "ce_acc (frames s ! j)" for q j
    using assms that stays_trans[of X q j s t Y s'] by (simp add: only_changes_def safe_but_def)
  then show ?thesis using assms calm_trans by (auto simp: only_changes_def safe_but_def)
qed

lemma only_changes_trans:
  assumes "only_changes X k b s t" "only_changes Y k c t s'"
  shows "only_changes (X \<union> Y) k c s s'"
proof -
  have "stays (X \<union> Y) q j s s'" if "p_table s q = Some j" "q \<noteq> k" "ce_acc (frames s ! j)" for q j
    using assms that stays_trans[of X q j s t Y s'] by (simp add: only_changes_def)
  then show ?thesis using assms calm_trans by (auto simp: only_changes_def)
qed

section \<open>The latch of a frame\<close>

definition latch :: "clockentry \<Rightarrow> clockentry" where
  "latch e = e\<lparr>ce_entry := (ce_entry e)\<lparr>fr_mu := \<lparr>readers = 0, writer = True\<rparr>\<rparr>\<rparr>"

definition unlatch :: "clockentry \<Rightarrow> clockentry" where
  "unlatch e = e\<lparr>ce_entry := (ce_entry e)\<lparr>fr_mu := free_mutex\<rparr>\<rparr>"

lemma latched_ok:
  assumes "unlatched (ce_entry (frames s ! i))" "i < length (frames s)"
    and "m (set_ent i (latch (frames s ! i)) s) = (Ok r, s1)" "fr_mu (ce_entry (frames s1 ! i)) = \<lparr>readers = 0, writer = True\<rparr>"
  shows "latched i m s = (Ok r, set_ent i (unlatch (frames s1 ! i)) s1)"
proof -
  have "on_frame (Acquire False) (frames s ! i) = (Ok (), latch (frames s ! i))"
    using assms(1) by (simp add: on_frame_def Acquire_def on_latch_def Lock_def unlatched_def free_mutex_def latch_def)
  note a = on_entry_step[where m = "on_frame (Acquire False)", OF this]
  have "on_frame (Release False) (frames s1 ! i) = (Ok (), unlatch (frames s1 ! i))"
    using assms(4) by (simp add: on_frame_def Release_def on_latch_def Unlock_def free_mutex_def unlatch_def)
  note r = on_entry_step[where m = "on_frame (Release False)", OF this]
  show ?thesis using a r assms(3) by (simp add: latched_def on_e_def bindS_def returnS_def)
qed

section \<open>Loading a page\<close>

lemma with_frame_eq:
  assumes "lend i m (ent_bytes (frames s ! i)) (p_pgr s) = ((r, b), pgr)"
  shows "with_frame i m s = (r, set_ent i ((frames s ! i)\<lparr>ce_entry := (ce_entry (frames s ! i))\<lparr>fr_page := (fr_page (ce_entry (frames s ! i)))\<lparr>pgeData := b\<rparr>\<rparr>\<rparr>)
      (s\<lparr>p_pgr := pgr\<rparr>))"
  using assms by (simp add: with_frame_def w_entry_def set_bytes_def set_ent_def set_clk_def upd_entry_def)

lemma put_at_same: "i \<le> j \<Longrightarrow> j \<le> length xs \<Longrightarrow> put_at i (slice i j xs) xs = xs"
proof -
  assume "i \<le> j" "j \<le> length xs"
  then have "put_at i (slice i j xs) xs = take i xs @ take (j - i) (drop i xs) @ drop (j - i) (drop i xs)"
    by (simp add: put_at_def slice_def)
  then show ?thesis by (simp only: append_take_drop_id)
qed

lemma SetFlag_already: "BitIsSet f p \<Longrightarrow> p < 8 \<Longrightarrow> SetFlag f [p] = f"
  by (rule bit_word_eqI) (auto simp: SetFlag_def BitIsSet_bit bit_simps bit_flag_mask)

lemma UpdatePageMeta_same:
  assumes "has_id pid (pgeData p)" "pid \<noteq> 0"
  shows "UpdatePageMeta p pid (BitIsSet (pgeData p ! 0) IsInternal) = (Ok (), p\<lparr>PageId := pid\<rparr>)"
  using assms put_at_same[of 1 5 "pgeData p"] SetFlag_already[of "pgeData p ! 0" IsInternal]
  by (simp add: UpdatePageMeta_def initializePage_def put32_def on_flag_def has_id_def Let_def)

text \<open>The frame after the load.\<close>

definition loaded :: "u32 \<Rightarrow> bytes \<Rightarrow> clockentry \<Rightarrow> clockentry" where
  "loaded pid b e = e\<lparr>ce_markedForEviction := False, ce_isOccupied := True,
     ce_entry := (ce_entry e)\<lparr>fr_page := \<lparr>pgeData = b, PageId = pid\<rparr>, fr_isInternal := BitIsSet (b ! 0) IsInternal, fr_isDeleted := False, fr_key := pid\<rparr>\<rparr>"

lemma loaded_fields [simp]:
  "ce_isOccupied (loaded pid b e)" "\<not> ce_markedForEviction (loaded pid b e)" "ce_segtype (loaded pid b e) = ce_segtype e"
  "ce_reserved (loaded pid b e) = ce_reserved e" "ce_acc (loaded pid b e) = ce_acc e" "ce_pinCount (loaded pid b e) = ce_pinCount e"
  "ce_unpinCount (loaded pid b e) = ce_unpinCount e" "ent_key (loaded pid b e) = pid" "ent_bytes (loaded pid b e) = b"
  "\<not> fr_isDeleted (ce_entry (loaded pid b e))" "fr_dirty (ce_entry (loaded pid b e)) = fr_dirty (ce_entry e)"
  "fr_parentEntry (ce_entry (loaded pid b e)) = fr_parentEntry (ce_entry e)" "fr_mu (ce_entry (loaded pid b e)) = fr_mu (ce_entry e)"
  by (simp_all add: loaded_def)

lemma put_new: "p_table s k = None \<Longrightarrow> fr_parentEntry (ce_entry (frames s ! i)) = Some i \<Longrightarrow> i < length (frames s) \<Longrightarrow>
    put h k i d s = (Ok i, s\<lparr>p_table := (p_table s)(k \<mapsto> i)\<rparr>)"
  using set_ent_same[of i "s\<lparr>p_table := (p_table s)(k \<mapsto> i)\<rparr>"]
  by (simp add: put_def pure_def[of _ s] bindS_def on_e_def entry_steps returnS_def)

lemma SetData_eq: "fr_parentEntry (ce_entry (frames s ! i)) = Some i \<Longrightarrow> i < length (frames s) \<Longrightarrow>
    on_w (on_clk (SetData i p d)) s = (Ok (), set_ent i (markOccupied ((frames s ! i)\<lparr>ce_entry := SetData_frame p d (ce_entry (frames s ! i))\<rparr>)) s)"
  by (simp add: on_w_def on_clk_def SetData_def SetData_frame_def Let_def upd_entry_def set_ent_def set_clk_def)

definition got :: "nat \<Rightarrow> bytes \<Rightarrow> Pager \<Rightarrow> pool \<Rightarrow> pool" where
  "got i b pgr s = set_ent i ((unMarkForEviction (frames s ! i))\<lparr>ce_entry := (ce_entry (frames s ! i))\<lparr>fr_page := (fr_page (ce_entry (frames s ! i)))\<lparr>pgeData := b\<rparr>\<rparr>\<rparr>)
     (s\<lparr>p_pgr := pgr\<rparr>)"

lemma load_read:
  assumes "i < length (frames s)" "lend i (\<lambda>a. ReadPage pid a) (ent_bytes (frames s ! i)) (p_pgr s) = ((Ok (), b), pgr)"
  shows "load_frame h pid i s =
     (if of_le32 (slice 1 5 b) \<noteq> pid then readd i (BufferManagerError ''Invalid pageId provided: %d, instead got %d'') (got i b pgr s)
      else (case UpdatePageMeta ((fr_page (ce_entry (frames s ! i)))\<lparr>pgeData := b\<rparr>) pid (BitIsSet (b ! 0) IsInternal) of
          (Err _, _) \<Rightarrow> (Ok (Some (BufferManagerError ''err'')), got i b pgr s)
        | (Panic x, _) \<Rightarrow> (Panic x, got i b pgr s)
        | (Blocked, _) \<Rightarrow> (Blocked, got i b pgr s)
        | (Ok _, page) \<Rightarrow>
            bindS (on_e i (pure (\<lambda>e. e\<lparr>ce_entry := (ce_entry e)\<lparr>fr_page := page\<rparr>\<rparr>))) (\<lambda>_.
            bindS (on_w (on_clk (SetData i page False))) (\<lambda>_.
            bindS (put h pid i False) (\<lambda>_. returnS None))) (got i b pgr s)))"
proof -
  define s0 where "s0 = set_ent i (unMarkForEviction (frames s ! i)) s"
  have e0: "frames s0 ! i = unMarkForEviction (frames s ! i)" "p_pgr s0 = p_pgr s"
    using assms(1) by (simp_all add: s0_def)
  have m: "on_e i (pure unMarkForEviction) s = (Ok (), s0)" by (simp add: on_e_def entry_steps s0_def)
  have w: "with_frame i (\<lambda>a. ReadPage pid a) s0 = (Ok (), got i b pgr s)"
    using with_frame_eq[of i "\<lambda>a. ReadPage pid a" s0] assms(2) e0 by (simp add: s0_def got_def unMarkForEviction_def)
  have e1: "ce_entry (entry_of i (got i b pgr s)) = (ce_entry (frames s ! i))\<lparr>fr_page := (fr_page (ce_entry (frames s ! i)))\<lparr>pgeData := b\<rparr>\<rparr>"
    using assms(1) by (simp add: entry_of_def w_entry_def got_def)
  show ?thesis
    unfolding load_frame_def bindS_Ok[where m = "on_e i (pure unMarkForEviction)", OF m] using w e1
    by (simp add: RawBufferSlice_def GetPageByteData_def Let_def)
qed

lemma load_frame_ok:
  assumes "i < length (frames s)" "fr_parentEntry (ce_entry (frames s ! i)) = Some i" "p_table s pid = None" "pid \<noteq> 0"
    and "lend i (\<lambda>a. ReadPage pid a) (ent_bytes (frames s ! i)) (p_pgr s) = ((Ok (), b), pgr)" "has_id pid b"
  shows "load_frame h pid i s = (Ok None, set_ent i (loaded pid b (frames s ! i)) (s\<lparr>p_pgr := pgr, p_table := (p_table s)(pid \<mapsto> i)\<rparr>))"
proof -
  let ?p = "(fr_page (ce_entry (frames s ! i)))\<lparr>pgeData := b\<rparr>"
  have b: "of_le32 (slice 1 5 b) = pid" using has_id_of_le32[OF assms(6)] .
  have u: "UpdatePageMeta ?p pid (BitIsSet (b ! 0) IsInternal) = (Ok (), ?p\<lparr>PageId := pid\<rparr>)"
    using UpdatePageMeta_same[of pid ?p] assms(4,6) by simp
  have ent: "(markOccupied ((unMarkForEviction e)\<lparr>ce_entry := SetData_frame (p\<lparr>pgeData := b, PageId := pid\<rparr>) False ((ce_entry e)\<lparr>fr_page := p\<lparr>pgeData := b, PageId := pid\<rparr>\<rparr>)\<rparr>)) = loaded pid b e"
    for e p by (cases e; cases "ce_entry e"; cases p) (simp add: markOccupied_def unMarkForEviction_def SetData_frame_def loaded_def page_IsInternal_def Let_def)
  show ?thesis
    unfolding load_read[OF assms(1,5)] using assms(1-3) b u
    by (simp add: got_def bindS_def on_e_def entry_steps SetData_eq put_new returnS_def ent)
qed

lemma load_frame_missing:
  assumes "i < length (frames s)"
    and "lend i (\<lambda>a. ReadPage pid a) (ent_bytes (frames s ! i)) (p_pgr s) = ((Ok (), b), pgr)" "length b = PAGE_SIZE_BYTES" "\<not> has_id pid b"
  shows "load_frame h pid i s = (Ok (Some (BufferManagerError ''Invalid pageId provided: %d, instead got %d'')),
      set_ent i (freed (frames s ! i)) (s\<lparr>p_pgr := pgr\<rparr>))"
proof -
  have b: "of_le32 (slice 1 5 b) \<noteq> pid" using has_id_iff[OF assms(3)] assms(4) by simp
  have ent: "reset_fields ((unMarkForEviction e)\<lparr>ce_entry := f\<rparr>) = unMarkForEviction ((reset_fields e)\<lparr>ce_entry := f\<rparr>)" for e f
    by (cases e) (simp add: reset_fields_def unMarkForEviction_def)
  have "on_w (readdFrameToPool (Some i)) (got i b pgr s) = (Ok (), set_ent i (freed (frames s ! i)) (s\<lparr>p_pgr := pgr\<rparr>))"
    using assms(1) by (simp add: got_def readdFrameToPool_def clearEntry_def frame_Clear_eq on_w_def on_clk_def set_ent_def set_clk_def upd_entry_def
        freed_def ent)
  then show ?thesis unfolding load_read[OF assms(1,2)] using b by (simp add: readd_def)
qed


section \<open>A page that is not cached\<close>

text \<open>A claimed frame is pinned once, unlatched and zeroed.\<close>

lemma claimed_entry:
  assumes "claimed s i"
  shows "i < length (frames s)" "ce_acc (frames s ! i)" "pins_ok (frames s ! i)" "\<not> ce_reserved (frames s ! i)" "ce_segtype (frames s ! i) = windowSegment"
    "fr_parentEntry (ce_entry (frames s ! i)) = Some i" "unlatched (ce_entry (frames s ! i))" "\<not> fr_dirty (ce_entry (frames s ! i))"
    "ent_bytes (frames s ! i) = replicate PAGE_SIZE_BYTES 0" "pins (frames s ! i) = 1"
proof -
  obtain e where e: "free_ent e" "pins_ok e" "\<not> ce_reserved e" "fr_parentEntry (ce_entry e) = Some i" "unat (ce_pinCount e) < 2 ^ 64 - 1"
      "frames s ! i = (take_victim e)\<lparr>ce_segtype := windowSegment\<rparr>" "i < length (frames s)"
    using assms by (auto simp: claimed_def)
  then show "i < length (frames s)" "ce_acc (frames s ! i)" "\<not> ce_reserved (frames s ! i)" "ce_segtype (frames s ! i) = windowSegment"
    "fr_parentEntry (ce_entry (frames s ! i)) = Some i" "unlatched (ce_entry (frames s ! i))" "\<not> fr_dirty (ce_entry (frames s ! i))"
    "ent_bytes (frames s ! i) = replicate PAGE_SIZE_BYTES 0"
    by (simp_all add: free_ent_def)
  have "pins_ok (reference e)" "pins (reference e) = 1"
    using pins_ok_reference[OF e(2)] e(1,2,5) by (auto simp: free_ent_def pins_ok_def)
  then show "pins_ok (frames s ! i)" "pins (frames s ! i) = 1"
    unfolding e(6) by (simp_all add: pins_ok_def pins_def take_victim_def reference_def)
qed

lemma unlatch_latch: "unlatched (ce_entry e) \<Longrightarrow> unlatch (loaded pid b (latch e)) = loaded pid b e" "unlatched (ce_entry e) \<Longrightarrow> unlatch (freed (latch e)) = freed e"
  by (cases e; cases "ce_entry e"; simp add: unlatch_def latch_def loaded_def freed_def reset_fields_def unMarkForEviction_def unlatched_def)+

lemma latch_fields [simp]: "ent_bytes (latch e) = ent_bytes e" "fr_parentEntry (ce_entry (latch e)) = fr_parentEntry (ce_entry e)"
    "fr_mu (ce_entry (latch e)) = \<lparr>readers = 0, writer = True\<rparr>" "fr_mu (ce_entry (freed e)) = fr_mu (ce_entry e)"
  by (simp_all add: latch_def freed_def reset_fields_def unMarkForEviction_def)

lemma get_load:
  assumes "pool_ok {i} s" "claimed s i" "pins_below n s" "p_table s pid = None" "valid_id pid" "kept_page (p_pgr s) pid = Some b"
    and free: "getFreeFrame h r = (Ok i, s)"
  shows "\<exists>s'. get_miss h pid r = (Ok [ResMsg i False], s')
     \<and> pool_ok {} s' \<and> pins_below n s' \<and> safe_but {i} s s' \<and> p_table s' pid = Some i \<and> ce_acc (frames s' ! i) \<and> pins (frames s' ! i) = 1
     \<and> unlatched (ce_entry (frames s' ! i))"
proof -
  note c = claimed_entry[OF assms(2)]
  have core: "pool_core {i} s" and co: "counts_ok (p_w s)" using assms(1) by (simp_all add: pool_ok_def)
  have st: "store_ok (p_pgr s)" using core by (simp add: pool_core_def)
  obtain pgr b' where r: "lend i (\<lambda>a. ReadPage pid a) (ent_bytes (frames s ! i)) (p_pgr s) = ((Ok (), b'), pgr)" "store_ok pgr"
      "kept_page pgr = kept_page (p_pgr s)" "has_id pid b'" "alive b'" "b = undirty b'" "pgr_ids pgr = pgr_ids (p_pgr s)"
    using pages.rd[OF st, of pid "ent_bytes (frames s ! i)" i] assms(5,6) c(9) by (auto simp: valid_id_def split: if_splits)
  let ?e = "loaded pid b' (frames s ! i)"
  let ?s = "set_ent i ?e (s\<lparr>p_pgr := pgr, p_table := (p_table s)(pid \<mapsto> i)\<rparr>)"
  define l where "l = set_ent i (latch (frames s ! i)) s"
  have "load_frame h pid i l = (Ok None, set_ent i (loaded pid b' (latch (frames s ! i))) (s\<lparr>p_pgr := pgr, p_table := (p_table s)(pid \<mapsto> i)\<rparr>))"
    using load_frame_ok[of i l pid b' pgr h] c assms(4,5) r(1,4) by (simp add: l_def valid_id_def)
  then have run: "get_miss h pid r = (Ok [ResMsg i False], ?s)"
    using latched_ok[of s i "bindS (load_frame h pid i) (\<lambda>err. case err of
          Some e \<Rightarrow> returnS [ErrMsg (Some e)] | None \<Rightarrow> returnS [ResMsg i False])"] c(1,7) unlatch_latch(1)[OF c(7)]
    by (simp add: get_miss_def free l_def[symmetric] bindS_def returnS_def)
  have "filled i pid ?e" using c r(4,5) assms(5) by (simp add: filled_def pins_ok_def pins_def)
  from fill_core[OF core c(1) this assms(4) r(2) c(2,4) r(7)] r(3,6) assms(6)
  have f: "pool_core {} ?s" "only_changes {i} pid b s ?s" by simp_all
  have "view s pid = Some b" using assms(4,6) by (simp add: view_def)
  then have "safe_but {i} s ?s" using only_changes_safe[OF f(2)] assms(4) by simp
  moreover have "counts_ok (p_w ?s)" using seg_same[of "s\<lparr>p_pgr := pgr, p_table := (p_table s)(pid \<mapsto> i)\<rparr>" i ?e] co c(1) by simp
  moreover have "pins_below n ?s"
    using pins_nth[OF assms(3) c(1)] assms(3) by (intro pins_below_upd[of n _ n]) (simp_all add: pins_below_def)
  moreover have "pins (frames ?s ! i) = 1" "unlatched (ce_entry (frames ?s ! i))" using c(1,7,10) by (simp_all add: pins_def unlatched_def)
  ultimately show ?thesis using run f(1) c(1,2) by (simp add: pool_ok_def)
qed


lemma view_cached: "p_table s k = Some i \<Longrightarrow> view s k = Some (undirty (ent_bytes (frames s ! i)))"
  by (simp add: view_def)

text \<open>What a request for a page gives: the pinned frame with the page, or an error when no frame can be freed.\<close>

definition get_spec :: "pool \<Rightarrow> nat \<Rightarrow> u32 \<Rightarrow> bytes \<Rightarrow> (nat \<times> bool) res \<times> pool \<Rightarrow> bool" where
  "get_spec s n pid b out \<longleftrightarrow> (case out of
      (Ok (i, _), s') \<Rightarrow> pool_ok {} s' \<and> pins_below n s' \<and> safe_but {i} s s' \<and> p_table s' pid = Some i \<and> ce_acc (frames s' ! i)
        \<and> undirty (ent_bytes (frames s' ! i)) = b \<and> (case p_table s pid of
            Some j \<Rightarrow> j = i \<and> pins (frames s' ! i) = Suc (pins (frames s ! i)) \<and> ce_entry (frames s' ! i) = ce_entry (frames s ! i)
          | None \<Rightarrow> pins (frames s' ! i) = 1 \<and> unlatched (ce_entry (frames s' ! i)))
    | (Err _, s') \<Rightarrow> p_table s pid = None \<and> w_windowCount (p_w s) = w_windowCapacity (p_w s) \<and> \<not> can_evict s \<and> spared s s'
    | _ \<Rightarrow> False)"

lemma get_flags: "BitIsSet (0x80 :: u8) GET_CREATE" "\<not> BitIsSet (0x80 :: u8) DELETE" "BitIsSet (0x40 :: u8) DELETE"
  by (simp_all add: BitIsSet_bit)

lemma sh_get_run: "sh_get h pid s = bindS (run_get h pid) (\<lambda>msgs. case msgs of
         ResMsg i hit # _ \<Rightarrow> returnS (i, hit)
       | ErrMsg (Some e) # _ \<Rightarrow> failS e
       | ErrMsg None # _ \<Rightarrow> panicS ''nil frame''
       | [] \<Rightarrow> (\<lambda>s. (Blocked, s))) s"
  using get_flags by (simp add: sh_get_def runJob_def)

lemma not_entered:
  assumes "safe_but X s t" "pool_core X t" "p_table s k = None"
  shows "p_table t k = None"
proof (cases "p_table t k")
  case (Some j)
  then have "j \<notin> X" using pool_table[OF assms(2)] by blast
  then have "p_table s k = Some j" using assms(1) Some unfolding safe_but_def calm_def by blast
  then show ?thesis using assms(3) by simp
qed

lemma sh_get_ok:
  assumes "pool_ok {} s" "pins_below n s" "n < 2 ^ 64 - 2" "valid_id pid" "view s pid = Some b"
  shows "get_spec s (n + 2) pid b (sh_get h pid s)"
proof (cases "p_table s pid")
  case (Some i)
  have nz: "pid \<noteq> 0" using assms(4) by (simp add: valid_id_def)
  obtain s' where g: "run_get h pid s = (Ok [ResMsg i True], s')" "pool_ok {} s'" "pins_below (n + 2) s'" "safe_but {i} s s'"
     "p_table s' pid = Some i" "ce_acc (frames s' ! i)" "pins (frames s' ! i) = Suc (pins (frames s ! i))"
     "ce_entry (frames s' ! i) = ce_entry (frames s ! i)"
    using get_cached[OF assms(1-3) Some nz] by blast
  have "view s' pid = Some b" using g(4) assms(4,5) by (simp add: safe_but_def)
  then show ?thesis using g Some view_cached[OF g(5)] by (simp add: sh_get_run bindS_def returnS_def get_spec_def)
next
  case None
  have run: "run_get h pid s = get_miss h pid s" using None assms(4) by (simp add: run_get_def valid_id_def)
  have f: "free_spec s (n + 2) (getFreeFrame h s)" using getFreeFrame_ok[OF assms(1-3)] .
  show ?thesis
  proof (cases "fst (getFreeFrame h s)")
    case (Ok i)
    then obtain t where t: "getFreeFrame h s = (Ok i, t)" by (cases "getFreeFrame h s") auto
    then have ok: "pool_ok {i} t" "pins_below (n + 2) t" "safe_but {i} s t" "claimed t i" using f by (simp_all add: free_spec_def)
    have vt: "view t pid = Some b" using ok(3) assms(4,5) by (simp add: safe_but_def)
    have Tt: "p_table t pid = None" using not_entered[OF ok(3) _ None] ok(1) by (simp add: pool_ok_def)
    then have "kept_page (p_pgr t) pid = Some b" using vt by (simp add: view_def)
    from get_load[OF ok(1,4,2) Tt assms(4) this t] obtain s' where g: "get_miss h pid s = (Ok [ResMsg i False], s')"
        "pool_ok {} s'" "pins_below (n + 2) s'" "safe_but {i} t s'" "p_table s' pid = Some i" "ce_acc (frames s' ! i)" "pins (frames s' ! i) = 1" "unlatched (ce_entry (frames s' ! i))"
      by blast
    have "view s' pid = Some b" using g(4) vt assms(4) by (simp add: safe_but_def)
    moreover have "safe_but {i} s s'" using safe_but_trans[OF ok(3) g(4)] by simp
    ultimately show ?thesis using g run None view_cached[OF g(5)] by (simp add: sh_get_run bindS_def returnS_def get_spec_def)
  next
    case (Err e)
    then obtain t where "getFreeFrame h s = (Err e, t)" by (cases "getFreeFrame h s") auto
    then show ?thesis using f run None by (simp add: sh_get_run get_miss_def bindS_def failS_def get_spec_def free_spec_def)
  qed (use f in \<open>cases "getFreeFrame h s"; auto simp: free_spec_def\<close>)+
qed

end
