(* ===== verification/PoolNew.thy ===== *)
theory PoolNew
  imports PoolMiss
begin

text \<open>
  New pages (\<^verbatim>\<open>newFrame\<close>), writes of clients to pinned frames, giving pins back, and the background writer: each changes the page it is asked
  to change and no other.
\<close>

section \<open>New pages\<close>

definition new_bytes :: "u32 \<Rightarrow> bool \<Rightarrow> bytes" where
  "new_bytes pid internal = (let z = put_at 1 (le32 pid) (replicate PAGE_SIZE_BYTES 0) in if internal then z[0 := SetFlag 0 [IsInternal]] else z)"

lemma new_bytes: "has_id pid (new_bytes pid internal)" "alive (new_bytes pid internal)"
proof -
  have z: "put_at 1 (le32 pid) (replicate PAGE_SIZE_BYTES 0) ! 0 = 0" by (simp add: nth_put_at)
  show "has_id pid (new_bytes pid internal)" by (simp add: new_bytes_def Let_def has_id_def)
  show "alive (new_bytes pid internal)" 
    using z BitIsSet_bit[of Dead "0 :: u8"] by (simp add: new_bytes_def Let_def alive_def hflags.is_set_set)
qed

lemma initializePage_new: "pid \<noteq> 0 \<Longrightarrow> pgeData p = replicate PAGE_SIZE_BYTES 0 \<Longrightarrow>
    initializePage pid internal p = (Ok (), \<lparr>pgeData = new_bytes pid internal, PageId = pid\<rparr>)"
  by (cases p) (simp add: initializePage_def Let_def put32_def on_flag_def new_bytes_def nth_put_at)

definition created :: "u32 \<Rightarrow> bool \<Rightarrow> clockentry \<Rightarrow> clockentry" where
  "created pid internal e = e\<lparr>ce_markedForEviction := False, ce_isOccupied := True,
     ce_entry := (ce_entry e)\<lparr>fr_page := \<lparr>pgeData = new_bytes pid internal, PageId = pid\<rparr>,
       fr_isInternal := BitIsSet (new_bytes pid internal ! 0) IsInternal, fr_isDeleted := False, fr_dirty := True, fr_key := pid\<rparr>\<rparr>"

lemma created_fields [simp]:
  "ce_isOccupied (created pid b e)" "\<not> ce_markedForEviction (created pid b e)" "ce_segtype (created pid b e) = ce_segtype e"
  "ce_reserved (created pid b e) = ce_reserved e" "ce_acc (created pid b e) = ce_acc e" "ce_pinCount (created pid b e) = ce_pinCount e"
  "ce_unpinCount (created pid b e) = ce_unpinCount e" "ent_key (created pid b e) = pid" "ent_bytes (created pid b e) = new_bytes pid b"
  "\<not> fr_isDeleted (ce_entry (created pid b e))" "fr_dirty (ce_entry (created pid b e))"
  "fr_parentEntry (ce_entry (created pid b e)) = fr_parentEntry (ce_entry e)" "fr_mu (ce_entry (created pid b e)) = fr_mu (ce_entry e)"
  by (simp_all add: created_def)

text \<open>The pager's counters are not part of what it stores.\<close>

lemma store_counters [simp]:
  "store_ok (pgr\<lparr>pgr_rootPageId := r\<rparr>) = store_ok pgr" "store_ok (pgr\<lparr>pgr_pageCount := c\<rparr>) = store_ok pgr"
  "kept_page (pgr\<lparr>pgr_rootPageId := r\<rparr>) = kept_page pgr" "kept_page (pgr\<lparr>pgr_pageCount := c\<rparr>) = kept_page pgr"
  "pgr_ids (pgr\<lparr>pgr_rootPageId := r\<rparr>) = pgr_ids pgr" "pgr_ids (pgr\<lparr>pgr_pageCount := c\<rparr>) = pgr_ids pgr"
  by (simp_all add: pgr_ids_def store_ok_def kept_page_def pgr_ok_def idle_def page_at_def fun_eq_iff)

definition counted :: "bool \<Rightarrow> u32 \<Rightarrow> Pager \<Rightarrow> Pager" where
  "counted root pid pgr = (let pgr = (if root then pgr\<lparr>pgr_rootPageId := pid\<rparr> else pgr) in pgr\<lparr>pgr_pageCount := pgr_pageCount pgr + 1\<rparr>)"

lemma counted_store [simp]: "store_ok (counted root pid pgr) = store_ok pgr" "kept_page (counted root pid pgr) = kept_page pgr"
    "pgr_ids (counted root pid pgr) = pgr_ids pgr"
  by (simp_all add: counted_def Let_def)

lemma init_frame_ok:
  assumes "i < length (frames s)" "fr_parentEntry (ce_entry (frames s ! i)) = Some i" "p_table s pid = None" "pid \<noteq> 0"
    and "ent_bytes (frames s ! i) = replicate PAGE_SIZE_BYTES 0"
  shows "init_frame h root internal pid i s = (Ok (ResMsg i False),
      set_ent i (created pid internal (frames s ! i)) (s\<lparr>p_pgr := counted root pid (p_pgr s), p_table := (p_table s)(pid \<mapsto> i)\<rparr>))"
proof -
  define s0 where "s0 = set_ent i (unMarkForEviction (frames s ! i)) s"
  let ?p = "\<lparr>pgeData = new_bytes pid internal, PageId = pid\<rparr>"
  have m: "on_e i (pure unMarkForEviction) s = (Ok (), s0)" by (simp add: on_e_def entry_steps s0_def)
  have e0: "frames s0 ! i = unMarkForEviction (frames s ! i)" "p_pgr s0 = p_pgr s" using assms(1) by (simp_all add: s0_def)
  have n: "NewPage root internal (Some (GetPage (ce_entry (entry_of i s0)))) pid (p_pgr s0) = (Ok (pid, ?p), counted root pid (p_pgr s))"
    using initializePage_new[OF assms(4), of "fr_page (ce_entry (frames s ! i))"] assms(5) e0
    by (simp add: NewPage_def GetPage_def entry_of_def w_entry_def unMarkForEviction_def counted_def Let_def)
  have [simp]: "ce_entry (unMarkForEviction e) = ce_entry e" for e by (simp add: unMarkForEviction_def)
  have ent: "markOccupied ((unMarkForEviction e)\<lparr>ce_entry := SetData_frame ?p True ((ce_entry e)\<lparr>fr_page := ?p\<rparr>)\<rparr>) = created pid internal e" for e
    by (cases e; cases "ce_entry e") (simp add: markOccupied_def unMarkForEviction_def SetData_frame_def created_def page_IsInternal_def Let_def)
  show ?thesis
    unfolding init_frame_def bindS_Ok[where m = "on_e i (pure unMarkForEviction)", OF m] using n assms(1-4)
    by (simp add: s0_def bindS_def on_e_def entry_steps SetData_eq put_new returnS_def ent entry_of_def w_entry_def getKey_def)
qed

definition new_spec :: "pool \<Rightarrow> nat \<Rightarrow> u32 \<Rightarrow> bytes \<Rightarrow> nat res \<times> pool \<Rightarrow> bool" where
  "new_spec s n pid b out \<longleftrightarrow> (case out of
      (Ok i, s') \<Rightarrow> pool_ok {} s' \<and> pins_below n s' \<and> only_changes {i} pid b s s' \<and> p_table s' pid = Some i \<and> ce_acc (frames s' ! i)
        \<and> pins (frames s' ! i) = 1 \<and> unlatched (ce_entry (frames s' ! i))
    | (Err _, _) \<Rightarrow> w_windowCount (p_w s) = w_windowCapacity (p_w s) \<and> \<not> can_evict s
    | _ \<Rightarrow> False)"

lemma new_flags:
  fixes internal root :: bool
  defines "flag \<equiv> (let flag = 0; flag = (if internal then flag OR push_bit ISINTERNAL 1 else flag); flag = (if root then flag OR push_bit SETASROOT 1 else flag) in flag :: u8)"
  shows "\<not> BitIsSet flag DELETE" "\<not> BitIsSet flag GET_CREATE" "BitIsSet flag SETASROOT = root" "BitIsSet flag ISINTERNAL = internal"
  by (cases internal; cases root; simp add: flag_def BitIsSet_bit)+


lemma sh_newFrame_run: "sh_newFrame h internal root pid s = bindS (run_create h root internal pid) (\<lambda>msgs. case msgs of
         ResMsg i _ # _ \<Rightarrow> returnS i
       | ErrMsg (Some e) # _ \<Rightarrow> failS e
       | ErrMsg None # _ \<Rightarrow> panicS ''nil frame''
       | [] \<Rightarrow> (\<lambda>s. (Blocked, s))) s"
  using new_flags[where internal = internal and root = root] by (simp add: sh_newFrame_def runJob_def Let_def)

lemma unlatch_created: "unlatched (ce_entry e) \<Longrightarrow> unlatch (created pid b (latch e)) = created pid b e"
  by (cases e; cases "ce_entry e") (simp add: unlatch_def latch_def created_def unlatched_def)

lemma create_fill:
  assumes "pool_ok {i} s" "claimed s i" "pins_below n s" "p_table s pid = None" "valid_id pid" "getFreeFrame h r = (Ok i, s)"
  shows "\<exists>s'. run_create h root internal pid r = (Ok [ResMsg i False], s') \<and> pool_ok {} s' \<and> pins_below n s'
     \<and> only_changes {i} pid (undirty (new_bytes pid internal)) s s' \<and> p_table s' pid = Some i \<and> ce_acc (frames s' ! i) \<and> pins (frames s' ! i) = 1 \<and> unlatched (ce_entry (frames s' ! i))"
proof -
  note c = claimed_entry[OF assms(2)]
  have nz: "pid \<noteq> 0" using assms(5) by (simp add: valid_id_def)
  have core: "pool_core {i} s" and co: "counts_ok (p_w s)" using assms(1) by (simp_all add: pool_ok_def)
  let ?e = "created pid internal (frames s ! i)"
  define s1 where "s1 = s\<lparr>p_pgr := counted root pid (p_pgr s), p_table := (p_table s)(pid \<mapsto> i)\<rparr>"
  define l where "l = set_ent i (latch (frames s ! i)) s"
  have "init_frame h root internal pid i l = (Ok (ResMsg i False), set_ent i (created pid internal (latch (frames s ! i))) s1)"
    using init_frame_ok[of i l pid h root internal] c assms(4) nz by (simp add: l_def s1_def)
  from latched_ok[of s i "init_frame h root internal pid i", OF c(7,1), folded l_def, OF this]
  have "latched i (init_frame h root internal pid i) s = (Ok (ResMsg i False), set_ent i ?e s1)"
    using c(1) unlatch_created[OF c(7)] by (simp add: s1_def)
  then have run: "run_create h root internal pid r = (Ok [ResMsg i False], set_ent i ?e s1)"
    using nz assms(6) by (simp add: run_create_def bindS_def returnS_def)
  have st: "store_ok (counted root pid (p_pgr s))" using core by (simp add: pool_core_def)
  have "filled i pid ?e" using c new_bytes assms(5) by (simp add: filled_def pins_ok_def pins_def)
  from fill_core[OF core c(1) this assms(4) st c(2,4) counted_store(3)]
  have f: "pool_core {} (set_ent i ?e s1)" "only_changes {i} pid (undirty (new_bytes pid internal)) s (set_ent i ?e s1)"
    by (simp_all add: s1_def)
  have "counts_ok (p_w (set_ent i ?e s1))" using seg_same[of s1 i ?e] co c(1) by (simp add: s1_def)
  moreover have "pins_below n (set_ent i ?e s1)"
    using pins_nth[OF assms(3) c(1)] assms(3) by (intro pins_below_upd[of n _ n]) (simp_all add: pins_below_def s1_def)
  moreover have "p_table (set_ent i ?e s1) pid = Some i" "ce_acc (frames (set_ent i ?e s1) ! i)" "pins (frames (set_ent i ?e s1) ! i) = 1" "unlatched (ce_entry (frames (set_ent i ?e s1) ! i))"
    using c(1,2,7,10) by (simp_all add: s1_def pins_def unlatched_def)
  ultimately show ?thesis using run f unfolding pool_ok_def by blast
qed

lemma sh_newFrame_ok:
  assumes "pool_ok {} s" "pins_below n s" "n < 2 ^ 64 - 2" "valid_id pid" "p_table s pid = None"
  shows "new_spec s (n + 2) pid (undirty (new_bytes pid internal)) (sh_newFrame h internal root pid s)"
proof -
  have f: "free_spec s (n + 2) (getFreeFrame h s)" using getFreeFrame_ok[OF assms(1-3)] .
  show ?thesis
  proof (cases "fst (getFreeFrame h s)")
    case (Ok i)
    then obtain t where t: "getFreeFrame h s = (Ok i, t)" by (cases "getFreeFrame h s") auto
    then have ok: "pool_ok {i} t" "pins_below (n + 2) t" "safe_but {i} s t" "claimed t i" using f by (simp_all add: free_spec_def)
    have Tt: "p_table t pid = None" using not_entered[OF ok(3) _ assms(5)] ok(1) by (simp add: pool_ok_def)
    from create_fill[OF ok(1,4,2) Tt assms(4) t, of root internal] obtain s' where g: "run_create h root internal pid s = (Ok [ResMsg i False], s')"
        "pool_ok {} s'" "pins_below (n + 2) s'" "only_changes {i} pid (undirty (new_bytes pid internal)) t s'" "p_table s' pid = Some i" "ce_acc (frames s' ! i)" "pins (frames s' ! i) = 1" "unlatched (ce_entry (frames s' ! i))"
      by blast
    have "only_changes {i} pid (undirty (new_bytes pid internal)) s s'" using safe_only_changes[OF ok(3) g(4)] by simp
    then show ?thesis using g by (simp add: sh_newFrame_run bindS_def returnS_def new_spec_def)
  next
    case (Err e)
    then obtain t where "getFreeFrame h s = (Err e, t)" by (cases "getFreeFrame h s") auto
    then show ?thesis using f assms(4) by (simp add: sh_newFrame_run run_create_def valid_id_def bindS_def failS_def new_spec_def free_spec_def)
  qed (use f in \<open>cases "getFreeFrame h s"; auto simp: free_spec_def\<close>)+
qed

section \<open>Writes of clients\<close>

text \<open>A page is replaced in its frame, which is marked dirty.\<close>

lemma rewrite_ok:
  assumes "pool_ok {} s" "pins_below n s" "p_table s k = Some i"
    and "ce_entry e = ((ce_entry (frames s ! i))\<lparr>fr_page := p, fr_dirty := d\<rparr>)" "has_id k (pgeData p)" "alive (pgeData p)"
    and "e = (frames s ! i)\<lparr>ce_entry := ce_entry e\<rparr>"
    and "d \<or> kept_page (p_pgr s) k = Some (undirty (pgeData p))"
  shows "pool_ok {} (set_ent i e s)" "pins_below n (set_ent i e s)" "only_changes {} k (undirty (pgeData p)) s (set_ent i e s)"
proof -
  have core: "pool_core {} s" and co: "counts_ok (p_w s)" using assms(1) by (simp_all add: pool_ok_def)
  note u = table_used[OF core assms(3)]
  define s' where "s' = set_ent i e s"
  have eq: "ce_acc e = ce_acc (frames s ! i)" "ce_segtype e = ce_segtype (frames s ! i)" "ce_reserved e = ce_reserved (frames s ! i)"
      "ce_pinCount e = ce_pinCount (frames s ! i)" "ce_isOccupied e = ce_isOccupied (frames s ! i)" "ce_markedForEviction e = ce_markedForEviction (frames s ! i)"
      "pins_ok e = pins_ok (frames s ! i)"
    by (subst assms(7); simp add: pins_ok_def pins_def)+
  have nth: "frames s' ! j = (if j = i then e else frames s ! j)" if "j < length (frames s)" for j
    using that by (simp add: s'_def nth_list_update)
  have same: "length (frames s') = length (frames s)" "p_table s' = p_table s" "p_pgr s' = p_pgr s" "w_tinyFilter (p_w s') = w_tinyFilter (p_w s)"
      "clk_ok (w_cBuffer (p_w s'))" "w_windowCapacity (p_w s') = w_windowCapacity (p_w s)" "w_probationCapacity (p_w s') = w_probationCapacity (p_w s)"
    using core by (simp_all add: s'_def pool_core_def)
  have T: "j < length (frames s)" "q \<noteq> k \<Longrightarrow> j \<noteq> i" if "p_table s q = Some j" for q j using pool_table[OF core that] u(6) by auto
  have ent: "ent_ok (p_table s) (p_pgr s) i e"
    using u(3-6) assms(3-6,8) eq by (auto simp: ent_ok_def used_ent_def unlatched_def)
  have "pool_core {} s'" using core nth same ent eq assms(4) unfolding pool_core_def by auto
  moreover have "counts_ok (p_w s')" unfolding s'_def using seg_same[OF co u(1)] eq by simp
  ultimately show "pool_ok {} (set_ent i e s)" by (simp add: pool_ok_def s'_def)
  show "pins_below n (set_ent i e s)" using pins_nth[OF assms(2) u(1)] eq by (intro pins_below_upd[OF assms(2)]) simp_all
  show "only_changes {} k (undirty (pgeData p)) s (set_ent i e s)"
    unfolding s'_def[symmetric] only_changes_def stays_def calm_def view_def using nth same T assms(3,4) eq(1,3) u(1) by (auto split: option.splits)
qed

end
