(* ===== verification/PoolClient.thy ===== *)
theory PoolClient
  imports PoolNew
begin

text \<open>
  What the clients of a shard do with a pinned frame (write its page under the latch, mark it dirty, give the pin back), and the
  background writer.
\<close>

section \<open>Giving a pin back\<close>

lemma unref_fields:
  assumes "unref e = (Ok (), e')"
  shows "ce_entry e' = ce_entry e" "ce_isOccupied e' = ce_isOccupied e" "ce_reserved e' = ce_reserved e" "ce_segtype e' = ce_segtype e"
    "ce_markedForEviction e' = ce_markedForEviction e" "ce_pinCount e' = ce_pinCount e" "ce_acc e' \<Longrightarrow> ce_acc e"
  using assms by (auto simp: unref_def Let_def split: if_splits)

lemma unpin_ok:
  assumes "pool_ok {} s" "pins_below n s" "p_table s k = Some i" "ce_acc (frames s ! i)" "unlatched (ce_entry (frames s ! i))"
  shows "\<exists>e. unref (frames s ! i) = (Ok (), e) \<and> ce_entry e = ce_entry (frames s ! i) \<and> pins (frames s ! i) = Suc (pins e) \<and> pins_ok e
     \<and> pool_ok {} (set_ent i e s) \<and> pins_below n (set_ent i e s) \<and> only_changes {} k (undirty (ent_bytes (frames s ! i))) s (set_ent i e s)"
proof -
  have core: "pool_core {} s" and co: "counts_ok (p_w s)" using assms(1) by (simp_all add: pool_ok_def)
  note u = table_used[OF core assms(3)]
  obtain e where e: "unref (frames s ! i) = (Ok (), e)" "pins_ok e" "pins (frames s ! i) = Suc (pins e)"
    using pins_ok_unref(1)[of "frames s ! i"] u(3) assms(4) by (auto simp: ent_ok_def pins_ok_def)
  note f = unref_fields[OF e(1)]
  define s' where "s' = set_ent i e s"
  have nth: "frames s' ! j = (if j = i then e else frames s ! j)" if "j < length (frames s)" for j
    using that by (simp add: s'_def nth_list_update)
  have same: "length (frames s') = length (frames s)" "p_table s' = p_table s" "p_pgr s' = p_pgr s" "w_tinyFilter (p_w s') = w_tinyFilter (p_w s)"
      "clk_ok (w_cBuffer (p_w s'))" "w_windowCapacity (p_w s') = w_windowCapacity (p_w s)" "w_probationCapacity (p_w s') = w_probationCapacity (p_w s)"
    using core by (simp_all add: s'_def pool_core_def)
  have T: "j < length (frames s)" "q \<noteq> k \<Longrightarrow> j \<noteq> i" if "p_table s q = Some j" for q j using pool_table[OF core that] u(6) by auto
  have "ent_ok (p_table s) (p_pgr s) i e" using u(3-5) assms(5) e(2) f(1-5) by (simp add: ent_ok_def used_ent_def)
  then have "pool_core {} s'" using core nth same f unfolding pool_core_def by auto
  moreover have "counts_ok (p_w s')" unfolding s'_def using seg_same[OF co u(1)] f(3,4) by simp
  moreover have "pins_below n s'" unfolding s'_def using pins_nth[OF assms(2) u(1)] f(6) by (intro pins_below_upd[OF assms(2)]) simp_all
  moreover have "only_changes {} k (undirty (ent_bytes (frames s ! i))) s s'"
    unfolding only_changes_def stays_def calm_def view_def using nth same T assms(3) f(1,3,7) u(1) by (auto split: option.splits)
  ultimately show ?thesis using e f(1) by (auto simp: pool_ok_def s'_def)
qed

section \<open>Frames of clients\<close>

text \<open>A client's frame is an index; the calls go through the entry that holds the frame.\<close>

definition cl_Unreference :: "nat \<Rightarrow> pool \<Rightarrow> unit res \<times> pool" where
  "cl_Unreference i = on_w (on_clk (Unreference i))"

text \<open>A client replaces the bytes of the page under the exclusive latch.\<close>

definition cl_store :: "nat \<Rightarrow> bytes \<Rightarrow> pool \<Rightarrow> unit res \<times> pool" where
  "cl_store i b = latched i (on_e i (pure (\<lambda>e. e\<lparr>ce_entry := (ce_entry e)\<lparr>fr_page := (fr_page (ce_entry e))\<lparr>pgeData := b\<rparr>\<rparr>\<rparr>)))"

definition cl_MarkDirty :: "nat \<Rightarrow> pool \<Rightarrow> unit res \<times> pool" where
  "cl_MarkDirty i = on_e i (pure (\<lambda>e. e\<lparr>ce_entry := frame_MarkDirty (ce_entry e)\<rparr>))"

lemma cl_Unreference_eq: "fr_parentEntry (ce_entry (frames s ! i)) = Some i \<Longrightarrow> cl_Unreference i s = on_e i unref s"
  by (simp add: cl_Unreference_def Unreference_def on_e_def on_w_def on_clk_def on_en_def)


section \<open>A quiet pool\<close>

text \<open>Between the requests of clients that give every pin back, only the reserved frame is pinned; then every segment that is full has a victim.\<close>

definition quiet :: "pool \<Rightarrow> bool" where
  "quiet s \<longleftrightarrow> (\<forall>j<length (frames s). ce_acc (frames s ! j) \<longrightarrow> ce_reserved (frames s ! j))
     \<and> 0 < w_windowCapacity (p_w s) \<and> 0 < w_probationCapacity (p_w s)"

lemma seg_count_entry: "0 < seg_count seg xs \<Longrightarrow> \<exists>j<length xs. ce_segtype (xs ! j) = seg"
proof -
  assume "0 < seg_count seg xs"
  then have "seg \<in> set (map ce_segtype xs)" unfolding seg_count_def by (metis count_notin less_irrefl)
  then show ?thesis by (auto simp: in_set_conv_nth)
qed

lemma quiet_eligible:
  assumes "pool_core {} s" "quiet s" "0 < seg_count seg (frames s)" "seg \<noteq> unassigned"
  shows "\<exists>e\<in>set (frames s). eligible seg e"
proof -
  obtain j where j: "j < length (frames s)" "ce_segtype (frames s ! j) = seg" using seg_count_entry[OF assms(3)] by blast
  have "ent_ok (p_table s) (p_pgr s) j (frames s ! j)" using pool_entry[OF assms(1) j(1)] by simp
  then have "eligible seg (frames s ! j)"
    using j assms(2,4) by (auto simp: ent_ok_def free_ent_def used_ent_def eligible_def quiet_def split: if_splits)
  then show ?thesis using j(1) nth_mem by blast
qed

lemma quiet_can_evict:
  assumes "pool_ok {} s" "quiet s" "w_windowCount (p_w s) = w_windowCapacity (p_w s)"
  shows "can_evict s"
proof -
  have core: "pool_core {} s" and co: "counts_ok (p_w s)" using assms(1) by (simp_all add: pool_ok_def)
  have "0 < seg_count windowSegment (frames s)" using co assms(2,3) by (simp add: counts_ok_def Let_def quiet_def word_less_nat_alt)
  moreover have "0 < seg_count probationSegment (frames s)" if "\<not> w_probationCount (p_w s) < w_probationCapacity (p_w s)"
    using co assms(2) that by (auto simp: counts_ok_def Let_def quiet_def word_less_nat_alt)
  ultimately show ?thesis using quiet_eligible[OF core assms(2)] by (auto simp: can_evict_def)
qed

lemma quiet_frame:
  assumes "pool_core {} s" "quiet s" "p_table s k = Some i"
  shows "pins (frames s ! i) = 0" "unlatched (ce_entry (frames s ! i))"
proof -
  note u = table_used[OF assms(1,3)]
  have "\<not> ce_acc (frames s ! i)" using assms(2) u(1,5) by (auto simp: quiet_def)
  then show "pins (frames s ! i) = 0" "unlatched (ce_entry (frames s ! i))" using u(3,4) by (auto simp: ent_ok_def pins_ok_def used_ent_def)
qed

text \<open>The state of a request in which frame \<open>i\<close>, with page \<open>k\<close>, is pinned once more than between requests.\<close>

definition busy :: "pool \<Rightarrow> nat \<Rightarrow> u32 \<Rightarrow> nat \<Rightarrow> pool \<Rightarrow> bool" where
  "busy s n k i t \<longleftrightarrow> pool_ok {} t \<and> pins_below n t \<and> calm {i} s t \<and> p_table t k = Some i \<and> ce_acc (frames t ! i)
     \<and> pins (frames t ! i) = 1 \<and> unlatched (ce_entry (frames t ! i))"

lemma busy_frame:
  assumes "busy s n k i t"
  shows "i < length (frames t)" "fr_parentEntry (ce_entry (frames t ! i)) = Some i" "\<not> ce_reserved (frames t ! i)" "has_id k (ent_bytes (frames t ! i))"
proof -
  have core: "pool_core {} t" and T: "p_table t k = Some i" using assms by (simp_all add: busy_def pool_ok_def)
  from table_used[OF core T] show "i < length (frames t)" "fr_parentEntry (ce_entry (frames t ! i)) = Some i" "\<not> ce_reserved (frames t ! i)"
     "has_id k (ent_bytes (frames t ! i))"
    by (auto simp: ent_ok_def used_ent_def)
qed

text \<open>The end of a request: what it may have changed besides the page \<open>k\<close>.\<close>

definition served :: "pool \<Rightarrow> nat \<Rightarrow> u32 \<Rightarrow> pool \<Rightarrow> bool" where
  "served s n k s' \<longleftrightarrow> pool_ok {} s' \<and> pins_below n s' \<and> quiet s' \<and> pgr_ids (p_pgr s') = pgr_ids (p_pgr s)
     \<and> (\<forall>q. p_table s' q \<noteq> None \<longrightarrow> q = k \<or> p_table s q \<noteq> None) \<and> length (frames s') = length (frames s)"

lemma unpin_served:
  assumes "busy s n k i t" "quiet s"
  shows "\<exists>s'. cl_Unreference i t = (Ok (), s') \<and> served s n k s' \<and> only_changes {} k (undirty (ent_bytes (frames t ! i))) t s'"
proof -
  note b = assms(1)[unfolded busy_def] and f = busy_frame[OF assms(1)]
  obtain e where e: "unref (frames t ! i) = (Ok (), e)" "ce_entry e = ce_entry (frames t ! i)" "pins (frames t ! i) = Suc (pins e)" "pins_ok e"
      "pool_ok {} (set_ent i e t)" "pins_below n (set_ent i e t)" "only_changes {} k (undirty (ent_bytes (frames t ! i))) t (set_ent i e t)"
    using unpin_ok[of t n k i] b by blast
  have "on_e i unref t = (Ok (), set_ent i e t)" using e(1) by (simp add: on_e_def on_unref)
  then have run: "cl_Unreference i t = (Ok (), set_ent i e t)" using cl_Unreference_eq[OF f(2)] by simp
  have acc: "\<not> ce_acc e" using e(3,4) b by (simp add: pins_ok_def)
  have c: "calm {i} s (set_ent i e t)" using calm_trans[of "{i}" s t "{}"] b e(7) by (simp add: only_changes_def)
  have "ce_reserved (frames (set_ent i e t) ! j)" if "j < length (frames t)" "ce_acc (frames (set_ent i e t) ! j)" for j
  proof -
    have "j \<noteq> i" using that f(1) acc by auto
    then show ?thesis using c that assms(2) b unfolding calm_def quiet_def by fastforce
  qed
  then have "quiet (set_ent i e t)" using assms(2) b by (simp add: quiet_def calm_def)
  moreover have "q = k \<or> p_table s q \<noteq> None" if q: "p_table t q \<noteq> None" for q
  proof -
    obtain j where j: "p_table t q = Some j" using q by auto
    have core: "pool_core {} t" using b by (simp add: pool_ok_def)
    have "j = i \<Longrightarrow> q = k" using pool_table[OF core j] pool_table[OF core, of k i] b by simp
    moreover have "j \<noteq> i \<Longrightarrow> p_table s q = Some j" using b j unfolding calm_def by blast
    ultimately show ?thesis by auto
  qed
  ultimately have "served s n k (set_ent i e t)" using e(5,6) c by (simp add: served_def calm_def)
  then show ?thesis using run e(7) by blast
qed


lemma get_busy:
  assumes "pool_ok {} s" "quiet s" "pins_below n s" "n < 2 ^ 64 - 2" "valid_id k" "view s k = Some b"
  shows "\<exists>i hit t. sh_get h k s = (Ok (i, hit), t) \<and> busy s (n + 2) k i t \<and> safe_but {i} s t \<and> undirty (ent_bytes (frames t ! i)) = b"
proof -
  have core: "pool_core {} s" using assms(1) by (simp add: pool_ok_def)
  have sp: "get_spec s (n + 2) k b (sh_get h k s)" using sh_get_ok[OF assms(1,3-6)] .
  obtain r t where rt: "sh_get h k s = (r, t)" by fastforce
  then obtain i hit where r: "r = Ok (i, hit)"
    using sp quiet_can_evict[OF assms(1,2)] by (cases r) (auto simp: get_spec_def)
  have g: "pool_ok {} t" "pins_below (n + 2) t" "safe_but {i} s t" "p_table t k = Some i" "ce_acc (frames t ! i)" "undirty (ent_bytes (frames t ! i)) = b"
    using sp unfolding rt r get_spec_def by simp_all
  have "pins (frames t ! i) = 1 \<and> unlatched (ce_entry (frames t ! i))"
  proof (cases "p_table s k")
    case None
    then show ?thesis using sp unfolding rt r get_spec_def by simp
  next
    case (Some j)
    then show ?thesis using sp quiet_frame[OF core assms(2) Some] unfolding rt r get_spec_def by simp
  qed
  then have "busy s (n + 2) k i t" using g by (simp add: busy_def safe_but_def)
  then show ?thesis using rt r g by blast
qed

lemma new_busy:
  assumes "pool_ok {} s" "quiet s" "pins_below n s" "n < 2 ^ 64 - 2" "valid_id k" "p_table s k = None"
  shows "\<exists>i t. sh_newFrame h internal root k s = (Ok i, t) \<and> busy s (n + 2) k i t \<and> only_changes {i} k (undirty (new_bytes k internal)) s t"
proof -
  have sp: "new_spec s (n + 2) k (undirty (new_bytes k internal)) (sh_newFrame h internal root k s)" using sh_newFrame_ok[OF assms(1,3-6)] .
  obtain r t where rt: "sh_newFrame h internal root k s = (r, t)" by fastforce
  then obtain i where r: "r = Ok i" using sp quiet_can_evict[OF assms(1,2)] by (cases r) (auto simp: new_spec_def)
  have g: "pool_ok {} t" "pins_below (n + 2) t" "only_changes {i} k (undirty (new_bytes k internal)) s t" "p_table t k = Some i" "ce_acc (frames t ! i)"
      "pins (frames t ! i) = 1" "unlatched (ce_entry (frames t ! i))"
    using sp unfolding rt r new_spec_def by simp_all
  then have "busy s (n + 2) k i t" by (simp add: busy_def only_changes_def)
  then show ?thesis using rt r g by blast
qed

lemma cl_store_eq:
  assumes "unlatched (ce_entry (frames t ! i))" "i < length (frames t)"
  shows "cl_store i b t = (Ok (), set_ent i ((frames t ! i)\<lparr>ce_entry := (ce_entry (frames t ! i))\<lparr>fr_page := (fr_page (ce_entry (frames t ! i)))\<lparr>pgeData := b\<rparr>\<rparr>\<rparr>) t)"
proof -
  let ?m = "on_e i (pure (\<lambda>e. e\<lparr>ce_entry := (ce_entry e)\<lparr>fr_page := (fr_page (ce_entry e))\<lparr>pgeData := b\<rparr>\<rparr>\<rparr>))"
  let ?f = "ce_entry (frames t ! i)"
  have "?m (set_ent i (latch (frames t ! i)) t) = (Ok (), set_ent i ((latch (frames t ! i))\<lparr>ce_entry := (ce_entry (latch (frames t ! i)))\<lparr>fr_page := (fr_page ?f)\<lparr>pgeData := b\<rparr>\<rparr>\<rparr>) t)"
    using assms(2) by (simp add: on_e_def entry_steps latch_def)
  from latched_ok[where m = ?m, OF assms this] show ?thesis
    using assms by (cases "frames t ! i"; cases ?f) (simp add: cl_store_def unlatch_def latch_def unlatched_def)
qed

lemma store_busy:
  assumes "busy s n k i t" "has_id k b" "alive b"
  shows "\<exists>t1 t'. cl_store i b t = (Ok (), t1) \<and> ent_key (frames t1 ! i) = k \<and> cl_MarkDirty i t1 = (Ok (), t') \<and> busy s n k i t'
     \<and> only_changes {} k (undirty b) t t' \<and> ent_key (frames t' ! i) = k \<and> undirty (ent_bytes (frames t' ! i)) = undirty b"
proof -
  note x = assms(1)[unfolded busy_def] and f = busy_frame[OF assms(1)]
  let ?p = "MarkDirty ((fr_page (ce_entry (frames t ! i)))\<lparr>pgeData := b\<rparr>)"
  let ?e = "(frames t ! i)\<lparr>ce_entry := (ce_entry (frames t ! i))\<lparr>fr_page := ?p, fr_dirty := True\<rparr>\<rparr>"
  let ?e1 = "(frames t ! i)\<lparr>ce_entry := (ce_entry (frames t ! i))\<lparr>fr_page := (fr_page (ce_entry (frames t ! i)))\<lparr>pgeData := b\<rparr>\<rparr>\<rparr>"
  have len: "length b = PAGE_SIZE_BYTES" using assms(2) by (simp add: has_id_def)
  have p: "pgeData ?p = b[0 := SetFlag (b ! 0) [Dirty]]" by (simp add: MarkDirty_def on_flag_def)
  have ok: "has_id k (pgeData ?p)" "alive (pgeData ?p)" "undirty (pgeData ?p) = undirty b"
    unfolding p using assms(2,3) len undirty_mark[OF len] by (simp_all add: alive_def hflags.is_set_set)
  have T: "p_table t k = Some i" "pool_ok {} t" "pins_below n t" using x by simp_all
  have r: "pool_ok {} (set_ent i ?e t)" "pins_below n (set_ent i ?e t)" "only_changes {} k (undirty b) t (set_ent i ?e t)"
    using rewrite_ok[OF T(2,3,1), where e = ?e and p = ?p and d = True] ok by simp_all
  have "calm {i} s (set_ent i ?e t)" using calm_trans[of "{i}" s t "{}"] x r(3) by (simp add: only_changes_def)
  then have "busy s n k i (set_ent i ?e t)" using r x f(1) by (simp add: busy_def pins_def unlatched_def)
  moreover have "cl_MarkDirty i (set_ent i ?e1 t) = (Ok (), set_ent i ?e t)"
    using f(1) by (cases "ce_entry (frames t ! i)") (simp add: cl_MarkDirty_def on_e_def entry_steps frame_MarkDirty_def)
  moreover have "ent_key (frames t ! i) = k" using pool_table[of "{}" t k i] x by (simp add: pool_ok_def)
  ultimately show ?thesis using cl_store_eq[OF _ f(1), of b] x r(3) ok(3) f(1) by (intro exI[of _ "set_ent i ?e1 t"] exI[of _ "set_ent i ?e t"]) simp
qed

section \<open>What a pool stores, as a map\<close>

definition view_is :: "(u32 \<Rightarrow> bytes option) \<Rightarrow> pool \<Rightarrow> bool" where
  "view_is m s \<longleftrightarrow> (\<forall>k. valid_id k \<longrightarrow> view s k = m k)"

lemma only_changes_view: "only_changes X k b s s' \<Longrightarrow> view_is m s \<Longrightarrow> view_is (m(k \<mapsto> b)) s'"
  by (simp add: only_changes_def view_is_def)

lemma safe_view: "safe_but X s s' \<Longrightarrow> view_is m s \<Longrightarrow> view_is m s'"
  by (simp add: safe_but_def view_is_def)

end
