(* ===== verification/PoolBg.thy ===== *)
theory PoolBg
  imports PoolClient
begin

text \<open>
  The background writer (\<^verbatim>\<open>bgwriter.go\<close>): a pass writes dirty pages back and marks their frames clean, and changes no page.
\<close>

definition flushed :: "clockentry \<Rightarrow> clockentry" where
  "flushed e = (settle (ce_segtype e) e)\<lparr>ce_entry := frame_MarkClean (ce_entry e)\<rparr>"

lemma flushed_fields [simp]:
  "ce_isOccupied (flushed e) = ce_isOccupied e" "ce_reserved (flushed e) = ce_reserved e" "ce_segtype (flushed e) = ce_segtype e"
  "\<not> ce_acc (flushed e)" "\<not> ce_markedForEviction (flushed e)" "ce_pinCount (flushed e) = ce_pinCount e + 1"
  "ent_key (flushed e) = ent_key e" "\<not> fr_dirty (ce_entry (flushed e))" "fr_isDeleted (ce_entry (flushed e)) = fr_isDeleted (ce_entry e)"
  "fr_parentEntry (ce_entry (flushed e)) = fr_parentEntry (ce_entry e)" "fr_mu (ce_entry (flushed e)) = fr_mu (ce_entry e)"
  "ent_bytes (flushed e) = (ent_bytes e)[0 := UnsetFlag (ent_bytes e ! 0) [Dirty]]"
  "pins (flushed e) = pins (settle (ce_segtype e) e)" "pins_ok (flushed e) = pins_ok (settle (ce_segtype e) e)"
  by (simp_all add: flushed_def frame_MarkClean_def MarkClean_def on_flag_def pins_def pins_ok_def)

lemma flush_core:
  assumes "pool_core {} s" "i < length (frames s)" "used_ent (p_table s) (p_pgr s) i (frames s ! i)" "\<not> ce_acc (frames s ! i)" "\<not> ce_reserved (frames s ! i)"
    and "store_ok pgr" "pgr_ids pgr = pgr_ids (p_pgr s)"
    and kept: "\<And>q. valid_id q \<Longrightarrow> kept_page pgr q = (if q = ent_key (frames s ! i) then Some (undirty (ent_bytes (frames s ! i))) else kept_page (p_pgr s) q)"
  defines "s' \<equiv> set_ent i (flushed (frames s ! i)) (s\<lparr>p_pgr := pgr\<rparr>)"
  shows "pool_core {} s'" "safe s s'"
proof -
  let ?e = "frames s ! i" and ?k = "ent_key (frames s ! i)"
  have nth: "frames s' ! j = (if j = i then flushed ?e else frames s ! j)" if "j < length (frames s)" for j
    using that by (simp add: s'_def nth_list_update)
  have same: "length (frames s') = length (frames s)" "p_table s' = p_table s" "p_pgr s' = pgr" "w_tinyFilter (p_w s') = w_tinyFilter (p_w s)"
      "clk_ok (w_cBuffer (p_w s'))" "w_windowCapacity (p_w s') = w_windowCapacity (p_w s)" "w_probationCapacity (p_w s') = w_probationCapacity (p_w s)"
    using assms(1) by (simp_all add: s'_def pool_core_def)
  have T: "j < length (frames s)" "ent_key (frames s ! j) = q" if "p_table s q = Some j" for q j using pool_table[OF assms(1) that] by auto
  have ent: "ent_ok (p_table s) (p_pgr s) i ?e" using pool_entry[OF assms(1,2)] by simp
  have Ti: "p_table s ?k = Some i" "valid_id ?k" and len: "length (ent_bytes ?e) = PAGE_SIZE_BYTES"
    using assms(3) by (simp_all add: used_ent_def has_id_def)
  have clean: "undirty (ent_bytes (flushed ?e)) = undirty (ent_bytes ?e)" "alive (ent_bytes (flushed ?e)) = alive (ent_bytes ?e)"
    using undirty_clean[OF len] alive_undirty[OF len] by (simp_all add: undirty_def)
  have "used_ent (p_table s) pgr i (flushed ?e)"
    using assms(3,4) kept[OF Ti(2)] clean by (simp add: used_ent_def unlatched_def)
  then have i: "ent_ok (p_table s) pgr i (flushed ?e)"
    using ent assms(4,5) settle_pins[of ?e "ce_segtype ?e"] by (simp add: ent_ok_def)
  have "ent_ok (p_table s') pgr j (frames s' ! j)" if j: "j < length (frames s)" for j
  proof (cases "j = i")
    case False
    have ej: "ent_ok (p_table s) (p_pgr s) j (frames s ! j)" using pool_entry[OF assms(1) j] by simp
    have "used_ent (p_table s) pgr j (frames s ! j)" if uj: "used_ent (p_table s) (p_pgr s) j (frames s ! j)"
    proof -
      have "ent_key (frames s ! j) \<noteq> ?k" using uj Ti False by (auto simp: used_ent_def)
      then show ?thesis using uj kept by (auto simp: used_ent_def)
    qed
    then show ?thesis using ej nth[OF j] False same(2) by (auto simp: ent_ok_def)
  qed (use i nth[OF j] same(2) in simp)
  moreover have "j < length (frames s') \<and> ce_isOccupied (frames s' ! j) \<and> \<not> ce_reserved (frames s' ! j) \<and> ent_key (frames s' ! j) = q"
    if "p_table s' q = Some j" for q j
    using that pool_table[OF assms(1), of q j] nth[of j] same by auto
  ultimately show "pool_core {} s'" using assms(1,6) same by (simp add: pool_core_def)
  have "view s' q = view s q" if "valid_id q" for q
    using kept[OF that] T[of q] nth same Ti clean(1) by (cases "p_table s q") (auto simp: view_def)
  moreover have "calm {} s s'" using same nth assms(7) by (simp add: calm_def)
  moreover have "stays {} q j s s'" if "p_table s q = Some j" "ce_acc (frames s ! j)" for q j
    using that T[OF that(1)] nth same assms(4) by (auto simp: stays_def)
  ultimately show "safe s s'" by (simp add: safe_but_def)
qed

lemma refIfNot_used:
  assumes "ent_ok T pgr i e"
  shows "fst (refIfNotReferenced e) \<Longrightarrow> used_ent T pgr i e \<and> \<not> ce_acc e \<and> \<not> ce_reserved e \<and> refIfNotReferenced e = (True, reference e)"
    "\<not> fst (refIfNotReferenced e) \<Longrightarrow> snd (refIfNotReferenced e) = e"
  using assms by (auto simp: refIfNotReferenced_def reference_def ent_ok_def free_ent_def split: if_splits)

lemma unref_reference:
  assumes "pins_ok e" "\<not> ce_acc e" "unat (ce_pinCount e) < 2 ^ 64 - 1" "\<not> ce_markedForEviction e"
  shows "unref ((reference e)\<lparr>ce_entry := f\<rparr>) = (Ok (), (settle (ce_segtype e) e)\<lparr>ce_entry := f\<rparr>)"
proof -
  have "ce_pinCount e < ce_pinCount e + 1" using assms(3) by (simp add: word_less_nat_alt unat_word_ariths)
  then show ?thesis using pins_zero[OF assms(1,2)] assms(4) by (simp add: unref_def reference_def settle_def Let_def not_le)
qed


lemma bg_write:
  assumes "i < length (frames s)" "unlatched (ce_entry (frames s ! i))" "fr_dirty (ce_entry (frames s ! i))"
    and "pins_ok (frames s ! i)" "\<not> ce_acc (frames s ! i)" "unat (ce_pinCount (frames s ! i)) < 2 ^ 64 - 1" "\<not> ce_markedForEviction (frames s ! i)"
    and "refIfNotReferenced (frames s ! i) = (True, reference (frames s ! i))"
    and w: "lend tmp (\<lambda>a. WritePage (ent_key (frames s ! i)) a (m + 1 = MAX_PAGES)) (ent_bytes (frames s ! i)) (p_pgr s) = ((Ok (), b), pgr)"
  shows "bg_entry tmp m i s = (Ok (m + 1), set_ent i (flushed (frames s ! i)) (s\<lparr>p_pgr := pgr\<rparr>))"
proof -
  let ?e = "frames s ! i"
  define t where "t = set_ent i (reference ?e) s"
  define u where "u = set_ent i ((reference ?e)\<lparr>ce_entry := frame_MarkClean (ce_entry ?e)\<rparr>) s"
  have pin: "on_e i (both refIfNotReferenced) s = (Ok True, t)" using assms(8) by (simp add: on_e_def on_both t_def)
  have ti: "frames t ! i = reference ?e" "i < length (frames t)" using assms(1) by (simp_all add: t_def)
  let ?m = "bg_copy i"
  have m: "?m (set_ent i (latch (frames t ! i)) t) = (Ok (ent_key ?e, ent_bytes ?e),
      set_ent i ((latch (reference ?e))\<lparr>ce_entry := frame_MarkClean (ce_entry (latch (reference ?e)))\<rparr>) s)"
    using ti assms(1) by (simp add: bg_copy_def t_def entry_of_def w_entry_def RawBufferSlice_def GetPageByteData_def bindS_def on_e_def entry_steps returnS_def latch_def Let_def liftR_def)
  have ul: "unlatched (ce_entry (frames t ! i))" using ti assms(2) by simp
  have cl: "latched i ?m t = (Ok (ent_key ?e, ent_bytes ?e), u)"
  proof -
    let ?x = "(latch (reference ?e))\<lparr>ce_entry := frame_MarkClean (ce_entry (latch (reference ?e)))\<rparr>"
    have "fr_mu (ce_entry (frames (set_ent i ?x s) ! i)) = \<lparr>readers = 0, writer = True\<rparr>"
      using assms(1) by (simp add: frame_MarkClean_def)
    from latched_ok[where m = ?m, OF ul ti(2) m this]
    have "latched i ?m t = (Ok (ent_key ?e, ent_bytes ?e), set_ent i (unlatch ?x) s)" using assms(1) by simp
    moreover have "unlatch ?x = (reference ?e)\<lparr>ce_entry := frame_MarkClean (ce_entry ?e)\<rparr>"
      using assms(2) by (cases ?e; cases "ce_entry ?e") (simp add: unlatch_def latch_def reference_def frame_MarkClean_def unlatched_def)
    ultimately show ?thesis by (simp add: u_def)
  qed
  have un: "on_e i unref (u\<lparr>p_pgr := pgr\<rparr>) = (Ok (), set_ent i (flushed ?e) (s\<lparr>p_pgr := pgr\<rparr>))"
    using unref_reference[OF assms(4-7), of "frame_MarkClean (ce_entry ?e)"] assms(1)
    by (simp add: u_def on_e_def on_unref flushed_def)
  have d: "isDirty (ce_entry (entry_of i t))" using ti assms(3) by (simp add: isDirty_def entry_of_def w_entry_def)
  have up: "p_pgr u = p_pgr s" by (simp add: u_def)
  show ?thesis
    unfolding bg_entry_def bindS_Ok[where m = "on_e i (both refIfNotReferenced)", OF pin] Let_def[of "m + 1 = MAX_PAGES"]
    using d w un up by (simp add: bindS_Ok[where m = "latched i (bg_copy i)", OF cl] bindS_def[of "on_e i unref"] returnS_def)
qed


lemma bg_entry_ok:
  assumes "pool_ok {} s" "pins_below n s" "n < 2 ^ 64 - 1" "i < length (frames s)"
  shows "\<exists>m' s'. bg_entry tmp m i s = (Ok m', s') \<and> pool_ok {} s' \<and> pins_below (Suc n) s' \<and> safe s s'"
proof -
  let ?e = "frames s ! i"
  have core: "pool_core {} s" and co: "counts_ok (p_w s)" using assms(1) by (simp_all add: pool_ok_def)
  have ent: "ent_ok (p_table s) (p_pgr s) i ?e" using pool_entry[OF core assms(4)] by simp
  have pin: "unat (ce_pinCount ?e) \<le> n" using pins_nth[OF assms(2,4)] .
  then have pin1: "unat (ce_pinCount ?e) < 2 ^ 64 - 1" "unat (ce_pinCount ?e + 1) \<le> Suc n" using assms(3) by (simp_all add: unat_word_ariths)
  show ?thesis
  proof (cases "fst (refIfNotReferenced ?e)")
    case False
    have "on_e i (both refIfNotReferenced) s = (Ok False, s)"
      using False refIfNot_used(2)[OF ent False] assms(4) by (simp add: on_e_def on_both)
    then have "bg_entry tmp m i s = (Ok m, s)" by (simp add: bg_entry_def bindS_def)
    then show ?thesis using assms(1) pins_below_mono[OF assms(2), of "Suc n"] by simp
  next
    case True
    note u = refIfNot_used(1)[OF ent True]
    have k: "pins_ok ?e" "\<not> ce_markedForEviction ?e" "unlatched (ce_entry ?e)" "ce_segtype ?e \<noteq> unassigned"
      using u ent by (auto simp: ent_ok_def used_ent_def)
    show ?thesis
    proof (cases "fr_dirty (ce_entry ?e)")
      case False
      have el: "eligible (ce_segtype ?e) ?e" using u k by (simp add: eligible_def)
      let ?s = "set_ent i (settle (ce_segtype ?e) ?e) s"
      have st: "pool_core {} ?s" "safe s ?s" "pins_below (Suc n) ?s" using settle_core[OF core assms(2-4) el k(4,4)] by simp_all
      have "on_e i (both refIfNotReferenced) s = (Ok True, set_ent i (reference ?e) s)" using u by (simp add: on_e_def on_both)
      moreover have eq: "(reference e)\<lparr>ce_entry := ce_entry e\<rparr> = reference e" "(settle seg e)\<lparr>ce_entry := ce_entry e\<rparr> = settle seg e" for e seg
        by (cases e; simp add: reference_def settle_def)+
      moreover have "on_e i unref (set_ent i (reference ?e) s) = (Ok (), ?s)"
        using unref_reference[OF k(1) _ pin1(1) k(2), of "ce_entry ?e", unfolded eq] u assms(4) by (simp add: on_e_def on_unref)
      ultimately have "bg_entry tmp m i s = (Ok m, ?s)"
        using False assms(4) by (simp add: bg_entry_def bindS_def isDirty_def entry_of_def w_entry_def returnS_def)
      then show ?thesis using st seg_same[OF co assms(4), of "settle (ce_segtype ?e) ?e"] by (simp add: pool_ok_def)
    next
      case True
      have "store_ok (p_pgr s)" using core by (simp add: pool_core_def)
      then obtain pgr where w: "lend tmp (\<lambda>a. WritePage (ent_key ?e) a (m + 1 = MAX_PAGES)) (ent_bytes ?e) (p_pgr s) = ((Ok (), ent_bytes ?e), pgr)"
          "store_ok pgr" "pgr_ids pgr = pgr_ids (p_pgr s)"
          "\<And>q. unat q < 2 ^ 19 \<Longrightarrow> q \<noteq> 0 \<Longrightarrow> kept_page pgr q = (if q = ent_key ?e then Some (undirty (ent_bytes ?e)) else kept_page (p_pgr s) q)"
        using lend_write[of "p_pgr s" "ent_key ?e" "ent_bytes ?e" tmp "m + 1 = MAX_PAGES"] u by (auto simp: used_ent_def valid_id_def)
      let ?s = "set_ent i (flushed ?e) (s\<lparr>p_pgr := pgr\<rparr>)"
      have "bg_entry tmp m i s = (Ok (m + 1), ?s)"
        using bg_write[OF assms(4) k(3) True k(1) _ pin1(1) k(2) _ w(1)] u by simp
      moreover have "pool_core {} ?s" "safe s ?s"
        using flush_core[OF core assms(4) _ _ _ w(2,3)] u w(4) by (auto simp: valid_id_def)
      moreover have "counts_ok (p_w ?s)" using seg_same[of "s\<lparr>p_pgr := pgr\<rparr>" i "flushed ?e"] co assms(4) by simp
      moreover have "pins_below (Suc n) ?s"
        using pin1(2) assms(2) by (intro pins_below_upd[of n]) (simp_all add: pins_below_def)
      ultimately show ?thesis by (simp add: pool_ok_def)
    qed
  qed
qed

lemma bg_pass_ok:
  "pool_ok {} s \<Longrightarrow> pins_below n s \<Longrightarrow> n + length is < 2 ^ 64 - 1 \<Longrightarrow> \<forall>i\<in>set is. i < length (frames s) \<Longrightarrow>
   \<exists>m' s'. bg_pass tmp m is s = (Ok m', s') \<and> pool_ok {} s' \<and> pins_below (n + length is) s' \<and> safe s s'"
proof (induction "is" arbitrary: m n s)
  case (Cons i "is")
  obtain m1 s1 where b: "bg_entry tmp m i s = (Ok m1, s1)" "pool_ok {} s1" "pins_below (Suc n) s1" "safe s s1"
    using bg_entry_ok[of s n i tmp m] Cons.prems by auto
  show ?case
  proof (cases "m1 \<ge> MAX_PAGES")
    case True
    then show ?thesis using b pins_below_mono[OF b(3), of "n + length (i # is)"] by (simp add: bindS_def returnS_def)
  next
    case False
    have len: "length (frames s1) = length (frames s)" using b(4) by (simp add: safe_but_def calm_def)
    obtain m' s' where "bg_pass tmp m1 is s1 = (Ok m', s')" "pool_ok {} s'" "pins_below (Suc n + length is) s'" "safe s1 s'"
      using Cons.IH[OF b(2,3), of m1] Cons.prems len by auto
    then show ?thesis using b False safe_trans[OF b(4)] leD by (auto simp: bindS_def not_le)
  qed
qed (simp add: returnS_def)

text \<open>However long the background writer runs, it returns without an error and no page changes.\<close>

lemma bg_Start_ok:
  "pool_ok {} s \<Longrightarrow> pins_below n s \<Longrightarrow> n + Suc rounds * length (frames s) < 2 ^ 64 - 1 \<Longrightarrow>
   \<exists>m' s'. bg_Start tmp rounds visited m s = (Ok m', s') \<and> pool_ok {} s' \<and> pins_below (n + Suc rounds * length (frames s)) s' \<and> safe s s'"
proof (induction rounds arbitrary: m n s)
  case 0
  let ?is = "[0..<min visited (clk_capacity (w_cBuffer (p_w s)))]"
  have c: "clk_capacity (w_cBuffer (p_w s)) = length (frames s)" using 0(1) by (simp add: pool_ok_def pool_core_def clk_ok_def)
  have side: "n + length ?is < 2 ^ 64 - 1" "\<forall>i\<in>set ?is. i < length (frames s)" using 0(3) c by simp_all
  obtain m' s' where b: "bg_pass tmp m ?is s = (Ok m', s')" "pool_ok {} s'" "pins_below (n + length ?is) s'" "safe s s'"
    using bg_pass_ok[OF 0(1,2) side] by blast
  have "n + length ?is \<le> n + Suc 0 * length (frames s)" using c by simp
  from pins_below_mono[OF b(3) this] show ?case using b(1,2,4) by (intro exI[of _ m'] exI[of _ s']) simp
next
  case (Suc rounds)
  let ?is = "[0..<clk_capacity (w_cBuffer (p_w s))]"
  have c: "clk_capacity (w_cBuffer (p_w s)) = length (frames s)" using Suc.prems(1) by (simp add: pool_ok_def pool_core_def clk_ok_def)
  have side: "n + length ?is < 2 ^ 64 - 1" "\<forall>i\<in>set ?is. i < length (frames s)" using Suc.prems(3) c by simp_all
  obtain m1 s1 where b: "bg_pass tmp m ?is s = (Ok m1, s1)" "pool_ok {} s1" "pins_below (n + length ?is) s1" "safe s s1"
    using bg_pass_ok[OF Suc.prems(1,2) side] by blast
  have len: "length (frames s1) = length (frames s)" using b(4) by (simp add: safe_but_def calm_def)
  have sum: "n + length ?is + Suc rounds * length (frames s1) = n + Suc (Suc rounds) * length (frames s)" using c len by simp
  from Suc.IH[OF b(2,3)] obtain m' s' where i: "bg_Start tmp rounds visited m1 s1 = (Ok m', s')" "pool_ok {} s'"
      "pins_below (n + Suc (Suc rounds) * length (frames s)) s'" "safe s1 s'"
    unfolding sum using Suc.prems(3) by blast
  have "bg_Start tmp (Suc rounds) visited m s = (Ok m', s')" using b(1) i(1) by (simp add: bindS_def)
  then show ?case using i(2,3) safe_trans[OF b(4) i(4)] by blast
qed

end
