(* ===== verification/DirtyList.thy ===== *)
theory DirtyList
  imports Frame
begin

text \<open>
  The list of dirty pages of a shard, \<^verbatim>\<open>pkg/buffermanager/p_dirty.go\<close>: a doubly linked list of nodes, most recently
  marked first, and a map from page ids to nodes. The nodes live in a store, a \<^verbatim>\<open>*pDirty\<close> is an address in it, and a new node gets
  the next address. The mutexes of the nodes are part of the state (a second \<^verbatim>\<open>Lock\<close> waits for ever); those of the list
  and of the map are taken and released around whole methods, in one order, and left out. A frame is its index in the pool.
\<close>

section \<open>State\<close>

record pDirty =
  pd_frame :: nat
  pd_next :: "nat option"
  pd_prev :: "nat option"
  pd_mu :: bool

record dPages =
  dp_head :: "nat option"
  dp_tail :: "nat option"
  dp_nodes :: "pDirty list"
  dp_map :: "u32 \<rightharpoonup> nat"

abbreviation pd_at :: "dPages \<Rightarrow> nat \<Rightarrow> pDirty" where
  "pd_at d a \<equiv> dp_nodes d ! a"

definition upd_n :: "nat \<Rightarrow> (pDirty \<Rightarrow> pDirty) \<Rightarrow> dPages \<Rightarrow> dPages" where
  "upd_n a g d = d\<lparr>dp_nodes := (dp_nodes d)[a := g (pd_at d a)]\<rparr>"

definition eff :: "(dPages \<Rightarrow> dPages) \<Rightarrow> dPages \<Rightarrow> unit res \<times> dPages" where
  "eff g d = (Ok (), g d)"

definition lock_n :: "nat \<Rightarrow> dPages \<Rightarrow> unit res \<times> dPages" where
  "lock_n a d = (if pd_mu (pd_at d a) then (Blocked, d) else (Ok (), upd_n a (\<lambda>p. p\<lparr>pd_mu := True\<rparr>) d))"

definition unlock_n :: "nat \<Rightarrow> dPages \<Rightarrow> unit res \<times> dPages" where
  "unlock_n a d = (if pd_mu (pd_at d a) then (Ok (), upd_n a (\<lambda>p. p\<lparr>pd_mu := False\<rparr>) d)
                   else (Panic ''sync: unlock of unlocked mutex'', d))"

text \<open>\<^verbatim>\<open>if p != nil { ... }\<close>\<close>

definition on_ptr :: "nat option \<Rightarrow> (nat \<Rightarrow> dPages \<Rightarrow> unit res \<times> dPages) \<Rightarrow> dPages \<Rightarrow> unit res \<times> dPages" where
  "on_ptr p f = (case p of None \<Rightarrow> returnS () | Some a \<Rightarrow> f a)"

section \<open>dirtyPageLRU\<close>

definition popDirty :: "dPages \<Rightarrow> nat option \<times> dPages" where
  "popDirty d =
     (if dp_tail d = None \<or> dp_head d = None then (None, d)
      else
        (dp_tail d,
         if dp_head d = dp_tail d then d\<lparr>dp_head := None, dp_tail := None\<rparr>
         else d\<lparr>dp_tail := pd_prev (pd_at d (the (dp_tail d)))\<rparr>))"

definition dl_isEmpty :: "dPages \<Rightarrow> bool" where
  "dl_isEmpty d \<longleftrightarrow> dp_head d = None \<or> dp_tail d = None"

text \<open>The deferred unlock is of the head at the time of the lock.\<close>

definition addToDirtyList :: "nat \<Rightarrow> dPages \<Rightarrow> unit res \<times> dPages" where
  "addToDirtyList p d =
     (let old = dp_head d in
      bindS (on_ptr old lock_n) (\<lambda>_.
      bindS (eff (\<lambda>d. if dp_head d = None \<or> dp_tail d = None
                 then d\<lparr>dp_head := Some p, dp_tail := Some p\<rparr>
                 else
                   (let d = upd_n p (\<lambda>n. n\<lparr>pd_next := dp_head d\<rparr>) d;
                        d = upd_n (the (dp_head d)) (\<lambda>n. n\<lparr>pd_prev := Some p\<rparr>) d in
                    d\<lparr>dp_head := Some p\<rparr>))) (\<lambda>_.
      on_ptr old unlock_n)) d)"

definition moveToHead :: "nat \<Rightarrow> dPages \<Rightarrow> unit res \<times> dPages" where
  "moveToHead pD =
     bindS (lock_n pD) (\<lambda>_ d.
     if dp_head d = Some pD
     then (if pd_prev (pd_at d pD) \<noteq> None then (Panic ''(moveToHead) head has a prev pointer. pD.prev -> %v'', d)
           else unlock_n pD d)
     else
       (let prv = pd_prev (pd_at d pD); nxt = pd_next (pd_at d pD) in
        bindS (on_ptr prv lock_n) (\<lambda>_.
        bindS (on_ptr nxt lock_n) (\<lambda>_.
        bindS (on_ptr nxt (\<lambda>a. bindS (eff (upd_n a (\<lambda>n. n\<lparr>pd_prev := prv\<rparr>))) (\<lambda>_. unlock_n a))) (\<lambda>_.
        bindS (on_ptr prv (\<lambda>a. bindS (eff (upd_n a (\<lambda>n. n\<lparr>pd_next := nxt\<rparr>))) (\<lambda>_. unlock_n a))) (\<lambda>_.
        bindS (eff (\<lambda>d. upd_n pD (\<lambda>n. n\<lparr>pd_next := dp_head d\<rparr>) d)) (\<lambda>_ d.
        case dp_head d of
          None \<Rightarrow> (Panic ''nil pointer dereference'', d)
        | Some h \<Rightarrow>
            bindS (lock_n h) (\<lambda>_.
            bindS (eff (upd_n h (\<lambda>n. n\<lparr>pd_prev := Some pD\<rparr>))) (\<lambda>_.
            bindS (unlock_n h) (\<lambda>_.
            bindS (eff (\<lambda>d. d\<lparr>dp_head := Some pD\<rparr>)) (\<lambda>_.
            bindS (eff (\<lambda>d. if dp_tail d = Some pD then d\<lparr>dp_tail := pd_prev (pd_at d pD)\<rparr> else d)) (\<lambda>_.
            bindS (eff (upd_n pD (\<lambda>n. n\<lparr>pd_prev := None\<rparr>))) (\<lambda>_.
            unlock_n pD)))))) d))))) d))"

definition removeFromLru :: "nat \<Rightarrow> dPages \<Rightarrow> unit res \<times> dPages" where
  "removeFromLru a =
     bindS (lock_n a) (\<lambda>_ d.
     if dp_head d = Some a \<and> dp_tail d = Some a
     then bindS (eff (\<lambda>d. d\<lparr>dp_head := None, dp_tail := None\<rparr>)) (\<lambda>_. unlock_n a) d
     else
       (let prv = pd_prev (pd_at d a); nxt = pd_next (pd_at d a) in
        bindS (on_ptr prv lock_n) (\<lambda>_.
        bindS (on_ptr nxt lock_n) (\<lambda>_.
        bindS (on_ptr prv (\<lambda>p. eff (upd_n p (\<lambda>n. n\<lparr>pd_next := nxt\<rparr>)))) (\<lambda>_.
        bindS (on_ptr nxt (\<lambda>p. eff (upd_n p (\<lambda>n. n\<lparr>pd_prev := prv\<rparr>)))) (\<lambda>_.
        bindS (eff (\<lambda>d. if dp_head d = Some a then d\<lparr>dp_head := pd_next (pd_at d a)\<rparr> else d)) (\<lambda>_.
        bindS (eff (\<lambda>d. if dp_tail d = Some a then d\<lparr>dp_tail := pd_prev (pd_at d a)\<rparr> else d)) (\<lambda>_.
        bindS (eff (upd_n a (\<lambda>n. n\<lparr>pd_next := None, pd_prev := None\<rparr>))) (\<lambda>_.
        bindS (on_ptr nxt unlock_n) (\<lambda>_.
        bindS (on_ptr prv unlock_n) (\<lambda>_.
        unlock_n a))))))))) d))"

section \<open>dPages\<close>

text \<open>\<open>f\<close> is the frame and \<open>k\<close> its key.\<close>

definition addDirtyFrame :: "nat \<Rightarrow> u32 \<Rightarrow> dPages \<Rightarrow> unit res \<times> dPages" where
  "addDirtyFrame f k d = (case dp_map d k of
      Some pD \<Rightarrow> orPanic (moveToHead pD) d
    | None \<Rightarrow>
        (let p = length (dp_nodes d);
             d = d\<lparr>dp_nodes := dp_nodes d @ [\<lparr>pd_frame = f, pd_next = None, pd_prev = None, pd_mu = False\<rparr>]\<rparr>;
             d = d\<lparr>dp_map := (dp_map d)(k \<mapsto> p)\<rparr> in
         orPanic (addToDirtyList p) d))"

text \<open>The id of the popped page is the current key of its frame.\<close>

definition popDirtyPage :: "(nat \<Rightarrow> u32) \<Rightarrow> dPages \<Rightarrow> nat option \<times> dPages" where
  "popDirtyPage key_of d = (case popDirty d of
      (None, d) \<Rightarrow> (None, d)
    | (Some p, d) \<Rightarrow>
        (let pgeId = key_of (pd_frame (pd_at d p)) in
         if pgeId = 0 then (None, d) else (Some p, d\<lparr>dp_map := (dp_map d)(pgeId := None)\<rparr>)))"

definition removePage :: "u32 \<Rightarrow> dPages \<Rightarrow> unit res \<times> dPages" where
  "removePage k d = (case dp_map d k of
      None \<Rightarrow> (Ok (), d)
    | Some p \<Rightarrow> orPanic (removeFromLru p) (d\<lparr>dp_map := (dp_map d)(k := None)\<rparr>))"

definition NewDirtyPageList :: dPages where
  "NewDirtyPageList = \<lparr>dp_head = None, dp_tail = None, dp_nodes = [], dp_map = Map.empty\<rparr>"

section \<open>The list as a list\<close>

text \<open>Each node points back to the one before it and forward to the one after it; the last may point anywhere outside
  the list (\<^verbatim>\<open>popDirty\<close> leaves such a pointer).\<close>

fun node_chain :: "(nat \<Rightarrow> pDirty) \<Rightarrow> nat option \<Rightarrow> nat list \<Rightarrow> bool" where
  "node_chain H p [] \<longleftrightarrow> True"
| "node_chain H p (x # xs) \<longleftrightarrow> pd_prev (H x) = p \<and> (xs \<noteq> [] \<longrightarrow> pd_next (H x) = Some (hd xs)) \<and> node_chain H (Some x) xs"

definition dl_rep :: "nat list \<Rightarrow> dPages \<Rightarrow> bool" where
  "dl_rep xs d \<longleftrightarrow> distinct xs \<and> (\<forall>x\<in>set xs. x < length (dp_nodes d)) \<and> node_chain (pd_at d) None xs
     \<and> dp_head d = (if xs = [] then None else Some (hd xs)) \<and> dp_tail d = (if xs = [] then None else Some (last xs))
     \<and> (\<forall>a<length (dp_nodes d). \<not> pd_mu (pd_at d a))
     \<and> (xs \<noteq> [] \<longrightarrow> (\<forall>y. pd_next (pd_at d (last xs)) = Some y \<longrightarrow> y \<notin> set xs \<and> y < length (dp_nodes d)))"


lemma node_chain_append: "node_chain H p (xs @ ys) \<longleftrightarrow> node_chain H p xs \<and> node_chain H (if xs = [] then p else Some (last xs)) ys
    \<and> (xs \<noteq> [] \<and> ys \<noteq> [] \<longrightarrow> pd_next (H (last xs)) = Some (hd ys))"
proof (induction xs arbitrary: p)
  case (Cons x xs)
  then show ?case by (cases xs) auto
qed simp

lemma node_chain_cong:
  "\<forall>x\<in>set xs. pd_prev (H' x) = pd_prev (H x) \<Longrightarrow> \<forall>x\<in>set (butlast xs). pd_next (H' x) = pd_next (H x) \<Longrightarrow> node_chain H' p xs = node_chain H p xs"
proof (induction xs arbitrary: p)
  case (Cons x xs)
  then show ?case by (cases xs) auto
qed simp

lemmas ptr_steps = bindS_def eff_def lock_n_def unlock_n_def upd_n_def on_ptr_def returnS_def nth_list_update

lemma unlocked_id: "\<not> pd_mu (xs ! a) \<Longrightarrow> xs[a := (xs ! a)\<lparr>pd_mu := False\<rparr>] = xs"
  by (cases "xs ! a") (simp, metis list_update_id)

text \<open>The pointers after a move to the front.\<close>

lemma moveToHead_run:
  assumes "\<forall>a<length (dp_nodes d). \<not> pd_mu (pd_at d a)" "p < length (dp_nodes d)" "l < length (dp_nodes d)" "h < length (dp_nodes d)" "p \<noteq> l" "p \<noteq> h"
    and "dp_head d = Some h" "pd_prev (pd_at d p) = Some l" "\<forall>n. pd_next (pd_at d p) = Some n \<longrightarrow> n < length (dp_nodes d) \<and> n \<noteq> p \<and> n \<noteq> l \<and> n \<noteq> h"
  shows "\<exists>d'. moveToHead p d = (Ok (), d') \<and> length (dp_nodes d') = length (dp_nodes d) \<and> dp_map d' = dp_map d \<and> dp_head d' = Some p
     \<and> dp_tail d' = (if dp_tail d = Some p then Some l else dp_tail d)
     \<and> (\<forall>a<length (dp_nodes d). pd_at d' a = (pd_at d a)\<lparr>pd_mu := False,
          pd_next := (if a = p then Some h else if a = l then pd_next (pd_at d p) else pd_next (pd_at d a)),
          pd_prev := (if a = p then None else if a = h then Some p else if pd_next (pd_at d p) = Some a then Some l else pd_prev (pd_at d a))\<rparr>)"
proof -
  have same: "x\<lparr>pd_mu := False, pd_next := pd_next x, pd_prev := pd_prev x\<rparr> = x" if "\<not> pd_mu x" for x :: pDirty using that by (cases x) simp
  show ?thesis
  proof (cases "pd_next (pd_at d p)")
    case None
    then show ?thesis using assms by (cases "h = l") (auto simp: moveToHead_def Let_def ptr_steps same)
  next
    case (Some n)
    then show ?thesis using assms by (cases "h = l") (auto simp: moveToHead_def Let_def ptr_steps same)
  qed
qed


lemma removeFromLru_run:
  assumes "\<forall>a<length (dp_nodes d). \<not> pd_mu (pd_at d a)" "p < length (dp_nodes d)" "\<not> (dp_head d = Some p \<and> dp_tail d = Some p)"
    and "\<forall>l. pd_prev (pd_at d p) = Some l \<longrightarrow> l < length (dp_nodes d) \<and> l \<noteq> p"
    and "\<forall>n. pd_next (pd_at d p) = Some n \<longrightarrow> n < length (dp_nodes d) \<and> n \<noteq> p \<and> pd_prev (pd_at d p) \<noteq> Some n"
  shows "\<exists>d'. removeFromLru p d = (Ok (), d') \<and> length (dp_nodes d') = length (dp_nodes d) \<and> dp_map d' = dp_map d
     \<and> dp_head d' = (if dp_head d = Some p then pd_next (pd_at d p) else dp_head d)
     \<and> dp_tail d' = (if dp_tail d = Some p then pd_prev (pd_at d p) else dp_tail d)
     \<and> (\<forall>a<length (dp_nodes d). pd_at d' a = (pd_at d a)\<lparr>pd_mu := False,
          pd_next := (if a = p then None else if pd_prev (pd_at d p) = Some a then pd_next (pd_at d p) else pd_next (pd_at d a)),
          pd_prev := (if a = p then None else if pd_next (pd_at d p) = Some a then pd_prev (pd_at d p) else pd_prev (pd_at d a))\<rparr>)"
proof -
  have same: "x\<lparr>pd_mu := False, pd_next := pd_next x, pd_prev := pd_prev x\<rparr> = x" if "\<not> pd_mu x" for x :: pDirty using that by (cases x) simp
  show ?thesis
  proof (cases "pd_next (pd_at d p)")
    case None
    then show ?thesis using assms by (cases "pd_prev (pd_at d p)") (auto simp: removeFromLru_def Let_def ptr_steps same)
  next
    case (Some n)
    then show ?thesis using assms by (cases "pd_prev (pd_at d p)") (auto simp: removeFromLru_def Let_def ptr_steps same)
  qed
qed

lemma addToDirtyList_run:
  assumes "\<forall>a<length (dp_nodes d). \<not> pd_mu (pd_at d a)" "p < length (dp_nodes d)" "h < length (dp_nodes d)" "p \<noteq> h" "dp_head d = Some h" "dp_tail d \<noteq> None"
  shows "\<exists>d'. addToDirtyList p d = (Ok (), d') \<and> length (dp_nodes d') = length (dp_nodes d) \<and> dp_map d' = dp_map d
     \<and> dp_head d' = Some p \<and> dp_tail d' = dp_tail d
     \<and> (\<forall>a<length (dp_nodes d). pd_at d' a = (pd_at d a)\<lparr>pd_mu := False,
          pd_next := (if a = p then Some h else pd_next (pd_at d a)), pd_prev := (if a = h then Some p else pd_prev (pd_at d a))\<rparr>)"
proof -
  have same: "x\<lparr>pd_mu := False, pd_next := pd_next x, pd_prev := pd_prev x\<rparr> = x" if "\<not> pd_mu x" for x :: pDirty using that by (cases x) simp
  show ?thesis using assms by (auto simp: addToDirtyList_def Let_def ptr_steps same)
qed

text \<open>A node of the list, its neighbours, and the rest.\<close>

lemma dl_node:
  assumes "dl_rep (ys @ p # zs) d"
  shows "p < length (dp_nodes d)" "p \<notin> set ys" "p \<notin> set zs" "pd_prev (pd_at d p) = (if ys = [] then None else Some (last ys))"
    "zs \<noteq> [] \<Longrightarrow> pd_next (pd_at d p) = Some (hd zs)"
    "pd_next (pd_at d p) = Some n \<Longrightarrow> n < length (dp_nodes d) \<and> n \<noteq> p \<and> n \<notin> set ys \<and> (n \<in> set zs \<longrightarrow> zs \<noteq> [] \<and> n = hd zs)"
    "x \<in> set ys \<Longrightarrow> x < length (dp_nodes d)" "x \<in> set zs \<Longrightarrow> x < length (dp_nodes d)"
proof -
  show a: "p < length (dp_nodes d)" "p \<notin> set ys" "p \<notin> set zs" "pd_prev (pd_at d p) = (if ys = [] then None else Some (last ys))"
    "x \<in> set ys \<Longrightarrow> x < length (dp_nodes d)" "x \<in> set zs \<Longrightarrow> x < length (dp_nodes d)"
    using assms by (auto simp: dl_rep_def node_chain_append)
  show b: "zs \<noteq> [] \<Longrightarrow> pd_next (pd_at d p) = Some (hd zs)" using assms by (auto simp: dl_rep_def node_chain_append)
  show "n < length (dp_nodes d) \<and> n \<noteq> p \<and> n \<notin> set ys \<and> (n \<in> set zs \<longrightarrow> zs \<noteq> [] \<and> n = hd zs)" if n: "pd_next (pd_at d p) = Some n"
  proof (cases "zs = []")
    case True
    then show ?thesis using n assms by (auto simp: dl_rep_def)
  next
    case False
    then have "n = hd zs" "hd zs \<in> set zs" using b n by auto
    then show ?thesis using assms False by (auto simp: dl_rep_def)
  qed
qed

lemma node_chain_front: "node_chain H q xs \<Longrightarrow> node_chain H' q' xs" if "\<forall>x\<in>set (tl xs). pd_prev (H' x) = pd_prev (H x)"
   "xs \<noteq> [] \<longrightarrow> pd_prev (H' (hd xs)) = q'" "\<forall>x\<in>set (butlast xs). pd_next (H' x) = pd_next (H x)"
proof (cases xs)
  case (Cons x ys)
  assume l: "node_chain H q xs"
  have "node_chain H' (Some x) ys = node_chain H (Some x) ys" using that Cons by (intro node_chain_cong) (cases ys, auto)+
  then show ?thesis using l that Cons by (cases ys) auto
qed simp

lemma moveToHead_rep:
  assumes "dl_rep xs d" "p \<in> set xs"
  shows "\<exists>d'. moveToHead p d = (Ok (), d') \<and> dl_rep (p # remove1 p xs) d' \<and> dp_map d' = dp_map d \<and> length (dp_nodes d') = length (dp_nodes d)
     \<and> (\<forall>a<length (dp_nodes d). pd_frame (pd_at d' a) = pd_frame (pd_at d a))"
proof -
  obtain ys zs where xs: "xs = ys @ p # zs" "p \<notin> set ys" using split_list_first[OF assms(2)] by blast
  note rep = assms(1)[unfolded xs] and n = dl_node[OF assms(1)[unfolded xs]]
  have free: "\<forall>a<length (dp_nodes d). \<not> pd_mu (pd_at d a)" using rep by (simp add: dl_rep_def)
  show ?thesis
  proof (cases "ys = []")
    case True
    have "moveToHead p d = (Ok (), d)"
      using True rep n(1,4) free by (cases d) (auto simp: moveToHead_def ptr_steps dl_rep_def unlocked_id)
    then show ?thesis using rep xs True by simp
  next
    case False
    have l: "last ys < length (dp_nodes d)" "hd ys < length (dp_nodes d)" "p \<noteq> last ys" "p \<noteq> hd ys" "dp_head d = Some (hd ys)" "pd_prev (pd_at d p) = Some (last ys)"
      using False n rep by (auto simp: dl_rep_def)
    have nn: "\<forall>y. pd_next (pd_at d p) = Some y \<longrightarrow> y < length (dp_nodes d) \<and> y \<noteq> p \<and> y \<noteq> last ys \<and> y \<noteq> hd ys"
      using n(6) hd_in_set[OF False] last_in_set[OF False] by blast
    obtain d' where m: "moveToHead p d = (Ok (), d')" "length (dp_nodes d') = length (dp_nodes d)" "dp_map d' = dp_map d" "dp_head d' = Some p"
       "dp_tail d' = (if dp_tail d = Some p then Some (last ys) else dp_tail d)"
       and at: "\<And>a. a < length (dp_nodes d) \<Longrightarrow> pd_at d' a = (pd_at d a)\<lparr>pd_mu := False,
          pd_next := (if a = p then Some (hd ys) else if a = last ys then pd_next (pd_at d p) else pd_next (pd_at d a)),
          pd_prev := (if a = p then None else if a = hd ys then Some p else if pd_next (pd_at d p) = Some a then Some (last ys) else pd_prev (pd_at d a))\<rparr>"
      using moveToHead_run[OF free n(1) l(1-6) nn] by blast
    have dist: "distinct (ys @ p # zs)" and lk: "node_chain (pd_at d) None ys" "node_chain (pd_at d) (Some p) zs"
      using rep False by (auto simp: dl_rep_def node_chain_append)
    have ne: "x \<noteq> hd ys" "x \<in> set ys" if "x \<in> set (tl ys)" for x using that dist False by (cases ys; auto)+
    have nb: "x \<noteq> last ys" "x \<in> set ys" if "x \<in> set (butlast ys)" for x
      using that dist False by (cases ys rule: rev_cases; auto)+
    have zt: "x \<noteq> hd zs" "x \<in> set zs" if "x \<in> set (tl zs)" for x using that dist by (cases zs; auto)+
    have yz: "x \<noteq> p \<and> x \<notin> set zs" if "x \<in> set ys" for x using that dist by auto
    have zy: "x \<noteq> p \<and> x \<noteq> hd ys \<and> x \<noteq> last ys \<and> x \<notin> set ys" if "x \<in> set zs" for x
      using that dist hd_in_set[OF False] last_in_set[OF False] by auto
    have zn: "pd_next (pd_at d p) \<noteq> Some x" if "x \<in> set (tl zs)" for x using that zt[OF that] n(5) by (cases zs) auto
    have fld: "pd_next (pd_at d' a) = (if a = p then Some (hd ys) else if a = last ys then pd_next (pd_at d p) else pd_next (pd_at d a))"
        "pd_prev (pd_at d' a) = (if a = p then None else if a = hd ys then Some p else if pd_next (pd_at d p) = Some a then Some (last ys) else pd_prev (pd_at d a))"
      if "a < length (dp_nodes d)" for a
      by (simp_all add: at[OF that])
    have yn: "pd_next (pd_at d p) \<noteq> Some x" if "x \<in> set ys" for x using that n(6) by blast
    have "\<forall>x\<in>set (tl ys). pd_prev (pd_at d' x) = pd_prev (pd_at d x)" using fld(2) ne yz yn n(7) by simp
    moreover have "ys \<noteq> [] \<longrightarrow> pd_prev (pd_at d' (hd ys)) = Some p" using fld(2) l by simp
    moreover have "\<forall>x\<in>set (butlast ys). pd_next (pd_at d' x) = pd_next (pd_at d x)" using fld(1) nb yz n(7) by simp
    ultimately have "node_chain (pd_at d') (Some p) ys" using node_chain_front lk(1) by blast
    moreover have "\<forall>x\<in>set (tl zs). pd_prev (pd_at d' x) = pd_prev (pd_at d x)" using fld(2) zt zn zy n(8) by simp
    moreover have "zs \<noteq> [] \<longrightarrow> pd_prev (pd_at d' (hd zs)) = Some (last ys)" using fld(2)[of "hd zs"] zy[of "hd zs"] n(5) n(8)[of "hd zs"] by simp
    moreover have "\<forall>x\<in>set (butlast zs). pd_next (pd_at d' x) = pd_next (pd_at d x)" using fld(1) zy n(8) by (simp add: in_set_butlastD)
    ultimately have "node_chain (pd_at d') (Some p) ys" "node_chain (pd_at d') (Some (last ys)) zs" using node_chain_front lk(2) by blast+
    moreover have "pd_next (pd_at d' p) = Some (hd ys)" "pd_prev (pd_at d' p) = None" "pd_next (pd_at d' (last ys)) = pd_next (pd_at d p)"
      using fld[OF n(1)] fld[OF l(1)] l(3) by simp_all
    ultimately have "node_chain (pd_at d') None (p # ys @ zs)" using False n(5) by (auto simp: node_chain_append)
    moreover have "y \<notin> set (p # ys @ zs) \<and> y < length (dp_nodes d')" if y: "pd_next (pd_at d' (last (p # ys @ zs))) = Some y" for y
    proof (cases "zs = []")
      case True
      then show ?thesis using y False n(6)[of y] fld(1)[OF l(1)] l(3) m(2) by auto
    next
      case zs: False
      have "last zs \<in> set zs" using zs by simp
      then have "pd_next (pd_at d (last zs)) = Some y" using y zs zy[of "last zs"] n(8)[of "last zs"] fld(1)[of "last zs"] by simp
      then show ?thesis using zs rep m(2) by (auto simp: dl_rep_def)
    qed
    moreover have "dp_tail d' = Some (last (p # ys @ zs))" using m(5) rep False zy[of "last zs"] by (auto simp: dl_rep_def)
    moreover have mu: "\<not> pd_mu (pd_at d' a)" "pd_frame (pd_at d' a) = pd_frame (pd_at d a)" if "a < length (dp_nodes d)" for a
      by (simp_all add: at[OF that])
    moreover have "distinct (p # ys @ zs)" "\<forall>x\<in>set (p # ys @ zs). x < length (dp_nodes d)" using dist n(1,7,8) by auto
    ultimately have "dl_rep (p # ys @ zs) d'" unfolding dl_rep_def using m(2,4) by simp
    moreover have "remove1 p xs = ys @ zs" using xs by (simp add: remove1_append)
    ultimately show ?thesis using m(1-3) mu(2) by simp
  qed
qed


lemma addToDirtyList_rep:
  assumes "dl_rep xs d" "p < length (dp_nodes d)" "p \<notin> set xs" "pd_prev (pd_at d p) = None" "pd_next (pd_at d p) = None"
    and "xs \<noteq> [] \<Longrightarrow> pd_next (pd_at d (last xs)) \<noteq> Some p"
  shows "\<exists>d'. addToDirtyList p d = (Ok (), d') \<and> dl_rep (p # xs) d' \<and> dp_map d' = dp_map d \<and> length (dp_nodes d') = length (dp_nodes d)
     \<and> (\<forall>a<length (dp_nodes d). pd_frame (pd_at d' a) = pd_frame (pd_at d a))"
proof -
  have free: "\<forall>a<length (dp_nodes d). \<not> pd_mu (pd_at d a)" using assms(1) by (simp add: dl_rep_def)
  show ?thesis
  proof (cases xs)
    case Nil
    have "addToDirtyList p d = (Ok (), d\<lparr>dp_head := Some p, dp_tail := Some p\<rparr>)"
      using assms(1) Nil by (simp add: addToDirtyList_def ptr_steps dl_rep_def)
    then show ?thesis using assms Nil free by (auto simp: dl_rep_def)
  next
    case (Cons h ys)
    have h: "h < length (dp_nodes d)" "p \<noteq> h" "dp_head d = Some h" "dp_tail d \<noteq> None" using assms(1,3) Cons by (auto simp: dl_rep_def)
    obtain d' where m: "addToDirtyList p d = (Ok (), d')" "length (dp_nodes d') = length (dp_nodes d)" "dp_map d' = dp_map d" "dp_head d' = Some p"
        "dp_tail d' = dp_tail d"
      and at: "\<And>a. a < length (dp_nodes d) \<Longrightarrow> pd_at d' a = (pd_at d a)\<lparr>pd_mu := False,
          pd_next := (if a = p then Some h else pd_next (pd_at d a)), pd_prev := (if a = h then Some p else pd_prev (pd_at d a))\<rparr>"
      using addToDirtyList_run[OF free assms(2) h] by blast
    have fld: "pd_next (pd_at d' a) = (if a = p then Some h else pd_next (pd_at d a))" "pd_prev (pd_at d' a) = (if a = h then Some p else pd_prev (pd_at d a))"
      "\<not> pd_mu (pd_at d' a)" "pd_frame (pd_at d' a) = pd_frame (pd_at d a)" if "a < length (dp_nodes d)" for a by (simp_all add: at[OF that])
    have old: "distinct xs" "\<forall>x\<in>set xs. x < length (dp_nodes d)" "node_chain (pd_at d) None xs" using assms(1) by (simp_all add: dl_rep_def)
    have "\<forall>x\<in>set (tl xs). pd_prev (pd_at d' x) = pd_prev (pd_at d x)" using fld(2) old(1,2) Cons by auto
    moreover have "xs \<noteq> [] \<longrightarrow> pd_prev (pd_at d' (hd xs)) = Some p" using fld(2) h Cons by simp
    moreover have "\<forall>x\<in>set (butlast xs). pd_next (pd_at d' x) = pd_next (pd_at d x)"
      using fld(1) old(2) assms(3) by (metis in_set_butlastD)
    ultimately have "node_chain (pd_at d') (Some p) xs" using node_chain_front old(3) by blast
    then have "node_chain (pd_at d') None (p # xs)" using fld(1,2)[OF assms(2)] h(2) assms(4) Cons by simp
    moreover have "y \<notin> set (p # xs) \<and> y < length (dp_nodes d')" if y: "pd_next (pd_at d' (last (p # xs))) = Some y" for y
    proof -
      have l: "last xs \<in> set xs" "last xs \<noteq> p" "last (p # xs) = last xs" using Cons assms(3) by auto
      then have "pd_next (pd_at d (last xs)) = Some y" using y fld(1)[of "last xs"] old(2) by simp
      then show ?thesis using assms(1,6) l Cons m(2) by (auto simp: dl_rep_def)
    qed
    moreover have "dp_tail d' = Some (last (p # xs))" using m(5) assms(1) Cons by (simp add: dl_rep_def)
    moreover have "distinct (p # xs)" "\<forall>x\<in>set (p # xs). x < length (dp_nodes d)" using old assms(2,3) by auto
    ultimately have "dl_rep (p # xs) d'" unfolding dl_rep_def using m(2,4) fld(3) by simp
    then show ?thesis using m(1-3) fld(4) by simp
  qed
qed

lemma removeFromLru_rep:
  assumes "dl_rep xs d" "p \<in> set xs"
  shows "\<exists>d'. removeFromLru p d = (Ok (), d') \<and> dl_rep (remove1 p xs) d' \<and> dp_map d' = dp_map d \<and> length (dp_nodes d') = length (dp_nodes d)
     \<and> (\<forall>a<length (dp_nodes d). pd_frame (pd_at d' a) = pd_frame (pd_at d a))"
proof -
  obtain ys zs where xs: "xs = ys @ p # zs" "p \<notin> set ys" using split_list_first[OF assms(2)] by blast
  note rep = assms(1)[unfolded xs] and n = dl_node[OF assms(1)[unfolded xs]]
  have free: "\<forall>a<length (dp_nodes d). \<not> pd_mu (pd_at d a)" using rep by (simp add: dl_rep_def)
  have rm: "remove1 p xs = ys @ zs" using xs by (simp add: remove1_append)
  have dist: "distinct (ys @ p # zs)" and lk: "node_chain (pd_at d) None ys" "node_chain (pd_at d) (Some p) zs"
    using rep by (auto simp: dl_rep_def node_chain_append)
  have ht: "dp_head d = Some p \<longleftrightarrow> ys = []" "dp_tail d = Some p \<longleftrightarrow> zs = []"
    using rep n(2,3) last_in_set[of zs] by (cases ys; auto simp: dl_rep_def)+
  show ?thesis
  proof (cases "ys = [] \<and> zs = []")
    case True
    have "removeFromLru p d = (Ok (), d\<lparr>dp_head := None, dp_tail := None\<rparr>)"
      using ht True n(1) free by (cases d) (auto simp: removeFromLru_def ptr_steps unlocked_id)
    then show ?thesis using free xs True by (auto simp: dl_rep_def)
  next
    case False
    have pv: "\<forall>l. pd_prev (pd_at d p) = Some l \<longrightarrow> l < length (dp_nodes d) \<and> l \<noteq> p" using n(2,4,7) by auto
    have nx: "\<forall>y. pd_next (pd_at d p) = Some y \<longrightarrow> y < length (dp_nodes d) \<and> y \<noteq> p \<and> pd_prev (pd_at d p) \<noteq> Some y" using n(4,6) by auto
    have nb: "\<not> (dp_head d = Some p \<and> dp_tail d = Some p)" using ht False by simp
    obtain d' where m: "removeFromLru p d = (Ok (), d')" "length (dp_nodes d') = length (dp_nodes d)" "dp_map d' = dp_map d"
        "dp_head d' = (if dp_head d = Some p then pd_next (pd_at d p) else dp_head d)"
        "dp_tail d' = (if dp_tail d = Some p then pd_prev (pd_at d p) else dp_tail d)"
      and at: "\<And>a. a < length (dp_nodes d) \<Longrightarrow> pd_at d' a = (pd_at d a)\<lparr>pd_mu := False,
          pd_next := (if a = p then None else if pd_prev (pd_at d p) = Some a then pd_next (pd_at d p) else pd_next (pd_at d a)),
          pd_prev := (if a = p then None else if pd_next (pd_at d p) = Some a then pd_prev (pd_at d p) else pd_prev (pd_at d a))\<rparr>"
      using removeFromLru_run[OF free n(1) nb pv nx] by blast
    have fld: "pd_next (pd_at d' a) = (if a = p then None else if pd_prev (pd_at d p) = Some a then pd_next (pd_at d p) else pd_next (pd_at d a))"
      "pd_prev (pd_at d' a) = (if a = p then None else if pd_next (pd_at d p) = Some a then pd_prev (pd_at d p) else pd_prev (pd_at d a))"
      "\<not> pd_mu (pd_at d' a)" "pd_frame (pd_at d' a) = pd_frame (pd_at d a)" if "a < length (dp_nodes d)" for a by (simp_all add: at[OF that])
    have yn: "pd_next (pd_at d p) \<noteq> Some x" if "x \<in> set ys" for x using that n(6) by blast
    have zn: "pd_next (pd_at d p) \<noteq> Some x" if "x \<in> set (tl zs)" for x using that dist n(5) by (cases zs) auto
    have bl: "pd_prev (pd_at d p) \<noteq> Some x" if "x \<in> set (butlast ys)" for x
      using that dist n(4) by (cases ys rule: rev_cases) auto
    have zp: "pd_prev (pd_at d p) \<noteq> Some x" if "x \<in> set zs" for x
    proof (cases "ys = []")
      case False
      have "set ys \<inter> set zs = {}" using dist by simp
      then have "last ys \<notin> set zs" using last_in_set[OF False] by blast
      then show ?thesis using that n(4) False by auto
    qed (use n(4) in simp)
    have sub: "x \<in> set (butlast ys) \<Longrightarrow> x < length (dp_nodes d) \<and> x \<noteq> p" "x \<in> set (butlast zs) \<Longrightarrow> x < length (dp_nodes d) \<and> x \<noteq> p \<and> x \<in> set zs"
        "x \<in> set (tl zs) \<Longrightarrow> x < length (dp_nodes d) \<and> x \<noteq> p" for x
      using n(2,3,7,8) in_set_butlastD[of x ys] in_set_butlastD[of x zs] list.set_sel(2)[of zs x] by (cases zs; auto)+
    have "node_chain (pd_at d') None ys = node_chain (pd_at d) None ys"
      using fld(1,2) yn bl sub n(2,7) by (intro node_chain_cong) auto
    moreover have "\<forall>x\<in>set (tl zs). pd_prev (pd_at d' x) = pd_prev (pd_at d x)" using fld(2) zn sub by auto
    moreover have "zs \<noteq> [] \<longrightarrow> pd_prev (pd_at d' (hd zs)) = (if ys = [] then None else Some (last ys))"
    proof
      assume zs: "zs \<noteq> []"
      note h = hd_in_set[OF zs]
      have "hd zs \<noteq> p" using h n(3) by metis
      then show "pd_prev (pd_at d' (hd zs)) = (if ys = [] then None else Some (last ys))" using fld(2)[OF n(8)[OF h]] n(4) n(5)[OF zs] by simp
    qed
    moreover have "\<forall>x\<in>set (butlast zs). pd_next (pd_at d' x) = pd_next (pd_at d x)" using fld(1) zp sub by auto
    ultimately have l2: "node_chain (pd_at d') None ys" "node_chain (pd_at d') (if ys = [] then None else Some (last ys)) zs"
      using node_chain_front lk by blast+
    moreover have "pd_next (pd_at d' (last ys)) = pd_next (pd_at d p)" if "ys \<noteq> []"
      using that fld(1)[of "last ys"] n(2,4) n(7)[of "last ys"] by auto
    ultimately have "node_chain (pd_at d') None (ys @ zs)" using n(5) by (auto simp: node_chain_append)
    moreover have "y \<notin> set (ys @ zs) \<and> y < length (dp_nodes d')" if y: "pd_next (pd_at d' (last (ys @ zs))) = Some y" for y
    proof (cases "zs = []")
      case True
      then have "pd_next (pd_at d p) = Some y" using y False fld(1)[of "last ys"] n(2,4) n(7)[of "last ys"] by (auto split: if_splits)
      then show ?thesis using True n(6)[of y] m(2) by auto
    next
      case zs: False
      have "last zs \<in> set zs" using zs by simp
      then have "pd_next (pd_at d (last zs)) = Some y" using y zs zp[of "last zs"] n(3) n(8)[of "last zs"] fld(1)[of "last zs"] by (auto split: if_splits)
      then show ?thesis using zs rep m(2) by (auto simp: dl_rep_def)
    qed
    moreover have "dp_head d' = Some (hd (ys @ zs))" using m(4) ht n(5) rep False by (auto simp: dl_rep_def hd_append)
    moreover have "dp_tail d' = Some (last (ys @ zs))" using m(5) ht n(4) rep False by (auto simp: dl_rep_def)
    moreover have "distinct (ys @ zs)" "\<forall>x\<in>set (ys @ zs). x < length (dp_nodes d)" using dist n(7,8) by auto
    ultimately have "dl_rep (ys @ zs) d'" unfolding dl_rep_def using m(2) fld(3) False by simp
    then show ?thesis using m(1-3) fld(4) rm by simp
  qed
qed


lemma popDirty_rep:
  assumes "dl_rep xs d"
  shows "xs = [] \<Longrightarrow> popDirty d = (None, d)"
    "xs \<noteq> [] \<Longrightarrow> \<exists>d'. popDirty d = (Some (last xs), d') \<and> dl_rep (butlast xs) d' \<and> dp_map d' = dp_map d \<and> dp_nodes d' = dp_nodes d"
proof -
  show "xs = [] \<Longrightarrow> popDirty d = (None, d)" using assms by (simp add: popDirty_def dl_rep_def)
  assume "xs \<noteq> []"
  then obtain ys p where xs: "xs = ys @ [p]" by (cases xs rule: rev_cases) auto
  note n = dl_node[of ys p "[]", folded xs, OF assms]
  show "\<exists>d'. popDirty d = (Some (last xs), d') \<and> dl_rep (butlast xs) d' \<and> dp_map d' = dp_map d \<and> dp_nodes d' = dp_nodes d"
  proof (cases "ys = []")
    case True
    then show ?thesis using assms xs by (auto simp: popDirty_def dl_rep_def)
  next
    case False
    have "hd ys \<noteq> p" "last ys \<noteq> p" using False n(2) hd_in_set[OF False] last_in_set[OF False] by metis+
    moreover have "pd_next (pd_at d (last ys)) = Some p" "node_chain (pd_at d) None ys" using assms xs False by (auto simp: dl_rep_def node_chain_append)
    ultimately show ?thesis using assms xs False n(1,2,4) by (auto simp: popDirty_def dl_rep_def)
  qed
qed

section \<open>The dirty pages\<close>

text \<open>The ids in the list, most recently marked first.\<close>

definition dp_rep :: "u32 list \<Rightarrow> dPages \<Rightarrow> bool" where
  "dp_rep ks d \<longleftrightarrow> distinct ks \<and> dom (dp_map d) = set ks \<and> dl_rep (map (\<lambda>k. the (dp_map d k)) ks) d"

lemma map_remove1_inj: "inj_on f (insert k (set ks)) \<Longrightarrow> map f (remove1 k ks) = remove1 (f k) (map f ks)"
proof (induction ks)
  case (Cons a ks)
  have "f a = f k \<longleftrightarrow> a = k" using inj_on_eq_iff[OF Cons.prems, of a k] by simp
  moreover have "inj_on f (insert k (set ks))" using Cons.prems by (rule inj_on_subset) auto
  ultimately show ?case using Cons.IH by auto
qed simp

lemma dp_rep_known:
  assumes "dp_rep ks d" "dp_map d k = Some p"
  shows "k \<in> set ks" "p \<in> set (map (\<lambda>k. the (dp_map d k)) ks)"
    "map (\<lambda>k. the (dp_map d k)) (remove1 k ks) = remove1 p (map (\<lambda>k. the (dp_map d k)) ks)"
proof -
  show k: "k \<in> set ks" using assms by (auto simp: dp_rep_def)
  show "p \<in> set (map (\<lambda>k. the (dp_map d k)) ks)" using k assms(2) by (force intro: image_eqI[of _ _ k])
  have "inj_on (\<lambda>k. the (dp_map d k)) (set ks)" using assms(1) by (simp add: dp_rep_def dl_rep_def distinct_map)
  then show "map (\<lambda>k. the (dp_map d k)) (remove1 k ks) = remove1 p (map (\<lambda>k. the (dp_map d k)) ks)"
    using map_remove1_inj[of "\<lambda>k. the (dp_map d k)" k ks] k assms(2) by (simp add: insert_absorb)
qed

lemma dl_rep_alloc:
  assumes "dl_rep xs d"
  shows "dl_rep xs (d\<lparr>dp_nodes := dp_nodes d @ [\<lparr>pd_frame = f, pd_next = None, pd_prev = None, pd_mu = False\<rparr>], dp_map := M\<rparr>)"
proof -
  let ?N = "dp_nodes d @ [\<lparr>pd_frame = f, pd_next = None, pd_prev = None, pd_mu = False\<rparr>]"
  have lt: "\<forall>x\<in>set xs. x < length (dp_nodes d)" using assms by (simp add: dl_rep_def)
  have same: "?N ! x = pd_at d x" if "x \<in> set xs" for x using that lt by (simp add: nth_append)
  have "node_chain (\<lambda>a. ?N ! a) None xs = node_chain (pd_at d) None xs"
    using same by (intro node_chain_cong) (auto dest: in_set_butlastD)
  then show ?thesis using assms same by (auto simp: dl_rep_def nth_append less_Suc_eq)
qed

lemma addDirtyFrame_rep:
  assumes "dp_rep ks d"
  shows "\<exists>d'. addDirtyFrame f k d = (Ok (), d') \<and> dp_rep (k # remove1 k ks) d'"
proof -
  let ?xs = "map (\<lambda>k. the (dp_map d k)) ks"
  have rep: "dl_rep ?xs d" and ks: "distinct ks" "dom (dp_map d) = set ks" using assms by (simp_all add: dp_rep_def)
  show ?thesis
  proof (cases "dp_map d k")
    case (Some p)
    note kn = dp_rep_known[OF assms Some]
    obtain d' where d': "moveToHead p d = (Ok (), d')" "dl_rep (p # remove1 p ?xs) d'" "dp_map d' = dp_map d"
      using moveToHead_rep[OF rep kn(2)] by blast
    have "dp_rep (k # remove1 k ks) d'" using d'(2,3) kn Some ks by (auto simp: dp_rep_def)
    then show ?thesis using d'(1) Some by (simp add: addDirtyFrame_def orPanic_Ok)
  next
    case None
    let ?p = "length (dp_nodes d)"
    let ?d = "d\<lparr>dp_nodes := dp_nodes d @ [\<lparr>pd_frame = f, pd_next = None, pd_prev = None, pd_mu = False\<rparr>], dp_map := (dp_map d)(k \<mapsto> ?p)\<rparr>"
    have k: "k \<notin> set ks" using None ks(2) by (metis domIff)
    have lt: "\<forall>x\<in>set ?xs. x < ?p" using rep by (simp add: dl_rep_def)
    have nx: "pd_next (pd_at ?d (last ?xs)) \<noteq> Some ?p" if "?xs \<noteq> []"
    proof -
      have "last ?xs < ?p" using lt last_in_set[OF that] by (rule bspec)
      then have "pd_at ?d (last ?xs) = pd_at d (last ?xs)" by (simp add: nth_append)
      then show ?thesis using rep that by (auto simp: dl_rep_def)
    qed
    have "\<exists>d'. addToDirtyList ?p ?d = (Ok (), d') \<and> dl_rep (?p # ?xs) d' \<and> dp_map d' = dp_map ?d \<and> length (dp_nodes d') = length (dp_nodes ?d)
       \<and> (\<forall>a<length (dp_nodes ?d). pd_frame (pd_at d' a) = pd_frame (pd_at ?d a))"
      using lt nx by (intro addToDirtyList_rep[OF dl_rep_alloc[OF rep]]) (auto simp: nth_append)
    then obtain d' where d': "addToDirtyList ?p ?d = (Ok (), d')" "dl_rep (?p # ?xs) d'" "dp_map d' = dp_map ?d" by blast
    have "map (\<lambda>j. the (dp_map d' j)) ks = ?xs" using d'(3) k by (auto simp: map_eq_conv)
    then have e: "map (\<lambda>j. the (dp_map d' j)) (k # ks) = ?p # ?xs" using d'(3) by simp
    have "dl_rep (map (\<lambda>j. the (dp_map d' j)) (k # ks)) d'" unfolding e by (rule d'(2))
    moreover have "distinct (k # ks)" "dom (dp_map d') = set (k # ks)" using d'(3) k ks by auto
    ultimately have "dp_rep (k # ks) d'" unfolding dp_rep_def by blast
    then have "dp_rep (k # remove1 k ks) d'" using k by (simp add: remove1_idem)
    then show ?thesis using d'(1) None by (simp add: addDirtyFrame_def orPanic_Ok Let_def)
  qed
qed

lemma removePage_rep:
  assumes "dp_rep ks d"
  shows "\<exists>d'. removePage k d = (Ok (), d') \<and> dp_rep (remove1 k ks) d'"
proof (cases "dp_map d k")
  case None
  then have "k \<notin> set ks" using assms by (auto simp: dp_rep_def)
  then show ?thesis using None assms by (simp add: removePage_def remove1_idem)
next
  case (Some p)
  let ?d = "d\<lparr>dp_map := (dp_map d)(k := None)\<rparr>" and ?xs = "map (\<lambda>k. the (dp_map d k)) ks"
  note kn = dp_rep_known[OF assms Some]
  have "dl_rep ?xs ?d" and ks: "distinct ks" "dom (dp_map d) = set ks" using assms by (simp_all add: dp_rep_def dl_rep_def)
  then obtain d' where d': "removeFromLru p ?d = (Ok (), d')" "dl_rep (remove1 p ?xs) d'" "dp_map d' = (dp_map d)(k := None)"
    using removeFromLru_rep[of ?xs ?d p] kn(2) by auto
  have "k \<notin> set (remove1 k ks)" using ks(1) by simp
  then have e: "map (\<lambda>j. the (dp_map d' j)) (remove1 k ks) = remove1 p ?xs" unfolding kn(3)[symmetric] using d'(3) by (auto simp: map_eq_conv)
  have "dl_rep (map (\<lambda>j. the (dp_map d' j)) (remove1 k ks)) d'" unfolding e by (rule d'(2))
  moreover have "distinct (remove1 k ks)" "dom (dp_map d') = set (remove1 k ks)" using d'(3) ks by auto
  ultimately have "dp_rep (remove1 k ks) d'" unfolding dp_rep_def by blast
  then show ?thesis using d'(1) Some by (simp add: removePage_def orPanic_Ok)
qed

lemma popDirtyPage_rep:
  assumes "dp_rep ks d" "ks \<noteq> []" "key_of (pd_frame (pd_at d (the (dp_map d (last ks))))) = last ks" "last ks \<noteq> 0"
  shows "\<exists>d'. popDirtyPage key_of d = (dp_map d (last ks), d') \<and> dp_rep (butlast ks) d'"
proof -
  let ?f = "\<lambda>k. the (dp_map d k)"
  obtain p where p: "dp_map d (last ks) = Some p" using assms(1,2) by (metis dp_rep_def domD last_in_set)
  have rep: "dl_rep (map ?f ks) d" and ks: "distinct ks" "dom (dp_map d) = set ks" using assms(1) by (simp_all add: dp_rep_def)
  obtain d' where d': "popDirty d = (Some p, d')" "dl_rep (butlast (map ?f ks)) d'" "dp_map d' = dp_map d" "dp_nodes d' = dp_nodes d"
    using popDirty_rep(2)[OF rep] assms(2) p by (auto simp: last_map)
  let ?d = "d'\<lparr>dp_map := (dp_map d)(last ks := None)\<rparr>"
  have nb: "last ks \<notin> set (butlast ks)" "set (butlast ks) = set ks - {last ks}"
    using ks(1) assms(2) by (cases ks rule: rev_cases; auto)+
  then have e: "map (\<lambda>j. the (dp_map ?d j)) (butlast ks) = butlast (map ?f ks)" by (auto simp: map_butlast[symmetric] map_eq_conv)
  have "dl_rep (map (\<lambda>j. the (dp_map ?d j)) (butlast ks)) ?d" unfolding e using d'(2) by (simp add: dl_rep_def)
  moreover have "distinct (butlast ks)" "dom (dp_map ?d) = set (butlast ks)" using ks nb by (auto simp: distinct_butlast)
  ultimately have "dp_rep (butlast ks) ?d" unfolding dp_rep_def by blast
  then show ?thesis using d' p assms(3,4) by (simp add: popDirtyPage_def Let_def)
qed


section \<open>The interface\<close>

text \<open>What the shard relies on: a list of ids ordered by the last time each was touched.\<close>

datatype 'k recency_op = Touch 'k | Forget 'k

fun reorder :: "'k recency_op list \<Rightarrow> 'k list \<Rightarrow> 'k list" where
  "reorder [] ks = ks"
| "reorder (Touch k # ops) ks = reorder ops (k # remove1 k ks)"
| "reorder (Forget k # ops) ks = reorder ops (remove1 k ks)"

fun run_ops :: "('k \<Rightarrow> 's \<Rightarrow> unit res \<times> 's) \<Rightarrow> ('k \<Rightarrow> 's \<Rightarrow> unit res \<times> 's) \<Rightarrow> 'k recency_op list \<Rightarrow> 's \<Rightarrow> unit res \<times> 's" where
  "run_ops touch forget [] s = (Ok (), s)"
| "run_ops touch forget (Touch k # ops) s = bindS (touch k) (\<lambda>_. run_ops touch forget ops) s"
| "run_ops touch forget (Forget k # ops) s = bindS (forget k) (\<lambda>_. run_ops touch forget ops) s"

locale recency_list =
  fixes rep :: "'k list \<Rightarrow> 's \<Rightarrow> bool"
    and touch :: "'k \<Rightarrow> 's \<Rightarrow> unit res \<times> 's"
    and forget :: "'k \<Rightarrow> 's \<Rightarrow> unit res \<times> 's"
  assumes touch: "rep ks s \<Longrightarrow> \<exists>s'. touch k s = (Ok (), s') \<and> rep (k # remove1 k ks) s'"
    and forget: "rep ks s \<Longrightarrow> \<exists>s'. forget k s = (Ok (), s') \<and> rep (remove1 k ks) s'"
begin

lemma run_reorder: "rep ks s \<Longrightarrow> \<exists>s'. run_ops touch forget ops s = (Ok (), s') \<and> rep (reorder ops ks) s'"
proof (induction ops arbitrary: ks s)
  case (Cons op ops)
  show ?case
  proof (cases op)
    case (Touch k)
    obtain s1 where "touch k s = (Ok (), s1)" "rep (k # remove1 k ks) s1" using touch[OF Cons.prems] by blast
    then show ?thesis using Cons.IH[of "k # remove1 k ks" s1] Touch by (simp add: bindS_def)
  next
    case (Forget k)
    obtain s1 where "forget k s = (Ok (), s1)" "rep (remove1 k ks) s1" using forget[OF Cons.prems] by blast
    then show ?thesis using Cons.IH[of "remove1 k ks" s1] Forget by (simp add: bindS_def)
  qed
qed simp

end

interpretation dirty: recency_list dp_rep "\<lambda>k. addDirtyFrame (fr k) k" removePage for fr
  by unfold_locales (rule addDirtyFrame_rep, assumption, rule removePage_rep, assumption)

lemma new_rep: "dp_rep [] NewDirtyPageList"
  by (simp add: dp_rep_def NewDirtyPageList_def dl_rep_def)

text \<open>C34. The list of dirty pages, from its creation on, under any sequence of \<^verbatim>\<open>addDirtyFrame\<close> and \<^verbatim>\<open>removePage\<close>: no call waits for a
  lock or panics, and the node_chain nodes are, from head to tail, those of the pages that were marked and not removed since, each once, the
  most recently marked first; forward and backward pointers agree.\<close>

theorem dirty_list_order:
  "\<exists>d. run_ops (\<lambda>k. addDirtyFrame (fr k) k) removePage ops NewDirtyPageList = (Ok (), d)
     \<and> dom (dp_map d) = set (reorder ops []) \<and> distinct (reorder ops [])
     \<and> dl_rep (map (\<lambda>k. the (dp_map d k)) (reorder ops [])) d"
  using dirty.run_reorder[OF new_rep, of fr ops] unfolding dp_rep_def by blast

text \<open>\<^verbatim>\<open>popDirtyPage\<close> on such a list: it returns the node of the page that was marked longest ago and takes it
  out of list and map, when the frame still holds that page.\<close>

theorem popDirtyPage_oldest:
  assumes "run_ops (\<lambda>k. addDirtyFrame (fr k) k) removePage ops NewDirtyPageList = (Ok (), d)" "reorder ops [] = ks @ [k]" "k \<noteq> 0"
    and "key_of (pd_frame (pd_at d (the (dp_map d k)))) = k"
  shows "\<exists>d'. popDirtyPage key_of d = (dp_map d k, d') \<and> dom (dp_map d') = set ks \<and> dl_rep (map (\<lambda>k. the (dp_map d' k)) ks) d'"
proof -
  have "dp_rep (ks @ [k]) d" using dirty.run_reorder[OF new_rep, of fr ops] assms(1,2) by auto
  from popDirtyPage_rep[OF this, of key_of] assms(3,4) show ?thesis by (auto simp: dp_rep_def)
qed

theorem popDirtyPage_oldest_witness:
  "\<exists>d d'. run_ops (\<lambda>k. addDirtyFrame (unat k) k) removePage [Touch 5, Touch 6, Touch 5] NewDirtyPageList = (Ok (), d)
     \<and> popDirtyPage of_nat d = (dp_map d 6, d') \<and> dom (dp_map d') = {5}"
proof -
  let ?ops = "[Touch 5, Touch 6, Touch 5] :: u32 recency_op list"
  let ?r = "run_ops (\<lambda>k. addDirtyFrame (unat k) k) removePage ?ops NewDirtyPageList"
  have r: "fst ?r = Ok ()" "of_nat (pd_frame (pd_at (snd ?r) (the (dp_map (snd ?r) 6)))) = (6 :: u32)"
    by code_simp+
  have o: "reorder ?ops [] = [5] @ [6]" by simp
  obtain x d where d: "?r = (x, d)" by (rule prod.exhaust)
  then have run: "?r = (Ok (), d)" using r(1) by (simp only: fst_conv)
  have k: "of_nat (pd_frame (pd_at d (the (dp_map d 6)))) = (6 :: u32)" using r(2) unfolding d snd_conv .
  from popDirtyPage_oldest[where fr = unat and key_of = of_nat, OF run o _ k] obtain d' where "popDirtyPage of_nat d = (dp_map d 6, d')" "dom (dp_map d') = set [5]" by force
  then show ?thesis using run unfolding list.set by blast
qed

end
