(* ===== verification/PageIds.thy ===== *)
theory PageIds
  imports PagerProps
begin

text \<open>
  Page ids: what the users of the pager rely on (an id handed out is not in use) as an interface, and the
  pager's free list and counter as its implementation.
\<close>

section \<open>The interface\<close>

fun repeat_alloc :: "('s \<Rightarrow> 'a res \<times> 's) \<Rightarrow> nat \<Rightarrow> 's \<Rightarrow> 'a list res \<times> 's" where
  "repeat_alloc alloc 0 s = (Ok [], s)"
| "repeat_alloc alloc (Suc n) s = bindS alloc (\<lambda>x. bindS (repeat_alloc alloc n) (\<lambda>xs. returnS (x # xs))) s"

locale page_allocator =
  fixes invar :: "'s \<Rightarrow> bool"
    and live :: "'s \<Rightarrow> 'i set"
    and room :: "'s \<Rightarrow> nat"
    and alloc :: "'s \<Rightarrow> 'i res \<times> 's"
  assumes alloc_fresh: "invar s \<Longrightarrow> 0 < room s \<Longrightarrow>
    \<exists>n s'. alloc s = (Ok n, s') \<and> n \<notin> live s \<and> live s' = insert n (live s) \<and> invar s' \<and> room s \<le> Suc (room s')"
begin

lemma alloc_many:
  "invar s \<Longrightarrow> n \<le> room s \<Longrightarrow> \<exists>ns s'. repeat_alloc alloc n s = (Ok ns, s') \<and> length ns = n \<and> distinct ns
     \<and> set ns \<inter> live s = {} \<and> live s' = set ns \<union> live s \<and> invar s'"
proof (induction n arbitrary: s)
  case (Suc n)
  then obtain x s1 where x: "alloc s = (Ok x, s1)" "x \<notin> live s" "live s1 = insert x (live s)" "invar s1" "room s \<le> Suc (room s1)"
    using alloc_fresh [of s] by auto
  then obtain ns s' where "repeat_alloc alloc n s1 = (Ok ns, s')" "length ns = n" "distinct ns"
    "set ns \<inter> live s1 = {}" "live s' = set ns \<union> live s1" "invar s'"
    using Suc.IH [of s1] Suc.prems by auto
  with x show ?case by (intro exI [of _ "x # ns"] exI [of _ s']) (auto simp: bindS_def returnS_def)
qed simp

end

section \<open>The pager\<close>

definition ids_ok :: "Pager \<Rightarrow> bool" where
  "ids_ok pgr \<longleftrightarrow> fl_ok (pgr_freeList pgr) \<and> distinct (fl_freePages (pgr_freeList pgr))
     \<and> (\<forall>p\<in>set (fl_freePages (pgr_freeList pgr)). 1 \<le> unat p \<and> unat p \<le> unat (pgr_maxPageId pgr))
     \<and> unat (pgr_maxPageId pgr) < 2 ^ 31"

definition live_ids :: "Pager \<Rightarrow> u32 set" where
  "live_ids pgr = {p. 1 \<le> unat p \<and> unat p \<le> unat (pgr_maxPageId pgr)} - set (fl_freePages (pgr_freeList pgr))"

definition ids_left :: "Pager \<Rightarrow> nat" where
  "ids_left pgr = length (fl_freePages (pgr_freeList pgr)) + (2 ^ 31 - 1 - unat (pgr_maxPageId pgr))"

lemma not_neg: "unat p < 2 ^ 31 \<Longrightarrow> \<not> (p :: u32) <s 0"
  using sint_count [of "unat p"] by (simp add: word_sless_alt)

lemma NewPageId_free:
  assumes "ids_ok pgr" "fl_freePages (pgr_freeList pgr) = ps @ [p]"
  shows "\<exists>pgr'. NewPageId pgr = (Ok p, pgr') \<and> fl_freePages (pgr_freeList pgr') = ps \<and> fl_ok (pgr_freeList pgr')
     \<and> pgr_maxPageId pgr' = pgr_maxPageId pgr"
proof -
  have ok: "fl_ok (pgr_freeList pgr)" and u: "unat p < 2 ^ 31" using assms by (auto simp: ids_ok_def)
  show ?thesis using pop_snoc [OF ok assms(2)] pop_ok [OF ok] not_neg [OF u] by (simp add: NewPageId_def)
qed

lemma NewPageId_new:
  assumes "ids_ok pgr" "fl_freePages (pgr_freeList pgr) = []"
  shows "NewPageId pgr = (Ok (pgr_maxPageId pgr + 1), pgr\<lparr>pgr_maxPageId := pgr_maxPageId pgr + 1\<rparr>)"
  using assms pop_empty [of "pgr_freeList pgr"] by (simp add: NewPageId_def ids_ok_def word_sless_alt)

lemma NewPageId_fresh:
  assumes "ids_ok pgr" "0 < ids_left pgr"
  shows "\<exists>n pgr'. NewPageId pgr = (Ok n, pgr') \<and> n \<notin> live_ids pgr \<and> live_ids pgr' = insert n (live_ids pgr)
     \<and> ids_ok pgr' \<and> ids_left pgr \<le> Suc (ids_left pgr')"
proof (cases "fl_freePages (pgr_freeList pgr)" rule: rev_cases)
  case (snoc ps p)
  obtain pgr' where p': "NewPageId pgr = (Ok p, pgr')" "fl_freePages (pgr_freeList pgr') = ps" "fl_ok (pgr_freeList pgr')"
    "pgr_maxPageId pgr' = pgr_maxPageId pgr" using NewPageId_free [OF assms(1) snoc] by blast
  have "p \<notin> set ps" "1 \<le> unat p" "unat p \<le> unat (pgr_maxPageId pgr)" using assms(1) snoc by (auto simp: ids_ok_def)
  with p' assms(1) snoc show ?thesis
    by (intro exI [of _ p] exI [of _ pgr']) (auto simp: ids_ok_def live_ids_def ids_left_def)
next
  case Nil
  let ?m = "pgr_maxPageId pgr"
  have lt: "unat ?m < 2 ^ 31 - 1" using assms Nil by (simp add: ids_left_def)
  have "?m + 1 \<noteq> 0"
  proof
    assume "?m + 1 = 0"
    then have "?m = -1" by (simp add: eq_neg_iff_add_eq_0)
    with lt show False by (simp add: unsigned_minus_1_eq_mask mask_eq_exp_minus_1)
  qed
  then have u: "unat (?m + 1) = Suc (unat ?m)" by (metis unatSuc add.commute)
  have "{p. 1 \<le> unat p \<and> unat p \<le> Suc (unat ?m)} = insert (?m + 1) {p. 1 \<le> unat p \<and> unat p \<le> unat ?m}"
    using u by (auto simp: le_Suc_eq word_unat_eq_iff)
  with NewPageId_new [OF assms(1) Nil] Nil u lt assms(1) show ?thesis
    by (intro exI [of _ "?m + 1"] exI [of _ "pgr\<lparr>pgr_maxPageId := ?m + 1\<rparr>"])
       (auto simp: ids_ok_def live_ids_def ids_left_def)
qed

interpretation pager_ids: page_allocator ids_ok live_ids ids_left NewPageId
  by unfold_locales (rule NewPageId_fresh)

section \<open>Properties\<close>

text \<open>C24. Page ids are not handed out twice: any number of calls of \<^verbatim>\<open>NewPageId\<close> for which ids are left
  return distinct ids, none of them in use, and exactly these are in use afterwards in addition.\<close>

theorem NewPageId_distinct:
  assumes "ids_ok pgr" "n \<le> ids_left pgr"
  shows "\<exists>ns pgr'. repeat_alloc NewPageId n pgr = (Ok ns, pgr') \<and> length ns = n \<and> distinct ns
     \<and> set ns \<inter> live_ids pgr = {} \<and> live_ids pgr' = set ns \<union> live_ids pgr \<and> ids_ok pgr'"
  by (rule pager_ids.alloc_many [OF assms])

theorem NewPageId_distinct_witness:
  "\<exists>ns pgr'. repeat_alloc NewPageId 3 (pager2\<lparr>pgr_freeList := snd (add 2 fl0)\<rparr>) = (Ok ns, pgr') \<and> length ns = 3 \<and> distinct ns"
proof -
  let ?p = "pager2\<lparr>pgr_freeList := snd (add 2 fl0)\<rparr>"
  have "ids_ok ?p" by (simp add: ids_ok_def fl_ok_def add_def fl0_def pager2_def)
  moreover have "3 \<le> ids_left ?p" by (simp add: ids_left_def pager2_def)
  ultimately show ?thesis using NewPageId_distinct by blast
qed

end
