(* ===== verification/BufferManager.thy ===== *)
theory BufferManager
  imports PoolBg DirtyList PageIds
begin

text \<open>
  The buffer manager, \<^verbatim>\<open>pkg/buffermanager/buffermanager.go\<close>: shards that share one pager; a page belongs to the shard its id hashes to. A
  client's frame is the number of the shard that holds it and its index there. The hash functions (\<^verbatim>\<open>internal/tinylfu/hashfuncs.go\<close>, over \<^verbatim>\<open>cespare/xxhash\<close>)
  are parameters: \<open>hb\<close> of the manager, \<open>hs\<close> of the filters of the shards.
\<close>

section \<open>State\<close>

record shard =
  sh_wTinyLfu :: WTinyLfu
  sh_CacheMap :: "u32 \<rightharpoonup> nat"
  sh_diryList :: dPages

record BufferManager =
  bm_pager :: Pager
  bm_shards :: "shard list"
  bm_numShards :: u64

type_synonym bmFrame = "nat \<times> nat"

definition pool_of :: "BufferManager \<Rightarrow> nat \<Rightarrow> pool" where
  "pool_of bm idx = \<lparr>p_w = sh_wTinyLfu (bm_shards bm ! idx), p_table = sh_CacheMap (bm_shards bm ! idx), p_pgr = bm_pager bm\<rparr>"

definition put_pool :: "nat \<Rightarrow> pool \<Rightarrow> BufferManager \<Rightarrow> BufferManager" where
  "put_pool idx s bm = bm\<lparr>bm_pager := p_pgr s,
     bm_shards := (bm_shards bm)[idx := (bm_shards bm ! idx)\<lparr>sh_wTinyLfu := p_w s, sh_CacheMap := p_table s\<rparr>]\<rparr>"

text \<open>\<^verbatim>\<open>c.shards[idx]\<close>: out of range is a panic.\<close>

definition on_shard :: "nat \<Rightarrow> (pool \<Rightarrow> 'a res \<times> pool) \<Rightarrow> BufferManager \<Rightarrow> 'a res \<times> BufferManager" where
  "on_shard idx m bm =
     (if length (bm_shards bm) \<le> idx then (Panic ''index out of range'', bm)
      else (case m (pool_of bm idx) of (r, s) \<Rightarrow> (r, put_pool idx s bm)))"

definition on_pager :: "(Pager \<Rightarrow> 'a res \<times> Pager) \<Rightarrow> BufferManager \<Rightarrow> 'a res \<times> BufferManager" where
  "on_pager m bm = (case m (bm_pager bm) of (r, pgr) \<Rightarrow> (r, bm\<lparr>bm_pager := pgr\<rparr>))"

section \<open>Operations\<close>

definition getShard :: "hasher \<Rightarrow> u32 \<Rightarrow> BufferManager \<Rightarrow> nat res \<times> BufferManager" where
  "getShard hb key bm = (if bm_numShards bm = 0 then (Panic ''integer divide by zero'', bm) else (Ok (unat (hb (le32 key) mod bm_numShards bm)), bm))"

definition bm_Delete :: "hasher \<Rightarrow> (nat \<Rightarrow> hasher) \<Rightarrow> u32 \<Rightarrow> BufferManager \<Rightarrow> unit res \<times> BufferManager" where
  "bm_Delete hb hs pid = bindS (getShard hb pid) (\<lambda>idx. on_shard idx (sh_delete (hs idx) pid))"

definition GetRootPageId :: "BufferManager \<Rightarrow> u32" where
  "GetRootPageId bm = RootPage (bm_pager bm)"

definition GetFromShard :: "(nat \<Rightarrow> hasher) \<Rightarrow> u32 \<Rightarrow> nat \<Rightarrow> BufferManager \<Rightarrow> (bmFrame \<times> bool) res \<times> BufferManager" where
  "GetFromShard hs pid idx = bindS (on_shard idx (sh_get (hs idx) pid)) (\<lambda>(i, hit). returnS ((idx, i), hit))"

definition bm_Get :: "hasher \<Rightarrow> (nat \<Rightarrow> hasher) \<Rightarrow> u32 \<Rightarrow> BufferManager \<Rightarrow> (bmFrame \<times> bool) res \<times> BufferManager" where
  "bm_Get hb hs pid = bindS (getShard hb pid) (\<lambda>idx.
     bindS (on_shard idx (sh_get (hs idx) pid)) (\<lambda>(i, hit). returnS ((idx, i), hit)))"

definition NewFrame :: "hasher \<Rightarrow> (nat \<Rightarrow> hasher) \<Rightarrow> bool \<Rightarrow> bool \<Rightarrow> BufferManager \<Rightarrow> bmFrame res \<times> BufferManager" where
  "NewFrame hb hs internal setAsRoot =
     bindS (on_pager NewPageId) (\<lambda>newPid.
     bindS (getShard hb newPid) (\<lambda>idx.
     bindS (on_shard idx (sh_newFrame (hs idx) internal setAsRoot newPid)) (\<lambda>i. returnS (idx, i))))"

text \<open>The frame of a handle.\<close>

definition frame_at :: "bmFrame \<Rightarrow> BufferManager \<Rightarrow> Frame" where
  "frame_at f bm = ce_entry (entry_of (snd f) (pool_of bm (fst f)))"

definition on_dirty :: "nat \<Rightarrow> (dPages \<Rightarrow> 'a res \<times> dPages) \<Rightarrow> BufferManager \<Rightarrow> 'a res \<times> BufferManager" where
  "on_dirty idx m bm = (case m (sh_diryList (bm_shards bm ! idx)) of
      (r, d) \<Rightarrow> (r, bm\<lparr>bm_shards := (bm_shards bm)[idx := (bm_shards bm ! idx)\<lparr>sh_diryList := d\<rparr>]\<rparr>))"

text \<open>\<^verbatim>\<open>shard.markFrameDirty\<close> of the shard \<open>idx\<close>: the frame is marked, and enters the list of dirty pages.\<close>

definition markFrameDirty :: "nat \<Rightarrow> bmFrame \<Rightarrow> BufferManager \<Rightarrow> unit res \<times> BufferManager" where
  "markFrameDirty idx f =
     bindS (on_shard (fst f) (cl_MarkDirty (snd f))) (\<lambda>_ bm.
     on_dirty idx (addDirtyFrame (snd f) (getKey (frame_at f bm))) bm)"

definition MarkFrameDirty :: "hasher \<Rightarrow> bmFrame \<Rightarrow> BufferManager \<Rightarrow> unit res \<times> BufferManager" where
  "MarkFrameDirty hb f bm = bindS (getShard hb (getKey (frame_at f bm))) (\<lambda>idx. markFrameDirty idx f) bm"

definition flushWritten :: "BufferManager \<Rightarrow> unit res \<times> BufferManager" where
  "flushWritten = on_pager pgr_Flush"

fun flushShardsFreeList :: "nat list \<Rightarrow> BufferManager \<Rightarrow> unit res \<times> BufferManager" where
  "flushShardsFreeList [] = returnS ()"
| "flushShardsFreeList (idx # is) = bindS (on_shard idx sh_flushFreeList) (\<lambda>_. flushShardsFreeList is)"

definition SetNewRoot :: "bmFrame \<Rightarrow> BufferManager \<Rightarrow> unit res \<times> BufferManager" where
  "SetNewRoot f =
     bindS (on_shard (fst f) (on_e (snd f) (on_frame (Acquire True)))) (\<lambda>_ bm.
     (let pId = getKey (frame_at f bm) in
      bindS (on_shard (fst f) (on_e (snd f) (on_frame (Release True)))) (\<lambda>_.
      on_pager (\<lambda>pgr. (Ok (), UpdateRootPage pId pgr))) bm))"

text \<open>Closing a shard ends its workers and its background writer and gives the memory of the pool back: the frames are gone.\<close>

definition bm_Close :: "BufferManager \<Rightarrow> unit res \<times> BufferManager" where
  "bm_Close bm = on_pager pgr_Close (bm\<lparr>bm_shards := []\<rparr>)"

text \<open>A new shard: its sizes (window, main cache, probation and protected caps, width and depth of the sketch) come from float64 products and
  the size of a clock entry in memory; \<open>dims\<close> gives them for a cache size. The hash function of the filter is an argument, and
  \<open>wal\<close> and \<open>pgr\<close> say that these pointers are not nil. The workers serve their jobs when they are submitted, so starting them is
  no step.\<close>

type_synonym sizes = "u64 \<times> u64 \<times> u64 \<times> u64 \<times> u64 \<times> u64"

definition newShard :: "hasher \<Rightarrow> (u64 \<Rightarrow> sizes) \<Rightarrow> bool \<Rightarrow> bool \<Rightarrow> u64 \<Rightarrow> bool \<Rightarrow> shard res" where
  "newShard h dims wal pgr cacheSize reserveMetadataEntry =
     (if \<not> wal then Err (BufferManagerError ''wal instance  not provided.'')
      else if \<not> pgr then Err (BufferManagerError ''pager instance  not provided.'')
      else (case dims cacheSize of (windSize, mainSize, probationCap, protectedCap, cmsWidth, cmsDepth) \<Rightarrow>
        (case NewWTinylfu h windSize mainSize reserveMetadataEntry probationCap protectedCap cmsWidth cmsDepth of
           Err e \<Rightarrow> Panic ''err'' | Panic p \<Rightarrow> Panic p | Blocked \<Rightarrow> Blocked
         | Ok w \<Rightarrow>
             if reserveMetadataEntry \<and> getReserved (w_cBuffer w) = None then Err (BufferManagerError ''Unable to initialize metadata frame'')
             else Ok \<lparr>sh_wTinyLfu = w, sh_CacheMap = Map.empty, sh_diryList = NewDirtyPageList\<rparr>)))"

fun new_shards :: "(nat \<Rightarrow> shard res) \<Rightarrow> nat list \<Rightarrow> shard list res" where
  "new_shards mk [] = Ok []"
| "new_shards mk (i # is) = bindR (mk i) (\<lambda>sh. bindR (new_shards mk is) (\<lambda>r. Ok (sh # r)))"

abbreviation MIN_CACHE_SIZE_KB :: u64 where "MIN_CACHE_SIZE_KB \<equiv> 8192"

definition NewBufferManager :: "hasher \<Rightarrow> (nat \<Rightarrow> hasher) \<Rightarrow> (u64 \<Rightarrow> sizes) \<Rightarrow> u64 \<Rightarrow> u64 \<Rightarrow> u64 \<Rightarrow> bool \<Rightarrow> Pager option \<Rightarrow> bool \<Rightarrow> BufferManager res" where
  "NewBufferManager hb hs dims numCPU CacheSize numShards wal pgr testing =
     (if CacheSize < MIN_CACHE_SIZE_KB then Err (BufferManagerError ''Minimum cache size is %dKB'')
      else if \<not> wal then Err (BufferManagerError ''wal instance  not provided.'')
      else (case pgr of
          None \<Rightarrow> Err (BufferManagerError ''pager instance  not provided.'')
        | Some pgr \<Rightarrow>
            (let numShards = (if numShards < numCPU \<and> \<not> testing \<or> numShards = 0 then numCPU else numShards);
                 perShardCacheSize = CacheSize div numShards;
                 bm = \<lparr>bm_pager = pgr, bm_shards = [], bm_numShards = numShards\<rparr> in
             bindR (fst (getShard hb 0 bm)) (\<lambda>metadataShard.
             bindR (new_shards (\<lambda>i. newShard (hs i) dims wal True perShardCacheSize (i = metadataShard)) [0..<unat numShards]) (\<lambda>shs.
             Ok (bm\<lparr>bm_shards := shs\<rparr>))))))"

section \<open>Clients\<close>

definition Unreference_at :: "bmFrame \<Rightarrow> BufferManager \<Rightarrow> unit res \<times> BufferManager" where
  "Unreference_at f = on_shard (fst f) (cl_Unreference (snd f))"

definition bm_read :: "hasher \<Rightarrow> (nat \<Rightarrow> hasher) \<Rightarrow> u32 \<Rightarrow> BufferManager \<Rightarrow> bytes res \<times> BufferManager" where
  "bm_read hb hs pid = bindS (bm_Get hb hs pid) (\<lambda>(f, _) bm.
     bindS (Unreference_at f) (\<lambda>_. returnS (pgeData (fr_page (frame_at f bm)))) bm)"

definition bm_write :: "hasher \<Rightarrow> (nat \<Rightarrow> hasher) \<Rightarrow> u32 \<Rightarrow> bytes \<Rightarrow> BufferManager \<Rightarrow> unit res \<times> BufferManager" where
  "bm_write hb hs pid b = bindS (bm_Get hb hs pid) (\<lambda>(f, _).
     bindS (on_shard (fst f) (cl_store (snd f) b)) (\<lambda>_.
     bindS (MarkFrameDirty hb f) (\<lambda>_.
     Unreference_at f)))"

definition bm_create :: "hasher \<Rightarrow> (nat \<Rightarrow> hasher) \<Rightarrow> bool \<Rightarrow> bool \<Rightarrow> BufferManager \<Rightarrow> u32 res \<times> BufferManager" where
  "bm_create hb hs internal setAsRoot = bindS (NewFrame hb hs internal setAsRoot) (\<lambda>f bm.
     bindS (Unreference_at f) (\<lambda>_. returnS (getKey (frame_at f bm))) bm)"

end
