(* ===== verification/BufferManagerOk.thy ===== *)
theory BufferManagerOk
  imports BufferManager
begin

text \<open>
  The shards together: an operation on one shard changes the stored pages only where that shard is responsible, so the other shards keep
  their invariant; the buffer manager is a map from page ids to pages.
\<close>

section \<open>Shards and their pools\<close>

lemma put_pool_simps [simp]:
  "length (bm_shards (put_pool idx s bm)) = length (bm_shards bm)" "bm_numShards (put_pool idx s bm) = bm_numShards bm"
  "bm_pager (put_pool idx s bm) = p_pgr s"
  by (simp_all add: put_pool_def)

lemma put_put [simp]: "idx < length (bm_shards bm) \<Longrightarrow> put_pool idx s (put_pool idx t bm) = put_pool idx s bm"
  by (simp add: put_pool_def)

lemma pool_of_put [simp]: "idx < length (bm_shards bm) \<Longrightarrow> pool_of (put_pool idx s bm) idx = s"
  by (simp add: pool_of_def put_pool_def)

lemma pool_of_other: "idx < length (bm_shards bm) \<Longrightarrow> j \<noteq> idx \<Longrightarrow> pool_of (put_pool idx s bm) j = (pool_of bm j)\<lparr>p_pgr := p_pgr s\<rparr>"
  by (simp add: pool_of_def put_pool_def)

lemma put_pool_dirty [simp]: "sh_diryList (bm_shards (put_pool idx s bm) ! j) = sh_diryList (bm_shards bm ! j)"
proof (cases "idx < length (bm_shards bm)")
  case True
  then show ?thesis by (cases "j = idx") (simp_all add: put_pool_def)
qed (simp add: put_pool_def list_update_beyond not_less)

lemma on_shard_run: "idx < length (bm_shards bm) \<Longrightarrow> m (pool_of bm idx) = (r, s) \<Longrightarrow> on_shard idx m bm = (r, put_pool idx s bm)"
  by (simp add: on_shard_def)

definition set_dirty :: "nat \<Rightarrow> dPages \<Rightarrow> BufferManager \<Rightarrow> BufferManager" where
  "set_dirty idx d bm = bm\<lparr>bm_shards := (bm_shards bm)[idx := (bm_shards bm ! idx)\<lparr>sh_diryList := d\<rparr>]\<rparr>"

lemma set_dirty_simps [simp]:
  "length (bm_shards (set_dirty idx d bm)) = length (bm_shards bm)" "bm_numShards (set_dirty idx d bm) = bm_numShards bm"
  "bm_pager (set_dirty idx d bm) = bm_pager bm" "pool_of (set_dirty idx d bm) j = pool_of bm j"
proof -
  show "pool_of (set_dirty idx d bm) j = pool_of bm j"
  proof (cases "idx < length (bm_shards bm)")
    case True
    then show ?thesis by (cases "j = idx") (simp_all add: pool_of_def set_dirty_def)
  qed (simp add: pool_of_def set_dirty_def list_update_beyond not_less)
qed (simp_all add: set_dirty_def)

lemma set_dirty_list: "idx < length (bm_shards bm) \<Longrightarrow>
    sh_diryList (bm_shards (set_dirty idx d bm) ! j) = (if j = idx then d else sh_diryList (bm_shards bm ! j))"
  by (simp add: set_dirty_def)

lemma put_set_dirty: "idx < length (bm_shards bm) \<Longrightarrow> put_pool idx s (set_dirty idx d bm) = set_dirty idx d (put_pool idx s bm)"
  by (cases "bm_shards bm ! idx") (simp add: put_pool_def set_dirty_def)

section \<open>The invariant\<close>

definition home :: "hasher \<Rightarrow> BufferManager \<Rightarrow> u32 \<Rightarrow> nat" where
  "home hb bm k = unat (hb (le32 k) mod bm_numShards bm)"

abbreviation MAX_FRAMES :: nat where "MAX_FRAMES \<equiv> 2 ^ 32"

definition shard_ok :: "nat \<Rightarrow> pool \<Rightarrow> bool" where
  "shard_ok n s \<longleftrightarrow> pool_ok {} s \<and> quiet s \<and> pins_below n s \<and> length (frames s) \<le> MAX_FRAMES"

definition bm_ok :: "hasher \<Rightarrow> nat \<Rightarrow> BufferManager \<Rightarrow> bool" where
  "bm_ok hb n bm \<longleftrightarrow> bm_numShards bm \<noteq> 0 \<and> length (bm_shards bm) = unat (bm_numShards bm)
     \<and> (\<forall>j<length (bm_shards bm). shard_ok n (pool_of bm j) \<and> (\<forall>k. p_table (pool_of bm j) k \<noteq> None \<longrightarrow> home hb bm k = j)
          \<and> (\<exists>ks. dp_rep ks (sh_diryList (bm_shards bm ! j))))"

definition bm_view :: "hasher \<Rightarrow> BufferManager \<Rightarrow> u32 \<Rightarrow> bytes option" where
  "bm_view hb bm k = view (pool_of bm (home hb bm k)) k"

lemma home_less: "bm_ok hb n bm \<Longrightarrow> home hb bm k < length (bm_shards bm)"
  by (simp add: bm_ok_def home_def unat_mod unat_gt_0)

lemma getShard_ok: "bm_ok hb n bm \<Longrightarrow> getShard hb k bm = (Ok (home hb bm k), bm)"
  by (simp add: bm_ok_def getShard_def home_def)

lemma home_same [simp]: "home hb (put_pool idx s bm) = home hb bm" "home hb (set_dirty idx d bm) = home hb bm"
  by (simp_all add: home_def fun_eq_iff)

text \<open>A pool whose pager changes only where the pool has nothing.\<close>

lemma repager:
  assumes "shard_ok n q" "store_ok pgr" "\<And>k. valid_id k \<Longrightarrow> p_table q k \<noteq> None \<Longrightarrow> kept_page pgr k = kept_page (p_pgr q) k"
  shows "shard_ok n (q\<lparr>p_pgr := pgr\<rparr>)"
proof -
  have "ent_ok (p_table q) pgr j (frames q ! j)" if "ent_ok (p_table q) (p_pgr q) j (frames q ! j)" for j
    using that assms(3)[of "ent_key (frames q ! j)"] by (auto simp: ent_ok_def used_ent_def)
  then show ?thesis using assms(1,2) by (auto simp: shard_ok_def pool_ok_def pool_core_def quiet_def pins_below_def)
qed

text \<open>One shard changes: it keeps the pages that belong to other shards.\<close>

lemma bm_shard:
  assumes "bm_ok hb n bm" "idx < length (bm_shards bm)" "n \<le> n'" "shard_ok n' s'" "pgr_ids (p_pgr s') = pgr_ids (bm_pager bm)"
    and "\<And>q. p_table s' q \<noteq> None \<Longrightarrow> home hb bm q = idx"
    and "\<And>q. valid_id q \<Longrightarrow> home hb bm q \<noteq> idx \<Longrightarrow> view s' q = view (pool_of bm idx) q"
  shows "bm_ok hb n' (put_pool idx s' bm)"
    "valid_id q \<Longrightarrow> bm_view hb (put_pool idx s' bm) q = (if home hb bm q = idx then view s' q else bm_view hb bm q)"
    "pgr_ids (bm_pager (put_pool idx s' bm)) = pgr_ids (bm_pager bm)"
proof -
  note idx = assms(2)
  let ?s = "pool_of bm idx"
  have old: "shard_ok n (pool_of bm j)" "p_table (pool_of bm j) q \<noteq> None \<Longrightarrow> home hb bm q = j" "\<exists>ks. dp_rep ks (sh_diryList (bm_shards bm ! j))"
    if "j < length (bm_shards bm)" for j q using assms(1) that by (auto simp: bm_ok_def)
  have st: "store_ok (p_pgr s')" using assms(4) by (simp add: shard_ok_def pool_ok_def pool_core_def)
  have away: "kept_page (p_pgr s') q = kept_page (bm_pager bm) q" if "valid_id q" "home hb bm q \<noteq> idx" for q
  proof -
    have "p_table ?s q = None" "p_table s' q = None" using old(2)[OF idx, of q] assms(6)[of q] that(2) by blast+
    then show ?thesis using assms(7)[OF that] by (simp add: view_def) (simp add: pool_of_def)
  qed
  have other: "shard_ok n' (pool_of (put_pool idx s' bm) j)" if "j < length (bm_shards bm)" "j \<noteq> idx" for j
  proof -
    have "shard_ok n' (pool_of bm j)" using old(1)[OF that(1)] pins_below_mono[OF _ assms(3)] by (auto simp: shard_ok_def)
    then show ?thesis unfolding pool_of_other[OF idx that(2)]
    proof (rule repager[OF _ st])
      fix q assume "valid_id q" "p_table (pool_of bm j) q \<noteq> None"
      then show "kept_page (p_pgr s') q = kept_page (p_pgr (pool_of bm j)) q" using old(2)[OF that(1)] that(2) away by (simp add: pool_of_def)
    qed
  qed
  show "bm_ok hb n' (put_pool idx s' bm)"
    unfolding bm_ok_def
  proof (intro conjI allI impI)
    fix j assume j: "j < length (bm_shards (put_pool idx s' bm))"
    show "shard_ok n' (pool_of (put_pool idx s' bm) j)" using other j assms(4) idx by (cases "j = idx") simp_all
    show "home hb (put_pool idx s' bm) q = j" if "p_table (pool_of (put_pool idx s' bm) j) q \<noteq> None" for q
      using that j idx old(2)[of j q] assms(6)[of q] pool_of_other[OF idx, of j s'] by (cases "j = idx") auto
    show "\<exists>ks. dp_rep ks (sh_diryList (bm_shards (put_pool idx s' bm) ! j))" using old(3) j by simp
  qed (use assms(1) in \<open>simp_all add: bm_ok_def\<close>)
  show "bm_view hb (put_pool idx s' bm) q = (if home hb bm q = idx then view s' q else bm_view hb bm q)" if "valid_id q"
  proof (cases "home hb bm q = idx")
    case False
    then show ?thesis using pool_of_other[OF idx False, of s'] away[OF that False] by (auto simp: bm_view_def view_def pool_of_def split: option.splits)
  qed (use idx in \<open>simp add: bm_view_def\<close>)
  show "pgr_ids (bm_pager (put_pool idx s' bm)) = pgr_ids (bm_pager bm)" using assms(5) by simp
qed

text \<open>One shard serves a request for page \<open>k\<close>.\<close>

lemma bm_step:
  assumes "bm_ok hb n bm" "valid_id k" "n \<le> n'"
  defines "idx \<equiv> home hb bm k"
  assumes "served (pool_of bm idx) n' k s'" "view_is m s'" "\<And>q. valid_id q \<Longrightarrow> q \<noteq> k \<Longrightarrow> m q = view (pool_of bm idx) q"
  shows "bm_ok hb n' (put_pool idx s' bm)" "valid_id q \<Longrightarrow> bm_view hb (put_pool idx s' bm) q = (if q = k then m k else bm_view hb bm q)"
    "pgr_ids (bm_pager (put_pool idx s' bm)) = pgr_ids (bm_pager bm)"
proof -
  have idx: "idx < length (bm_shards bm)" unfolding idx_def by (rule home_less[OF assms(1)])
  have sv: "shard_ok n' s'" "pgr_ids (p_pgr s') = pgr_ids (bm_pager bm)" "\<And>q. p_table s' q \<noteq> None \<Longrightarrow> q = k \<or> p_table (pool_of bm idx) q \<noteq> None"
    using assms(1,5) idx by (auto simp: served_def shard_ok_def pool_of_def bm_ok_def)
  have T: "home hb bm q = idx" if "p_table s' q \<noteq> None" for q
    using sv(3)[OF that] assms(1) idx by (auto simp: bm_ok_def idx_def)
  have V: "view s' q = m q" if "valid_id q" for q using assms(6) that by (simp add: view_is_def)
  have W: "view s' q = view (pool_of bm idx) q" if "valid_id q" "home hb bm q \<noteq> idx" for q
    using V[OF that(1)] assms(7)[OF that(1)] that(2) by (auto simp: idx_def)
  show "bm_ok hb n' (put_pool idx s' bm)" "pgr_ids (bm_pager (put_pool idx s' bm)) = pgr_ids (bm_pager bm)"
    by (rule bm_shard[OF assms(1) idx assms(3) sv(1,2)]; use T W in blast)+
  show "bm_view hb (put_pool idx s' bm) q = (if q = k then m k else bm_view hb bm q)" if "valid_id q"
  proof -
    have "bm_view hb (put_pool idx s' bm) q = (if home hb bm q = idx then view s' q else bm_view hb bm q)"
      by (rule bm_shard[OF assms(1) idx assms(3) sv(1,2)]; use T W that in blast)
    then show ?thesis using V[OF that] assms(7)[OF that] by (auto simp: bm_view_def idx_def)
  qed
qed

text \<open>A pass of the background writer of a shard.\<close>

definition bm_tidy :: "addr \<Rightarrow> u32 \<Rightarrow> nat \<Rightarrow> BufferManager \<Rightarrow> u32 res \<times> BufferManager" where
  "bm_tidy tmp writtenPages idx = on_shard idx (\<lambda>s. bg_pass tmp writtenPages [0..<clk_capacity (w_cBuffer (p_w s))] s)"

lemma quiet_safe: "quiet s \<Longrightarrow> safe s s' \<Longrightarrow> quiet s'"
  by (auto simp: quiet_def safe_but_def calm_def)

lemma bm_tidy_ok:
  assumes "bm_ok hb n bm" "n + MAX_FRAMES < 2 ^ 64 - 1" "idx < length (bm_shards bm)"
  shows "\<exists>w bm'. bm_tidy tmp m idx bm = (Ok w, bm') \<and> bm_ok hb (n + MAX_FRAMES) bm'
     \<and> (\<forall>q. valid_id q \<longrightarrow> bm_view hb bm' q = bm_view hb bm q) \<and> pgr_ids (bm_pager bm') = pgr_ids (bm_pager bm) \<and> length (bm_shards bm') = length (bm_shards bm)"
proof -
  let ?s = "pool_of bm idx" and ?is = "[0..<clk_capacity (w_cBuffer (p_w (pool_of bm idx)))]"
  have ok: "pool_ok {} ?s" "quiet ?s" "pins_below n ?s" "length (frames ?s) \<le> MAX_FRAMES" using assms(1,3) by (auto simp: bm_ok_def shard_ok_def)
  have len: "length ?is = length (frames ?s)" using ok(1) by (simp add: pool_ok_def pool_core_def clk_ok_def)
  obtain w s' where b: "bg_pass tmp m ?is ?s = (Ok w, s')" "pool_ok {} s'" "pins_below (n + length ?is) s'" "safe ?s s'"
    using bg_pass_ok[OF ok(1,3), of ?is tmp m] len ok(4) assms(2) by auto
  have c: "calm {} ?s s'" "\<And>q. valid_id q \<Longrightarrow> view s' q = view ?s q" using b(4) by (auto simp: safe_but_def)
  have "shard_ok (n + MAX_FRAMES) s'"
    using b(2) quiet_safe[OF ok(2) b(4)] pins_below_mono[OF b(3), of "n + MAX_FRAMES"] len ok(4) c(1) by (simp add: shard_ok_def calm_def)
  moreover have "pgr_ids (p_pgr s') = pgr_ids (bm_pager bm)" using c(1) by (simp add: calm_def pool_of_def)
  moreover have "home hb bm q = idx" if "p_table s' q \<noteq> None" for q
    using that c(1) assms(1,3) by (fastforce simp: bm_ok_def calm_def)
  ultimately have sh: "bm_ok hb (n + MAX_FRAMES) (put_pool idx s' bm)" "pgr_ids (bm_pager (put_pool idx s' bm)) = pgr_ids (bm_pager bm)"
      "valid_id q \<Longrightarrow> bm_view hb (put_pool idx s' bm) q = (if home hb bm q = idx then view s' q else bm_view hb bm q)" for q
    using bm_shard[OF assms(1,3), of "n + MAX_FRAMES" s'] c(2) by auto
  have "bm_tidy tmp m idx bm = (Ok w, put_pool idx s' bm)"
    using assms(3) b(1) by (simp add: bm_tidy_def on_shard_def)
  moreover have "bm_view hb (put_pool idx s' bm) q = bm_view hb bm q" if "valid_id q" for q
    using sh(3)[OF that] c(2)[OF that] by (simp add: bm_view_def)
  ultimately show ?thesis using sh(1,2) put_pool_simps(1) by blast
qed

lemma bm_dirty:
  assumes "bm_ok hb n bm" "idx < length (bm_shards bm)" "dp_rep ks d"
  shows "bm_ok hb n (set_dirty idx d bm)" "bm_view hb (set_dirty idx d bm) = bm_view hb bm"
  using assms by (auto simp: bm_ok_def bm_view_def set_dirty_list fun_eq_iff)


section \<open>Requests\<close>

lemma view_is_self: "view_is (view s) s"
  by (simp add: view_is_def)

lemma bm_read_ok:
  assumes "bm_ok hb n bm" "n < 2 ^ 64 - 2" "valid_id k" "bm_view hb bm k = Some b"
  shows "\<exists>b' bm'. bm_read hb hs k bm = (Ok b', bm') \<and> undirty b' = b \<and> bm_ok hb (n + 2) bm'
     \<and> (\<forall>q. valid_id q \<longrightarrow> bm_view hb bm' q = bm_view hb bm q) \<and> pgr_ids (bm_pager bm') = pgr_ids (bm_pager bm) \<and> length (bm_shards bm') = length (bm_shards bm)"
proof -
  define idx where "idx = home hb bm k"
  let ?s = "pool_of bm idx"
  have idx: "idx < length (bm_shards bm)" unfolding idx_def by (rule home_less[OF assms(1)])
  have ok: "pool_ok {} ?s" "quiet ?s" "pins_below n ?s" using assms(1) idx by (auto simp: bm_ok_def shard_ok_def)
  have v: "view ?s k = Some b" using assms(4) by (simp add: bm_view_def idx_def)
  obtain i hit t where g: "sh_get (hs idx) k ?s = (Ok (i, hit), t)" "busy ?s (n + 2) k i t" "safe_but {i} ?s t" "undirty (ent_bytes (frames t ! i)) = b"
    using get_busy[OF ok assms(2,3) v, of "hs idx"] by blast
  obtain s' where u: "cl_Unreference i t = (Ok (), s')" "served ?s (n + 2) k s'" "only_changes {} k b t s'"
    using unpin_served[OF g(2) ok(2)] g(4) by blast
  have "view_is (view ?s) s'"
    using only_changes_view[OF u(3) safe_view[OF g(3) view_is_self]] fun_upd_idem[of "view ?s" k "Some b"] v by simp
  note st = bm_step[OF assms(1,3) le_add1, folded idx_def, OF u(2) this refl]
  have "bm_Get hb hs k bm = (Ok ((idx, i), hit), put_pool idx t bm)"
    using getShard_ok[OF assms(1), of k] on_shard_run[where m = "sh_get (hs idx) k", OF idx g(1)] by (simp add: bm_Get_def bindS_def returnS_def idx_def)
  moreover have "Unreference_at (idx, i) (put_pool idx t bm) = (Ok (), put_pool idx s' bm)"
    using on_shard_run[of idx "put_pool idx t bm" "cl_Unreference i"] u(1) idx by (simp add: Unreference_at_def)
  moreover have "pgeData (fr_page (frame_at (idx, i) (put_pool idx t bm))) = ent_bytes (frames t ! i)"
    using idx by (simp add: frame_at_def entry_of_def w_entry_def)
  ultimately have "bm_read hb hs k bm = (Ok (ent_bytes (frames t ! i)), put_pool idx s' bm)"
    by (simp add: bm_read_def bindS_def returnS_def)
  moreover have "bm_view hb (put_pool idx s' bm) q = bm_view hb bm q" if "valid_id q" for q
    using st(2)[OF that] by (simp add: bm_view_def idx_def)
  ultimately show ?thesis using g(4) st(1,3) put_pool_simps(1) by blast
qed

lemma MarkFrameDirty_run:
  assumes "bm_ok hb n bm" "idx < length (bm_shards bm)" "cl_MarkDirty i t = (Ok (), t')" "home hb bm k = idx"
    and "ent_key (frames t ! i) = k" "ent_key (frames t' ! i) = k"
  shows "\<exists>d ks. MarkFrameDirty hb (idx, i) (put_pool idx t bm) = (Ok (), set_dirty idx d (put_pool idx t' bm)) \<and> dp_rep ks d"
proof -
  obtain ks where "dp_rep ks (sh_diryList (bm_shards bm ! idx))" using assms(1,2) by (auto simp: bm_ok_def)
  then obtain d where d: "addDirtyFrame i k (sh_diryList (bm_shards bm ! idx)) = (Ok (), d)" "dp_rep (k # remove1 k ks) d"
    using addDirtyFrame_rep by blast
  have key: "getKey (frame_at (idx, i) (put_pool idx t bm)) = k" "getKey (frame_at (idx, i) (put_pool idx t' bm)) = k"
    using assms(2,5,6) by (simp_all add: frame_at_def entry_of_def w_entry_def getKey_def)
  have gs: "getShard hb k (put_pool idx t bm) = (Ok idx, put_pool idx t bm)"
    using assms(1,4) by (simp add: getShard_def bm_ok_def home_def)
  have mk: "on_shard idx (cl_MarkDirty i) (put_pool idx t bm) = (Ok (), put_pool idx t' bm)"
    using on_shard_run[of idx "put_pool idx t bm" "cl_MarkDirty i"] assms(2,3) by simp
  have "on_dirty idx (addDirtyFrame i k) (put_pool idx t' bm) = (Ok (), set_dirty idx d (put_pool idx t' bm))"
    using d(1) by (simp add: on_dirty_def set_dirty_def)
  then have "MarkFrameDirty hb (idx, i) (put_pool idx t bm) = (Ok (), set_dirty idx d (put_pool idx t' bm))"
    using key gs mk by (simp add: MarkFrameDirty_def markFrameDirty_def bindS_def)
  then show ?thesis using d(2) by blast
qed

lemma bm_write_ok:
  assumes "bm_ok hb n bm" "n < 2 ^ 64 - 2" "valid_id k" "bm_view hb bm k \<noteq> None" "has_id k b" "alive b"
  shows "\<exists>bm'. bm_write hb hs k b bm = (Ok (), bm') \<and> bm_ok hb (n + 2) bm'
     \<and> (\<forall>q. valid_id q \<longrightarrow> bm_view hb bm' q = (if q = k then Some (undirty b) else bm_view hb bm q)) \<and> pgr_ids (bm_pager bm') = pgr_ids (bm_pager bm) \<and> length (bm_shards bm') = length (bm_shards bm)"
proof -
  define idx where "idx = home hb bm k"
  let ?s = "pool_of bm idx"
  have idx: "idx < length (bm_shards bm)" unfolding idx_def by (rule home_less[OF assms(1)])
  have ok: "pool_ok {} ?s" "quiet ?s" "pins_below n ?s" using assms(1) idx by (auto simp: bm_ok_def shard_ok_def)
  obtain c where v: "view ?s k = Some c" using assms(4) by (auto simp: bm_view_def idx_def)
  obtain i hit t where g: "sh_get (hs idx) k ?s = (Ok (i, hit), t)" "busy ?s (n + 2) k i t" "safe_but {i} ?s t"
    using get_busy[OF ok assms(2,3) v, of "hs idx"] by blast
  obtain t1 t' where w: "cl_store i b t = (Ok (), t1)" "ent_key (frames t1 ! i) = k" "cl_MarkDirty i t1 = (Ok (), t')" "busy ?s (n + 2) k i t'"
      "only_changes {} k (undirty b) t t'" "ent_key (frames t' ! i) = k" "undirty (ent_bytes (frames t' ! i)) = undirty b"
    using store_busy[OF g(2) assms(5,6)] by blast
  obtain s' where u: "cl_Unreference i t' = (Ok (), s')" "served ?s (n + 2) k s'" "only_changes {} k (undirty b) t' s'"
    using unpin_served[OF w(4) ok(2)] w(7) by auto
  let ?m = "(view ?s)(k \<mapsto> undirty b)"
  have "view_is ?m s'" using only_changes_view[OF u(3) only_changes_view[OF w(5) safe_view[OF g(3) view_is_self]]] by simp
  note st = bm_step[OF assms(1,3) le_add1, folded idx_def, OF u(2) this, simplified]
  obtain d ks where d: "MarkFrameDirty hb (idx, i) (put_pool idx t1 bm) = (Ok (), set_dirty idx d (put_pool idx t' bm))" "dp_rep ks d"
    using MarkFrameDirty_run[OF assms(1) idx w(3) _ w(2,6)] by (auto simp: idx_def)
  have "bm_Get hb hs k bm = (Ok ((idx, i), hit), put_pool idx t bm)"
    using getShard_ok[OF assms(1), of k] on_shard_run[where m = "sh_get (hs idx) k", OF idx g(1)] by (simp add: bm_Get_def bindS_def returnS_def idx_def)
  moreover have "on_shard idx (cl_store i b) (put_pool idx t bm) = (Ok (), put_pool idx t1 bm)"
    using on_shard_run[of idx "put_pool idx t bm" "cl_store i b"] w(1) idx by simp
  moreover have "Unreference_at (idx, i) (set_dirty idx d (put_pool idx t' bm)) = (Ok (), set_dirty idx d (put_pool idx s' bm))"
    using on_shard_run[of idx "set_dirty idx d (put_pool idx t' bm)" "cl_Unreference i"] u(1) idx by (simp add: Unreference_at_def put_set_dirty)
  ultimately have run: "bm_write hb hs k b bm = (Ok (), set_dirty idx d (put_pool idx s' bm))"
    using d(1) by (simp add: bm_write_def bindS_def)
  have "bm_ok hb (n + 2) (set_dirty idx d (put_pool idx s' bm))" "bm_view hb (set_dirty idx d (put_pool idx s' bm)) = bm_view hb (put_pool idx s' bm)"
    using bm_dirty[OF st(1) _ d(2), of idx] idx by simp_all
  then show ?thesis using run st(2,3) by simp
qed


section \<open>New pages\<close>

lemma NewPageId_small:
  assumes "ids_ok pgr" "unat (pgr_maxPageId pgr) + 1 < 2 ^ 19"
  shows "\<exists>k pgr'. NewPageId pgr = (Ok k, pgr') \<and> k \<notin> live_ids pgr \<and> live_ids pgr' = insert k (live_ids pgr) \<and> ids_ok pgr' \<and> valid_id k
     \<and> unat (pgr_maxPageId pgr') \<le> unat (pgr_maxPageId pgr) + 1 \<and> store_ok pgr' = store_ok pgr \<and> kept_page pgr' = kept_page pgr"
proof -
  have "0 < ids_left pgr" using assms(2) by (simp add: ids_left_def)
  then obtain k pgr' where k: "NewPageId pgr = (Ok k, pgr')" "k \<notin> live_ids pgr" "live_ids pgr' = insert k (live_ids pgr)" "ids_ok pgr'"
    using NewPageId_fresh[OF assms(1)] by blast
  obtain r fl where p: "pop (pgr_freeList pgr) = (r, fl)" by fastforce
  obtain mx where mx: "pgr' = pgr\<lparr>pgr_freeList := fl, pgr_maxPageId := mx\<rparr>" "mx = pgr_maxPageId pgr \<or> mx = pgr_maxPageId pgr + 1"
  proof (cases r)
    case (Ok x)
    then show ?thesis using that[of "pgr_maxPageId pgr'"] k(1) p by (cases pgr) (auto simp: NewPageId_def split: if_splits)
  qed (use k(1) p in \<open>simp_all add: NewPageId_def\<close>)
  have le: "unat mx \<le> unat (pgr_maxPageId pgr) + 1" using mx(2) assms(2) by (auto simp: unat_word_ariths)
  have "k \<in> live_ids pgr'" using k(3) by simp
  then have "valid_id k" using le mx(1) assms(2) by (auto simp: live_ids_def valid_id_def)
  moreover have "store_ok pgr' = store_ok pgr" "kept_page pgr' = kept_page pgr"
    by (simp_all add: mx(1) store_ok_def kept_page_def pgr_ok_def idle_def page_at_def fun_eq_iff)
  ultimately show ?thesis using k le mx(1) by auto
qed

lemma bm_repager:
  assumes "bm_ok hb n bm" "store_ok pgr = store_ok (bm_pager bm)" "kept_page pgr = kept_page (bm_pager bm)"
  shows "bm_ok hb n (bm\<lparr>bm_pager := pgr\<rparr>)" "bm_view hb (bm\<lparr>bm_pager := pgr\<rparr>) = bm_view hb bm" "home hb (bm\<lparr>bm_pager := pgr\<rparr>) = home hb bm"
proof -
  have p: "pool_of (bm\<lparr>bm_pager := pgr\<rparr>) j = (pool_of bm j)\<lparr>p_pgr := pgr\<rparr>" for j by (simp add: pool_of_def)
  show h: "home hb (bm\<lparr>bm_pager := pgr\<rparr>) = home hb bm" by (simp add: home_def fun_eq_iff)
  have "shard_ok n (pool_of (bm\<lparr>bm_pager := pgr\<rparr>) j)" if "shard_ok n (pool_of bm j)" for j
    unfolding p using that assms(2,3) by (intro repager) (simp_all add: shard_ok_def pool_ok_def pool_core_def pool_of_def)
  moreover have "p_table (pool_of (bm\<lparr>bm_pager := pgr\<rparr>) j) = p_table (pool_of bm j)" for j by (simp add: pool_of_def)
  ultimately show "bm_ok hb n (bm\<lparr>bm_pager := pgr\<rparr>)" using assms(1) by (simp add: bm_ok_def h)
  show "bm_view hb (bm\<lparr>bm_pager := pgr\<rparr>) = bm_view hb bm"
    using assms(3) by (simp add: bm_view_def h view_def pool_of_def fun_eq_iff split: option.splits)
qed

text \<open>Every stored page has an id that is in use.\<close>

definition ids_known :: "hasher \<Rightarrow> BufferManager \<Rightarrow> bool" where
  "ids_known hb bm \<longleftrightarrow> ids_ok (bm_pager bm) \<and> (\<forall>k. valid_id k \<longrightarrow> bm_view hb bm k \<noteq> None \<longrightarrow> k \<in> live_ids (bm_pager bm))"

lemma ids_same: "pgr_ids pgr' = pgr_ids pgr \<Longrightarrow> ids_ok pgr' = ids_ok pgr \<and> live_ids pgr' = live_ids pgr \<and> pgr_maxPageId pgr' = pgr_maxPageId pgr"
  by (simp add: pgr_ids_def ids_ok_def live_ids_def)

lemma bm_create_ok:
  assumes "bm_ok hb n bm" "n < 2 ^ 64 - 2" "ids_known hb bm" "unat (pgr_maxPageId (bm_pager bm)) + 1 < 2 ^ 19"
  shows "\<exists>k bm'. bm_create hb hs internal root bm = (Ok k, bm') \<and> valid_id k \<and> bm_view hb bm k = None \<and> bm_ok hb (n + 2) bm' \<and> ids_known hb bm'
     \<and> (\<forall>q. valid_id q \<longrightarrow> bm_view hb bm' q = (if q = k then Some (undirty (new_bytes k internal)) else bm_view hb bm q))
     \<and> unat (pgr_maxPageId (bm_pager bm')) \<le> unat (pgr_maxPageId (bm_pager bm)) + 1 \<and> length (bm_shards bm') = length (bm_shards bm)"
proof -
  have "ids_ok (bm_pager bm)" using assms(3) by (simp add: ids_known_def)
  then obtain k pgr where k: "NewPageId (bm_pager bm) = (Ok k, pgr)" "k \<notin> live_ids (bm_pager bm)" "live_ids pgr = insert k (live_ids (bm_pager bm))"
      "ids_ok pgr" "valid_id k" "unat (pgr_maxPageId pgr) \<le> unat (pgr_maxPageId (bm_pager bm)) + 1" "store_ok pgr = store_ok (bm_pager bm)" "kept_page pgr = kept_page (bm_pager bm)"
    using NewPageId_small[OF _ assms(4)] by blast
  define bm1 where "bm1 = bm\<lparr>bm_pager := pgr\<rparr>"
  note b1 = bm_repager[OF assms(1) k(7,8), folded bm1_def]
  define idx where "idx = home hb bm1 k"
  let ?s = "pool_of bm1 idx"
  have idx: "idx < length (bm_shards bm1)" unfolding idx_def by (rule home_less[OF b1(1)])
  have ok: "pool_ok {} ?s" "quiet ?s" "pins_below n ?s" using b1(1) idx by (auto simp: bm_ok_def shard_ok_def)
  have none: "bm_view hb bm k = None" using k(2,5) assms(3) unfolding ids_known_def by (metis option.exhaust)
  have "view ?s k = None" using none b1(2) by (metis bm_view_def idx_def)
  then have T: "p_table ?s k = None" using view_cached[of ?s k] by (cases "p_table ?s k") auto
  obtain i t where g: "sh_newFrame (hs idx) internal root k ?s = (Ok i, t)" "busy ?s (n + 2) k i t" "only_changes {i} k (undirty (new_bytes k internal)) ?s t"
    using new_busy[OF ok assms(2) k(5) T] by blast
  have b: "undirty (ent_bytes (frames t ! i)) = undirty (new_bytes k internal)" "ent_key (frames t ! i) = k"
    using g(2,3) view_cached[of t k i] pool_table[of "{}" t k i] by (simp_all add: busy_def only_changes_def pool_ok_def)
  obtain s' where u: "cl_Unreference i t = (Ok (), s')" "served ?s (n + 2) k s'" "only_changes {} k (undirty (new_bytes k internal)) t s'"
    using unpin_served[OF g(2) ok(2)] b(1) by auto
  have "view_is ((view ?s)(k \<mapsto> undirty (new_bytes k internal))) s'"
    using only_changes_view[OF u(3) only_changes_view[OF g(3) view_is_self]] by simp
  note st = bm_step[OF b1(1) k(5) le_add1, folded idx_def, OF u(2) this, simplified]
  have "NewFrame hb hs internal root bm = (Ok (idx, i), put_pool idx t bm1)"
    using k(1) getShard_ok[OF b1(1), of k] on_shard_run[where m = "sh_newFrame (hs idx) internal root k", OF idx g(1)]
    by (simp add: NewFrame_def bindS_def returnS_def on_pager_def idx_def bm1_def)
  moreover have "Unreference_at (idx, i) (put_pool idx t bm1) = (Ok (), put_pool idx s' bm1)"
    using on_shard_run[of idx "put_pool idx t bm1" "cl_Unreference i"] u(1) idx by (simp add: Unreference_at_def)
  moreover have "getKey (frame_at (idx, i) (put_pool idx t bm1)) = k"
    using idx b(2) by (simp add: frame_at_def entry_of_def w_entry_def getKey_def)
  ultimately have run: "bm_create hb hs internal root bm = (Ok k, put_pool idx s' bm1)"
    by (simp add: bm_create_def bindS_def returnS_def)
  have v: "bm_view hb (put_pool idx s' bm1) q = (if q = k then Some (undirty (new_bytes k internal)) else bm_view hb bm q)" if "valid_id q" for q
    using st(2)[OF that] b1(2) by simp
  have ids: "ids_ok (p_pgr s')" "live_ids (p_pgr s') = insert k (live_ids (bm_pager bm))" "pgr_maxPageId (p_pgr s') = pgr_maxPageId pgr"
    using ids_same[of "p_pgr s'" pgr] st(3) k(3,4) by (simp_all add: bm1_def)
  have "ids_known hb (put_pool idx s' bm1)"
    unfolding ids_known_def using ids v assms(3) by (auto simp: ids_known_def)
  then show ?thesis using run k(5,6) none st(1) v ids(3) by (auto simp: bm1_def)
qed

end
