(* ===== verification/PageCache.thy ===== *)
theory PageCache
  imports BufferManagerOk
begin

text \<open>
  The contract of a page cache: a map from page ids to pages that answers every request of a client that asks only for pages that exist. A
  client is a strategy: its next request depends on the answers so far. The pools of the buffer manager meet the contract.
\<close>

section \<open>Requests and their meaning\<close>

datatype page_op = ReadPg u32 | WritePg u32 bytes | NewPg bool bool | Tidy addr u32 nat
datatype page_out = GotPg bytes | DonePg | NewId u32

text \<open>The abstract state: how many page ids may still be created, and the pages.\<close>

type_synonym page_state = "nat \<times> (u32 \<rightharpoonup> bytes)"
type_synonym client = "page_out list \<Rightarrow> page_op"

fun page_step :: "page_state \<Rightarrow> page_op \<Rightarrow> page_out \<Rightarrow> page_state option" where
  "page_step (r, m) (ReadPg k) (GotPg b) = (if m k = Some (undirty b) then Some (r, m) else None)"
| "page_step (r, m) (WritePg k b) DonePg = Some (r, m(k \<mapsto> undirty b))"
| "page_step (r, m) (NewPg internal root) (NewId k) =
     (if valid_id k \<and> m k = None then Some (r - 1, m(k \<mapsto> undirty (new_bytes k internal))) else None)"
| "page_step (r, m) (Tidy tmp w idx) DonePg = Some (r, m)"
| "page_step s op out = None"

text \<open>A request a client may make: a page that exists, new contents that carry the page's id, a new page while there are ids.\<close>

fun enabled :: "nat \<Rightarrow> page_state \<Rightarrow> page_op \<Rightarrow> bool" where
  "enabled N (r, m) (ReadPg k) = (valid_id k \<and> m k \<noteq> None)"
| "enabled N (r, m) (WritePg k b) = (valid_id k \<and> m k \<noteq> None \<and> has_id k b \<and> alive b)"
| "enabled N (r, m) (NewPg internal root) = (0 < r)"
| "enabled N (r, m) (Tidy tmp w idx) = (idx < N)"

text \<open>The state after the answers \<open>outs\<close>, \<open>h\<close> being the answers before.\<close>

fun replay :: "client \<Rightarrow> page_out list \<Rightarrow> page_out list \<Rightarrow> page_state \<Rightarrow> page_state option" where
  "replay c h [] s = Some s"
| "replay c h (out # outs) s = (case page_step s (c h) out of None \<Rightarrow> None | Some s' \<Rightarrow> replay c (h @ [out]) outs s')"

definition polite :: "nat \<Rightarrow> client \<Rightarrow> page_out list \<Rightarrow> page_state \<Rightarrow> bool" where
  "polite N c h s \<longleftrightarrow> (\<forall>outs s'. replay c h outs s = Some s' \<longrightarrow> enabled N s' (c (h @ outs)))"

fun run_client :: "(page_op \<Rightarrow> 's \<Rightarrow> page_out res \<times> 's) \<Rightarrow> client \<Rightarrow> nat \<Rightarrow> page_out list \<Rightarrow> 's \<Rightarrow> page_out list res \<times> 's" where
  "run_client exec c 0 h = returnS []"
| "run_client exec c (Suc n) h = bindS (exec (c h)) (\<lambda>out. bindS (run_client exec c n (h @ [out])) (\<lambda>outs. returnS (out # outs)))"

locale page_cache =
  fixes exec :: "page_op \<Rightarrow> 's \<Rightarrow> page_out res \<times> 's"
    and rep :: "nat \<Rightarrow> page_state \<Rightarrow> 's \<Rightarrow> bool"
    and N :: nat
  assumes serves: "rep (Suc n) a s \<Longrightarrow> enabled N a op \<Longrightarrow>
    \<exists>out a' s'. exec op s = (Ok out, s') \<and> page_step a op out = Some a' \<and> rep n a' s'"
begin

lemma polite_step:
  assumes "polite N c h a"
  shows "enabled N a (c h)" "page_step a (c h) out = Some a' \<Longrightarrow> polite N c (h @ [out]) a'"
proof -
  show "enabled N a (c h)" using assms[unfolded polite_def, rule_format, of "[]" a] by simp
  show "polite N c (h @ [out]) a'" if "page_step a (c h) out = Some a'"
    unfolding polite_def using assms[unfolded polite_def, rule_format, of "out # outs" for outs] that by simp
qed

lemma client_served:
  "rep n a s \<Longrightarrow> polite N c h a \<Longrightarrow>
   \<exists>outs a' s'. run_client exec c n h s = (Ok outs, s') \<and> length outs = n \<and> replay c h outs a = Some a' \<and> rep 0 a' s'"
proof (induction n arbitrary: a s h)
  case (Suc n)
  note p = polite_step[OF Suc.prems(2)]
  obtain out a1 s1 where e: "exec (c h) s = (Ok out, s1)" "page_step a (c h) out = Some a1" "rep n a1 s1"
    using serves[OF Suc.prems(1) p(1)] by blast
  obtain outs a' s' where "run_client exec c n (h @ [out]) s1 = (Ok outs, s')" "length outs = n" "replay c (h @ [out]) outs a1 = Some a'" "rep 0 a' s'"
    using Suc.IH[OF e(3) p(2)[OF e(2)]] by blast
  then show ?case using e(1,2) by (intro exI[of _ "out # outs"]) (auto simp: bindS_def returnS_def)
qed (auto simp: returnS_def)

end

section \<open>The buffer manager is a page cache\<close>

definition bm_exec :: "hasher \<Rightarrow> (nat \<Rightarrow> hasher) \<Rightarrow> page_op \<Rightarrow> BufferManager \<Rightarrow> page_out res \<times> BufferManager" where
  "bm_exec hb hs op = (case op of
      ReadPg k \<Rightarrow> bindS (bm_read hb hs k) (\<lambda>b. returnS (GotPg b))
    | WritePg k b \<Rightarrow> bindS (bm_write hb hs k b) (\<lambda>_. returnS DonePg)
    | NewPg internal root \<Rightarrow> bindS (bm_create hb hs internal root) (\<lambda>k. returnS (NewId k))
    | Tidy tmp w idx \<Rightarrow> bindS (bm_tidy tmp w idx) (\<lambda>_. returnS DonePg))"

text \<open>\<open>n\<close> requests are left: the pin counters have room for them.\<close>

definition bm_rep :: "hasher \<Rightarrow> nat \<Rightarrow> nat \<Rightarrow> page_state \<Rightarrow> BufferManager \<Rightarrow> bool" where
  "bm_rep hb N n a bm \<longleftrightarrow> (\<exists>p. bm_ok hb p bm \<and> p + (MAX_FRAMES + 2) * n < 2 ^ 64 - 2) \<and> ids_known hb bm \<and> length (bm_shards bm) = N
     \<and> unat (pgr_maxPageId (bm_pager bm)) + fst a < 2 ^ 19 \<and> (\<forall>k. valid_id k \<longrightarrow> bm_view hb bm k = snd a k) \<and> (\<forall>k. snd a k \<noteq> None \<longrightarrow> valid_id k)"

lemma bm_repI:
  assumes "bm_ok hb p' bm'" "p' \<le> p + MAX_FRAMES + 2" "p + (MAX_FRAMES + 2) * Suc n < 2 ^ 64 - 2" "ids_known hb bm'"
    "length (bm_shards bm') = N" "unat (pgr_maxPageId (bm_pager bm')) + r < 2 ^ 19"
    "\<And>k. valid_id k \<Longrightarrow> bm_view hb bm' k = m k" "\<And>k. m k \<noteq> None \<Longrightarrow> valid_id k"
  shows "bm_rep hb N n (r, m) bm'"
  unfolding bm_rep_def using assms by (intro conjI exI[of _ p']) auto

lemma ids_known_same:
  assumes "ids_known hb bm" "pgr_ids (bm_pager bm') = pgr_ids (bm_pager bm)" "\<And>k. valid_id k \<Longrightarrow> bm_view hb bm' k \<noteq> None \<Longrightarrow> bm_view hb bm k \<noteq> None"
  shows "ids_known hb bm'"
  using assms ids_same[OF assms(2)] by (auto simp: ids_known_def)

lemma bm_exec_serves:
  assumes "bm_rep hb N (Suc n) a bm" "enabled N a op"
  shows "\<exists>out a' bm'. bm_exec hb hs op bm = (Ok out, bm') \<and> page_step a op out = Some a' \<and> bm_rep hb N n a' bm'"
proof -
  obtain r m where a: "a = (r, m)" by (cases a)
  obtain p where p: "bm_ok hb p bm" "p + (MAX_FRAMES + 2) * Suc n < 2 ^ 64 - 2" "ids_known hb bm" "length (bm_shards bm) = N"
      "unat (pgr_maxPageId (bm_pager bm)) + r < 2 ^ 19" "\<And>k. valid_id k \<Longrightarrow> bm_view hb bm k = m k" "\<And>k. m k \<noteq> None \<Longrightarrow> valid_id k"
    using assms(1) by (auto simp: bm_rep_def a)
  have small: "p < 2 ^ 64 - 2" "p + MAX_FRAMES < 2 ^ 64 - 1" using p(2) by simp_all
  have keep: "bm_rep hb N n (r, m') bm'"
    if "bm_ok hb p' bm'" "p' \<le> p + MAX_FRAMES + 2" "pgr_ids (bm_pager bm') = pgr_ids (bm_pager bm)" "length (bm_shards bm') = length (bm_shards bm)"
      "\<And>k. valid_id k \<Longrightarrow> bm_view hb bm' k = m' k" "\<And>k. m' k \<noteq> None \<Longrightarrow> m k \<noteq> None" for p' m' bm'
  proof (rule bm_repI[OF that(1,2) p(2)])
    show "ids_known hb bm'" using that(5,6) p(6) by (intro ids_known_same[OF p(3) that(3)]) (metis)
    show "unat (pgr_maxPageId (bm_pager bm')) + r < 2 ^ 19" using ids_same[OF that(3)] p(5) by simp
  qed (use that p in auto)
  show ?thesis
  proof (cases op)
    case (ReadPg k)
    then obtain b where k: "valid_id k" "m k = Some b" using assms(2) by (auto simp: a)
    obtain b' bm' where "bm_read hb hs k bm = (Ok b', bm')" "undirty b' = b" "bm_ok hb (p + 2) bm'"
        "\<forall>q. valid_id q \<longrightarrow> bm_view hb bm' q = bm_view hb bm q" "pgr_ids (bm_pager bm') = pgr_ids (bm_pager bm)" "length (bm_shards bm') = length (bm_shards bm)"
      using bm_read_ok[OF p(1) small(1) k(1), of b hs] p(6)[OF k(1)] k(2) by auto
    then show ?thesis using keep[of "p + 2" bm' m] k p(6) by (simp add: a ReadPg bm_exec_def bindS_def returnS_def)
  next
    case (WritePg k b)
    then have k: "valid_id k" "m k \<noteq> None" "has_id k b" "alive b" using assms(2) by (auto simp: a)
    obtain bm' where w: "bm_write hb hs k b bm = (Ok (), bm')" "bm_ok hb (p + 2) bm'"
        "\<forall>q. valid_id q \<longrightarrow> bm_view hb bm' q = (if q = k then Some (undirty b) else bm_view hb bm q)" "pgr_ids (bm_pager bm') = pgr_ids (bm_pager bm)"
        "length (bm_shards bm') = length (bm_shards bm)"
      using bm_write_ok[OF p(1) small(1) k(1) _ k(3,4), of hs] p(6)[OF k(1)] k(2) by auto
    have "bm_rep hb N n (r, m(k \<mapsto> undirty b)) bm'"
      by (rule keep[OF w(2) _ w(4,5)]) (use w(3) p(6) k in \<open>auto split: if_splits\<close>)
    then show ?thesis using w(1) by (simp add: a WritePg bm_exec_def bindS_def returnS_def)
  next
    case (NewPg internal root)
    then have r: "0 < r" using assms(2) by (simp add: a)
    then have mx: "unat (pgr_maxPageId (bm_pager bm)) + 1 < 2 ^ 19" using p(5) by simp
    obtain k bm' where k: "bm_create hb hs internal root bm = (Ok k, bm')" "valid_id k" "bm_view hb bm k = None" "bm_ok hb (p + 2) bm'" "ids_known hb bm'"
        "\<forall>q. valid_id q \<longrightarrow> bm_view hb bm' q = (if q = k then Some (undirty (new_bytes k internal)) else bm_view hb bm q)"
        "unat (pgr_maxPageId (bm_pager bm')) \<le> unat (pgr_maxPageId (bm_pager bm)) + 1" "length (bm_shards bm') = length (bm_shards bm)"
      using bm_create_ok[OF p(1) small(1) p(3) mx] by blast
    have "bm_rep hb N n (r - 1, m(k \<mapsto> undirty (new_bytes k internal))) bm'"
      by (rule bm_repI[OF k(4) _ p(2) k(5)]) (use k p r in \<open>auto split: if_splits\<close>)
    then show ?thesis using k(1,2,3) p(6)[OF k(2)] by (simp add: a NewPg bm_exec_def bindS_def returnS_def)
  next
    case (Tidy tmp w idx)
    then have "idx < length (bm_shards bm)" using assms(2) p(4) by (simp add: a)
    then obtain w' bm' where "bm_tidy tmp w idx bm = (Ok w', bm')" "bm_ok hb (p + MAX_FRAMES) bm'"
        "\<forall>q. valid_id q \<longrightarrow> bm_view hb bm' q = bm_view hb bm q" "pgr_ids (bm_pager bm') = pgr_ids (bm_pager bm)" "length (bm_shards bm') = length (bm_shards bm)"
      using bm_tidy_ok[OF p(1) small(2), of idx tmp w] by blast
    then show ?thesis using keep[of "p + MAX_FRAMES" bm' m] p(6) by (simp add: a Tidy bm_exec_def bindS_def returnS_def)
  qed
qed

interpretation pool_pages: page_cache "bm_exec hb hs" "bm_rep hb N" N for hb hs N
  by unfold_locales (rule bm_exec_serves)

end
