(* ===== verification/PoolLeak.thy ===== *)
theory PoolLeak
  imports PoolBg
begin

text \<open>
  Requests for pages that do not exist. The frame of such a request goes back to the pool, but \<^verbatim>\<open>readdFrameToPool\<close> leaves the counter of the
  window as it is: every such request takes a slot of the window for good.
\<close>

text \<open>A pool without pages, whose window counter is \<open>j\<close>.\<close>

definition drained :: "nat \<Rightarrow> pool \<Rightarrow> bool" where
  "drained j s \<longleftrightarrow> pool_core {} s \<and> p_table s = Map.empty \<and> pins_below 1 s \<and> unat (w_windowCount (p_w s)) = j
     \<and> w_probationCount (p_w s) = 0 \<and> (\<exists>e\<in>set (frames s). \<not> ce_reserved e)"

lemma drained_entry:
  assumes "drained j s" "i < length (frames s)"
  shows "ce_segtype (frames s ! i) = unassigned" "\<not> ce_reserved (frames s ! i) \<Longrightarrow> free_ent (frames s ! i)"
    "\<not> ce_reserved (frames s ! i) \<Longrightarrow> eligible unassigned (frames s ! i)"
proof -
  have e: "ent_ok (p_table s) (p_pgr s) i (frames s ! i)" "p_table s = Map.empty" using assms by (auto simp: drained_def pool_core_def)
  then show "ce_segtype (frames s ! i) = unassigned" "\<not> ce_reserved (frames s ! i) \<Longrightarrow> free_ent (frames s ! i)"
      "\<not> ce_reserved (frames s ! i) \<Longrightarrow> eligible unassigned (frames s ! i)"
    by (auto simp: ent_ok_def used_ent_def free_ent_def eligible_def split: if_splits)
qed

lemma drained_no_victim: "drained j s \<Longrightarrow> seg \<noteq> unassigned \<Longrightarrow> e \<in> set (frames s) \<Longrightarrow> \<not> eligible seg e"
  using drained_entry(1) by (fastforce simp: in_set_conv_nth eligible_def)

lemma drained_resweep: "drained j s \<Longrightarrow> resweep s s' \<Longrightarrow> drained j s'"
proof -
  assume a: "drained j s" "resweep s s'"
  note r = resweep_pool[OF a(2)]
  have "safe s s'" using r(2) a(1) by (auto simp: drained_def)
  then have "\<exists>e\<in>set (frames s'). \<not> ce_reserved e"
    using a(1) r(5) by (auto simp: drained_def safe_but_def calm_def in_set_conv_nth Bex_def)
  then show ?thesis using a(1) r by (auto simp: drained_def)
qed

text \<open>No page: the counter is one higher than before, everything else is as it was.\<close>

lemma drained_claim:
  assumes "drained j s" "j < unat (w_windowCapacity (p_w s))"
  shows "\<exists>i t. getFreeFrame h s = (Ok i, t) \<and> claimed t i \<and> p_table t = Map.empty \<and> pool_core {i} t \<and> pins_below 2 t
     \<and> unat (w_windowCount (p_w t)) = Suc j \<and> w_probationCount (p_w t) = 0 \<and> w_windowCapacity (p_w t) = w_windowCapacity (p_w s)
     \<and> w_probationCapacity (p_w t) = w_probationCapacity (p_w s) \<and> p_pgr t = p_pgr s
     \<and> (\<forall>k<length (frames t). k \<noteq> i \<longrightarrow> unat (ce_pinCount (frames t ! k)) \<le> 1)"
proof -
  have ck: "clk_ok (w_cBuffer (p_w s))" using assms(1) by (simp add: drained_def pool_core_def)
  obtain k where "k < length (frames s)" "\<not> ce_reserved (frames s ! k)" using assms(1) by (auto simp: drained_def in_set_conv_nth)
  then obtain e where e: "e \<in> set (frames s)" "eligible unassigned e" using drained_entry(3)[OF assms(1)] nth_mem by blast
  obtain i s0 where c: "on_w (on_clk (EvictWithoutClearing unassigned)) s = (Ok (Some i), set_ent i (take_victim (frames s0 ! i)) s0)"
      "resweep s s0" "i < length (frames s0)" "eligible unassigned (frames s0 ! i)"
    using claim[OF ck, of unassigned] e by (fastforce split: option.splits)
  have d: "drained j s0" by (rule drained_resweep[OF assms(1) c(2)])
  have core: "pool_core {} s0" and T: "p_table s0 = Map.empty" and pin: "pins_below 1 s0" using d by (simp_all add: drained_def)
  let ?e = "frames s0 ! i"
  let ?f = "(take_victim ?e)\<lparr>ce_segtype := windowSegment\<rparr>"
  have ent: "ent_ok (p_table s0) (p_pgr s0) i ?e" using pool_entry[OF core c(3)] by simp
  then have free: "free_ent ?e" "pins_ok ?e" "\<not> ce_reserved ?e" "fr_parentEntry (ce_entry ?e) = Some i" "ce_segtype ?e = unassigned"
    using c(4) by (auto simp: ent_ok_def used_ent_def eligible_def)
  have pin1: "unat (ce_pinCount ?e) \<le> 1" using pins_nth[OF pin c(3)] .
  have wc: "w_windowCount (p_w s0) = w_windowCount (p_w s)" "w_windowCapacity (p_w s0) = w_windowCapacity (p_w s)" "unat (w_windowCount (p_w s)) = j"
    using resweep_pool(9,10)[OF c(2)] assms(1) by (simp_all add: drained_def)
  have lt: "w_windowCount (p_w s0) < w_windowCapacity (p_w s0)" using wc assms(2) by (simp add: word_less_nat_alt)
  let ?t = "with_counts (w_windowCount (p_w s0) + 1) (w_probationCount (p_w s0)) (w_protectedCount (p_w s0)) (set_ent i ?f s0)"
  have tail: "bindS (on_w (on_en i (both (updateSegmentCAS unassigned windowSegment)))) (\<lambda>_.
      bindS (on_w (pure (\<lambda>w. w\<lparr>w_windowCount := w_windowCount w + 1\<rparr>))) (\<lambda>_. returnS i)) (set_ent i (take_victim ?e) s0) = (Ok i, ?t)"
    using c(3) free(5) by (simp add: bindS_def entry_steps on_w_pure bump_counts returnS_def)
  have "\<not> w_windowCapacity (p_w s) < w_windowCount (p_w s)" "w_windowCount (p_w s) \<noteq> w_windowCapacity (p_w s)" using lt wc by auto
  then have "getFreeFrame h s = (Ok i, ?t)" using c(1) tail by (simp add: getFreeFrame_def bindS_Ok)
  moreover have "claimed ?t i" using free pin1 c(3) by (auto simp: claimed_def)
  moreover have "pool_core {i} ?t" using core T unfolding core_with_counts(1) pool_core_def by auto
  moreover have p2: "pins_below 2 (set_ent i ?f s0)"
    using pin1 by (intro pins_below_upd[OF pin]) (simp_all add: take_victim_def unat_word_ariths)
  moreover have "unat (w_windowCount (p_w ?t)) = Suc j" using inc_word[OF lt] wc by simp
  moreover have "unat (ce_pinCount (frames ?t ! k)) \<le> 1" if "k < length (frames ?t)" "k \<noteq> i" for k
    using that pins_nth[OF pin, of k] by simp
  ultimately show ?thesis using T d wc(2) resweep_pool(7,12)[OF c(2)]
    by (intro exI[of _ i] exI[of _ ?t]) (simp add: drained_def)
qed

lemma drained_get:
  assumes "drained j s" "j < unat (w_windowCapacity (p_w s))" "valid_id pid" "kept_page (p_pgr s) pid = None"
  shows "\<exists>e s'. sh_get h pid s = (Err e, s') \<and> drained (Suc j) s' \<and> w_windowCapacity (p_w s') = w_windowCapacity (p_w s)
     \<and> w_probationCapacity (p_w s') = w_probationCapacity (p_w s)
     \<and> kept_page (p_pgr s') = kept_page (p_pgr s)"
proof -
  obtain i t where t: "getFreeFrame h s = (Ok i, t)" "claimed t i" "p_table t = Map.empty" "pool_core {i} t" "pins_below 2 t"
     "unat (w_windowCount (p_w t)) = Suc j" "w_probationCount (p_w t) = 0" "w_windowCapacity (p_w t) = w_windowCapacity (p_w s) \<and> w_probationCapacity (p_w t) = w_probationCapacity (p_w s)" "p_pgr t = p_pgr s"
     "\<forall>k<length (frames t). k \<noteq> i \<longrightarrow> unat (ce_pinCount (frames t ! k)) \<le> 1"
    using drained_claim[OF assms(1,2)] by blast
  note c = claimed_entry[OF t(2)]
  have st: "store_ok (p_pgr t)" using t(4) by (simp add: pool_core_def)
  obtain pgr b where r: "lend i (\<lambda>a. ReadPage pid a) (ent_bytes (frames t ! i)) (p_pgr t) = ((Ok (), b), pgr)" "store_ok pgr"
      "kept_page pgr = kept_page (p_pgr t)" "\<not> has_id pid b" "length b = PAGE_SIZE_BYTES"
    using pages.rd[OF st, of pid "ent_bytes (frames t ! i)" i] assms(3,4) c(9) t(9) by (auto simp: valid_id_def split: if_splits)
  let ?u = "set_ent i (freed (frames t ! i)) (t\<lparr>p_pgr := pgr\<rparr>)"
  define l where "l = set_ent i (latch (frames t ! i)) t"
  obtain e where "load_frame h pid i l = (Ok (Some e), set_ent i (freed (latch (frames t ! i))) (t\<lparr>p_pgr := pgr\<rparr>))"
    using load_frame_missing[of i l pid b pgr h] c(1) r(1,4,5) by (simp add: l_def set_ent_def set_clk_def upd_entry_def)
  then have "get_miss h pid s = (Ok [ErrMsg (Some e)], ?u)"
    using latched_ok[of t i "bindS (load_frame h pid i) (\<lambda>err. case err of
          Some e \<Rightarrow> returnS [ErrMsg (Some e)] | None \<Rightarrow> returnS [ResMsg i False])"] c(1,7) unlatch_latch(2)[OF c(7)]
    by (simp add: get_miss_def t(1) l_def[symmetric] bindS_def returnS_def)
  then have run: "sh_get h pid s = (Err e, ?u)"
    using assms(1,3) by (simp add: sh_get_run run_get_def drained_def valid_id_def bindS_def failS_def)
  have "ent_ok Map.empty pgr k (frames ?u ! k)" if k: "k < length (frames t)" for k
  proof (cases "k = i")
    case True
    then show ?thesis using k c freed_free freed_pins by (simp add: ent_ok_def)
  next
    case False
    then have "ent_ok Map.empty (p_pgr t) k (frames t ! k)" using t(3,4) k by (simp add: pool_core_def)
    then show ?thesis using False by (auto simp: ent_ok_def used_ent_def)
  qed
  then have "pool_core {} ?u" using t(3,4) r(2) by (simp add: pool_core_def)
  moreover have "pins_below 1 ?u"
    using t(10) c(1) by (auto simp: pins_below_def in_set_conv_nth nth_list_update)
  moreover have "\<not> ce_reserved (frames ?u ! i)" "frames ?u ! i \<in> set (frames ?u)" using c(1,4) by (simp_all add: set_update_memI)
  ultimately have "drained (Suc j) ?u" using t(3,6,7) by (auto simp: drained_def)
  then show ?thesis using run r(3) t(8,9) by auto
qed

text \<open>Once the counter says that the window is full, no frame is handed out any more, and a failed eviction changes nothing of this.\<close>

definition full_window :: "pool \<Rightarrow> bool" where
  "full_window s \<longleftrightarrow> drained (unat (w_windowCapacity (p_w s))) s \<and> 0 < w_probationCapacity (p_w s)"

lemma resweep_full: "full_window s \<Longrightarrow> resweep s s' \<Longrightarrow> full_window s'"
  using drained_resweep[of _ s s'] resweep_pool(10,12)[of s s'] by (simp add: full_window_def)

lemma full_no_frame:
  assumes "full_window s"
  shows "\<exists>e s'. getFreeFrame h s = (Err e, s') \<and> full_window s'"
proof -
  have ck: "clk_ok (w_cBuffer (p_w s))" and full: "w_windowCount (p_w s) = w_windowCapacity (p_w s)" and pc: "w_probationCount (p_w s) = 0"
    using assms by (simp_all add: full_window_def drained_def pool_core_def word_unat_eq_iff)
  have dr: "drained (unat (w_windowCapacity (p_w s))) s" using assms by (simp add: full_window_def)
  obtain r s1 where r: "on_w (on_clk (EvictWithoutClearing windowSegment)) s = (Ok r, s1)"
      and v: "case r of None \<Rightarrow> resweep s s1 \<and> (\<forall>e\<in>set (frames s). \<not> eligible windowSegment e)
        | Some i \<Rightarrow> \<exists>s0. resweep s s0 \<and> s1 = set_ent i (take_victim (frames s0 ! i)) s0 \<and> i < length (frames s0) \<and> eligible windowSegment (frames s0 ! i)"
    using claim[OF ck, of windowSegment] by blast
  have "r = None"
  proof (cases r)
    case (Some i)
    then obtain s0 where s0: "resweep s s0" "i < length (frames s0)" "eligible windowSegment (frames s0 ! i)" using v by auto
    then show ?thesis using drained_no_victim[OF drained_resweep[OF dr s0(1)], of windowSegment] nth_mem by blast
  qed
  then have s1: "on_w (on_clk (EvictWithoutClearing windowSegment)) s = (Ok None, s1)" "resweep s s1" using r v by simp_all
  have "\<exists>e. evictWindow h s = (Err e, s1)"
    using s1(1) full pc assms by (auto simp: full_window_def evictWindow_def Let_def bindS_def failS_def)
  then have "\<exists>e. getFreeFrame h s = (Err e, s1)" using full by (auto simp: getFreeFrame_def bindS_def)
  then show ?thesis using resweep_full[OF assms s1(2)] by blast
qed

lemma full_refuses:
  assumes "full_window s" "valid_id pid"
  shows "\<exists>e s'. sh_get h pid s = (Err e, s') \<and> full_window s'"
proof -
  obtain e s' where "getFreeFrame h s = (Err e, s')" "full_window s'" using full_no_frame[OF assms(1)] by blast
  moreover have "p_table s pid = None" "pid \<noteq> 0" using assms by (simp_all add: full_window_def drained_def valid_id_def)
  ultimately show ?thesis by (simp add: sh_get_run run_get_def get_miss_def bindS_def failS_def)
qed

lemma full_creates_none:
  assumes "full_window s" "valid_id pid"
  shows "\<exists>e s'. sh_newFrame h x y pid s = (Err e, s') \<and> full_window s'"
proof -
  obtain e s' where "getFreeFrame h s = (Err e, s')" "full_window s'" using full_no_frame[OF assms(1)] by blast
  then show ?thesis using assms(2) by (simp add: sh_newFrame_run run_create_def valid_id_def bindS_def failS_def)
qed

lemma full_requests: "full_window s \<Longrightarrow> \<forall>q\<in>set qs. valid_id q \<Longrightarrow> full_window (fold (\<lambda>p s. snd (sh_get h p s)) qs s)"
proof (induction qs arbitrary: s)
  case (Cons q qs)
  then show ?case using full_refuses[of s q h] by auto
qed simp

lemma drained_requests:
  "drained j s \<Longrightarrow> j + length pids \<le> unat (w_windowCapacity (p_w s)) \<Longrightarrow> \<forall>p\<in>set pids. valid_id p \<and> kept_page (p_pgr s) p = None \<Longrightarrow>
   drained (j + length pids) (fold (\<lambda>p s. snd (sh_get h p s)) pids s)
     \<and> w_windowCapacity (p_w (fold (\<lambda>p s. snd (sh_get h p s)) pids s)) = w_windowCapacity (p_w s)
     \<and> w_probationCapacity (p_w (fold (\<lambda>p s. snd (sh_get h p s)) pids s)) = w_probationCapacity (p_w s)"
proof (induction pids arbitrary: j s)
  case (Cons p pids)
  have "j < unat (w_windowCapacity (p_w s))" "valid_id p" "kept_page (p_pgr s) p = None" using Cons.prems by simp_all
  then obtain e s' where "sh_get h p s = (Err e, s')" "drained (Suc j) s'" "w_windowCapacity (p_w s') = w_windowCapacity (p_w s)"
     "w_probationCapacity (p_w s') = w_probationCapacity (p_w s)" "kept_page (p_pgr s') = kept_page (p_pgr s)"
    using drained_get[OF Cons.prems(1)] by blast
  then show ?case using Cons.IH[of "Suc j" s'] Cons.prems by simp
qed simp

end
