(* ===== verification/BufferManagerProps.thy ===== *)
theory BufferManagerProps
  imports PageCache PoolLeak
begin

text \<open>
  The properties of the buffer manager: from its creation on it serves every polite client as a map from page ids to pages.
\<close>

section \<open>A new manager\<close>

definition sizes_ok :: "sizes \<Rightarrow> bool" where
  "sizes_ok z \<longleftrightarrow> (case z of (windSize, mainSize, probationCap, protectedCap, cmsWidth, cmsDepth) \<Rightarrow>
     0 < windSize \<and> windSize < mainSize \<and> unat windSize + unat mainSize \<le> MAX_FRAMES \<and> 0 < probationCap \<and> 0 < protectedCap
     \<and> unat probationCap + unat protectedCap \<le> unat mainSize \<and> cmsWidth \<noteq> 0 \<and> 0 < sint cmsDepth)"

lemma new_entry_ok: "ent_ok T pgr i (new_entry i)" "\<not> ce_reserved (new_entry i)" "ce_segtype (new_entry i) = unassigned" "ce_pinCount (new_entry i) = 0"
    "\<not> ce_acc (new_entry i)" "eligible unassigned (new_entry i)"
  by (simp_all add: new_entry_def ent_ok_def free_ent_def pins_ok_def pins_def eligible_def unlatched_def)

lemma NewClock_ok:
  assumes "3 \<le> n"
  shows "\<exists>clk. NewClock n reserve = Ok clk \<and> clk_ok clk \<and> length (clk_bPool clk) = n \<and> (reserve \<longrightarrow> getReserved clk \<noteq> None)
     \<and> (\<forall>j<n. ent_ok T pgr j (clk_bPool clk ! j) \<and> ce_segtype (clk_bPool clk ! j) = unassigned \<and> unat (ce_pinCount (clk_bPool clk ! j)) \<le> 1
          \<and> (ce_acc (clk_bPool clk ! j) \<longrightarrow> ce_reserved (clk_bPool clk ! j)))
     \<and> length (filter ce_reserved (clk_bPool clk)) = (if reserve then 1 else 0)"
proof -
  define c where "c = \<lparr>clk_Head = 0, clk_Reserved = None, clk_capacity = n, clk_bPool = map new_entry [0..<n]\<rparr>"
  have c: "clk_ok c" "length (clk_bPool c) = n" "\<And>j. j < n \<Longrightarrow> clk_bPool c ! j = new_entry j"
    using assms by (simp_all add: c_def clk_ok_def)
  have nc: "NewClock n reserve = (if \<not> reserve then Ok c else (case EvictWithoutClearing unassigned c of
             (Ok None, _) \<Rightarrow> Err (BufferManagerError ''Could not reserve metadata page frame'')
           | (Ok (Some i), clk) \<Rightarrow>
               Ok (upd_entry i (\<lambda>e. e\<lparr>ce_reserved := True, ce_entry := (ce_entry e)\<lparr>fr_parentEntry := Some i\<rparr>\<rparr>)
                     (clk\<lparr>clk_Reserved := Some i\<rparr>))
           | (Err e, _) \<Rightarrow> Err e | (Panic p, _) \<Rightarrow> Panic p | (Blocked, _) \<Rightarrow> Blocked))"
    using assms by (simp add: NewClock_def c_def Let_def)
  have no: "filter ce_reserved (clk_bPool c) = []" using c by (auto simp: filter_empty_conv in_set_conv_nth new_entry_ok)
  show ?thesis
  proof (cases reserve)
    case False
    then show ?thesis using nc c no by (simp add: new_entry_ok)
  next
    case True
    have "clk_bPool c ! 0 \<in> set (clk_bPool c)" using c(2) assms by (intro nth_mem) simp
    moreover have "eligible unassigned (clk_bPool c ! 0)" using c(3)[of 0] assms by (simp add: new_entry_ok)
    ultimately obtain i c' where e: "EvictWithoutClearing unassigned c = (Ok (Some i), c')" "victim_spec unassigned c (Some i) c'"
      using Evict_spec[OF c(1), of unassigned] by auto
    have i: "i < n" "swept (upd_entry i take_victim c) c'" "clk_ok c'" using e(2) c(2) by (auto simp: victim_spec_def)
    have len: "length (clk_bPool c') = n" using i(2) c(2) by (simp add: swept_def upd_entry_def)
    obtain b where at: "j < n \<Longrightarrow> clk_bPool c' ! j = (if j = i then take_victim (new_entry i) else new_entry j)\<lparr>ce_ref := b j\<rparr>" for j
    proof (rule that[of "\<lambda>j. ce_ref (clk_bPool c' ! j)"])
      fix j assume "j < n"
      then have "(if j = i then take_victim (new_entry i) else new_entry j) = clk_bPool (upd_entry i take_victim c) ! j"
        using c(2,3) i(1) by (simp add: upd_entry_def)
      then show "clk_bPool c' ! j = (if j = i then take_victim (new_entry i) else new_entry j)\<lparr>ce_ref := ce_ref (clk_bPool c' ! j)\<rparr>"
        using swept_entry[OF i(2), of j] \<open>j < n\<close> c(2) by (simp only: upd_entry_def) simp
    qed
    let ?f = "\<lambda>e. e\<lparr>ce_reserved := True, ce_entry := (ce_entry e)\<lparr>fr_parentEntry := Some i\<rparr>\<rparr>"
    let ?c = "upd_entry i ?f (c'\<lparr>clk_Reserved := Some i\<rparr>)"
    have run: "NewClock n reserve = Ok ?c" using nc e(1) True by simp
    have ok: "clk_ok ?c" "length (clk_bPool ?c) = n" "getReserved ?c \<noteq> None"
      using i(3) len by (simp_all add: upd_entry_def clk_ok_def getReserved_def)
    have en: "clk_bPool ?c ! j = (if j = i then ?f (clk_bPool c' ! i) else clk_bPool c' ! j)" if "j < n" for j
      using that len by (simp add: upd_entry_def)
    have "ent_ok T pgr j (clk_bPool ?c ! j) \<and> ce_segtype (clk_bPool ?c ! j) = unassigned \<and> unat (ce_pinCount (clk_bPool ?c ! j)) \<le> 1
          \<and> (ce_acc (clk_bPool ?c ! j) \<longrightarrow> ce_reserved (clk_bPool ?c ! j))" if j: "j < n" for j
    proof (cases "j = i")
      case True
      then show ?thesis unfolding en[OF j] at[OF i(1)] by (simp add: take_victim_def new_entry_def ent_ok_def pins_ok_def pins_def)
    next
      case False
      then show ?thesis unfolding en[OF j] using at[OF j] new_entry_ok by simp
    qed
    moreover have "length (filter ce_reserved (clk_bPool ?c)) = 1"
    proof -
      have cp: "clk_bPool c' = (clk_bPool c')[i := clk_bPool c' ! i]" by simp
      have fc: "filter ce_reserved (clk_bPool c') = []"
        using len at by (auto simp: filter_empty_conv in_set_conv_nth new_entry_ok take_victim_def split: if_splits)
      have "length (filter ce_reserved ((clk_bPool c')[i := ?f (clk_bPool c' ! i)])) = 1"
        using count_list_update[of i "map ce_reserved (clk_bPool c')" True True] i(1) len fc
        by (simp add: filter_map_count map_update filter_empty_conv)
      then show ?thesis by (simp add: upd_entry_def)
    qed
    ultimately show ?thesis using run ok True by (intro exI[of _ ?c]) simp
  qed
qed

lemma newShard_ok:
  assumes "sizes_ok (dims c)" "store_ok pgr"
  shows "\<exists>sh. newShard h dims True True c reserve = Ok sh \<and> sh_CacheMap sh = Map.empty \<and> dp_rep [] (sh_diryList sh)
     \<and> shard_ok 1 \<lparr>p_w = sh_wTinyLfu sh, p_table = Map.empty, p_pgr = pgr\<rparr> \<and> w_windowCapacity (sh_wTinyLfu sh) = fst (dims c)"
proof -
  obtain ws ms pc qc cw cd where d: "dims c = (ws, ms, pc, qc, cw, cd)" by (cases "dims c") auto
  have z: "0 < ws" "ws < ms" "unat ws + unat ms \<le> MAX_FRAMES" "0 < pc" "0 < qc" "unat pc + unat qc \<le> unat ms" "cw \<noteq> 0" "0 < sint cd"
    using assms(1) by (simp_all add: sizes_ok_def d)
  let ?n = "unat ws + unat ms"
  have un: "0 < unat ws" "unat ws < unat ms" "0 < unat pc" "0 < unat qc" using z(1,2,4,5) by (simp_all add: word_less_nat_alt)
  have n: "unat (ws + ms) = ?n" using z(3) by (simp add: unat_word_ariths)
  have "3 \<le> ?n" using un by simp
  then obtain clk where k: "NewClock ?n reserve = Ok clk" "clk_ok clk" "length (clk_bPool clk) = ?n" "reserve \<longrightarrow> getReserved clk \<noteq> None"
      "\<And>j. j < ?n \<Longrightarrow> ent_ok Map.empty pgr j (clk_bPool clk ! j)" "\<And>j. j < ?n \<Longrightarrow> ce_segtype (clk_bPool clk ! j) = unassigned"
      "\<And>j. j < ?n \<Longrightarrow> unat (ce_pinCount (clk_bPool clk ! j)) \<le> 1" "\<And>j. j < ?n \<Longrightarrow> ce_acc (clk_bPool clk ! j) \<Longrightarrow> ce_reserved (clk_bPool clk ! j)"
      "length (filter ce_reserved (clk_bPool clk)) = (if reserve then 1 else 0)"
    using NewClock_ok[of ?n reserve Map.empty pgr] by blast
  obtain t where t: "NewTinyLFU h cw cd = Ok t" by (simp add: NewTinyLFU_def NewDoorkeeper_def NewCMS_def)
  have lfu: "lfu_ok t" by (rule NewTinyLFU_ok[OF t z(7,8)])
  let ?w = "\<lparr>w_cBuffer = clk, w_tinyFilter = t, w_windowCount = 0, w_probationCount = 0, w_protectedCount = 0,
                w_windowCapacity = ws, w_probationCapacity = pc, w_protectedCapacity = (if reserve then qc - 1 else qc)\<rparr>"
  have "NewWTinylfu h ws ms reserve pc qc cw cd = Ok ?w"
    using z(1,2) k(1) t n by (auto simp: NewWTinylfu_def not_le)
  then have run: "newShard h dims True True c reserve = Ok \<lparr>sh_wTinyLfu = ?w, sh_CacheMap = Map.empty, sh_diryList = NewDirtyPageList\<rparr>"
    using k(4) by (simp add: newShard_def d)
  let ?s = "\<lparr>p_w = ?w, p_table = Map.empty, p_pgr = pgr\<rparr>"
  have segs: "seg_count s (clk_bPool clk) = 0" if "s \<noteq> unassigned" for s
    using k(3,6) that by (auto simp: seg_count_def count_list_0_iff in_set_conv_nth)
  have q1: "unat (qc - 1) = unat qc - 1" using dec_word[OF un(4)] by simp
  have "counts_ok ?w" using segs k(3,9) z(6) un q1 by (simp add: counts_ok_def Let_def)
  then have "pool_ok {} ?s" using k(2,3,5) lfu assms(2) by (simp add: pool_ok_def pool_core_def)
  moreover have "quiet ?s" using k(3,8) z(1,4) by (simp add: quiet_def)
  moreover have "pins_below 1 ?s" using k(3,7) by (auto simp: pins_below_def in_set_conv_nth)
  ultimately have "shard_ok 1 ?s" using k(3) z(3) by (simp add: shard_ok_def)
  then show ?thesis using run new_rep by (simp add: d)
qed

lemma new_shards_ok:
  assumes "\<And>i. \<exists>sh. mk i = Ok sh \<and> P sh"
  shows "\<exists>shs. new_shards mk is = Ok shs \<and> length shs = length is \<and> (\<forall>sh\<in>set shs. P sh)"
proof (induction "is")
  case (Cons i "is")
  then show ?case using assms[of i] by fastforce
qed simp

definition shard_number :: "u64 \<Rightarrow> u64 \<Rightarrow> bool \<Rightarrow> u64" where
  "shard_number numCPU numShards testing = (if numShards < numCPU \<and> \<not> testing \<or> numShards = 0 then numCPU else numShards)"

lemma NewBufferManager_ok:
  assumes "MIN_CACHE_SIZE_KB \<le> CacheSize" "numCPU \<noteq> 0" "sizes_ok (dims (CacheSize div shard_number numCPU numShards testing))" "store_ok pgr"
  shows "\<exists>bm. NewBufferManager hb hs dims numCPU CacheSize numShards True (Some pgr) testing = Ok bm \<and> bm_ok hb 1 bm \<and> bm_pager bm = pgr
     \<and> bm_numShards bm = shard_number numCPU numShards testing \<and> bm_view hb bm = kept_page pgr"
proof -
  define N where "N = shard_number numCPU numShards testing"
  have N: "N \<noteq> 0" using assms(2) by (auto simp: N_def shard_number_def)
  let ?bm = "\<lparr>bm_pager = pgr, bm_shards = [], bm_numShards = N\<rparr>"
  obtain i where i: "fst (getShard hb 0 ?bm) = Ok i" using N by (simp add: getShard_def)
  let ?mk = "\<lambda>j. newShard (hs j) dims True True (CacheSize div N) (j = i)"
  have mk: "\<exists>sh. ?mk j = Ok sh \<and> sh_CacheMap sh = Map.empty \<and> dp_rep [] (sh_diryList sh) \<and> shard_ok 1 \<lparr>p_w = sh_wTinyLfu sh, p_table = Map.empty, p_pgr = pgr\<rparr>" for j
    using newShard_ok[where dims = dims, OF assms(3)[folded N_def] assms(4)] by blast
  obtain shs where shs: "new_shards ?mk [0..<unat N] = Ok shs" "length shs = unat N"
      "\<And>sh. sh \<in> set shs \<Longrightarrow> sh_CacheMap sh = Map.empty \<and> dp_rep [] (sh_diryList sh) \<and> shard_ok 1 \<lparr>p_w = sh_wTinyLfu sh, p_table = Map.empty, p_pgr = pgr\<rparr>"
    using new_shards_ok[of ?mk "\<lambda>sh. sh_CacheMap sh = Map.empty \<and> dp_rep [] (sh_diryList sh) \<and> shard_ok 1 \<lparr>p_w = sh_wTinyLfu sh, p_table = Map.empty, p_pgr = pgr\<rparr>" "[0..<unat N]", OF mk] by auto
  let ?new = "?bm\<lparr>bm_shards := shs\<rparr>"
  have "NewBufferManager hb hs dims numCPU CacheSize numShards True (Some pgr) testing = Ok ?new"
    using assms(1) i shs(1) unfolding NewBufferManager_def Let_def shard_number_def[symmetric] N_def[symmetric] by (simp add: not_less)
  moreover have at: "sh_CacheMap (shs ! j) = Map.empty" "dp_rep [] (sh_diryList (shs ! j))" "shard_ok 1 (pool_of ?new j)" if "j < unat N" for j
    using shs(3)[OF nth_mem, of j] that shs(2) by (simp_all add: pool_of_def)
  moreover have "bm_ok hb 1 ?new" unfolding bm_ok_def using at N shs(2) by (auto simp: pool_of_def)
  moreover have "bm_view hb ?new k = kept_page pgr k" for k
    using at(1)[of "home hb ?new k"] home_less[OF calculation(5), of k] shs(2) by (simp add: bm_view_def view_def pool_of_def)
  ultimately show ?thesis by (auto simp: N_def fun_eq_iff)
qed

section \<open>Properties\<close>

definition stored_pages :: "Pager \<Rightarrow> u32 \<rightharpoonup> bytes" where
  "stored_pages pgr k = (if valid_id k then kept_page pgr k else None)"

text \<open>C4. The buffer manager is a map from page ids to pages. On a pager whose stored pages have ids in use, a new manager (with at least the
  minimum size, and segments that fit the pool) serves any client that asks for existing pages, stores contents with the page's id, and
  creates at most \<open>r\<close> pages: every one of its next \<open>n\<close> requests (reads, writes, new pages, and passes of the background writer at any time)
  returns without error, panic or waiting; every answer is the one the map gives, a new page has an id that no stored page has; and at the end the manager stores what the map
  holds. Evictions and write-backs are not visible. Dirty marks in the page header are ignored.\<close>

theorem buffer_manager_serves:
  assumes "MIN_CACHE_SIZE_KB \<le> CacheSize" "numCPU \<noteq> 0" "sizes_ok (dims (CacheSize div shard_number numCPU numShards testing))"
    and "store_ok pgr" "ids_ok pgr" "\<forall>k. stored_pages pgr k \<noteq> None \<longrightarrow> k \<in> live_ids pgr" "unat (pgr_maxPageId pgr) + r < 2 ^ 19"
    and "polite (unat (shard_number numCPU numShards testing)) c [] (r, stored_pages pgr)" "n < 2 ^ 31"
  shows "\<exists>bm outs bm' r' m. NewBufferManager hb hs dims numCPU CacheSize numShards True (Some pgr) testing = Ok bm
     \<and> run_client (bm_exec hb hs) c n [] bm = (Ok outs, bm') \<and> length outs = n
     \<and> replay c [] outs (r, stored_pages pgr) = Some (r', m) \<and> (\<forall>k. valid_id k \<longrightarrow> bm_view hb bm' k = m k)"
proof -
  let ?N = "unat (shard_number numCPU numShards testing)"
  obtain bm where bm: "NewBufferManager hb hs dims numCPU CacheSize numShards True (Some pgr) testing = Ok bm" "bm_ok hb 1 bm" "bm_pager bm = pgr"
      "bm_numShards bm = shard_number numCPU numShards testing" "bm_view hb bm = kept_page pgr"
    using NewBufferManager_ok[where dims = dims, OF assms(1-4)] by blast
  have "ids_known hb bm" using assms(5,6) bm(3,5) by (auto simp: ids_known_def stored_pages_def)
  then have "bm_rep hb ?N n (r, stored_pages pgr) bm"
    unfolding bm_rep_def using bm assms(7,9) by (intro conjI exI[of _ 1]) (auto simp: bm_ok_def stored_pages_def split: if_splits)
  from pool_pages.client_served[OF this assms(8), of hs] bm(1) show ?thesis by (auto simp: bm_rep_def)
qed

lemma pager0_none: "valid_id k \<Longrightarrow> kept_page (pager2\<lparr>pgr_maxPageId := 0\<rparr>) k = None"
  by (simp add: kept_page_def page_at_def has_id_def pager2_def empty_file_def)

lemma pager0_ok: "store_ok (pager2\<lparr>pgr_maxPageId := 0\<rparr>)"
  using pager2_ok by (simp add: store_ok_def pgr_ok_def) (simp add: pager2_def empty_file_def page_at_def has_id_def)

text \<open>A client that creates a page and then reads it again and again.\<close>

definition reader :: client where
  "reader h = (case h of NewId k # _ \<Rightarrow> ReadPg k | _ \<Rightarrow> NewPg False False)"

lemma reader_reads: "replay reader (NewId k # h) outs (r, m) = Some (r', m') \<Longrightarrow> m' = m"
proof (induction outs arbitrary: h)
  case (Cons out outs)
  then show ?case by (cases out) (auto simp: reader_def split: if_splits)
qed simp

lemma reader_polite: "polite N reader [] (1, m)"
  unfolding polite_def
proof (intro allI impI)
  fix outs a assume r: "replay reader [] outs (1, m) = Some a"
  show "enabled N a (reader ([] @ outs))"
  proof (cases outs)
    case Nil
    then show ?thesis using r by (auto simp: reader_def)
  next
    case (Cons out outs')
    show ?thesis
    proof (cases out)
      case (NewId k)
      obtain r' m' where a: "a = (r', m')" by (cases a)
      have "valid_id k" "m' = m(k \<mapsto> undirty (new_bytes k False))"
        using r reader_reads[of k "[]" outs'] by (auto simp: a Cons NewId reader_def split: if_splits)
      then show ?thesis by (simp add: a Cons NewId reader_def)
    qed (use r Cons in \<open>auto simp: reader_def\<close>)
  qed
qed

theorem buffer_manager_serves_witness:
  "\<exists>bm outs bm' r' m. NewBufferManager (\<lambda>_. 7) (\<lambda>_ _. 5) (\<lambda>_. (1, 4, 2, 2, 3, 2)) 4 8192 2 True (Some (pager2\<lparr>pgr_maxPageId := 0\<rparr>)) True = Ok bm
     \<and> run_client (bm_exec (\<lambda>_. 7) (\<lambda>_ _. 5)) reader 3 [] bm = (Ok outs, bm') \<and> length outs = 3
     \<and> replay reader [] outs (1, stored_pages (pager2\<lparr>pgr_maxPageId := 0\<rparr>)) = Some (r', m)"
proof -
  let ?p = "pager2\<lparr>pgr_maxPageId := 0\<rparr>" and ?d = "(\<lambda>_. (1, 4, 2, 2, 3, 2)) :: u64 \<Rightarrow> sizes"
  have "store_ok ?p" by (rule pager0_ok)
  moreover have "ids_ok ?p" by (simp add: ids_ok_def fl_ok_def fl0_def pager2_def)
  moreover have "\<forall>k. stored_pages ?p k \<noteq> None \<longrightarrow> k \<in> live_ids ?p" using pager0_none by (simp add: stored_pages_def)
  moreover have "sizes_ok (?d (8192 div shard_number 4 2 True))" by (simp add: sizes_ok_def)
  moreover have "unat (pgr_maxPageId ?p) + 1 < 2 ^ 19" by simp
  ultimately show ?thesis
    using buffer_manager_serves [of 8192 4 ?d 2 True ?p 1 reader 3 "\<lambda>_. 7" "\<lambda>_ _. 5", OF _ _ _ _ _ _ _ reader_polite] by fastforce
qed

definition shard_pool :: "shard \<Rightarrow> Pager \<Rightarrow> pool" where
  "shard_pool sh pgr = \<lparr>p_w = sh_wTinyLfu sh, p_table = sh_CacheMap sh, p_pgr = pgr\<rparr>"

lemma new_pool:
  assumes "sizes_ok (dims c)" "store_ok pgr" "newShard h dims True True c reserve = Ok sh"
  shows "shard_ok 1 (shard_pool sh pgr)" "p_table (shard_pool sh pgr) = Map.empty" "w_windowCapacity (p_w (shard_pool sh pgr)) = fst (dims c)"
  using newShard_ok[where dims = dims and c = c and h = h and reserve = reserve, OF assms(1,2)] assms(3) by (auto simp: shard_pool_def)

lemma new_drained:
  assumes "shard_ok 1 s" "p_table s = Map.empty"
  shows "drained 0 s" "0 < w_probationCapacity (p_w s)"
proof -
  have ok: "pool_core {} s" "counts_ok (p_w s)" "pins_below 1 s" "0 < w_windowCapacity (p_w s)" "0 < w_probationCapacity (p_w s)"
    using assms(1) by (simp_all add: shard_ok_def pool_ok_def quiet_def)
  have "ce_segtype (frames s ! j) = unassigned" if "j < length (frames s)" for j
    using ok(1) assms(2) that by (auto simp: pool_core_def ent_ok_def free_ent_def used_ent_def split: if_splits)
  then have segs: "seg_count g (frames s) = 0" if "g \<noteq> unassigned" for g using that by (auto simp: seg_count_def count_list_0_iff in_set_conv_nth)
  have "0 < unat (w_windowCapacity (p_w s))" using ok(4) by (simp add: word_less_nat_alt)
  then have "length (filter ce_reserved (frames s)) < length (frames s)" using ok(2) by (simp add: counts_ok_def Let_def)
  then have "\<exists>e\<in>set (frames s). \<not> ce_reserved e" by (metis filter_True less_irrefl)
  moreover have "w_windowCount (p_w s) = 0" "w_probationCount (p_w s) = 0"
    using ok(2) segs by (simp_all add: counts_ok_def Let_def unat_eq_zero)
  ultimately show "drained 0 s" "0 < w_probationCapacity (p_w s)" using ok assms(2) by (simp_all add: drained_def)
qed

text \<open>C12. A request never takes a page from a client that has it pinned. In any pool that meets the invariant, with any frames pinned, a request for a stored
  page either returns a pinned frame that holds the page, or an error, the latter only for a page that is not cached while the window is full and
  nothing can be evicted. After a request that returns a frame every page has the contents it had, and every page that was pinned is in the same frame,
  unchanged, and pinned as often as before (once more when it is the page asked for). After an error the page table, the files, the contents of every
  frame and all pins are as they were; but one unpinned frame may be left marked for eviction, so that a later request for its page does not find it
  in the table's frame and reads the page from the file again (the invariant, which has no such marks, then no longer holds).\<close>

theorem get_keeps_pinned:
  assumes "pool_ok {} s" "pins_below n s" "n < 2 ^ 64 - 2" "valid_id pid" "view s pid = Some b"
  shows "(\<exists>i hit s'. sh_get h pid s = (Ok (i, hit), s') \<and> p_table s' pid = Some i \<and> undirty (ent_bytes (frames s' ! i)) = b \<and> 0 < pins (frames s' ! i)
       \<and> (\<forall>k. valid_id k \<longrightarrow> view s' k = view s k)
       \<and> (\<forall>k j. p_table s k = Some j \<longrightarrow> 0 < pins (frames s ! j) \<longrightarrow>
            p_table s' k = Some j \<and> ce_entry (frames s' ! j) = ce_entry (frames s ! j) \<and> pins (frames s' ! j) = pins (frames s ! j) + (if k = pid then 1 else 0)))
     \<or> (\<exists>e s'. sh_get h pid s = (Err e, s') \<and> p_table s pid = None \<and> w_windowCount (p_w s) = w_windowCapacity (p_w s) \<and> \<not> can_evict s
       \<and> p_table s' = p_table s \<and> p_pgr s' = p_pgr s \<and> length (frames s') = length (frames s)
       \<and> (\<forall>j<length (frames s). ce_entry (frames s' ! j) = ce_entry (frames s ! j) \<and> pins (frames s' ! j) = pins (frames s ! j))
       \<and> (\<exists>m. \<forall>j<length (frames s). ce_markedForEviction (frames s' ! j) \<noteq> ce_markedForEviction (frames s ! j) \<longrightarrow> j = m \<and> pins (frames s ! j) = 0))"
proof -
  have spec: "get_spec s (n + 2) pid b (sh_get h pid s)" by (rule sh_get_ok[OF assms])
  have core: "pool_core {} s" using assms(1) by (simp add: pool_ok_def)
  obtain r s' where r: "sh_get h pid s = (r, s')" by fastforce
  show ?thesis
  proof (cases r)
    case (Ok x)
    obtain i hit where x: "x = (i, hit)" by (cases x)
    have g: "pool_ok {} s'" "safe_but {i} s s'" "p_table s' pid = Some i" "undirty (ent_bytes (frames s' ! i)) = b"
      using spec by (simp_all add: r Ok x get_spec_def)
    have p: "p_table s pid = Some j \<Longrightarrow> j = i \<and> pins (frames s' ! i) = Suc (pins (frames s ! i))" "p_table s pid = None \<Longrightarrow> pins (frames s' ! i) = 1" for j
      using spec by (simp_all add: r Ok x get_spec_def)
    have core': "pool_core {} s'" using g(1) by (simp add: pool_ok_def)
    have acc: "ce_acc (frames s ! j) = (0 < pins (frames s ! j))" if "p_table s k = Some j" for k j
      using table_used[OF core that] by (auto simp: ent_ok_def pins_ok_def)
    have kept: "p_table s' k = Some j \<and> ce_entry (frames s' ! j) = ce_entry (frames s ! j) \<and> pins (frames s' ! j) = pins (frames s ! j) + (if k = pid then 1 else 0)"
      if k: "p_table s k = Some j" "0 < pins (frames s ! j)" for k j
    proof -
      have st: "stays {i} k j s s'" using g(2) k acc[OF k(1)] by (simp add: safe_but_def)
      show ?thesis
      proof (cases "k = pid")
        case True
        then show ?thesis using p(1)[of j] k st by (simp add: stays_def)
      next
        case False
        have "j \<noteq> i" using False pool_table[OF core', of k j] pool_table[OF core', of pid i] st g(3) by (auto simp: stays_def)
        then show ?thesis using st False by (simp add: stays_def)
      qed
    qed
    have pos: "0 < pins (frames s' ! i)" using p by (cases "p_table s pid") simp_all
    have vw: "\<forall>k. valid_id k \<longrightarrow> view s' k = view s k" using g(2) by (simp add: safe_but_def)
    have run: "sh_get h pid s = (Ok (i, hit), s')" using r Ok x by simp
    show ?thesis using g(3,4) kept run pos vw by blast
  next
    case (Err e)
    then have "p_table s pid = None" "w_windowCount (p_w s) = w_windowCapacity (p_w s)" "\<not> can_evict s" "spared s s'"
      using spec r by (simp_all add: get_spec_def)
    then show ?thesis using r Err unfolding spared_def by blast
  qed (use spec r in \<open>auto simp: get_spec_def\<close>)
qed

lemma pool_witness:
  "\<exists>sh. newShard h (\<lambda>_. (1, 4, 2, 2, 3, 2)) True True c False = Ok sh \<and> pool_ok {} (shard_pool sh (pager2\<lparr>pgr_maxPageId := 0\<rparr>))
     \<and> pins_below 1 (shard_pool sh (pager2\<lparr>pgr_maxPageId := 0\<rparr>)) \<and> p_table (shard_pool sh (pager2\<lparr>pgr_maxPageId := 0\<rparr>)) = Map.empty"
proof -
  have z: "sizes_ok (1, 4, 2, 2, 3, 2)" by (simp add: sizes_ok_def)
  obtain sh where sh: "newShard h (\<lambda>_. (1, 4, 2, 2, 3, 2)) True True c False = Ok sh"
    using newShard_ok[where dims = "\<lambda>_. (1, 4, 2, 2, 3, 2)" and c = c and h = h, OF z pager0_ok] by blast
  from new_pool[where dims = "\<lambda>_. (1, 4, 2, 2, 3, 2)" and c = c, OF z pager0_ok sh] sh show ?thesis by (auto simp: shard_ok_def)
qed

theorem get_keeps_pinned_witness:
  "\<exists>sh i s j hit s'. newShard (\<lambda>_. 5) (\<lambda>_. (1, 4, 2, 2, 3, 2)) True True 8192 False = Ok sh
     \<and> sh_newFrame (\<lambda>_. 5) False False 9 (shard_pool sh (pager2\<lparr>pgr_maxPageId := 0\<rparr>)) = (Ok i, s)
     \<and> sh_get (\<lambda>_. 5) 9 s = (Ok (j, hit), s') \<and> p_table s' 9 = Some i \<and> pins (frames s' ! i) = 2"
proof -
  obtain sh where sh: "newShard (\<lambda>_. 5) (\<lambda>_. (1, 4, 2, 2, 3, 2)) True True 8192 False = Ok sh"
      and p: "pool_ok {} (shard_pool sh (pager2\<lparr>pgr_maxPageId := 0\<rparr>))" "pins_below 1 (shard_pool sh (pager2\<lparr>pgr_maxPageId := 0\<rparr>))"
        "p_table (shard_pool sh (pager2\<lparr>pgr_maxPageId := 0\<rparr>)) = Map.empty"
    using pool_witness by blast
  let ?s = "shard_pool sh (pager2\<lparr>pgr_maxPageId := 0\<rparr>)"
  have v: "valid_id 9" by (simp add: valid_id_def)
  have room: "w_windowCount (p_w ?s) \<noteq> w_windowCapacity (p_w ?s)"
    using new_drained(1)[of ?s] new_pool[where dims = "\<lambda>_. (1, 4, 2, 2, 3, 2)", OF _ pager0_ok sh] by (auto simp: drained_def sizes_ok_def)
  obtain i s where n: "sh_newFrame (\<lambda>_. 5) False False 9 ?s = (Ok i, s)" "pool_ok {} s" "pins_below 3 s" "only_changes {i} 9 (undirty (new_bytes 9 False)) ?s s"
      "p_table s 9 = Some i" "pins (frames s ! i) = 1"
    using sh_newFrame_ok[OF p(1,2) _ v, of False "\<lambda>_. 5" False] p(3) room
    by (cases "sh_newFrame (\<lambda>_. 5) False False 9 ?s"; cases "fst (sh_newFrame (\<lambda>_. 5) False False 9 ?s)") (auto simp: new_spec_def numeral_3_eq_3)
  have "view s 9 = Some (undirty (new_bytes 9 False))" using n(4) by (simp add: only_changes_def)
  from get_keeps_pinned [OF n(2,3) _ v this, of "\<lambda>_. 5"] n(5,6)
  obtain j hit s' where "sh_get (\<lambda>_. 5) 9 s = (Ok (j, hit), s')" "p_table s' 9 = Some i" "pins (frames s' ! i) = 2" by fastforce
  then show ?thesis using sh n(1) by blast
qed

text \<open>C35. Requests for pages that do not exist use up the window: when a new shard has been asked for as many such pages as its window has frames (each request
  ends with an error, and its frame goes back to the pool), the shard has no page cached and every later request fails, whatever requests \<open>qs\<close> came
  in between: a request for any page, also for a stored one, and the creation of any page. No frame is in use then: the window's counter is never
  lowered again.\<close>

theorem missing_pages_exhaust:
  assumes "sizes_ok (dims c)" "store_ok pgr" "newShard h dims True True c reserve = Ok sh"
    and "length pids = unat (fst (dims c))" "\<forall>p\<in>set pids. valid_id p \<and> kept_page pgr p = None" "\<forall>q\<in>set qs. valid_id q" "valid_id pid"
  shows "\<exists>e s' e' s''. sh_get h pid (fold (\<lambda>p s. snd (sh_get h p s)) (pids @ qs) (shard_pool sh pgr)) = (Err e, s')
     \<and> sh_newFrame h x y pid (fold (\<lambda>p s. snd (sh_get h p s)) (pids @ qs) (shard_pool sh pgr)) = (Err e', s'')
     \<and> p_table (fold (\<lambda>p s. snd (sh_get h p s)) (pids @ qs) (shard_pool sh pgr)) = Map.empty"
proof -
  let ?run = "\<lambda>ps. fold (\<lambda>p s. snd (sh_get h p s)) ps"
  note np = new_pool[where dims = dims, OF assms(1-3)]
  note d = new_drained[OF np(1,2)]
  have "p_pgr (shard_pool sh pgr) = pgr" by (simp add: shard_pool_def)
  then have "full_window (?run pids (shard_pool sh pgr))"
    using drained_requests[OF d(1), of pids h] d(2) np(3) assms(4,5) by (simp add: full_window_def)
  then have full: "full_window (?run (pids @ qs) (shard_pool sh pgr))" using full_requests assms(6) by simp
  obtain e s' where g: "sh_get h pid (?run (pids @ qs) (shard_pool sh pgr)) = (Err e, s')" using full_refuses[OF full assms(7)] by blast
  obtain e' s'' where n: "sh_newFrame h x y pid (?run (pids @ qs) (shard_pool sh pgr)) = (Err e', s'')" using full_creates_none[OF full assms(7)] by blast
  have "p_table (?run (pids @ qs) (shard_pool sh pgr)) = Map.empty" using full unfolding full_window_def drained_def by (elim conjE)
  with g n show ?thesis by blast
qed

theorem missing_pages_exhaust_witness:
  "\<exists>sh e s'. newShard (\<lambda>_. 5) (\<lambda>_. (1, 4, 2, 2, 3, 2)) True True 8192 False = Ok sh
     \<and> sh_get (\<lambda>_. 5) 3 (fold (\<lambda>p s. snd (sh_get (\<lambda>_. 5) p s)) [7, 9, 7] (shard_pool sh (pager2\<lparr>pgr_maxPageId := 0\<rparr>))) = (Err e, s')"
proof -
  obtain sh where sh: "newShard (\<lambda>_. 5) (\<lambda>_. (1, 4, 2, 2, 3, 2)) True True 8192 False = Ok sh" using pool_witness by blast
  from missing_pages_exhaust [where dims = "\<lambda>_. (1, 4, 2, 2, 3, 2)", OF _ pager0_ok sh, of "[7]" "[9, 7]" 3] sh show ?thesis
    using pager0_none by (auto simp: sizes_ok_def valid_id_def)
qed

end
