(* ===== verification/Logger.thy ===== *)
theory Logger
  imports Fifo "HOL-Library.Multiset"
begin

text \<open>
  The logger, \<^verbatim>\<open>pkg/logger\<close>: requests go into a linked list that a goroutine started by \<^verbatim>\<open>Write\<close> empties. The nodes of the list are a store, a node is
  its index there. Every goroutine that runs \<^verbatim>\<open>BaobabLogger.run\<close> is a worker with a state of its own, and the steps of the workers and the calls of
  \<^verbatim>\<open>Write\<close> interleave. The lines that reach the handler are the output; \<^verbatim>\<open>slog\<close> drops lines below the level of the handler. A send on the channel of a
  request is received at once.
\<close>

section \<open>The queue\<close>

record LogItem =
  li_pkg :: string
  li_fn :: string
  li_logLevel :: int
  li_msg :: string

record LogReq =
  lr_log :: LogItem
  lr_next :: "nat option"
  lr_retChan :: "nat option"

record LogQueue =
  lq_head :: "nat option"
  lq_tail :: "nat option"
  lq_itemCount :: u64
  lq_nodes :: "LogReq list"

definition setNext :: "nat \<Rightarrow> nat \<Rightarrow> LogQueue \<Rightarrow> LogQueue" where
  "setNext a n q = q\<lparr>lq_nodes := (lq_nodes q)[a := (lq_nodes q ! a)\<lparr>lr_next := Some n\<rparr>]\<rparr>"

text \<open>The request is a node of its own, allocated by the caller.\<close>

definition addItem :: "LogReq option \<Rightarrow> LogQueue \<Rightarrow> nat res \<times> LogQueue" where
  "addItem r q = (case r of
      None \<Rightarrow> (Err (LoggerError ''(logger) Log request cannot be nil.''), q)
    | Some r \<Rightarrow>
        (let a = length (lq_nodes q); q = q\<lparr>lq_nodes := lq_nodes q @ [r]\<rparr> in
         if lq_itemCount q \<le> 0 then (Ok a, q\<lparr>lq_head := Some a, lq_tail := Some a, lq_itemCount := lq_itemCount q + 1\<rparr>)
         else (case lq_tail q of
             None \<Rightarrow> (Panic ''(logger) No tail in the log queue.'', q)
           | Some t \<Rightarrow>
               if lq_head q = None then (Panic ''(logger) No head in the log queue.'', q)
               else (let q = setNext t a q in (Ok a, q\<lparr>lq_tail := Some a, lq_itemCount := lq_itemCount q + 1\<rparr>)))))"

definition getOldest :: "LogQueue \<Rightarrow> LogReq option res \<times> LogQueue" where
  "getOldest q =
     (let currCount = lq_itemCount q in
      if currCount \<le> 0 then (Ok None, q)
      else (case lq_head q of
          None \<Rightarrow> (Panic ''(queue) - getOldest - No head in the log queue'', q)
        | Some h \<Rightarrow>
            if lq_tail q = None then (Panic ''(queue) - getOldest - No tail in the log queue'', q)
            else
              (let lr = lq_nodes q ! h; newCount = currCount - 1;
                   q = q\<lparr>lq_head := lr_next lr, lq_itemCount := newCount\<rparr> in
               (Ok (Some lr), if newCount = 0 then q\<lparr>lq_tail := None\<rparr> else q))))"

definition newLogQueue :: LogQueue where
  "newLogQueue = \<lparr>lq_head = None, lq_tail = None, lq_itemCount = 0, lq_nodes = []\<rparr>"

section \<open>The logger\<close>

abbreviation LevelDebug :: int where "LevelDebug \<equiv> -4"
abbreviation LevelInfo :: int where "LevelInfo \<equiv> 0"
abbreviation LevelWarn :: int where "LevelWarn \<equiv> 4"
abbreviation LevelError :: int where "LevelError \<equiv> 8"

datatype LogMode = DEBUG | PRODUCTION

text \<open>A line of the output: its level, message, package and function.\<close>

type_synonym line = "int \<times> string \<times> (string \<times> string) option"

datatype worker = Spawned | Polling | Writing LogReq

record BaobabLogger =
  bl_queue :: LogQueue
  bl_logMode :: LogMode
  bl_level :: int
  bl_running :: bool
  bl_maxLogSize :: u64
  bl_workers :: "worker list"
  bl_out :: "line list"
  bl_sent :: "nat list"

text \<open>\<^verbatim>\<open>slog.Level.String\<close>: the level below and the difference, with its sign.\<close>

fun nat_str :: "nat \<Rightarrow> string" where
  "nat_str n = (if n < 10 then [char_of (48 + n)] else nat_str (n div 10) @ [char_of (48 + n mod 10)])"

declare nat_str.simps [simp del]

definition level_from :: "string \<Rightarrow> int \<Rightarrow> string" where
  "level_from base val = (if val = 0 then base else base @ (if 0 < val then ''+'' else ''-'') @ nat_str (nat \<bar>val\<bar>))"

definition level_str :: "int \<Rightarrow> string" where
  "level_str l =
     (if l < LevelInfo then level_from ''DEBUG'' (l - LevelDebug)
      else if l < LevelWarn then level_from ''INFO'' (l - LevelInfo)
      else if l < LevelError then level_from ''WARN'' (l - LevelWarn)
      else level_from ''ERROR'' (l - LevelError))"

definition log_line :: "int \<Rightarrow> LogItem \<Rightarrow> line list" where
  "log_line level li =
     (let l = (if li_logLevel li \<in> {LevelInfo, LevelDebug, LevelWarn, LevelError}
               then (li_logLevel li, li_msg li, Some (li_pkg li, li_fn li))
               else (LevelError, ''Invalid log level. Received: '' @ level_str (li_logLevel li), None)) in
      if fst l < level then [] else [l])"

text \<open>\<^verbatim>\<open>Write\<close>: the goroutine it starts has not yet run when it returns. The code adds the request and reads \<^verbatim>\<open>running\<close> in two steps, here one:
  a worker that runs between them changes only whether one more worker is started, which finds the queue as it is.\<close>

definition log_Write :: "string \<Rightarrow> string \<Rightarrow> int \<Rightarrow> string \<Rightarrow> nat option \<Rightarrow> BaobabLogger \<Rightarrow> unit res \<times> BaobabLogger" where
  "log_Write pkg fn level msg rChan l =
     (let lReq = \<lparr>lr_log = \<lparr>li_pkg = pkg, li_fn = fn, li_logLevel = level, li_msg = msg\<rparr>, lr_next = None, lr_retChan = rChan\<rparr> in
      case addItem (Some lReq) (bl_queue l) of
        (Ok _, q) \<Rightarrow>
          (let l = l\<lparr>bl_queue := q\<rparr> in
           (Ok (), if \<not> bl_running l then l\<lparr>bl_workers := bl_workers l @ [Spawned]\<rparr> else l))
      | (Err e, q) \<Rightarrow>
          (let errLog = \<lparr>lr_log = \<lparr>li_pkg = ''testing'', li_fn = ''addItem()'', li_logLevel = LevelError, li_msg = (case e of LoggerError m \<Rightarrow> m | _ \<Rightarrow> '''')\<rparr>,
                         lr_next = None, lr_retChan = None\<rparr> in
           (Err e, l\<lparr>bl_queue := snd (addItem (Some errLog) q)\<rparr>))
      | (Panic p, q) \<Rightarrow> (Panic p, l\<lparr>bl_queue := q\<rparr>)
      | (Blocked, q) \<Rightarrow> (Blocked, l\<lparr>bl_queue := q\<rparr>))"

text \<open>One step of the worker \<open>i\<close>: it marks the logger running, takes the oldest request (or finds none and looks again), or writes the request it took.\<close>

definition run_step :: "nat \<Rightarrow> BaobabLogger \<Rightarrow> unit res \<times> BaobabLogger" where
  "run_step i l = (case bl_workers l ! i of
      Spawned \<Rightarrow> (Ok (), l\<lparr>bl_running := True, bl_workers := (bl_workers l)[i := Polling]\<rparr>)
    | Polling \<Rightarrow>
        (case getOldest (bl_queue l) of
           (Ok None, q) \<Rightarrow> (Ok (), l\<lparr>bl_queue := q\<rparr>)
         | (Ok (Some r), q) \<Rightarrow> (Ok (), l\<lparr>bl_queue := q, bl_workers := (bl_workers l)[i := Writing r]\<rparr>)
         | (Err e, q) \<Rightarrow> (Err e, l\<lparr>bl_queue := q\<rparr>)
         | (Panic p, q) \<Rightarrow> (Panic p, l\<lparr>bl_queue := q\<rparr>)
         | (Blocked, q) \<Rightarrow> (Blocked, l\<lparr>bl_queue := q\<rparr>))
    | Writing r \<Rightarrow>
        (Ok (), l\<lparr>bl_out := bl_out l @ log_line (bl_level l) (lr_log r),
                  bl_sent := bl_sent l @ (case lr_retChan r of None \<Rightarrow> [] | Some c \<Rightarrow> [c]),
                  bl_workers := (bl_workers l)[i := Polling]\<rparr>))"

text \<open>The single instance of the package.\<close>

definition log_Close :: "BaobabLogger option \<Rightarrow> unit res \<times> BaobabLogger option" where
  "log_Close g = (Ok (), None)"

definition NewLogger :: "LogMode \<Rightarrow> u64 \<Rightarrow> BaobabLogger option \<Rightarrow> BaobabLogger res \<times> BaobabLogger option" where
  "NewLogger mode lSize g =
     (if lSize = 0 then (Panic ''Invalid log size provided.'', g)
      else (case g of
          Some l \<Rightarrow> (Ok l, g)
        | None \<Rightarrow>
            (let l = \<lparr>bl_queue = newLogQueue, bl_logMode = mode, bl_level = (if mode = PRODUCTION then LevelInfo else LevelDebug), bl_running = False,
                      bl_maxLogSize = lSize, bl_workers = [], bl_out = [], bl_sent = []\<rparr> in
             (Ok l, Some l))))"

section \<open>The queue is first in, first out\<close>

text \<open>The nodes from head to tail; the counter does not wrap.\<close>

fun log_chain :: "LogReq list \<Rightarrow> nat option \<Rightarrow> nat list \<Rightarrow> bool" where
  "log_chain ns p [] = True"
| "log_chain ns p (a # as) = (p = Some a \<and> a < length ns \<and> log_chain ns (lr_next (ns ! a)) as)"

definition lq_rep :: "nat list \<Rightarrow> LogQueue \<Rightarrow> bool" where
  "lq_rep as q \<longleftrightarrow> log_chain (lq_nodes q) (lq_head q) as \<and> distinct as \<and> unat (lq_itemCount q) = length as
     \<and> lq_tail q = (if as = [] then None else Some (last as))"

lemma log_chain_cong: "(\<And>a. a \<in> set as \<Longrightarrow> a < length ns \<Longrightarrow> a < length ns' \<and> lr_next (ns' ! a) = lr_next (ns ! a)) \<Longrightarrow> log_chain ns p as \<Longrightarrow> log_chain ns' p as"
  by (induction as arbitrary: p) auto

lemma log_chain_less: "log_chain ns p as \<Longrightarrow> a \<in> set as \<Longrightarrow> a < length ns"
  by (induction as arbitrary: p) auto

lemma log_chain_snoc:
  "log_chain ns p as \<Longrightarrow> as \<noteq> [] \<Longrightarrow> distinct as \<Longrightarrow> lr_next (ns ! last as) = Some b \<Longrightarrow> b < length ns \<Longrightarrow> log_chain ns p (as @ [b])"
proof (induction as arbitrary: p)
  case (Cons a as)
  then show ?case by (cases as) auto
qed simp

lemma addItem_rep:
  assumes "lq_rep as q" "length as < 2 ^ 64 - 1"
  shows "\<exists>q' a. addItem (Some r) q = (Ok a, q') \<and> lq_rep (as @ [a]) q' \<and> (\<forall>b\<in>set as. lr_log (lq_nodes q' ! b) = lr_log (lq_nodes q ! b)
     \<and> lr_retChan (lq_nodes q' ! b) = lr_retChan (lq_nodes q ! b)) \<and> lr_log (lq_nodes q' ! a) = lr_log r \<and> lr_retChan (lq_nodes q' ! a) = lr_retChan r"
proof -
  let ?a = "length (lq_nodes q)" and ?ns = "lq_nodes q @ [r]"
  have c: "log_chain (lq_nodes q) (lq_head q) as" "distinct as" "unat (lq_itemCount q) = length as" "lq_tail q = (if as = [] then None else Some (last as))"
    using assms(1) by (auto simp: lq_rep_def)
  have less: "b < ?a" if "b \<in> set as" for b using log_chain_less[OF c(1) that] .
  have cnt: "unat (lq_itemCount q + 1) = Suc (length as)" using assms(2) c(3) by (simp add: unat_word_ariths)
  show ?thesis
  proof (cases "as = []")
    case True
    then have "lq_itemCount q = 0" using c(3) by (simp add: unat_eq_zero)
    then show ?thesis using True cnt by (simp add: addItem_def Let_def lq_rep_def)
  next
    case False
    have ne: "\<not> lq_itemCount q \<le> 0" "lq_head q \<noteq> None" using False c(1,3) by (cases as; auto simp: unat_eq_zero)+
    let ?t = "last as"
    let ?ns' = "?ns[?t := (?ns ! ?t)\<lparr>lr_next := Some ?a\<rparr>]"
    have t: "?t < ?a" using less False by simp
    have tail: "lq_tail q = Some ?t" using c(4) False by simp
    have ch0: "log_chain ?ns' (lq_head q) as"
    proof -
      have "log_chain ns p bs \<Longrightarrow> bs \<noteq> [] \<Longrightarrow> distinct bs \<Longrightarrow> log_chain ((ns @ [r])[last bs := ((ns @ [r]) ! last bs)\<lparr>lr_next := z\<rparr>]) p bs" for ns p bs z
      proof (induction bs arbitrary: p)
        case (Cons b bs)
        show ?case
        proof (cases bs)
          case Nil
          then show ?thesis using Cons.prems by simp
        next
          case (Cons b' bs')
          then have "b \<noteq> last bs" using Cons.prems(3) by (metis distinct.simps(2) last_in_set list.discI)
          then show ?thesis using Cons.IH[of "lr_next (ns ! b)"] Cons.prems Cons by (simp add: nth_append)
        qed
      qed simp
      from this[OF c(1) False c(2)] show ?thesis .
    qed
    have ch: "log_chain ?ns' (lq_head q) (as @ [?a])" by (rule log_chain_snoc[OF ch0 False c(2)]) (use t in simp_all)
    have "?a \<notin> set as" using less by blast
    then have rep: "lq_rep (as @ [?a]) (q\<lparr>lq_nodes := ?ns', lq_tail := Some ?a, lq_itemCount := lq_itemCount q + 1\<rparr>)"
      using ch c(2) cnt by (simp add: lq_rep_def)
    have "addItem (Some r) q = (Ok ?a, q\<lparr>lq_nodes := ?ns', lq_tail := Some ?a, lq_itemCount := lq_itemCount q + 1\<rparr>)"
      using ne tail by (simp add: addItem_def Let_def setNext_def)
    then show ?thesis using rep less t by (auto simp: nth_list_update nth_append)
  qed
qed

lemma getOldest_rep:
  assumes "lq_rep as q"
  shows "as = [] \<Longrightarrow> getOldest q = (Ok None, q)"
    "as = a # bs \<Longrightarrow> \<exists>q'. getOldest q = (Ok (Some (lq_nodes q ! a)), q') \<and> lq_rep bs q' \<and> lq_nodes q' = lq_nodes q"
proof -
  show "getOldest q = (Ok None, q)" if "as = []" using assms that by (simp add: lq_rep_def getOldest_def Let_def unat_eq_zero)
  show "\<exists>q'. getOldest q = (Ok (Some (lq_nodes q ! a)), q') \<and> lq_rep bs q' \<and> lq_nodes q' = lq_nodes q" if as: "as = a # bs"
  proof -
    have c: "lq_head q = Some a" "log_chain (lq_nodes q) (lr_next (lq_nodes q ! a)) bs" "distinct bs" "unat (lq_itemCount q) = Suc (length bs)"
        "lq_tail q = Some (last as)"
      using assms as by (auto simp: lq_rep_def)
    have nz: "\<not> lq_itemCount q \<le> 0" using c(4) by auto
    have dec: "unat (lq_itemCount q - 1) = length bs" using c(4) by (metis diff_Suc_1 nat.distinct(1) unat_0 unat_minus_one)
    then have z: "(lq_itemCount q - 1 = 0) = (bs = [])" by (metis length_0_conv unat_eq_zero)
    show ?thesis using nz c dec z as by (auto simp: getOldest_def Let_def lq_rep_def)
  qed
qed

section \<open>Runs\<close>

text \<open>The requests in a queue, from head to tail.\<close>

fun chain_items :: "nat \<Rightarrow> LogReq list \<Rightarrow> nat option \<Rightarrow> LogItem list" where
  "chain_items 0 ns p = []"
| "chain_items (Suc n) ns p = (case p of None \<Rightarrow> [] | Some a \<Rightarrow> lr_log (ns ! a) # chain_items n ns (lr_next (ns ! a)))"

definition queue_items :: "LogQueue \<Rightarrow> LogItem list" where
  "queue_items q = chain_items (unat (lq_itemCount q)) (lq_nodes q) (lq_head q)"

lemma chain_items_eq: "log_chain ns p as \<Longrightarrow> chain_items (length as) ns p = map (\<lambda>a. lr_log (ns ! a)) as"
  by (induction as arbitrary: p) auto

lemma queue_items_eq: "lq_rep as q \<Longrightarrow> queue_items q = map (\<lambda>a. lr_log (lq_nodes q ! a)) as"
  using chain_items_eq by (simp add: lq_rep_def queue_items_def)

fun holding :: "worker \<Rightarrow> LogItem list" where
  "holding (Writing r) = [lr_log r]"
| "holding w = []"

abbreviation held_items :: "BaobabLogger \<Rightarrow> LogItem list" where
  "held_items l \<equiv> concat (map holding (bl_workers l))"

text \<open>Calls of \<^verbatim>\<open>Write\<close> and steps of workers in any order; the list holds what was written.\<close>

inductive log_run :: "BaobabLogger \<Rightarrow> LogItem list \<Rightarrow> BaobabLogger \<Rightarrow> bool" where
  log_begin: "log_run l [] l"
| log_call: "log_run l ws l1 \<Longrightarrow> log_Write pkg fn level msg rChan l1 = (r, l2) \<Longrightarrow>
    log_run l (ws @ [\<lparr>li_pkg = pkg, li_fn = fn, li_logLevel = level, li_msg = msg\<rparr>]) l2"
| log_work: "log_run l ws l1 \<Longrightarrow> i < length (bl_workers l1) \<Longrightarrow> run_step i l1 = (r, l2) \<Longrightarrow> log_run l ws l2"

definition log_inv :: "int \<Rightarrow> LogItem list \<Rightarrow> LogItem list \<Rightarrow> BaobabLogger \<Rightarrow> bool" where
  "log_inv level ws ds l \<longleftrightarrow> (\<exists>as. lq_rep as (bl_queue l)) \<and> bl_level l = level \<and> bl_out l = concat (map (log_line level) ds)
     \<and> mset ws = mset ds + mset (held_items l) + mset (queue_items (bl_queue l))
     \<and> (length (bl_workers l) \<le> 1 \<longrightarrow> ws = ds @ held_items l @ queue_items (bl_queue l))"

lemma concat_update:
  assumes "i < length xs"
  shows "mset (concat (map f (xs[i := x]))) + mset (f (xs ! i)) = mset (concat (map f xs)) + mset (f x)"
proof -
  obtain a y b where xs: "xs = a @ y # b" "length a = i" using id_take_nth_drop[OF assms] assms by (metis length_take min.absorb4)
  then have "xs ! i = y" "xs[i := x] = a @ x # b" by (auto simp: list_update_append)
  then show ?thesis by (simp add: xs(1))
qed

lemma one_worker: "length xs \<le> 1 \<Longrightarrow> i < length xs \<Longrightarrow> concat (map f (xs[i := x])) = f x \<and> concat (map f xs) = f (xs ! i)"
  by (cases xs) auto

lemma Write_inv:
  assumes "log_inv level ws ds l" "length ws < 2 ^ 64 - 1" "log_Write pkg fn lv msg rChan l = (r, l')"
  shows "r = Ok ()" "log_inv level (ws @ [\<lparr>li_pkg = pkg, li_fn = fn, li_logLevel = lv, li_msg = msg\<rparr>]) ds l'"
proof -
  let ?it = "\<lparr>li_pkg = pkg, li_fn = fn, li_logLevel = lv, li_msg = msg\<rparr>"
  let ?r = "\<lparr>lr_log = ?it, lr_next = None, lr_retChan = rChan\<rparr>"
  obtain as where as: "lq_rep as (bl_queue l)" using assms(1) by (auto simp: log_inv_def)
  note I = assms(1)[unfolded log_inv_def]
  have "size (mset ws) = size (mset ds) + size (mset (held_items l)) + size (mset (queue_items (bl_queue l)))" using I by simp
  then have "length as < 2 ^ 64 - 1" using assms(2) queue_items_eq[OF as] by simp
  then obtain q a where q: "addItem (Some ?r) (bl_queue l) = (Ok a, q)" "lq_rep (as @ [a]) q"
      "\<forall>b\<in>set as. lr_log (lq_nodes q ! b) = lr_log (lq_nodes (bl_queue l) ! b)" "lr_log (lq_nodes q ! a) = ?it"
    using addItem_rep[OF as, of ?r] by auto
  have items: "queue_items q = queue_items (bl_queue l) @ [?it]" using queue_items_eq[OF q(2)] queue_items_eq[OF as] q(3,4) by simp
  have l': "r = Ok () \<and> l' = (let l = l\<lparr>bl_queue := q\<rparr> in if \<not> bl_running l then l\<lparr>bl_workers := bl_workers l @ [Spawned]\<rparr> else l)"
    using assms(3) q(1) by (auto simp: log_Write_def Let_def)
  then have w: "held_items l' = held_items l" "bl_queue l' = q" "bl_out l' = bl_out l" "bl_level l' = bl_level l" "length (bl_workers l) \<le> length (bl_workers l')"
    by (auto simp: Let_def)
  show "r = Ok ()" using l' by simp
  show "log_inv level (ws @ [?it]) ds l'" unfolding log_inv_def using I w items q(2) by auto
qed

lemma run_step_inv:
  assumes "log_inv level ws ds l" "i < length (bl_workers l)" "run_step i l = (r, l')"
  shows "r = Ok () \<and> (\<exists>ds'. log_inv level ws ds' l')"
proof -
  obtain as where as: "lq_rep as (bl_queue l)" using assms(1) by (auto simp: log_inv_def)
  note I = assms(1)[unfolded log_inv_def]
  have upd: "mset (concat (map holding ((bl_workers l)[i := w]))) + mset (holding (bl_workers l ! i)) = mset (held_items l) + mset (holding w)" for w
    using concat_update[OF assms(2)] .
  have one: "concat (map holding ((bl_workers l)[i := w])) = holding w" "held_items l = holding (bl_workers l ! i)" if "length (bl_workers l) \<le> 1" for w
    using one_worker[OF that assms(2), of holding w] by blast+
  show ?thesis
  proof (cases "bl_workers l ! i")
    case Spawned
    have "log_inv level ws ds l'"
      using I upd[of Polling] one(1)[of Polling] one(2) assms(3) unfolding log_inv_def run_step_def Spawned by (auto simp: Spawned)
    then show ?thesis using assms(3) by (auto simp: run_step_def Spawned)
  next
    case Polling
    show ?thesis
    proof (cases as)
      case Nil
      then show ?thesis using getOldest_rep(1)[OF as] assms(1,3) by (auto simp: run_step_def Polling)
    next
      case (Cons a bs)
      then obtain q where q: "getOldest (bl_queue l) = (Ok (Some (lq_nodes (bl_queue l) ! a)), q)" "lq_rep bs q" "lq_nodes q = lq_nodes (bl_queue l)"
        using getOldest_rep(2)[OF as Cons] by blast
      let ?w = "Writing (lq_nodes (bl_queue l) ! a)"
      have l': "r = Ok ()" "l' = l\<lparr>bl_queue := q, bl_workers := (bl_workers l)[i := ?w]\<rparr>" using q(1) assms(3) by (auto simp: run_step_def Polling)
      have items: "queue_items (bl_queue l) = lr_log (lq_nodes (bl_queue l) ! a) # queue_items q"
        using queue_items_eq[OF as] queue_items_eq[OF q(2)] q(3) Cons by simp
      have "log_inv level ws ds l'"
        unfolding log_inv_def l'(2) using I items q(2) upd[of ?w] one(1)[of ?w] one(2) Polling by (auto simp: Polling)
      then show ?thesis using l'(1) by blast
    qed
  next
    case (Writing rq)
    have l': "r = Ok ()" "bl_workers l' = (bl_workers l)[i := Polling]" "bl_queue l' = bl_queue l" "bl_level l' = bl_level l"
        "bl_out l' = bl_out l @ log_line (bl_level l) (lr_log rq)" using assms(3) by (auto simp: run_step_def Writing)
    have "log_inv level ws (ds @ [lr_log rq]) l'"
      unfolding log_inv_def l' using I upd[of Polling] one(1)[of Polling] one(2) Writing by (auto simp: Writing)
    then show ?thesis using l'(1) by blast
  qed
qed

lemma log_run_inv: "log_run l ws l' \<Longrightarrow> log_inv level [] [] l \<Longrightarrow> length ws < 2 ^ 64 - 1 \<Longrightarrow> \<exists>ds. log_inv level ws ds l'"
proof (induction rule: log_run.induct)
  case (log_call l ws l1 pkg fn lv msg rChan r l2)
  then show ?case using Write_inv(2)[of level ws _ l1] by fastforce
next
  case (log_work l ws l1 i r l2)
  then show ?case using run_step_inv[of level ws _ l1] by fastforce
qed auto

section \<open>Properties\<close>

text \<open>C39. The logger loses and duplicates nothing: in every interleaving of calls of \<^verbatim>\<open>Write\<close> on a new logger with the steps of its goroutines, the requests made so far are those whose lines
  were written (in the order \<open>ds\<close>), those a goroutine has taken and not yet written, and those in the queue. While there is only one goroutine the lines appear in the order of the calls. No call and no
  step panics or returns an error.\<close>

theorem logger_delivers:
  assumes "NewLogger mode sz None = (Ok l, g)" "log_run l ws l'" "length ws < 2 ^ 64 - 1"
  shows "\<exists>ds. bl_out l' = concat (map (log_line (bl_level l)) ds)
     \<and> mset ws = mset ds + mset (held_items l') + mset (queue_items (bl_queue l'))
     \<and> (length (bl_workers l') \<le> 1 \<longrightarrow> ws = ds @ held_items l' @ queue_items (bl_queue l'))
     \<and> (\<forall>i<length (bl_workers l'). fst (run_step i l') = Ok ()) \<and> fst (log_Write pkg fn lv msg rChan l') = Ok ()"
proof -
  have "lq_rep [] newLogQueue" by (simp add: lq_rep_def newLogQueue_def)
  moreover have "bl_queue l = newLogQueue" "bl_out l = []" "bl_workers l = []" using assms(1) by (auto simp: NewLogger_def Let_def split: if_splits)
  moreover have "queue_items newLogQueue = []" by (simp add: queue_items_def newLogQueue_def)
  ultimately have "log_inv (bl_level l) [] [] l" by (auto simp: log_inv_def)
  then obtain ds where I: "log_inv (bl_level l) ws ds l'" using log_run_inv[OF assms(2) _ assms(3)] by blast
  have "fst (run_step i l') = Ok ()" if "i < length (bl_workers l')" for i using run_step_inv[OF I that] by (cases "run_step i l'") auto
  moreover have "fst (log_Write pkg fn lv msg rChan l') = Ok ()"
    using Write_inv(1)[OF I assms(3)] by (cases "log_Write pkg fn lv msg rChan l'") auto
  ultimately show ?thesis using I by (auto simp: log_inv_def)
qed

definition log0 :: BaobabLogger where
  "log0 = \<lparr>bl_queue = newLogQueue, bl_logMode = PRODUCTION, bl_level = LevelInfo, bl_running = False,
     bl_maxLogSize = 1, bl_workers = [], bl_out = [], bl_sent = []\<rparr>"

definition say :: "string \<Rightarrow> BaobabLogger \<Rightarrow> BaobabLogger" where
  "say msg l = snd (log_Write ''p'' ''f'' LevelInfo msg None l)"

definition step :: "nat \<Rightarrow> BaobabLogger \<Rightarrow> BaobabLogger" where
  "step i l = snd (run_step i l)"

definition said :: "string \<Rightarrow> LogItem" where
  "said msg = \<lparr>li_pkg = ''p'', li_fn = ''f'', li_logLevel = LevelInfo, li_msg = msg\<rparr>"

lemma run_say: "log_run l ws l1 \<Longrightarrow> log_run l (ws @ [said msg]) (say msg l1)"
  unfolding said_def say_def by (rule log_call[OF _ prod.collapse[symmetric]])

lemma run_work: "log_run l ws l1 \<Longrightarrow> i < length (bl_workers l1) \<Longrightarrow> log_run l ws (step i l1)"
  unfolding step_def by (rule log_work[OF _ _ prod.collapse[symmetric]])

lemma step_workers: "length (bl_workers (step i l)) = length (bl_workers l)"
  by (auto simp: step_def run_step_def split: worker.splits prod.splits res.splits option.splits)

lemma run_steps: "log_run l ws l1 \<Longrightarrow> \<forall>i\<in>set is. i < length (bl_workers l1) \<Longrightarrow> log_run l ws (fold step is l1)"
  by (induction "is" arbitrary: l1) (auto simp: step_workers run_work)

theorem logger_delivers_witness:
  "\<exists>ds. bl_out (fold step [0, 0, 0] (say ''a'' log0)) = concat (map (log_line 0) ds) \<and> [said ''a''] = ds"
proof -
  have n: "NewLogger PRODUCTION 1 None = (Ok log0, Some log0)" by (simp add: NewLogger_def log0_def Let_def)
  have "log_run log0 [said ''a''] (say ''a'' log0)" using run_say[OF log_begin, of log0 "''a''"] by simp
  then have r: "log_run log0 [said ''a''] (fold step [0, 0, 0] (say ''a'' log0))"
    by (rule run_steps) (simp add: say_def log_Write_def addItem_def log0_def newLogQueue_def Let_def)
  define l where "l = fold step [0, 0, 0] (say ''a'' log0)"
  have s: "held_items l = []" "queue_items (bl_queue l) = []" "length (bl_workers l) = 1" "bl_level log0 = 0"
    unfolding l_def by code_simp+
  obtain ds where d: "bl_out l = concat (map (log_line (bl_level log0)) ds)" "length (bl_workers l) \<le> 1 \<longrightarrow> [said ''a''] = ds @ held_items l @ queue_items (bl_queue l)"
    using logger_delivers [OF n r[folded l_def], of "[]" "[]" 0 "[]" None] by auto
  then have "[said ''a''] = ds" by (simp only: s append_Nil2 order_refl simp_thms)
  then show ?thesis using d(1) unfolding l_def s(4) by blast
qed

text \<open>C40. The order of the calls is not always the order of the lines: two calls of \<^verbatim>\<open>Write\<close> before the first goroutine has marked the logger running start two goroutines, which can
  write their requests in the opposite order.\<close>

theorem logger_reorders:
  "\<exists>l'. log_run log0 [said ''a'', said ''b''] l' \<and> map (fst \<circ> snd) (bl_out l') = [''b'', ''a'']"
proof -
  let ?l = "say ''b'' (say ''a'' log0)"
  have r: "log_run log0 [said ''a'', said ''b''] ?l" using run_say[OF run_say[OF log_begin, of log0 "''a''"], of "''b''"] by simp
  have "length (bl_workers ?l) = 2" by code_simp
  then have "log_run log0 [said ''a'', said ''b''] (fold step [0, 1, 0, 1, 1, 0] ?l)" by (intro run_steps[OF r]) auto
  moreover have "map (fst \<circ> snd) (bl_out (fold step [0, 1, 0, 1, 1, 0] ?l)) = [''b'', ''a'']" by code_simp
  ultimately show ?thesis by (intro exI conjI)
qed

end
