(* ===== verification/Server.thy ===== *)
theory Server
  imports Prelude
begin

text \<open>
  The HTTP server, \<^verbatim>\<open>main.go\<close>: the routes of \<^verbatim>\<open>runServer\<close> and the handlers. The index is the package \<^verbatim>\<open>pkg/bp_tree\<close>, which is not in the repository: its operations
  for one key are the fields of \<open>Tree\<close>, on an arbitrary state. A request holds its method (any but \<^verbatim>\<open>CONNECT\<close>, whose path is not cleaned), its path as it was sent, with escapes, its
  query, whether its context is done, and what decoding its body gives (the message of the error, or the payload); a Go string is a list of bytes, here of characters. A panic in a
  handler is recovered by \<^verbatim>\<open>net/http\<close>, which closes the connection.
\<close>

section \<open>Requests, responses and the index\<close>

record KV =
  kv_Key :: string
  kv_Val :: string

datatype http_method = MethodGet | MethodPut | MethodDelete | MethodOther

record Request =
  r_Method :: http_method
  r_EscapedPath :: string
  r_Query :: "(string \<times> string) list"
  r_Done :: bool
  r_Body :: "string + KV"

datatype Response =
    ErrResp nat string
  | TextError nat string
  | KVResp nat KV
  | RangeRes nat string nat "KV list"
  | DelResp nat string bool
  | Hello
  | Redirect
  | Closed
  | NoAnswer

record 't Tree =
  t_Get :: "bytes \<Rightarrow> 't \<Rightarrow> bytes res \<times> 't"
  t_RangeSearch :: "bytes \<Rightarrow> bytes \<Rightarrow> 32 word \<Rightarrow> 't \<Rightarrow> (bytes \<times> bytes) list res \<times> 't"
  t_InsertValue :: "bytes \<Rightarrow> bytes \<Rightarrow> 't \<Rightarrow> bool res \<times> 't"
  t_DeleteValue :: "bytes \<Rightarrow> 't \<Rightarrow> bool res \<times> 't"
  t_msg :: "gerror \<Rightarrow> string"

definition str_bytes :: "string \<Rightarrow> bytes" where
  "str_bytes s = map (\<lambda>c. word_of_nat (of_char c)) s"

definition bytes_str :: "bytes \<Rightarrow> string" where
  "bytes_str b = map (\<lambda>x. char_of (unat x)) b"

definition TrimPrefix :: "string \<Rightarrow> string \<Rightarrow> string" where
  "TrimPrefix s p = (if take (length p) s = p then drop (length p) s else s)"

text \<open>Percent-decoding of a path: \<open>None\<close> where an escape is malformed, which \<^verbatim>\<open>net/http\<close> refuses before any handler runs. \<open>r_Path\<close> is \<^verbatim>\<open>r.URL.Path\<close>.\<close>

definition hex :: "char \<Rightarrow> nat option" where
  "hex c = (let n = of_char c :: nat in
     if 48 \<le> n \<and> n \<le> 57 then Some (n - 48) else if 65 \<le> n \<and> n \<le> 70 then Some (n - 55) else if 97 \<le> n \<and> n \<le> 102 then Some (n - 87) else None)"

fun unescape :: "string \<Rightarrow> string option" where
  "unescape [] = Some []"
| "unescape (c # cs) =
     (if c = CHR ''%'' then
        (case cs of
           a # b # ds \<Rightarrow> (case (hex a, hex b) of
               (Some x, Some y) \<Rightarrow> map_option ((#) (char_of (16 * x + y))) (unescape ds)
             | _ \<Rightarrow> None)
         | _ \<Rightarrow> None)
      else map_option ((#) c) (unescape cs))"

definition pathUnescape :: "string \<Rightarrow> string" where
  "pathUnescape s = (case unescape s of Some p \<Rightarrow> p | None \<Rightarrow> s)"

definition r_Path :: "Request \<Rightarrow> string" where
  "r_Path r = pathUnescape (r_EscapedPath r)"

text \<open>\<^verbatim>\<open>query.Get\<close>: the first value of a parameter, or the empty string.\<close>

definition query_Get :: "string \<Rightarrow> Request \<Rightarrow> string" where
  "query_Get k r = (case map_of (r_Query r) k of None \<Rightarrow> '''' | Some v \<Rightarrow> v)"

text \<open>\<^verbatim>\<open>strconv.Atoi\<close>: an optional sign and decimal digits, within the range of a 64-bit int.\<close>

definition digit :: "char \<Rightarrow> int option" where
  "digit c = (let n = of_char c :: int in if 48 \<le> n \<and> n \<le> 57 then Some (n - 48) else None)"

fun digits :: "int \<Rightarrow> string \<Rightarrow> int option" where
  "digits acc [] = Some acc"
| "digits acc (c # cs) = (case digit c of None \<Rightarrow> None | Some d \<Rightarrow> digits (10 * acc + d) cs)"

definition Atoi :: "string \<Rightarrow> int option" where
  "Atoi s =
     (let neg = (take 1 s = ''-''); body = (if take 1 s = ''-'' \<or> take 1 s = ''+'' then drop 1 s else s) in
      if body = [] then None
      else (case digits 0 body of
          None \<Rightarrow> None
        | Some n \<Rightarrow> (let v = (if neg then - n else n) in if - (2 ^ 63) \<le> v \<and> v < 2 ^ 63 then Some v else None)))"

section \<open>Handlers\<close>

text \<open>What a handler makes of the outcome of a call on the index.\<close>

definition answer :: "'t Tree \<Rightarrow> 'a res \<times> 't \<Rightarrow> ('a \<Rightarrow> Response) \<Rightarrow> Response \<times> 't" where
  "answer T out f = (case out of
      (Ok x, t) \<Rightarrow> (f x, t)
    | (Err e, t) \<Rightarrow> (ErrResp 400 (t_msg T e), t)
    | (Panic p, t) \<Rightarrow> (Closed, t)
    | (Blocked, t) \<Rightarrow> (NoAnswer, t))"

definition http_getKey :: "'t Tree \<Rightarrow> Request \<Rightarrow> 't \<Rightarrow> Response \<times> 't" where
  "http_getKey T r t =
     (if r_Method r \<noteq> MethodGet then (ErrResp 405 ''method not allowed'', t)
      else (let key = TrimPrefix (r_Path r) ''/kv/'' in
        if key = '''' \<or> CHR ''/'' \<in> set key then (ErrResp 400 ''invalid key in path'', t)
        else answer T (t_Get T (str_bytes key) t) (\<lambda>val. KVResp 200 \<lparr>kv_Key = key, kv_Val = bytes_str val\<rparr>)))"

definition http_getRange :: "'t Tree \<Rightarrow> Request \<Rightarrow> 't \<Rightarrow> Response \<times> 't" where
  "http_getRange T r t =
     (if r_Method r \<noteq> MethodGet then (ErrResp 405 ''method not allowed'', t)
      else (let start = query_Get ''start'' r; stop = query_Get ''end'' r; limitStr = query_Get ''limit'' r in
        if start = '''' then (ErrResp 400 ''invalid start query parameter'', t)
        else (case (if limitStr = '''' then Some 10 else Atoi limitStr) of
            None \<Rightarrow> (TextError 400 ''invalid limit parameter'', t)
          | Some limit \<Rightarrow>
              answer T (t_RangeSearch T (str_bytes start) (str_bytes stop) (word_of_int limit) t) (\<lambda>results.
                RangeRes 200 ''success'' (length results) (map (\<lambda>(k, v). \<lparr>kv_Key = bytes_str k, kv_Val = bytes_str v\<rparr>) results)))))"

text \<open>\<^verbatim>\<open>addKey\<close> ignores what \<^verbatim>\<open>InsertValue\<close> returns.\<close>

definition http_addKey :: "'t Tree \<Rightarrow> Request \<Rightarrow> 't \<Rightarrow> Response \<times> 't" where
  "http_addKey T r t =
     (if r_Method r \<noteq> MethodPut then (ErrResp 405 ''method not allowed'', t)
      else if r_Done r then (ErrResp 408 ''request cancelled'', t)
      else (case r_Body r of
          Inl e \<Rightarrow> (ErrResp 400 (''invalid JSON: '' @ e), t)
        | Inr payload \<Rightarrow>
            if kv_Key payload = '''' then (ErrResp 400 ''key is required'', t)
            else (case t_InsertValue T (str_bytes (kv_Key payload)) (str_bytes (kv_Val payload)) t of
                (Ok _, t) \<Rightarrow> (KVResp 200 payload, t)
              | (Err _, t) \<Rightarrow> (KVResp 200 payload, t)
              | (Panic p, t) \<Rightarrow> (Closed, t)
              | (Blocked, t) \<Rightarrow> (NoAnswer, t))))"

definition http_removeKey :: "'t Tree \<Rightarrow> Request \<Rightarrow> 't \<Rightarrow> Response \<times> 't" where
  "http_removeKey T r t =
     (if r_Method r \<noteq> MethodDelete then (ErrResp 405 ''method not allowed'', t)
      else (let key = TrimPrefix (r_Path r) ''/kv/remove/'' in
        if key = '''' \<or> CHR ''/'' \<in> set key then (ErrResp 400 ''invalid key in path'', t)
        else answer T (t_DeleteValue T (str_bytes key) t) (\<lambda>del. DelResp 200 ''success'' del)))"

text \<open>\<^verbatim>\<open>setKey\<close>, which no route uses, does not return after an error: it sends a second answer.\<close>

definition http_setKey :: "'t Tree \<Rightarrow> Request \<Rightarrow> 't \<Rightarrow> Response list \<times> 't" where
  "http_setKey T r t =
     (if r_Method r \<noteq> MethodGet then ([ErrResp 405 ''method not allowed''], t)
      else (let key = TrimPrefix (r_Path r) ''/kv/'' in
        if key = '''' \<or> CHR ''/'' \<in> set key then ([ErrResp 400 ''invalid key in path''], t)
        else (case t_Get T (str_bytes key) t of
            (Ok val, t) \<Rightarrow> ([KVResp 200 \<lparr>kv_Key = key, kv_Val = bytes_str val\<rparr>], t)
          | (Err e, t) \<Rightarrow> ([ErrResp 400 (t_msg T e), KVResp 200 \<lparr>kv_Key = key, kv_Val = ''''\<rparr>], t)
          | (Panic p, t) \<Rightarrow> ([Closed], t)
          | (Blocked, t) \<Rightarrow> ([], t))))"

section \<open>Routes\<close>

text \<open>\<^verbatim>\<open>http.ServeMux\<close> works on the path as it was sent: one with an empty, \<open>.\<close> or \<open>..\<close> element is redirected to its clean form. Then it decodes the elements one by one: the
  pattern with the longest run of elements has the request, and \<open>/kv/remove\<close> is redirected to the registered subtree. An escaped dot or slash is neither cleaned nor a separator.\<close>

fun split_path :: "string \<Rightarrow> string list" where
  "split_path [] = [[]]"
| "split_path (c # cs) = (if c = CHR ''/'' then [] # split_path cs else (case split_path cs of [] \<Rightarrow> [[c]] | p # ps \<Rightarrow> (c # p) # ps))"

text \<open>The elements after the leading slash; only the last one may be empty.\<close>

definition clean_path :: "string \<Rightarrow> bool" where
  "clean_path p \<longleftrightarrow> take 1 p = ''/'' \<and> (let els = split_path (drop 1 p) in '''' \<notin> set (butlast els) \<and> ''.'' \<notin> set els \<and> ''..'' \<notin> set els)"

definition elements :: "Request \<Rightarrow> string list" where
  "elements r = map pathUnescape (split_path (drop 1 (r_EscapedPath r)))"

definition well_formed :: "Request \<Rightarrow> bool" where
  "well_formed r \<longleftrightarrow> unescape (r_EscapedPath r) \<noteq> None"

definition serve :: "'t Tree \<Rightarrow> Request \<Rightarrow> 't \<Rightarrow> Response \<times> 't" where
  "serve T r t =
     (let els = elements r in
      if \<not> well_formed r then (TextError 400 ''400 Bad Request'', t)
      else if \<not> clean_path (r_EscapedPath r) then (Redirect, t)
      else if els = [''kv'', ''remove''] then (Redirect, t)
      else if els = [''kv'', ''range''] then http_getRange T r t
      else if take 2 els = [''kv'', ''remove''] then http_removeKey T r t
      else if els = [''kv''] then http_addKey T r t
      else if take 1 els = [''kv''] then http_getKey T r t
      else (Hello, t))"

definition served :: "'t Tree \<Rightarrow> Request list \<Rightarrow> 't \<Rightarrow> 't" where
  "served T rs t = fold (\<lambda>r t. snd (serve T r t)) rs t"

section \<open>What the server promises\<close>

text \<open>The keys that a GET of the key can reach: those the routes do not give to another handler.\<close>

definition readable :: "string \<Rightarrow> bool" where
  "readable k \<longleftrightarrow> k \<noteq> '''' \<and> CHR ''/'' \<notin> set k \<and> k \<noteq> ''range'' \<and> k \<noteq> ''remove''"

text \<open>A spelling of a key in a path, which must not be a bare \<open>.\<close> or \<open>..\<close>; \<open>escape\<close> is one for every key.\<close>

definition encodes :: "string \<Rightarrow> string \<Rightarrow> bool" where
  "encodes e k \<longleftrightarrow> unescape e = Some k \<and> e \<noteq> ''.'' \<and> e \<noteq> ''..''"

definition hex_digit :: "nat \<Rightarrow> char" where
  "hex_digit n = char_of (if n < 10 then n + 48 else n + 55)"

definition escape :: "string \<Rightarrow> string" where
  "escape k = concat (map (\<lambda>c. [CHR ''%'', hex_digit (of_char c div 16), hex_digit (of_char c mod 16)]) k)"

definition get_request :: "string \<Rightarrow> Request" where
  "get_request e = \<lparr>r_Method = MethodGet, r_EscapedPath = ''/kv/'' @ e, r_Query = [], r_Done = False, r_Body = Inl ''EOF''\<rparr>"

definition put_request :: "string \<Rightarrow> string \<Rightarrow> Request" where
  "put_request k v = \<lparr>r_Method = MethodPut, r_EscapedPath = ''/kv'', r_Query = [], r_Done = False, r_Body = Inr \<lparr>kv_Key = k, kv_Val = v\<rparr>\<rparr>"

text \<open>What a request means for the map the server keeps, over an index that stores the entries \<open>acc\<close> accepts.\<close>

definition request_effect :: "(bytes \<Rightarrow> bytes \<Rightarrow> bool) \<Rightarrow> Request \<Rightarrow> (bytes \<rightharpoonup> bytes) \<Rightarrow> bytes \<rightharpoonup> bytes" where
  "request_effect acc r m =
     (if \<not> well_formed r \<or> \<not> clean_path (r_EscapedPath r) then m
      else if r_Method r = MethodPut \<and> elements r = [''kv''] then
        (case r_Body r of
           Inr kv \<Rightarrow> if \<not> r_Done r \<and> kv_Key kv \<noteq> '''' \<and> acc (str_bytes (kv_Key kv)) (str_bytes (kv_Val kv))
             then m(str_bytes (kv_Key kv) \<mapsto> str_bytes (kv_Val kv)) else m
         | Inl _ \<Rightarrow> m)
      else if r_Method r = MethodDelete \<and> length (elements r) = 3 \<and> take 2 (elements r) = [''kv'', ''remove'']
          \<and> elements r ! 2 \<noteq> '''' \<and> CHR ''/'' \<notin> set (elements r ! 2)
        then m(str_bytes (elements r ! 2) := None)
      else m)"

text \<open>The index keeps a map: what the handlers rely on. Insertion stores the entries that \<open>acc\<close> accepts and leaves the map alone otherwise; insertion and deletion may return or fail
  as they like. A lookup finds what is stored and fails for other keys, and neither it nor a range search changes the map.\<close>

definition index_keeps :: "'t Tree \<Rightarrow> ('t \<Rightarrow> bytes \<rightharpoonup> bytes) \<Rightarrow> (bytes \<Rightarrow> bytes \<Rightarrow> bool) \<Rightarrow> bool" where
  "index_keeps T rep acc \<longleftrightarrow>
     (\<forall>k v t. rep (snd (t_InsertValue T k v t)) = (if acc k v then (rep t)(k \<mapsto> v) else rep t)) \<and>
     (\<forall>k t. rep (snd (t_DeleteValue T k t)) = (rep t)(k := None)) \<and>
     (\<forall>k t. rep (snd (t_Get T k t)) = rep t) \<and>
     (\<forall>k t. case rep t k of Some v \<Rightarrow> fst (t_Get T k t) = Ok v | None \<Rightarrow> (\<exists>e. fst (t_Get T k t) = Err e)) \<and>
     (\<forall>a b n t. rep (snd (t_RangeSearch T a b n t)) = rep t)"

lemma index_keeps_insert: "index_keeps T rep acc \<Longrightarrow> rep (snd (t_InsertValue T k v t)) = (if acc k v then (rep t)(k \<mapsto> v) else rep t)"
  by (simp add: index_keeps_def)

lemma index_keeps_delete: "index_keeps T rep acc \<Longrightarrow> rep (snd (t_DeleteValue T k t)) = (rep t)(k := None)"
  by (simp add: index_keeps_def)

lemma index_keeps_get: "index_keeps T rep acc \<Longrightarrow> rep (snd (t_Get T k t)) = rep t"
  by (simp add: index_keeps_def)

lemma index_keeps_answer: "index_keeps T rep acc \<Longrightarrow> case rep t k of Some v \<Rightarrow> fst (t_Get T k t) = Ok v | None \<Rightarrow> (\<exists>e. fst (t_Get T k t) = Err e)"
  unfolding index_keeps_def by (elim conjE allE)

lemma index_keeps_range: "index_keeps T rep acc \<Longrightarrow> rep (snd (t_RangeSearch T a b n t)) = rep t"
  by (simp add: index_keeps_def)

lemma bytes_str_bytes [simp]: "bytes_str (str_bytes s) = s"
  by (induction s) (auto simp: bytes_str_def str_bytes_def unat_of_nat)

lemma answer_state [simp]: "snd (answer T out f) = snd out"
  by (cases out; cases "fst out") (auto simp: answer_def)

lemma answer_ok: "fst out = Ok x \<Longrightarrow> fst (answer T out f) = f x"
  by (cases out) (simp add: answer_def)

lemma answer_err: "fst out = Err e \<Longrightarrow> fst (answer T out f) = ErrResp 400 (t_msg T e)"
  by (cases out) (simp add: answer_def)

lemma answer_KVResp: "fst (answer T out f) = KVResp n kv \<Longrightarrow> \<exists>x. f x = KVResp n kv"
  by (cases out; cases "fst out") (auto simp: answer_def)

section \<open>Paths and their elements\<close>

lemma split_path_one: "CHR ''/'' \<notin> set k \<Longrightarrow> split_path k = [k]"
  by (induction k) auto

lemma split_path_append: "CHR ''/'' \<notin> set a \<Longrightarrow> split_path (a @ CHR ''/'' # k) = a # split_path k"
  by (induction a) auto

lemma split_path_ne [simp]: "split_path s \<noteq> []"
  by (induction s) (auto split: list.split)

lemma hex_slash [simp]: "hex (CHR ''/'') = None"
  by (simp add: hex_def)

lemma unescape_slash: "unescape (a @ CHR ''/'' # b) = (case (unescape a, unescape b) of (Some x, Some y) \<Rightarrow> Some (x @ CHR ''/'' # y) | _ \<Rightarrow> None)"
proof (induction a rule: unescape.induct)
  case 1
  then show ?case by (cases "unescape b") simp_all
next
  case (2 c cs)
  show ?case
  proof (cases "c = CHR ''%''")
    case True
    consider "cs = []" | x where "cs = [x]" | x y ds where "cs = x # y # ds" by (cases cs rule: remdups_adj.cases) auto
    then show ?thesis
    proof cases
      case (3 x y ds)
      then show ?thesis using 2(1) [OF True 3] True by (cases "hex x"; cases "hex y") (simp_all split: option.split)
    qed (use True in \<open>simp_all split: option.split list.split\<close>)
  next
    case False
    then show ?thesis using 2(2) by (auto split: option.splits)
  qed
qed

fun join_path :: "string list \<Rightarrow> string" where
  "join_path [] = []"
| "join_path [x] = x"
| "join_path (x # y # zs) = x @ CHR ''/'' # join_path (y # zs)"

lemma join_path_Cons: "zs \<noteq> [] \<Longrightarrow> join_path (x # zs) = x @ CHR ''/'' # join_path zs"
  by (cases zs) simp_all

text \<open>The decoded path is made of the decoded elements.\<close>

lemma unescape_elements: "unescape s = Some p \<Longrightarrow> p = join_path (map pathUnescape (split_path s))"
proof (induction "length s" arbitrary: s p rule: less_induct)
  case less
  show ?case
  proof (cases "CHR ''/'' \<in> set s")
    case False
    then show ?thesis using less.prems by (simp add: split_path_one pathUnescape_def)
  next
    case True
    then obtain a b where ab: "s = a @ CHR ''/'' # b" "CHR ''/'' \<notin> set a" using split_list_first by fastforce
    then obtain x y where xy: "unescape a = Some x" "unescape b = Some y" "p = x @ CHR ''/'' # y"
      using less.prems by (auto simp: unescape_slash split: option.splits)
    have "y = join_path (map pathUnescape (split_path b))" using less.hyps [of b y] ab(1) xy(2) by simp
    then show ?thesis using ab xy by (simp add: split_path_append join_path_Cons pathUnescape_def)
  qed
qed

lemma path_elements:
  assumes "well_formed r" "clean_path (r_EscapedPath r)"
  shows "r_Path r = CHR ''/'' # join_path (elements r)" "elements r \<noteq> []"
proof -
  obtain q where q: "r_EscapedPath r = CHR ''/'' # q"
    using assms(2) by (cases "r_EscapedPath r") (auto simp: clean_path_def)
  obtain p where "unescape q = Some p" using assms(1) unescape_slash [of "[]" q] by (auto simp: well_formed_def q)
  with unescape_elements [of q] show "r_Path r = CHR ''/'' # join_path (elements r)"
    by (simp add: r_Path_def pathUnescape_def elements_def q)
qed (simp add: elements_def)

lemma trim_prefix_append [simp]: "TrimPrefix (p @ s) p = s"
  by (simp add: TrimPrefix_def)

text \<open>The key of a path: the elements below the route.\<close>

lemma route_key:
  assumes "well_formed r" "clean_path (r_EscapedPath r)"
  shows "take 1 (elements r) = [''kv''] \<Longrightarrow> elements r \<noteq> [''kv''] \<Longrightarrow> TrimPrefix (r_Path r) ''/kv/'' = join_path (drop 1 (elements r))"
    "take 2 (elements r) = [''kv'', ''remove''] \<Longrightarrow> elements r \<noteq> [''kv'', ''remove''] \<Longrightarrow> TrimPrefix (r_Path r) ''/kv/remove/'' = join_path (drop 2 (elements r))"
proof -
  note p = path_elements(1) [OF assms]
  show "TrimPrefix (r_Path r) ''/kv/'' = join_path (drop 1 (elements r))" if a: "take 1 (elements r) = [''kv'']" "elements r \<noteq> [''kv'']"
  proof -
    obtain ys where ys: "elements r = ''kv'' # ys" "ys \<noteq> []" using a by (cases "elements r") auto
    have "r_Path r = ''/kv/'' @ join_path ys" unfolding p ys(1) join_path_Cons [OF ys(2)] by simp
    then show ?thesis using ys(1) by (simp add: TrimPrefix_def)
  qed
  show "TrimPrefix (r_Path r) ''/kv/remove/'' = join_path (drop 2 (elements r))"
    if a: "take 2 (elements r) = [''kv'', ''remove'']" "elements r \<noteq> [''kv'', ''remove'']"
  proof -
    have "elements r = [''kv'', ''remove''] @ drop 2 (elements r)" using a(1) append_take_drop_id [of 2 "elements r"] by metis
    then obtain ys where ys: "elements r = ''kv'' # ''remove'' # ys" by simp
    then have ne: "ys \<noteq> []" using a(2) by auto
    have "r_Path r = ''/kv/remove/'' @ join_path ys" unfolding p ys join_path_Cons [OF ne] join_path.simps(3) by simp
    then show ?thesis using ys by (simp add: TrimPrefix_def)
  qed
qed

text \<open>A key without a slash is one element.\<close>

lemma join_single: "CHR ''/'' \<notin> set (join_path xs) \<Longrightarrow> xs \<noteq> [] \<Longrightarrow> xs = [join_path xs]"
  by (cases xs rule: join_path.cases) auto

section \<open>Keys\<close>

lemma hex_digit_hex: "n < 16 \<Longrightarrow> hex (hex_digit n) = Some n"
  by (auto simp: hex_def hex_digit_def Let_def)

lemma unescape_escape: "unescape (escape k) = Some k"
proof (induction k)
  case (Cons c k)
  have "(of_char c :: nat) div 16 < 16" using nat_of_char_less_256 [of c] by linarith
  then have "hex (hex_digit (of_char c div 16)) = Some (of_char c div 16)" "hex (hex_digit (of_char c mod 16)) = Some (of_char c mod 16)"
    by (simp_all add: hex_digit_hex)
  then show ?case using Cons by (simp add: escape_def)
qed (simp add: escape_def)

text \<open>Every key can be spelled in a path.\<close>

lemma escape_encodes: "encodes (escape k) k"
proof -
  have "escape k \<noteq> ''.''" "escape k \<noteq> ''..''" by (cases k; simp add: escape_def)+
  then show ?thesis by (simp add: encodes_def unescape_escape)
qed

lemma unescape_no_slash: "unescape e = Some k \<Longrightarrow> CHR ''/'' \<notin> set k \<Longrightarrow> CHR ''/'' \<notin> set e"
  by (auto simp: in_set_conv_decomp [of _ e] unescape_slash split: option.splits)

lemma key_request:
  assumes "encodes e k" "readable k"
  shows "well_formed (get_request e)" "clean_path (r_EscapedPath (get_request e))" "elements (get_request e) = [''kv'', k]"
proof -
  have u: "unescape e = Some k" "CHR ''/'' \<notin> set k" "e \<noteq> ''.''" "e \<noteq> ''..''" using assms by (auto simp: encodes_def readable_def)
  have s: "split_path (''kv/'' @ e) = [''kv'', e]"
    using split_path_append [of "''kv''" e] split_path_one [OF unescape_no_slash [OF u(1,2)]] by simp
  have p: "pathUnescape ''kv'' = ''kv''" "pathUnescape e = k" using u(1) by (simp_all add: pathUnescape_def)
  show "well_formed (get_request e)" using u(1) by (simp add: well_formed_def get_request_def)
  show "clean_path (r_EscapedPath (get_request e))" using s u(3,4) by (simp add: clean_path_def get_request_def)
  show "elements (get_request e) = [''kv'', k]" using s p by (simp add: elements_def get_request_def)
qed

lemma serve_key:
  assumes "encodes e k" "readable k"
  shows "serve T (get_request e) t = answer T (t_Get T (str_bytes k) t) (\<lambda>val. KVResp 200 \<lparr>kv_Key = k, kv_Val = bytes_str val\<rparr>)"
proof -
  note r = key_request [OF assms]
  have key: "TrimPrefix (r_Path (get_request e)) ''/kv/'' = k" using route_key(1) [OF r(1,2)] r(3) by simp
  have k: "k \<noteq> ''''" "CHR ''/'' \<notin> set k" "k \<noteq> ''range''" "k \<noteq> ''remove''" using assms(2) by (auto simp: readable_def)
  have "serve T (get_request e) t = http_getKey T (get_request e) t" using r k(3,4) by (simp add: serve_def)
  then show ?thesis using key k(1,2) by (simp add: http_getKey_def get_request_def)
qed

text \<open>No answer to a GET has one of the other keys as its key.\<close>

lemma unreadable_key:
  assumes "r_Method r = MethodGet" "fst (serve T r t) = KVResp n \<lparr>kv_Key = k, kv_Val = v\<rparr>"
  shows "readable k"
proof -
  have rg: "fst (http_getRange T r t) \<noteq> KVResp n kv" for kv
    by (auto simp: http_getRange_def Let_def split: option.split dest: answer_KVResp)
  have el: "well_formed r" "clean_path (r_EscapedPath r)" "take 1 (elements r) = [''kv'']" "elements r \<noteq> [''kv'']"
      "elements r \<noteq> [''kv'', ''remove'']" "elements r \<noteq> [''kv'', ''range'']" and g: "fst (http_getKey T r t) = KVResp n \<lparr>kv_Key = k, kv_Val = v\<rparr>"
    using assms rg by (auto simp: serve_def Let_def http_removeKey_def http_addKey_def split: if_splits)
  note key = route_key(1) [OF el(1-4)]
  have k: "k = join_path (drop 1 (elements r))" "k \<noteq> ''''" "CHR ''/'' \<notin> set k"
    using g key by (auto simp: http_getKey_def Let_def split: if_splits dest!: answer_KVResp)
  have "drop 1 (elements r) \<noteq> []" using k(1,2) by auto
  then have "drop 1 (elements r) = [k]" using join_single k(1,3) by metis
  moreover have "elements r = [''kv''] @ drop 1 (elements r)" using el(3) append_take_drop_id by metis
  ultimately have "elements r = [''kv'', k]" by simp
  then show ?thesis using el(5,6) k(2,3) by (auto simp: readable_def)
qed

section \<open>The map\<close>

lemma getKey_keeps: "index_keeps T rep acc \<Longrightarrow> rep (snd (http_getKey T r t)) = rep t"
  by (simp add: http_getKey_def Let_def index_keeps_get)

lemma getRange_keeps: "index_keeps T rep acc \<Longrightarrow> rep (snd (http_getRange T r t)) = rep t"
  by (simp add: http_getRange_def Let_def index_keeps_range split: option.split)

lemma addKey_state:
  "snd (http_addKey T r t) = (case r_Body r of
      Inr kv \<Rightarrow> if r_Method r = MethodPut \<and> \<not> r_Done r \<and> kv_Key kv \<noteq> '''' then snd (t_InsertValue T (str_bytes (kv_Key kv)) (str_bytes (kv_Val kv)) t) else t
    | Inl _ \<Rightarrow> t)"
  by (auto simp: http_addKey_def split: sum.split prod.split res.split)

lemma addKey_effect:
  assumes "index_keeps T rep acc" "well_formed r" "clean_path (r_EscapedPath r)" "elements r = [''kv'']"
  shows "rep (snd (http_addKey T r t)) = request_effect acc r (rep t)"
  using assms(2-4) index_keeps_insert [OF assms(1)] by (auto simp: addKey_state request_effect_def split: sum.split)

lemma removeKey_effect:
  assumes "index_keeps T rep acc" "well_formed r" "clean_path (r_EscapedPath r)" "take 2 (elements r) = [''kv'', ''remove'']" "elements r \<noteq> [''kv'', ''remove'']"
  shows "rep (snd (http_removeKey T r t)) = request_effect acc r (rep t)"
proof -
  let ?ys = "drop 2 (elements r)"
  have els: "elements r = ''kv'' # ''remove'' # ?ys" using assms(4) append_take_drop_id [of 2 "elements r"] by simp
  have ne: "?ys \<noteq> []" using assms(4,5) by auto
  have key: "TrimPrefix (r_Path r) ''/kv/remove/'' = join_path ?ys" by (rule route_key(2) [OF assms(2-5)])
  have one: "CHR ''/'' \<notin> set (join_path ?ys) \<longleftrightarrow> (\<exists>x. ?ys = [x] \<and> CHR ''/'' \<notin> set x)"
    using join_single ne by fastforce
  show ?thesis
  proof (cases "\<exists>x. ?ys = [x] \<and> CHR ''/'' \<notin> set x")
    case True
    then obtain x where x: "?ys = [x]" "CHR ''/'' \<notin> set x" by blast
    have "elements r = [''kv'', ''remove'', x]" using els x(1) by metis
    then show ?thesis using assms(2,3) key x index_keeps_delete [OF assms(1)] by (auto simp: http_removeKey_def Let_def request_effect_def)
  next
    case False
    have "\<not> (length (elements r) = 3 \<and> CHR ''/'' \<notin> set (elements r ! 2))"
    proof
      assume a: "length (elements r) = 3 \<and> CHR ''/'' \<notin> set (elements r ! 2)"
      then have "?ys = [elements r ! 2]" by (simp add: list_eq_iff_nth_eq)
      then show False using False a by blast
    qed
    then show ?thesis using one False key assms(4) by (auto simp: http_removeKey_def Let_def request_effect_def)
  qed
qed

lemma other_effect:
  "elements r \<noteq> [''kv''] \<Longrightarrow> take 2 (elements r) \<noteq> [''kv'', ''remove''] \<Longrightarrow> request_effect acc r m = m" "elements r = [''kv'', ''remove''] \<Longrightarrow> request_effect acc r m = m"
  by (simp_all add: request_effect_def)

lemma serve_effect:
  assumes "index_keeps T rep acc"
  shows "rep (snd (serve T r t)) = request_effect acc r (rep t)"
proof (cases "well_formed r \<and> clean_path (r_EscapedPath r)")
  case False
  then show ?thesis by (auto simp: serve_def Let_def request_effect_def)
next
  case True
  consider "elements r = [''kv'', ''remove'']" | "take 2 (elements r) = [''kv'', ''remove'']" "elements r \<noteq> [''kv'', ''remove'']"
    | "elements r = [''kv'']" | "elements r \<noteq> [''kv'']" "take 2 (elements r) \<noteq> [''kv'', ''remove'']" by blast
  then show ?thesis
  proof cases
    case 1
    then show ?thesis using True other_effect(2) [OF 1] by (simp add: serve_def)
  next
    case 2
    have "elements r \<noteq> [''kv'', ''range'']" using 2(1) by auto
    then have "serve T r t = http_removeKey T r t" using True 2 by (simp add: serve_def)
    then show ?thesis using removeKey_effect [OF assms _ _ 2] True by simp
  next
    case 3
    then show ?thesis using True addKey_effect [OF assms _ _ 3] by (simp add: serve_def)
  next
    case 4
    then show ?thesis
      using other_effect(1) [OF 4] by (auto simp: serve_def Let_def getKey_keeps [OF assms] getRange_keeps [OF assms])
  qed
qed

lemma served_effect: "index_keeps T rep acc \<Longrightarrow> rep (served T rs t) = fold (request_effect acc) rs (rep t)"
  unfolding served_def by (induction rs arbitrary: t) (simp_all add: serve_effect)

text \<open>C38. Over an index that keeps a map, the server keeps the map its requests describe, whatever they are. After any requests, a GET of a key, in any spelling other than a bare
  \<open>.\<close> or \<open>..\<close>, is answered with its value, or with status 400 when it has none, if the key is not empty, has no slash and is not \<open>range\<close> or \<open>remove\<close>; every such key has a
  spelling. The other keys can be stored, but no GET at all is answered with one of them as its key: only the results of a range search can show them.\<close>

theorem http_serves_map:
  assumes "index_keeps T rep acc"
  shows "rep (served T rs t) = fold (request_effect acc) rs (rep t) \<and>
    (readable k \<longrightarrow> (\<exists>e. encodes e k) \<and> (\<forall>e. encodes e k \<longrightarrow> (case fold (request_effect acc) rs (rep t) (str_bytes k) of
        Some v \<Rightarrow> fst (serve T (get_request e) (served T rs t)) = KVResp 200 \<lparr>kv_Key = k, kv_Val = bytes_str v\<rparr>
      | None \<Rightarrow> (\<exists>msg. fst (serve T (get_request e) (served T rs t)) = ErrResp 400 msg)))) \<and>
    (\<not> readable k \<longrightarrow> (\<forall>r n v. r_Method r = MethodGet \<longrightarrow> fst (serve T r (served T rs t)) \<noteq> KVResp n \<lparr>kv_Key = k, kv_Val = v\<rparr>))"
proof (intro conjI impI allI)
  show m: "rep (served T rs t) = fold (request_effect acc) rs (rep t)" by (rule served_effect [OF assms])
  show "\<exists>e. encodes e k" using escape_encodes by blast
  fix e assume k: "readable k" "encodes e k"
  note s = serve_key [OF k(2,1), of T "served T rs t"]
  show "case fold (request_effect acc) rs (rep t) (str_bytes k) of
        Some v \<Rightarrow> fst (serve T (get_request e) (served T rs t)) = KVResp 200 \<lparr>kv_Key = k, kv_Val = bytes_str v\<rparr>
      | None \<Rightarrow> (\<exists>msg. fst (serve T (get_request e) (served T rs t)) = ErrResp 400 msg)"
    using index_keeps_answer [OF assms, of "str_bytes k" "served T rs t"] unfolding s m
    by (auto split: option.splits simp: answer_ok answer_err)
next
  fix r :: Request and n v assume "\<not> readable k" "r_Method r = MethodGet"
  then show "fst (serve T r (served T rs t)) \<noteq> KVResp n \<lparr>kv_Key = k, kv_Val = v\<rparr>" using unreadable_key [of r T "served T rs t" n k v] by blast
qed

definition map_tree :: "(bytes \<Rightarrow> bytes option) Tree" where
  "map_tree = \<lparr>
     t_Get = (\<lambda>k m. (case m k of Some v \<Rightarrow> Ok v | None \<Rightarrow> Err (BTreeError ''not found''), m)),
     t_RangeSearch = (\<lambda>a b n m. (Ok [], m)),
     t_InsertValue = (\<lambda>k v m. if length k + length v < 100 then (Ok True, m(k \<mapsto> v)) else (Err (BTreeError ''too large''), m)),
     t_DeleteValue = (\<lambda>k m. if m k = None then (Err (BTreeError ''not found''), m) else (Ok True, m(k := None))),
     t_msg = (\<lambda>_. ''key not found'')\<rparr>"

lemma map_tree_keeps: "index_keeps map_tree (\<lambda>m. m) (\<lambda>k v. length k + length v < 100)"
  by (auto simp: index_keeps_def map_tree_def split: option.split)

lemma http_serves_map_witness:
  "readable ''.'' \<and> encodes ''%2e'' ''.'' \<and>
   fst (serve map_tree (get_request ''%2e'') (served map_tree [put_request ''.'' ''x'', put_request ''range'' ''y''] Map.empty)) = KVResp 200 \<lparr>kv_Key = ''.'', kv_Val = ''x''\<rparr>"
proof (intro conjI)
  show r: "readable ''.''" by code_simp
  show e: "encodes ''%2e'' ''.''" by code_simp
  have w: "well_formed (put_request k v)" "clean_path (r_EscapedPath (put_request k v))" "elements (put_request k v) = [''kv'']" for k v
    by (simp_all add: well_formed_def put_request_def clean_path_def elements_def pathUnescape_def)
  have "str_bytes ''.'' \<noteq> str_bytes ''range''" by code_simp
  then have "fold (request_effect (\<lambda>k v. length k + length v < 100)) [put_request ''.'' ''x'', put_request ''range'' ''y''] Map.empty (str_bytes ''.'') = Some (str_bytes ''x'')"
    using w by (simp add: request_effect_def) (simp add: put_request_def str_bytes_def)
  from this r e show "fst (serve map_tree (get_request ''%2e'') (served map_tree [put_request ''.'' ''x'', put_request ''range'' ''y''] Map.empty)) = KVResp 200 \<lparr>kv_Key = ''.'', kv_Val = ''x''\<rparr>"
    using http_serves_map [OF map_tree_keeps, of "[put_request ''.'' ''x'', put_request ''range'' ''y'']" Map.empty "''.''"] by auto
qed

end
