(* ===== verification/Spec2Isabelle.thy ===== *)
theory Spec2Isabelle
  imports BtreeDeleteProps RecoveryProps BufferManagerProps Logger Server
begin

text \<open>
  A verification library for Baobab, a key-value store in Go.

  \<^bold>\<open>The program.\<close> An HTTP server (\<^verbatim>\<open>src/main.go\<close>) puts, gets, scans and removes keys of an index. The index is a B+ tree of order 4
  (\<^verbatim>\<open>pkg/bptree\<close>) whose nodes are 8 KiB pages. Pages live in a buffer manager (\<^verbatim>\<open>pkg/buffermanager\<close>): shards, each with a pool of frames, a
  W-TinyLFU policy over a clock and a frequency sketch (\<^verbatim>\<open>internal/tinylfu\<close>), a list of dirty pages and a background writer. A pager (\<^verbatim>\<open>pkg/pager\<close>)
  hands out page ids, keeps metadata and a free list, and turns pages into requests to the disk manager (\<^verbatim>\<open>pkg/diskmanager\<close>), which has a queue and
  goroutines for every file offset and answers on the callers' channels. Changes are logged in a write-ahead log (\<^verbatim>\<open>pkg/wal\<close>) that recovery (\<^verbatim>\<open>pkg/recovery\<close>) replays at the start. All parts write
  to a logger (\<^verbatim>\<open>pkg/logger\<close>). The B+ tree, the recovery manager and the server import packages \<^verbatim>\<open>buffer_manager\<close> and \<^verbatim>\<open>bp_tree\<close> under paths that the
  repository does not have, and call methods that \<^verbatim>\<open>pkg/buffermanager\<close> does not have; these packages are parameters of the model, with what is
  relied on of them as named hypotheses.

  \<^bold>\<open>Conventions.\<close> A Go call has an outcome of type \<open>res\<close>: a value, an error, a panic, or \<^const>\<open>Blocked\<close> for a call that waits for ever or a loop that
  has used up its fuel. State is passed explicitly, with \<open>bindS\<close> for sequencing; structs are records, fixed-width integers are words, buffers that are
  shared by pointer are addresses in a store, linked structures are nodes in a store. Files (\<open>OsFile\<close>) can fail at any call by a flag of the file. \<open>Prelude\<close> has these types,
  the little-endian codings and the order of keys (\<^verbatim>\<open>bytes.Compare\<close>).

  \<^bold>\<open>Theories and the code they model.\<close>

  \<^item> \<open>Helpers\<close>: \<^verbatim>\<open>pkg/helpers/helpers.go\<close> (searches, slice edits, flags as a locale \<open>flag_ops\<close>, LSN comparison).

  \<^item> \<open>BtStack\<close>, \<open>Btree\<close>, \<open>BtreeDelete\<close>: \<^verbatim>\<open>pkg/bptree/btstack.go\<close> and \<^verbatim>\<open>bp_tree.go\<close>, the whole of both files. The cache is a record of functions;
    \<open>BtreeCache\<close> states what is relied on (\<open>cache_ok\<close>): an ideal cache, which stores nodes of any size and never runs out of frames. \<open>BtreeSpec\<close>, \<open>BtreeSplit\<close>, \<open>BtreeInsert\<close>, \<open>BtreeCorrect\<close>, \<open>BtreeRead\<close>, \<open>BtreeDeleteOk\<close> tie
    the pages of a tree to a sorted association list; \<open>BtreeProps\<close> and \<open>BtreeDeleteProps\<close> have the properties.

  \<^item> \<open>Fifo\<close> (locale \<open>fifo_queue\<close>), \<open>Wal\<close>, \<open>WalCorrect\<close>: \<^verbatim>\<open>wal.go\<close>, \<^verbatim>\<open>wal_buffer.go\<close>, \<^verbatim>\<open>wal_writer.go\<close>, \<^verbatim>\<open>wal_reader.go\<close>. \<open>Recovery\<close>, \<open>RecoveryProps\<close>: \<^verbatim>\<open>recovery.go\<close>.

  \<^item> \<open>Disk\<close>, \<open>DiskSteps\<close>, \<open>DiskProps\<close>: \<^verbatim>\<open>diskmanager.go\<close>, with its callers and goroutines as a step relation: looking for a queue, storing a new one and adding a request are
    steps of their own, and an answer is sent in a joint step with the caller that waits for it. Writing and syncing the file for one request is one step.

  \<^item> \<open>Page\<close>, \<open>FreeList\<close>, \<open>Pager\<close>, \<open>PagerProps\<close>: \<^verbatim>\<open>page.go\<close>, \<^verbatim>\<open>freelist.go\<close>, \<^verbatim>\<open>pager.go\<close>. \<open>PageIds\<close> and \<open>PageStore\<close> are the two interfaces of
    the pager (locales \<open>page_allocator\<close> and \<open>page_store\<close>) with the pager as interpretation.

  \<^item> \<open>TinyLfu\<close>, \<open>TinyLfuProps\<close> (locale \<open>frequency_sketch\<close>): \<^verbatim>\<open>internal/tinylfu\<close>.

  \<^item> \<open>Frame\<close>, \<open>Clock\<close>, \<open>ClockProps\<close>, \<open>WTinyLfu\<close>, \<open>Shard\<close>, \<open>DirtyList\<close> (locale \<open>recency_list\<close>), \<open>BufferManager\<close>: \<^verbatim>\<open>frame.go\<close>, \<^verbatim>\<open>clock.go\<close>, \<^verbatim>\<open>wtinylfu.go\<close>, \<^verbatim>\<open>shard.go\<close>
    and \<^verbatim>\<open>bgwriter.go\<close>, \<^verbatim>\<open>p_dirty.go\<close>, \<^verbatim>\<open>buffermanager.go\<close>. \<open>PoolInv\<close>, \<open>PoolSteps\<close>, \<open>PoolEvict\<close>, \<open>PoolGet\<close>, \<open>PoolMiss\<close>, \<open>PoolNew\<close>, \<open>PoolClient\<close>, \<open>PoolBg\<close>
    prove the invariant of a pool through every operation, \<open>PoolLeak\<close> what failed requests leave behind, \<open>BufferManagerOk\<close> the shards together. \<open>PageCache\<close> is the contract
    (locale \<open>page_cache\<close>), \<open>BufferManagerProps\<close> the properties.

  \<^item> \<open>Logger\<close>: \<^verbatim>\<open>logger.go\<close> and \<^verbatim>\<open>queue.go\<close>. \<open>Server\<close>: the handlers and routes of \<^verbatim>\<open>main.go\<close>.

  \<^bold>\<open>What is shown.\<close>

  \<^item> Tree: insertion, lookup, and deletion without rebalancing (in a tree that owns page 1 and all other pages) refine a sorted association list, with the locks free again
    and the log records written. The result of a range search is given exactly: an upper key never leaves out a larger key, as its test is inverted. A deletion in an empty tree leaves a
    lock held; an example shows a redistribution that loses a key.

  \<^item> Log: along any run of records of at most 8184 bytes the length of the file is the writer's position plus eight bytes for each record added right behind an exact page
    fit; sequence numbers grow, a flush appends the records in order, and the reader reads what the writer wrote when the page end does not cut a header. A record that reaches past the next page
    end makes a later flush panic. Recovery returns on every file and replays what was logged on the first page;
    a record that crosses a later page boundary makes it panic.

  \<^item> Storage: pages, metadata and page ids survive writing and reading; in any interleaving every disk request is answered once, and callers and goroutines finish; the two limits that
    follow from 32-bit offsets and from the page count of the free list are stated exactly, as is the race of two writes of one page.

  \<^item> Buffer manager: from its creation on, it serves any client that asks for existing pages as a map from page ids to pages, through evictions,
    write-backs and passes of the background writer; a request keeps every pinned page in place, also when it fails; requests for missing pages use up the window of a new shard for good. The clock finds a
    victim whenever there is one; the sketch never counts too little; the dirty list is the list of pages by recency.

  \<^item> Logger and server: no request is lost or written twice, though two can be swapped; the server, which routes on the escaped path as \<^verbatim>\<open>net/http\<close> does, keeps the map its requests describe and
    answers a GET of every key with a path of its own.

  \<^bold>\<open>Bounds and fuel.\<close> Loops of the tree that follow page numbers take fuel; the properties ask for as much as the number of stored keys (twice that for
  deletion), which bounds the height and the number of leaves. Recovery takes fuel; as many rounds as the file has bytes are enough, since every round advances.
  Page ids are below \<open>2 ^ 19\<close>, where offsets do not wrap. A client of the buffer manager makes fewer than \<open>2 ^ 31\<close> requests and a pool has at most \<open>2 ^ 32\<close> frames,
  so that 64-bit pin counts do not wrap. The other loops terminate by their measure.

  \<^bold>\<open>Not modelled.\<close> Console output, the spinner and the formatter; the C allocation of the pool (\<^verbatim>\<open>internal/manual\<close>) and with it the closing of a pool; the zipf workload generator,
  random test data and the profiler; the command \<^verbatim>\<open>cmd/pager\<close>; starting and stopping worker goroutines and timeouts: a worker of the pager or of a shard runs its job when it is
  submitted, so the interleavings that are modelled are those of the disk manager, of the logger, and of the background writer between the requests of a client. The hash functions and the
  floating-point formulas for the sizes of the sketch and of a shard are parameters.
\<close>

end
